(* ===== verification/Prelude.thy ===== *)
theory Prelude
  imports Main "HOL-Library.Word"
begin

text \<open>
  What the components of the development share: the collections of rewrite rules the component
  theories feed, the machine-integer types the native code uses, atomic compare-and-exchange, and
  the generic lemmas on lists, cardinalities and words that the component proofs rest on.
  The last section holds the transition systems: reachable states as an inductive predicate and
  the locale of an inductive invariant, which every concurrent component interprets on its own
  step relation.
\<close>

section \<open>Collections, types and atomics\<close>

named_theorems tonio_defs \<open>definitions of the operations of a component\<close>
named_theorems inv_defs \<open>definitions of the invariants of a component\<close>

type_synonym u8 = "8 word"
type_synonym u32 = "32 word"
type_synonym usize = "64 word"
type_synonym bytes = "8 word list"
type_synonym event_id = nat
type_synonym task_id = nat

text \<open>
  \<open>AtomicT::compare_exchange(from, to).is_ok()\<close>: the new content of the cell, or \<^const>\<open>None\<close>
  when the cell does not hold \<open>from\<close> and is left alone.
\<close>

definition cas :: "'a \<Rightarrow> 'a \<Rightarrow> 'a \<Rightarrow> 'a option" where
  "cas frm to x = (if x = frm then Some to else None)"

lemma cas_eq_Some [simp]: "cas frm to x = Some y \<longleftrightarrow> x = frm \<and> y = to"
  by (auto simp: cas_def)

lemma cas_eq_None [simp]: "cas frm to x = None \<longleftrightarrow> x \<noteq> frm"
  by (simp add: cas_def)

section \<open>Lists and cardinalities\<close>

lemma dropWhile_hd_not: "dropWhile P xs = y # ys \<Longrightarrow> \<not> P y"
  using hd_dropWhile[of P xs] by auto

lemma set_dropWhile_subset: "x \<in> set (dropWhile P xs) \<Longrightarrow> x \<in> set xs"
  by (rule set_dropWhileD)

lemma in_dropWhile_if_not: "x \<in> set xs \<Longrightarrow> \<not> P x \<Longrightarrow> x \<in> set (dropWhile P xs)"
  by (induction xs) auto

lemma sorted_wrt_dropWhileI: "sorted_wrt R xs \<Longrightarrow> sorted_wrt R (dropWhile P xs)"
  by (induction xs) auto

lemma card_insert_fresh:
  assumes "finite A" "x \<notin> A" "B = insert x A"
  shows "card B = Suc (card A)" "finite B"
  using assms by auto

lemma card_remove_one:
  assumes "finite A" "x \<in> A" "B = A - {x}"
  shows "card A = Suc (card B)" "finite B"
proof -
  show "card A = Suc (card B)" unfolding assms(3) by (rule card.remove) (fact assms)+
  show "finite B" using assms by simp
qed

lemma sum_fun_upd:
  fixes f :: "'b \<Rightarrow> 'c :: comm_monoid_add"
  assumes "i < (n :: nat)"
  shows "(\<Sum>j<n. f ((g(i := x)) j)) + f (g i) = (\<Sum>j<n. f (g j)) + f x"
proof -
  have "(\<Sum>j<n. f (h j)) = f (h i) + (\<Sum>j \<in> {..<n} - {i}. f (h j))" for h
    using assms by (intro sum.remove) auto
  from this[of "g(i := x)"] this[of g] show ?thesis by (simp add: ac_simps)
qed

section \<open>Transition systems\<close>

inductive reach :: "('s \<Rightarrow> bool) \<Rightarrow> ('s \<Rightarrow> 's \<Rightarrow> bool) \<Rightarrow> 's \<Rightarrow> bool"
  for init :: "'s \<Rightarrow> bool" and step :: "'s \<Rightarrow> 's \<Rightarrow> bool" where
  start: "init s \<Longrightarrow> reach init step s"
| next_state: "reach init step s \<Longrightarrow> step s t \<Longrightarrow> reach init step t"

lemma reach_mono:
  assumes "reach init step s" and "\<And>s t. step s t \<Longrightarrow> step' s t"
  shows "reach init step' s"
  using assms(1)
  by (induction rule: reach.induct) (auto intro: reach.intros assms(2))

text \<open>
  An inductive invariant: it holds at the start and every step of a reachable state keeps it. Each
  concurrent component interprets this locale on its own \<open>init\<close>, \<open>step\<close> and invariant, and its
  properties are read off \<open>reach_inv\<close>.
\<close>

locale step_system =
  fixes init :: "'s \<Rightarrow> bool" and step :: "'s \<Rightarrow> 's \<Rightarrow> bool" and invar :: "'s \<Rightarrow> bool"
  assumes invar_init: "init s \<Longrightarrow> invar s"
    and invar_step: "step s t \<Longrightarrow> invar s \<Longrightarrow> invar t"
begin

lemma reach_inv: "reach init step s \<Longrightarrow> invar s"
  by (induction rule: reach.induct) (auto intro: invar_init invar_step)

lemma reach_step_inv: "reach init step s \<Longrightarrow> step s t \<Longrightarrow> invar t"
  using reach_inv invar_step by blast

end

end
