(* ===== verification/Permit.thy ===== *)
theory Permit
  imports Prelude
begin

text \<open>
  Permits: what \<open>Lock\<close> and \<open>Semaphore\<close> share. Both hand out a bounded number of permits, park the
  acquirers that find none on a fresh event pushed to a queue, and pass a permit on directly by
  setting the first event of the queue that is not set yet. The coroutine that acquires is the same
  in both classes (\<open>Lock.__call__\<close> and \<open>Semaphore.__call__\<close> of \<open>src/tonio/_sync.py\<close>): it calls
  \<open>acquire\<close>, suspends on the event it gets, and when cancelled withdraws by setting its own event,
  or gives the permit back when the event was already set by a concurrent release.

  \<open>permit_step\<close> is that coroutine run by any number of tasks in any interleaving, over the
  operations of a provider, which are its parameters. One step is one atomic access of the native
  code: a compare-and-exchange outside the mutex, or a critical section of the mutex. The locale
  \<open>permit_provider\<close> states what a provider promises, and the invariant and its consequences are
  proved once inside it.
\<close>

section \<open>Events as flags\<close>

text \<open>
  \<open>Event::set\<close> reports whether this call set the flag (\<open>src/src/events.rs\<close>). For permits only the
  flag matters: the wakers it notifies are the \<open>wake\<close> step below.
\<close>

definition flag_set :: "event_id \<Rightarrow> (event_id \<Rightarrow> bool) \<Rightarrow> bool \<times> (event_id \<Rightarrow> bool)" where
  "flag_set e f = (case cas False True (f e) of Some b \<Rightarrow> (True, f(e := b)) | None \<Rightarrow> (False, f))"

lemma flag_set_eq: "flag_set e f = (\<not> f e, f(e := True))"
  by (auto simp: flag_set_def cas_def fun_upd_idem)

text \<open>
  The release loop \<open>while let Some(event) = events.pop_front() { if event.set() { return } }\<close>:
  the flags after it, the rest of the queue, and whether a waiter took the permit.
\<close>

fun hand_over :: "(event_id \<Rightarrow> bool) \<Rightarrow> event_id list \<Rightarrow> (event_id \<Rightarrow> bool) \<times> event_id list \<times> bool" where
  "hand_over f [] = (f, [], False)"
| "hand_over f (e # es) =
     (case flag_set e f of (True, f') \<Rightarrow> (f', es, True) | (False, f') \<Rightarrow> hand_over f' es)"

lemma hand_over_eq:
  "hand_over f es =
     (case dropWhile f es of [] \<Rightarrow> (f, [], False) | e # r \<Rightarrow> (f(e := True), r, True))"
proof (induction es)
  case Nil
  then show ?case by simp
next
  case (Cons e es)
  then show ?case by (cases "f e") (simp_all add: flag_set_eq fun_upd_idem)
qed

section \<open>The acquiring coroutine\<close>

text \<open>
  Where a task is: outside; past the failed fast path, about to take the mutex; suspended on its
  event; past the \<open>CancelledError\<close> raised into it while suspended, about to set its own event;
  about to release after losing that race; holding a permit.
\<close>

datatype pc =
    Idle
  | Slow
  | Waiting event_id
  | Cancelling event_id
  | Giving_back
  | Holding

record 'p psys =
  prov :: 'p
  flags :: "event_id \<Rightarrow> bool"
  fresh :: event_id
  pcs :: "task_id \<Rightarrow> pc"

text \<open>
  The provider's operations: \<open>fast\<close> the unlocked attempt of \<open>acquire\<close>, \<open>attempt\<close> the one of
  \<open>try_acquire\<close> (\<^const>\<open>None\<close>: not acquired), \<open>slow\<close> its locked part (\<^const>\<open>True\<close>: acquired,
  \<^const>\<open>False\<close>: the event was queued), \<open>rel\<close> the release, and \<open>room\<close>: the bound on the queue that
  the provider needs for its arithmetic.
\<close>

inductive permit_step ::
    "('p \<Rightarrow> 'p option) \<Rightarrow> ('p \<Rightarrow> 'p option) \<Rightarrow> (event_id \<Rightarrow> 'p \<Rightarrow> bool \<times> 'p) \<Rightarrow>
     ((event_id \<Rightarrow> bool) \<Rightarrow> 'p \<Rightarrow> (event_id \<Rightarrow> bool) \<times> 'p) \<Rightarrow> ('p \<Rightarrow> bool) \<Rightarrow>
     'p psys \<Rightarrow> 'p psys \<Rightarrow> bool"
  for fast :: "'p \<Rightarrow> 'p option" and attempt :: "'p \<Rightarrow> 'p option"
    and slow :: "event_id \<Rightarrow> 'p \<Rightarrow> bool \<times> 'p"
    and rel :: "(event_id \<Rightarrow> bool) \<Rightarrow> 'p \<Rightarrow> (event_id \<Rightarrow> bool) \<times> 'p"
    and room :: "'p \<Rightarrow> bool" where
  try_ok: "pcs s i = Idle \<Longrightarrow> room (prov s) \<Longrightarrow> attempt (prov s) = Some p \<Longrightarrow>
     permit_step fast attempt slow rel room s (s\<lparr>prov := p, pcs := (pcs s)(i := Holding)\<rparr>)"
| fast_ok: "pcs s i = Idle \<Longrightarrow> fast (prov s) = Some p \<Longrightarrow>
     permit_step fast attempt slow rel room s (s\<lparr>prov := p, pcs := (pcs s)(i := Holding)\<rparr>)"
| fast_fail: "pcs s i = Idle \<Longrightarrow> fast (prov s) = None \<Longrightarrow>
     permit_step fast attempt slow rel room s (s\<lparr>pcs := (pcs s)(i := Slow)\<rparr>)"
| slow_ok: "pcs s i = Slow \<Longrightarrow> room (prov s) \<Longrightarrow> slow (fresh s) (prov s) = (True, p) \<Longrightarrow>
     permit_step fast attempt slow rel room s (s\<lparr>prov := p, pcs := (pcs s)(i := Holding)\<rparr>)"
| slow_wait: "pcs s i = Slow \<Longrightarrow> room (prov s) \<Longrightarrow> slow (fresh s) (prov s) = (False, p) \<Longrightarrow>
     permit_step fast attempt slow rel room s
       (s\<lparr>prov := p, flags := (flags s)(fresh s := False), fresh := Suc (fresh s),
          pcs := (pcs s)(i := Waiting (fresh s))\<rparr>)"
| wake: "pcs s i = Waiting e \<Longrightarrow> flags s e \<Longrightarrow>
     permit_step fast attempt slow rel room s (s\<lparr>pcs := (pcs s)(i := Holding)\<rparr>)"
| cancel: "pcs s i = Waiting e \<Longrightarrow>
     permit_step fast attempt slow rel room s (s\<lparr>pcs := (pcs s)(i := Cancelling e)\<rparr>)"
| withdraw: "pcs s i = Cancelling e \<Longrightarrow> flag_set e (flags s) = (True, f) \<Longrightarrow>
     permit_step fast attempt slow rel room s (s\<lparr>flags := f, pcs := (pcs s)(i := Idle)\<rparr>)"
| give_back: "pcs s i = Cancelling e \<Longrightarrow> flag_set e (flags s) = (False, f) \<Longrightarrow>
     permit_step fast attempt slow rel room s (s\<lparr>flags := f, pcs := (pcs s)(i := Giving_back)\<rparr>)"
| release: "pcs s i = Holding \<or> pcs s i = Giving_back \<Longrightarrow> rel (flags s) (prov s) = (f, p) \<Longrightarrow>
     permit_step fast attempt slow rel room s
       (s\<lparr>prov := p, flags := f, pcs := (pcs s)(i := Idle)\<rparr>)"

definition permit_init :: "'p \<Rightarrow> 'p psys \<Rightarrow> bool" where
  "permit_init p s \<longleftrightarrow> prov s = p \<and> (\<forall>i. pcs s i = Idle)"

text \<open>
  A task owns a permit when it holds one, is about to give it back, or was handed one and has not
  run yet.
\<close>

definition waits :: "'p psys \<Rightarrow> task_id \<Rightarrow> event_id \<Rightarrow> bool" where
  "waits s i e \<longleftrightarrow> pcs s i = Waiting e \<or> pcs s i = Cancelling e"

definition owner :: "'p psys \<Rightarrow> task_id \<Rightarrow> bool" where
  "owner s i \<longleftrightarrow> pcs s i = Holding \<or> pcs s i = Giving_back \<or> (\<exists>e. waits s i e \<and> flags s e)"

lemma owner_idle: "(\<And>i. pcs s i = Idle) \<Longrightarrow> {i. owner s i} = {}"
  by (auto simp: owner_def waits_def)

section \<open>What a provider promises\<close>

locale permit_provider =
  fixes fast :: "'p \<Rightarrow> 'p option"
    and attempt :: "'p \<Rightarrow> 'p option"
    and slow :: "event_id \<Rightarrow> 'p \<Rightarrow> bool \<times> 'p"
    and rel :: "(event_id \<Rightarrow> bool) \<Rightarrow> 'p \<Rightarrow> (event_id \<Rightarrow> bool) \<times> 'p"
    and room :: "'p \<Rightarrow> bool"
    and init :: 'p
    and free :: "'p \<Rightarrow> nat"
    and queue :: "'p \<Rightarrow> event_id list"
    and ok :: "'p \<Rightarrow> bool"
    and cap :: nat
  assumes init_ok: "ok init" "free init = cap" "queue init = []"
    and fast_take: "ok p \<Longrightarrow> fast p = Some p' \<Longrightarrow>
          free p = Suc (free p') \<and> queue p' = queue p \<and> ok p'"
    and attempt_take: "ok p \<Longrightarrow> room p \<Longrightarrow> attempt p = Some p' \<Longrightarrow>
          free p = Suc (free p') \<and> queue p' = queue p \<and> ok p'"
    and slow_take: "ok p \<Longrightarrow> room p \<Longrightarrow> slow e p = (True, p') \<Longrightarrow>
          free p = Suc (free p') \<and> queue p' = queue p \<and> ok p'"
    and slow_park: "ok p \<Longrightarrow> room p \<Longrightarrow> slow e p = (False, p') \<Longrightarrow>
          free p = 0 \<and> free p' = 0 \<and> queue p' = queue p @ [e] \<and> ok p'"
    and rel_hand: "ok p \<Longrightarrow> free p < cap \<Longrightarrow> dropWhile f (queue p) = e # r \<Longrightarrow>
          \<exists>p'. rel f p = (f(e := True), p') \<and> free p' = free p \<and> queue p' = r \<and> ok p'"
    and rel_free: "ok p \<Longrightarrow> free p < cap \<Longrightarrow> dropWhile f (queue p) = [] \<Longrightarrow>
          \<exists>p'. rel f p = (f, p') \<and> free p' = Suc (free p) \<and> queue p' = [] \<and> ok p'"
begin

text \<open>
  The invariant: the queue holds the events in the order of their creation, one task per event; an unset event a task waits
  on is in the queue, and the other way round; nobody waits while a permit is free; the permits
  owned and the free ones add up to the capacity.
\<close>

definition pinv :: "'p psys \<Rightarrow> bool" where
  "pinv s \<longleftrightarrow> ok (prov s) \<and> sorted_wrt (<) (queue (prov s))
     \<and> (\<forall>e \<in> set (queue (prov s)). e < fresh s)
     \<and> (\<forall>i e. waits s i e \<longrightarrow> e < fresh s)
     \<and> (\<forall>i j e. waits s i e \<longrightarrow> waits s j e \<longrightarrow> i = j)
     \<and> (\<forall>i e. waits s i e \<longrightarrow> \<not> flags s e \<longrightarrow> e \<in> set (queue (prov s)))
     \<and> (\<forall>e \<in> set (queue (prov s)). \<not> flags s e \<longrightarrow> (\<exists>i. waits s i e))
     \<and> (0 < free (prov s) \<longrightarrow> (\<forall>e \<in> set (queue (prov s)). flags s e))
     \<and> finite {i. owner s i} \<and> card {i. owner s i} + free (prov s) = cap"

lemma pinvD:
  assumes "pinv s"
  shows "ok (prov s)" "sorted_wrt (<) (queue (prov s))"
    "\<And>e. e \<in> set (queue (prov s)) \<Longrightarrow> e < fresh s"
    "\<And>i e. waits s i e \<Longrightarrow> e < fresh s"
    "\<And>i j e. waits s i e \<Longrightarrow> waits s j e \<Longrightarrow> i = j"
    "\<And>i e. waits s i e \<Longrightarrow> \<not> flags s e \<Longrightarrow> e \<in> set (queue (prov s))"
    "\<And>e. e \<in> set (queue (prov s)) \<Longrightarrow> \<not> flags s e \<Longrightarrow> \<exists>i. waits s i e"
    "\<And>e. 0 < free (prov s) \<Longrightarrow> e \<in> set (queue (prov s)) \<Longrightarrow> flags s e"
    "finite {i. owner s i}" "card {i. owner s i} + free (prov s) = cap"
  using assms unfolding pinv_def by blast+

lemma pinvI:
  assumes "ok (prov s)" "sorted_wrt (<) (queue (prov s))"
    "\<And>e. e \<in> set (queue (prov s)) \<Longrightarrow> e < fresh s"
    "\<And>i e. waits s i e \<Longrightarrow> e < fresh s"
    "\<And>i j e. waits s i e \<Longrightarrow> waits s j e \<Longrightarrow> i = j"
    "\<And>i e. waits s i e \<Longrightarrow> \<not> flags s e \<Longrightarrow> e \<in> set (queue (prov s))"
    "\<And>e. e \<in> set (queue (prov s)) \<Longrightarrow> \<not> flags s e \<Longrightarrow> \<exists>i. waits s i e"
    "\<And>e. 0 < free (prov s) \<Longrightarrow> e \<in> set (queue (prov s)) \<Longrightarrow> flags s e"
    "finite {i. owner s i}" "card {i. owner s i} + free (prov s) = cap"
  shows "pinv s"
  unfolding pinv_def using assms by blast

text \<open>A task that owns nothing and waits for nothing takes a free permit.\<close>

lemma pinv_take:
  assumes inv: "pinv s" and pc: "pcs s i = Idle \<or> pcs s i = Slow"
    and p: "free (prov s) = Suc (free p)" "queue p = queue (prov s)" "ok p"
  shows "pinv (s\<lparr>prov := p, pcs := (pcs s)(i := Holding)\<rparr>)" (is "pinv ?t")
proof -
  have w: "waits ?t j e \<longleftrightarrow> waits s j e" for j e
    using pc by (auto simp: waits_def)
  have o: "{j. owner ?t j} = insert i {j. owner s j}" and ni: "i \<notin> {j. owner s j}"
    using pc by (auto simp: owner_def waits_def)
  note c = card_insert_fresh[OF pinvD(9)[OF inv] ni o]
  show ?thesis
    using inv p c by (auto simp: pinv_def w)
qed

text \<open>A task moves while the provider, the flags and what it waits for and owns stay the same.\<close>

lemma pinv_move:
  assumes inv: "pinv s"
    and w: "\<And>j e. waits (s\<lparr>pcs := pc'\<rparr>) j e \<Longrightarrow> waits s j e"
    and w': "\<And>j e. waits s j e \<Longrightarrow> \<not> flags s e \<Longrightarrow> waits (s\<lparr>pcs := pc'\<rparr>) j e"
    and o: "\<And>j. owner (s\<lparr>pcs := pc'\<rparr>) j = owner s j"
  shows "pinv (s\<lparr>pcs := pc'\<rparr>)"
proof (rule pinvI)
  note D = pinvD[OF inv]
  show "\<exists>i. waits (s\<lparr>pcs := pc'\<rparr>) i e"
    if "e \<in> set (queue (prov (s\<lparr>pcs := pc'\<rparr>)))" "\<not> flags (s\<lparr>pcs := pc'\<rparr>) e" for e
    using D(7)[of e] that w' by auto
  show "i = j" if "waits (s\<lparr>pcs := pc'\<rparr>) i e" "waits (s\<lparr>pcs := pc'\<rparr>) j e" for i j e
    using D(5) that w by blast
qed (use pinvD[OF inv] in \<open>auto simp: o dest: w\<close>)

lemma pinv_park:
  assumes inv: "pinv s" and pc: "pcs s i = Slow"
    and p: "free (prov s) = 0" "free p = 0" "queue p = queue (prov s) @ [fresh s]" "ok p"
  shows "pinv (s\<lparr>prov := p, flags := (flags s)(fresh s := False), fresh := Suc (fresh s),
     pcs := (pcs s)(i := Waiting (fresh s))\<rparr>)" (is "pinv ?t")
proof -
  note D = pinvD[OF inv]
  have old: "waits s j e \<Longrightarrow> e \<noteq> fresh s" for j e using D(4) by blast
  have w: "waits ?t j e \<longleftrightarrow> waits s j e \<and> j \<noteq> i \<or> j = i \<and> e = fresh s" for j e
    by (auto simp: waits_def)
  have wi: "\<not> waits s i e" for e using pc by (simp add: waits_def)
  have "owner ?t j \<longleftrightarrow> owner s j" for j
    using pc old by (auto simp: owner_def waits_def)
  then have o: "{j. owner ?t j} = {j. owner s j}" by simp
  show ?thesis
  proof (rule pinvI)
    show "\<exists>j. waits ?t j e" if "e \<in> set (queue (prov ?t))" "\<not> flags ?t e" for e
      using that D(7)[of e] p(3) wi unfolding w by (auto split: if_splits)
    show "j = k" if "waits ?t j e" "waits ?t k e" for j k e
      using that D(5) old unfolding w by blast
  qed (use D p wi old in \<open>auto simp: w o less_Suc_eq sorted_wrt_append\<close>)
qed

text \<open>A cancelled task sets its own event: the event stays in the queue, stale.\<close>

lemma pinv_withdraw:
  assumes inv: "pinv s" and pc: "pcs s i = Cancelling e" and e: "\<not> flags s e"
  shows "pinv (s\<lparr>flags := (flags s)(e := True), pcs := (pcs s)(i := Idle)\<rparr>)" (is "pinv ?t")
proof -
  note D = pinvD[OF inv]
  have ie: "waits s i e' \<longleftrightarrow> e' = e" for e' using pc by (auto simp: waits_def)
  have w: "waits ?t j e' \<longleftrightarrow> waits s j e' \<and> j \<noteq> i" for j e'
    by (auto simp: waits_def)
  have we: "waits s j e \<Longrightarrow> j = i" for j using D(5) ie by blast
  have "owner ?t j \<longleftrightarrow> owner s j" for j
    using pc e we by (cases "j = i") (auto simp: owner_def waits_def)
  then have o: "{j. owner ?t j} = {j. owner s j}" by simp
  show ?thesis
  proof (rule pinvI)
    show "\<exists>j. waits ?t j e'" if "e' \<in> set (queue (prov ?t))" "\<not> flags ?t e'" for e'
      using that D(7)[of e'] ie unfolding w by (auto split: if_splits)
  qed (use D we in \<open>auto simp: w o split: if_splits\<close>)
qed

lemma pinv_owner_free:
  assumes "pinv s" "owner s i"
  shows "free (prov s) < cap"
proof -
  have "card {i. owner s i} \<noteq> 0" using pinvD(9)[OF assms(1)] assms(2) by auto
  then show ?thesis using pinvD(10)[OF assms(1)] by linarith
qed

text \<open>A release hands the permit to the first waiter of the queue whose event is not set.\<close>

lemma pinv_release_hand:
  assumes inv: "pinv s" and pc: "pcs s i = Holding \<or> pcs s i = Giving_back"
    and q: "dropWhile (flags s) (queue (prov s)) = e # r"
    and p: "free p = free (prov s)" "queue p = r" "ok p"
  shows "pinv (s\<lparr>prov := p, flags := (flags s)(e := True), pcs := (pcs s)(i := Idle)\<rparr>)"
    (is "pinv ?t")
proof -
  note D = pinvD[OF inv]
  have ne: "\<not> flags s e" using q by (rule dropWhile_hd_not)
  have eq: "e \<in> set (queue (prov s))" and sub: "set r \<subseteq> set (queue (prov s))"
    using set_dropWhile_subset[of _ "flags s" "queue (prov s)"] q by auto
  have dist: "sorted_wrt (<) (e # r)" using sorted_wrt_dropWhileI[OF D(2), of "flags s"] q by simp
  have stay: "e' \<in> set r" if "e' \<in> set (queue (prov s))" "\<not> flags s e'" "e' \<noteq> e" for e'
    using in_dropWhile_if_not[of e' "queue (prov s)" "flags s"] that q by auto
  obtain k where k: "waits s k e" using D(7)[OF eq ne] by blast
  have ki: "k \<noteq> i" using k pc by (auto simp: waits_def)
  have w: "waits ?t j e' \<longleftrightarrow> waits s j e'" for j e'
    using pc by (auto simp: waits_def)
  have nk: "\<not> owner s k" using k ne by (auto simp: owner_def waits_def)
  have ek: "waits s j e \<longleftrightarrow> j = k" for j using k D(5) by blast
  have wi: "\<not> waits s i e'" for e' using pc by (auto simp: waits_def)
  have fl: "flags ?t e' \<longleftrightarrow> e' = e \<or> flags s e'" for e' by simp
  have "(\<exists>e'. waits s j e' \<and> flags ?t e') \<longleftrightarrow> (\<exists>e'. waits s j e' \<and> flags s e') \<or> j = k" for j
    unfolding fl using ek by blast
  then have "owner ?t j \<longleftrightarrow> (owner s j \<and> j \<noteq> i) \<or> j = k" for j
    using ki wi unfolding owner_def w by (cases "j = i") auto
  then have o: "{j. owner ?t j} = insert k ({j. owner s j} - {i})" by auto
  have "i \<in> {j. owner s j}" using pc by (auto simp: owner_def)
  note rm = card_remove_one[OF D(9) this refl]
  have "k \<notin> {j. owner s j} - {i}" using nk by simp
  note ins = card_insert_fresh[OF rm(2) this o]
  have c: "card {j. owner ?t j} = card {j. owner s j}" "finite {j. owner ?t j}"
    using rm(1) ins by simp_all
  show ?thesis
  proof (rule pinvI)
    show "e' \<in> set (queue (prov ?t))" if "waits ?t j e'" "\<not> flags ?t e'" for j e'
      using that stay D(6) p(2) unfolding w by (auto split: if_splits)
    show "\<exists>j. waits ?t j e'" if "e' \<in> set (queue (prov ?t))" "\<not> flags ?t e'" for e'
      using that D(7)[of e'] sub p(2) unfolding w by (auto split: if_splits)
    show "j = j'" if "waits ?t j e'" "waits ?t j' e'" for j j' e'
      using that D(5) unfolding w by blast
    show "flags ?t e'" if "0 < free (prov ?t)" "e' \<in> set (queue (prov ?t))" for e'
      using that D(8)[of e'] sub p(1,2) by auto
  qed (use D(2-4,10) p dist sub c in \<open>auto simp: w\<close>)
qed

lemma pinv_release_free:
  assumes inv: "pinv s" and pc: "pcs s i = Holding \<or> pcs s i = Giving_back"
    and q: "dropWhile (flags s) (queue (prov s)) = []"
    and p: "free p = Suc (free (prov s))" "queue p = []" "ok p"
  shows "pinv (s\<lparr>prov := p, pcs := (pcs s)(i := Idle)\<rparr>)" (is "pinv ?t")
proof -
  note D = pinvD[OF inv]
  have all: "flags s e" if "e \<in> set (queue (prov s))" for e
    using q that by (simp add: dropWhile_eq_Nil_conv)
  have w: "waits ?t j e' \<longleftrightarrow> waits s j e'" for j e'
    using pc by (auto simp: waits_def)
  have "owner ?t j \<longleftrightarrow> owner s j \<and> j \<noteq> i" for j
    using pc unfolding owner_def w by (auto simp: waits_def)
  then have o: "{j. owner ?t j} = {j. owner s j} - {i}" by auto
  have "i \<in> {j. owner s j}" using pc by (auto simp: owner_def)
  note c = card_remove_one[OF D(9) this o]
  show ?thesis
  proof (rule pinvI)
    show "e' \<in> set (queue (prov ?t))" if "waits ?t j e'" "\<not> flags ?t e'" for j e'
      using that all D(6) unfolding w by auto
    show "j = j'" if "waits ?t j e'" "waits ?t j' e'" for j j' e'
      using that D(5) unfolding w by blast
  qed (use D(4,10) p c in \<open>auto simp: w\<close>)
qed

lemma pinv_release:
  assumes inv: "pinv s" and pc: "pcs s i = Holding \<or> pcs s i = Giving_back"
    and r: "rel (flags s) (prov s) = (f, p)"
  shows "pinv (s\<lparr>prov := p, flags := f, pcs := (pcs s)(i := Idle)\<rparr>)"
proof -
  have "owner s i" using pc by (auto simp: owner_def)
  then have lt: "free (prov s) < cap" by (rule pinv_owner_free[OF inv])
  show ?thesis
  proof (cases "dropWhile (flags s) (queue (prov s))")
    case Nil
    then have "f = flags s" and "free p = Suc (free (prov s))" "queue p = []" "ok p"
      using rel_free[OF pinvD(1)[OF inv] lt Nil] r by auto
    then show ?thesis using pinv_release_free[OF inv pc Nil] by simp
  next
    case (Cons e q)
    then have "f = (flags s)(e := True)" and "free p = free (prov s)" "queue p = q" "ok p"
      using rel_hand[OF pinvD(1)[OF inv] lt Cons] r by auto
    then show ?thesis using pinv_release_hand[OF inv pc Cons] by simp
  qed
qed

lemma pinv_init: "permit_init init s \<Longrightarrow> pinv s"
  by (rule pinvI) (auto simp: permit_init_def init_ok waits_def owner_def)

lemma pinv_step:
  assumes "permit_step fast attempt slow rel room s t" and inv: "pinv s"
  shows "pinv t"
  using assms(1)
proof cases
  case (try_ok i p)
  then show ?thesis using pinv_take[OF inv, of i p] attempt_take[OF pinvD(1)[OF inv]] by blast
next
  case (fast_ok i p)
  then show ?thesis using pinv_take[OF inv, of i p] fast_take[OF pinvD(1)[OF inv]] by blast
next
  case (fast_fail i)
  show ?thesis unfolding fast_fail(1) using fast_fail(2,3)
    by (intro pinv_move[OF inv]) (auto simp: waits_def owner_def split: if_splits)
next
  case (slow_ok i p)
  then show ?thesis using pinv_take[OF inv, of i p] slow_take[OF pinvD(1)[OF inv]] by blast
next
  case (slow_wait i p)
  then show ?thesis using pinv_park[OF inv, of i p] slow_park[OF pinvD(1)[OF inv], of "fresh s" p] by simp
next
  case (wake i e)
  show ?thesis unfolding wake(1) using wake(2,3)
    by (intro pinv_move[OF inv]) (auto simp: waits_def owner_def split: if_splits)
next
  case (cancel i e)
  show ?thesis unfolding cancel(1) using cancel(2)
    by (intro pinv_move[OF inv]) (auto simp: waits_def owner_def split: if_splits)
next
  case (withdraw i e f)
  then show ?thesis using pinv_withdraw[OF inv, of i e] by (auto simp: flag_set_eq)
next
  case (give_back i e f)
  then have e: "flags s e" and t: "t = s\<lparr>pcs := (pcs s)(i := Giving_back)\<rparr>"
    by (auto simp: flag_set_eq fun_upd_idem)
  show ?thesis unfolding t using give_back(2) e
    by (intro pinv_move[OF inv]) (auto simp: waits_def owner_def split: if_splits)
next
  case (release i f p)
  then show ?thesis using pinv_release[OF inv] by blast
qed

end

sublocale permit_provider \<subseteq> permits: step_system "permit_init init"
  "permit_step fast attempt slow rel room" pinv
  by unfold_locales (auto intro: pinv_init pinv_step)

context permit_provider
begin

abbreviation reachable :: "'p psys \<Rightarrow> bool" where
  "reachable \<equiv> reach (permit_init init) (permit_step fast attempt slow rel room)"

lemma holders_bounded:
  assumes "reachable s"
  shows "finite {i. pcs s i = Holding}" "card {i. pcs s i = Holding} \<le> cap"
proof -
  note D = pinvD[OF permits.reach_inv[OF assms]]
  have sub: "{i. pcs s i = Holding} \<subseteq> {i. owner s i}" by (auto simp: owner_def)
  show "finite {i. pcs s i = Holding}" using finite_subset[OF sub D(9)] .
  show "card {i. pcs s i = Holding} \<le> cap" using card_mono[OF D(9) sub] D(10) by linarith
qed

lemma none_lost:
  assumes "reachable s" and "\<And>i. pcs s i = Idle"
  shows "free (prov s) = cap"
  using pinvD(10)[OF permits.reach_inv[OF assms(1)]] owner_idle[OF assms(2)] by simp

lemma parked_has_owner:
  assumes "reachable s" and "0 < cap" and "waits s i e" and "\<not> flags s e"
  shows "free (prov s) = 0" "\<exists>j. owner s j"
proof -
  note D = pinvD[OF permits.reach_inv[OF assms(1)]]
  show z: "free (prov s) = 0" using D(6)[OF assms(3,4)] D(8)[of e] assms(4) by auto
  then have "card {j. owner s j} \<noteq> 0" using D(10) assms(2) by simp
  then show "\<exists>j. owner s j" by (metis card.empty empty_Collect_eq)
qed

text \<open>
  First come, first served: a release makes the waiter with the oldest pending event an owner, and
  touches no other flag.
\<close>

lemma release_oldest:
  assumes r: "reachable s" and pc: "pcs s i = Holding \<or> pcs s i = Giving_back"
    and k: "waits s k e" "\<not> flags s e"
    and oldest: "\<And>j e'. waits s j e' \<Longrightarrow> \<not> flags s e' \<Longrightarrow> e \<le> e'"
  shows "fst (rel (flags s) (prov s)) = (flags s)(e := True)"
proof -
  note inv = permits.reach_inv[OF r]
  note D = pinvD[OF inv]
  have "owner s i" using pc by (auto simp: owner_def)
  then have lt: "free (prov s) < cap" by (rule pinv_owner_free[OF inv])
  have "e \<in> set (dropWhile (flags s) (queue (prov s)))"
    using D(6)[OF k] k(2) by (rule in_dropWhile_if_not)
  then obtain e' q where q: "dropWhile (flags s) (queue (prov s)) = e' # q" and "e = e' \<or> e \<in> set q"
    by (cases "dropWhile (flags s) (queue (prov s))") auto
  moreover have "sorted_wrt (<) (e' # q)"
    using sorted_wrt_dropWhileI[OF D(2), of "flags s"] q by simp
  moreover have "\<not> flags s e'" using q by (rule dropWhile_hd_not)
  moreover from this have "e \<le> e'"
    using oldest D(7)[of e'] set_dropWhile_subset[of e' "flags s" "queue (prov s)"] q by auto
  ultimately have "e' = e" by auto
  then show ?thesis using rel_hand[OF D(1) lt q] by auto
qed

end

end
