(* ===== verification/Py_Errors.thy ===== *)
theory Py_Errors
  imports Prelude
begin

text \<open>
  The exceptions the program raises and catches. \<open>CancelledError\<close>, \<open>WouldBlock\<close> and
  \<open>ResourceBroken\<close> are the ones of \<open>src/src/errors.rs\<close>; the others are Python's, each with the
  part of its payload the program looks at. \<open>OSError\<close> carries its errno; \<open>BlockingIOError\<close>,
  \<open>InterruptedError\<close> and \<open>BrokenPipeError\<close> are the subclasses Python selects by errno and have
  constructors of their own. \<open>is_Exception\<close> tells what an \<open>except Exception\<close> clause catches:
  \<open>CancelledError\<close>, \<open>KeyboardInterrupt\<close>, \<open>SystemExit\<close> and \<open>BaseExceptionGroup\<close> do not derive from \<open>Exception\<close>. \<open>PytestExit\<close> is the
  exception \<open>pytest.exit\<close> raises, which does.
\<close>

datatype exn =
    CancelledError
  | KeyboardInterrupt
  | WouldBlock string
  | ResourceBroken "exn option"
  | OSError int
  | BlockingIOError
  | InterruptedError
  | BrokenPipeError
  | ConnectFailed int
  | SSLError bool
  | SSLWantReadError
  | RuntimeError string
  | TypeError string
  | ValueError string
  | SyntaxError string
  | AssertionError
  | CalledProcessError int
  | AttributeError string
  | IndexError string
  | KeyError string
  | UserError nat
  | SystemExit int
  | PytestExit string
  | ExceptionGroup string "exn list"
  | BaseExceptionGroup string "exn list"

definition is_Exception :: "exn \<Rightarrow> bool" where
  "is_Exception e \<longleftrightarrow> (case e of CancelledError \<Rightarrow> False | KeyboardInterrupt \<Rightarrow> False | SystemExit _ \<Rightarrow> False | BaseExceptionGroup _ _ \<Rightarrow> False | _ \<Rightarrow> True)"

text \<open>
  The errno of an instance of \<open>OSError\<close>, the subclasses included (\<open>EAGAIN\<close> 11, \<open>EINTR\<close> 4,
  \<open>EPIPE\<close> 32 on Linux); \<^const>\<open>None\<close> for what is not an \<open>OSError\<close>. \<open>ssl.SSLError\<close> is an
  \<open>OSError\<close> too, with the number of an SSL error, which is no errno the program compares with.
\<close>

fun os_errno :: "exn \<Rightarrow> int option" where
  "os_errno (OSError n) = Some n"
| "os_errno BlockingIOError = Some 11"
| "os_errno InterruptedError = Some 4"
| "os_errno BrokenPipeError = Some 32"
| "os_errno (ConnectFailed n) = Some n"
| "os_errno _ = None"

definition is_OSError :: "exn \<Rightarrow> bool" where
  "is_OSError e \<longleftrightarrow> os_errno e \<noteq> None \<or> e = SSLWantReadError \<or> (\<exists>eof \<in> {True, False}. e = SSLError eof)"

end
