(* ===== verification/Lock_Sem.thy ===== *)
theory Lock_Sem
  imports Permit Py_Errors
begin

text \<open>
  \<open>Lock\<close> and \<open>Semaphore\<close>: the native classes of \<open>src/src/sync.rs\<close> and the coroutines of
  \<open>src/tonio/_sync.py\<close>. A lock is an atomic boolean and a mutex-protected queue of events; a
  semaphore a mutex-protected pair of a \<open>usize\<close> count and such a queue. Both lock and semaphore are interpreted as permit providers, which gives mutual
  exclusion, conservation of permits under cancellation and first-come-first-served hand-over.
  The arithmetic of the semaphore is kept at its width: \<open>acquire\<close> casts both the count and the
  length of the queue to \<open>i32\<close>.
\<close>

section \<open>Lock\<close>

record lock =
  state :: bool
  waiters :: "event_id list"

definition lock_new :: lock where
  "lock_new = \<lparr>state = False, waiters = []\<rparr>"

text \<open>\<open>Lock::acquire\<close> before it takes the mutex, and while it holds it (for a fresh event \<open>e\<close>).\<close>

definition lock_acquire_fast :: "lock \<Rightarrow> lock option" where
  "lock_acquire_fast l = map_option (\<lambda>b. l\<lparr>state := b\<rparr>) (cas False True (state l))"

definition lock_acquire_slow :: "event_id \<Rightarrow> lock \<Rightarrow> bool \<times> lock" where
  "lock_acquire_slow e l =
     (case cas False True (state l) of
        Some b \<Rightarrow> (True, l\<lparr>state := b\<rparr>)
      | None \<Rightarrow> (False, l\<lparr>waiters := waiters l @ [e]\<rparr>))"

definition lock_try_acquire :: "lock \<Rightarrow> exn + lock" where
  "lock_try_acquire l =
     (case cas False True (state l) of
        Some b \<Rightarrow> Inr (l\<lparr>state := b\<rparr>)
      | None \<Rightarrow> Inl (WouldBlock ''Cannot acquire lock''))"

definition lock_release :: "(event_id \<Rightarrow> bool) \<Rightarrow> lock \<Rightarrow> (event_id \<Rightarrow> bool) \<times> lock" where
  "lock_release f l =
     (case hand_over f (waiters l) of
        (f', q, True) \<Rightarrow> (f', l\<lparr>waiters := q\<rparr>)
      | (f', q, False) \<Rightarrow> (f', l\<lparr>waiters := q, state := False\<rparr>))"

text \<open>
  \<open>_LockImpl.or_raise\<close>: the attempt, then a context that has not been entered; the exception of the
  attempt goes to the caller.
\<close>

definition lock_or_raise :: "lock \<Rightarrow> exn + (bool \<times> lock)" where
  "lock_or_raise l = (case lock_try_acquire l of Inl e \<Rightarrow> Inl e | Inr l' \<Rightarrow> Inr (False, l'))"

text \<open>
  \<open>LockCtx\<close>: the boolean is its \<open>consumed\<close> flag. Entering it twice raises; leaving it releases.
\<close>

definition lock_ctx_enter :: "bool \<Rightarrow> exn + bool" where
  "lock_ctx_enter consumed =
     (case cas False True consumed of
        Some b \<Rightarrow> Inr b
      | None \<Rightarrow> Inl (RuntimeError ''Cannot acquire the same lock ctx multiple times.''))"

definition lock_ctx_exit :: "(event_id \<Rightarrow> bool) \<Rightarrow> lock \<Rightarrow> (event_id \<Rightarrow> bool) \<times> lock" where
  "lock_ctx_exit f l = lock_release f l"

text \<open>\<open>Lock.__call__\<close> and the context it returns, run by any number of tasks.\<close>

definition lock_step :: "lock psys \<Rightarrow> lock psys \<Rightarrow> bool" where
  "lock_step = permit_step lock_acquire_fast
     (\<lambda>l. case lock_or_raise l of Inr (_, l') \<Rightarrow> Some l' | Inl _ \<Rightarrow> None)
     lock_acquire_slow lock_ctx_exit (\<lambda>_. True)"

definition lock_reach :: "lock psys \<Rightarrow> bool" where
  "lock_reach = reach (permit_init lock_new) lock_step"

section \<open>Semaphore\<close>

record semaphore =
  tokens :: usize
  sem_waiters :: "event_id list"

definition sem_new :: "usize \<Rightarrow> semaphore" where
  "sem_new value = \<lparr>tokens = value, sem_waiters = []\<rparr>"

text \<open>\<open>state.0 as i32 - state.1.len() as i32\<close>, with the wrap-around of \<open>i32\<close>.\<close>

definition as_i32 :: "usize \<Rightarrow> u32" where
  "as_i32 x = ucast x"

definition sem_value :: "semaphore \<Rightarrow> int" where
  "sem_value s = sint (as_i32 (tokens s) - as_i32 (word_of_nat (length (sem_waiters s))))"

definition sem_acquire :: "event_id \<Rightarrow> semaphore \<Rightarrow> bool \<times> semaphore" where
  "sem_acquire e s =
     (if sem_value s \<le> 0 then (False, s\<lparr>sem_waiters := sem_waiters s @ [e]\<rparr>)
      else (True, s\<lparr>tokens := tokens s - 1\<rparr>))"

definition sem_try_acquire :: "semaphore \<Rightarrow> exn + semaphore" where
  "sem_try_acquire s =
     (if sem_value s \<le> 0 then Inl (WouldBlock ''Cannot acquire semaphore'')
      else Inr (s\<lparr>tokens := tokens s - 1\<rparr>))"

definition sem_release :: "(event_id \<Rightarrow> bool) \<Rightarrow> semaphore \<Rightarrow> (event_id \<Rightarrow> bool) \<times> semaphore" where
  "sem_release f s =
     (case hand_over f (sem_waiters s) of
        (f', q, True) \<Rightarrow> (f', s\<lparr>sem_waiters := q\<rparr>)
      | (f', q, False) \<Rightarrow> (f', s\<lparr>sem_waiters := q, tokens := tokens s + 1\<rparr>))"

definition sem_or_raise :: "semaphore \<Rightarrow> exn + (bool \<times> semaphore)" where
  "sem_or_raise s = (case sem_try_acquire s of Inl e \<Rightarrow> Inl e | Inr s' \<Rightarrow> Inr (False, s'))"

definition sem_ctx_enter :: "bool \<Rightarrow> exn + bool" where
  "sem_ctx_enter consumed =
     (case cas False True consumed of
        Some b \<Rightarrow> Inr b
      | None \<Rightarrow> Inl (RuntimeError ''Cannot acquire the same semaphore ctx multiple times.''))"

definition sem_ctx_exit :: "(event_id \<Rightarrow> bool) \<Rightarrow> semaphore \<Rightarrow> (event_id \<Rightarrow> bool) \<times> semaphore" where
  "sem_ctx_exit f s = sem_release f s"

text \<open>
  \<open>Semaphore.__call__\<close>. \<open>Semaphore::acquire\<close> has no unlocked attempt. A task enters it only while
  fewer than $2^{31}$ events are queued: beyond that the cast of the length to \<open>i32\<close> turns negative.
\<close>

definition sem_room :: "semaphore \<Rightarrow> bool" where
  "sem_room s \<longleftrightarrow> length (sem_waiters s) < 2 ^ 31"

definition sem_step :: "semaphore psys \<Rightarrow> semaphore psys \<Rightarrow> bool" where
  "sem_step = permit_step (\<lambda>_. None)
     (\<lambda>s. case sem_or_raise s of Inr (_, s') \<Rightarrow> Some s' | Inl _ \<Rightarrow> None)
     sem_acquire sem_ctx_exit sem_room"

definition sem_reach :: "usize \<Rightarrow> semaphore psys \<Rightarrow> bool" where
  "sem_reach n = reach (permit_init (sem_new n)) sem_step"

lemmas lock_defs [tonio_defs] =
  lock_new_def lock_acquire_fast_def lock_acquire_slow_def lock_try_acquire_def lock_release_def
  lock_or_raise_def lock_ctx_enter_def lock_ctx_exit_def

lemmas sem_defs [tonio_defs] =
  sem_new_def sem_acquire_def sem_try_acquire_def sem_release_def sem_or_raise_def
  sem_ctx_enter_def sem_ctx_exit_def

section \<open>The lock provides one permit\<close>

definition lock_free :: "lock \<Rightarrow> nat" where
  "lock_free l = (if state l then 0 else 1)"

lemma lock_release_hand:
  "dropWhile f (waiters l) = e # r \<Longrightarrow> lock_release f l = (f(e := True), l\<lparr>waiters := r\<rparr>)"
  by (simp add: lock_release_def hand_over_eq)

lemma lock_release_free:
  "dropWhile f (waiters l) = [] \<Longrightarrow> lock_release f l = (f, l\<lparr>waiters := [], state := False\<rparr>)"
  by (simp add: lock_release_def hand_over_eq del: dropWhile_eq_Nil_conv)

interpretation lk: permit_provider lock_acquire_fast
  "\<lambda>l. case lock_or_raise l of Inr (_, l') \<Rightarrow> Some l' | Inl _ \<Rightarrow> None"
  lock_acquire_slow lock_ctx_exit "\<lambda>_. True" lock_new lock_free waiters "\<lambda>_. True" 1
proof (unfold_locales, goal_cases)
  case (8 p f e r)
  then show ?case by (auto simp: lock_ctx_exit_def lock_free_def lock_release_hand)
next
  case (9 p f)
  then show ?case
    by (auto simp: lock_ctx_exit_def lock_free_def lock_release_free simp del: dropWhile_eq_Nil_conv
        split: if_splits)
qed (auto simp: lock_defs lock_free_def cas_def split: if_splits)

section \<open>The semaphore provides as many permits as its initial count\<close>

lemma sint_sub_i32:
  assumes "a < 2 ^ 31" "b < 2 ^ 31"
  shows "sint (word_of_nat a - word_of_nat b :: u32) = int a - int b"
proof -
  have "(word_of_nat a - word_of_nat b :: u32) = word_of_int (int a - int b)" by simp
  moreover have "signed_take_bit 31 (int a - int b) = int a - int b"
    by (rule signed_take_bit_int_eq_self) (use assms in auto)
  moreover have "sint (word_of_int (int a - int b) :: u32) = signed_take_bit 31 (int a - int b)"
    by (subst sint_sbintrunc') simp
  ultimately show ?thesis by (simp only:)
qed

lemma as_i32_nat: "as_i32 x = word_of_nat (unat x)"
  by (simp add: as_i32_def)

lemma sem_value_eq:
  assumes "unat (tokens s) < 2 ^ 31" "length (sem_waiters s) < 2 ^ 31"
  shows "sem_value s = int (unat (tokens s)) - int (length (sem_waiters s))"
proof -
  have "unat (word_of_nat (length (sem_waiters s)) :: usize) = length (sem_waiters s)"
    using assms(2) by (simp add: unat_of_nat)
  then show ?thesis
    using sint_sub_i32[OF assms] by (simp only: sem_value_def as_i32_nat)
qed

definition sem_ok :: "nat \<Rightarrow> semaphore \<Rightarrow> bool" where
  "sem_ok n s \<longleftrightarrow> unat (tokens s) \<le> n \<and> (tokens s \<noteq> 0 \<longrightarrow> sem_waiters s = [])"

lemma unat_dec: "(x :: usize) \<noteq> 0 \<Longrightarrow> unat x = Suc (unat (x - 1))"
  by (simp add: unat_minus_one unat_gt_0)

lemma sem_value_pos:
  assumes "sem_ok n s" "n < 2 ^ 31" "length (sem_waiters s) < 2 ^ 31"
  shows "sem_value s \<le> 0 \<longleftrightarrow> tokens s = 0"
proof -
  have "sem_value s = int (unat (tokens s)) - int (length (sem_waiters s))"
    by (rule sem_value_eq) (use assms in \<open>auto simp: sem_ok_def\<close>)
  moreover have "length (sem_waiters s) = 0" if "tokens s \<noteq> 0"
    using that assms(1) by (simp add: sem_ok_def)
  moreover have "0 < unat (tokens s)" if "tokens s \<noteq> 0" using that by (simp add: unat_gt_0)
  ultimately show ?thesis by (cases "tokens s = 0") (simp, linarith)
qed

lemma sem_take:
  assumes "sem_ok n s" "tokens s \<noteq> 0"
  shows "unat (tokens s) = Suc (unat (tokens s - 1))" "sem_ok n (s\<lparr>tokens := tokens s - 1\<rparr>)"
  using assms unat_dec[OF assms(2)] by (auto simp: sem_ok_def)

lemma sem_release_hand:
  "dropWhile f (sem_waiters s) = e # r \<Longrightarrow>
     sem_release f s = (f(e := True), s\<lparr>sem_waiters := r\<rparr>)"
  by (simp add: sem_release_def hand_over_eq)

lemma sem_release_free:
  "dropWhile f (sem_waiters s) = [] \<Longrightarrow>
     sem_release f s = (f, s\<lparr>sem_waiters := [], tokens := tokens s + 1\<rparr>)"
  by (simp add: sem_release_def hand_over_eq del: dropWhile_eq_Nil_conv)

lemma n31: "unat (n :: 31 word) < 2147483648"
  using unsigned_less[where ?'a = nat, of n] by simp

lemma unat_inc31:
  "unat (x :: usize) < unat (n :: 31 word) \<Longrightarrow> unat (x + 1) = Suc (unat x)"
  using n31[of n] by (simp add: unat_word_ariths)

lemma unat_ucast31 [simp]: "unat (ucast (n :: 31 word) :: usize) = unat n"
  using n31[of n] by (simp add: unsigned_ucast_eq take_bit_nat_eq_self)

interpretation sm: permit_provider "\<lambda>_. None"
  "\<lambda>s. case sem_or_raise s of Inr (_, s') \<Rightarrow> Some s' | Inl _ \<Rightarrow> None"
  sem_acquire sem_ctx_exit sem_room "sem_new (ucast n)" "\<lambda>s. unat (tokens s)" sem_waiters
  "sem_ok (unat n)" "unat n" for n :: "31 word"
proof (unfold_locales, goal_cases)
  case (8 p f e r)
  then have "tokens p = 0" by (auto simp: sem_ok_def)
  with 8 show ?case by (auto simp: sem_ctx_exit_def sem_release_hand sem_ok_def)
next
  case (9 p f)
  then show ?case
    using unat_inc31[of "tokens p" n]
    by (auto simp: sem_ctx_exit_def sem_release_free sem_ok_def simp del: dropWhile_eq_Nil_conv)
next
  case (5 p p')
  then show ?case
    using sem_take[of "unat n" p] sem_value_pos[of "unat n" p] n31[of n]
    by (auto simp: sem_or_raise_def sem_try_acquire_def sem_room_def split: if_splits)
next
  case (6 p e p')
  then show ?case
    using sem_take[of "unat n" p] sem_value_pos[of "unat n" p] n31[of n]
    by (auto simp: sem_acquire_def sem_room_def split: if_splits)
next
  case (7 p e p')
  then show ?case
    using sem_value_pos[of "unat n" p] n31[of n]
    by (auto simp: sem_acquire_def sem_room_def sem_ok_def split: if_splits)
qed (auto simp: sem_new_def sem_ok_def)

section \<open>Properties of the lock\<close>

lemma lock_reach_lk: "lock_reach s \<longleftrightarrow> lk.reachable s"
  by (simp add: lock_reach_def lock_step_def)

text \<open>
  A run for the witnesses: task 0 acquires; tasks 1 and 2 find the lock taken and park; task 1 is
  cancelled and withdraws.
\<close>

definition lock_sys :: "lock \<Rightarrow> (event_id \<Rightarrow> bool) \<Rightarrow> event_id \<Rightarrow> (task_id \<Rightarrow> pc) \<Rightarrow> lock psys" where
  "lock_sys l f n p = \<lparr>prov = l, flags = f, fresh = n, pcs = p\<rparr>"

lemma lock_reach_start: "lock_reach (lock_sys lock_new (\<lambda>_. False) 0 (\<lambda>_. Idle))"
  unfolding lock_reach_def by (rule reach.start) (simp add: permit_init_def lock_sys_def)

lemma lock_reach_next: "lock_reach s \<Longrightarrow> lock_step s t \<Longrightarrow> lock_reach t"
  unfolding lock_reach_def by (rule reach.next_state)

lemma lock_run_held:
  "lock_reach (lock_sys \<lparr>state = True, waiters = []\<rparr> (\<lambda>_. False) 0 ((\<lambda>_. Idle)(0 := Holding)))"
  by (rule lock_reach_next[OF lock_reach_start])
     (use permit_step.fast_ok[where s = "lock_sys lock_new (\<lambda>_. False) 0 (\<lambda>_. Idle)" and i = 0]
      in \<open>simp add: lock_step_def lock_sys_def lock_new_def lock_acquire_fast_def cas_def\<close>)

lemma lock_run_slow:
  "lock_reach (lock_sys l f n p) \<Longrightarrow> state l \<Longrightarrow> p i = Idle \<Longrightarrow> lock_reach (lock_sys l f n (p(i := Slow)))"
  by (erule lock_reach_next)
     (use permit_step.fast_fail[where s = "lock_sys l f n p" and i = i]
      in \<open>simp add: lock_step_def lock_sys_def lock_acquire_fast_def cas_def\<close>)

lemma lock_run_park:
  "lock_reach (lock_sys l f n p) \<Longrightarrow> state l \<Longrightarrow> p i = Slow \<Longrightarrow>
     lock_reach (lock_sys (l\<lparr>waiters := waiters l @ [n]\<rparr>) (f(n := False)) (Suc n) (p(i := Waiting n)))"
  by (erule lock_reach_next)
     (use permit_step.slow_wait[where s = "lock_sys l f n p" and i = i]
      in \<open>simp add: lock_step_def lock_sys_def lock_acquire_slow_def cas_def\<close>)

definition lock_demo :: "lock psys" where
  "lock_demo = lock_sys \<lparr>state = True, waiters = [0, 1]\<rparr> (\<lambda>_. False) 2
     ((\<lambda>_. Idle)(0 := Holding, 1 := Waiting 0, 2 := Waiting 1))"

lemma lock_run_parked: "lock_reach lock_demo"
proof -
  have "lock_reach (lock_sys \<lparr>state = True, waiters = []\<rparr> (\<lambda>_. False) 0
     ((\<lambda>_. Idle)(0 := Holding, 1 := Slow)))"
    using lock_run_slow[OF lock_run_held, of 1] by simp
  from lock_run_park[OF this, of 1] have "lock_reach (lock_sys \<lparr>state = True, waiters = [0]\<rparr> (\<lambda>_. False) 1
     ((\<lambda>_. Idle)(0 := Holding, 1 := Waiting 0)))"
    by (simp add: fun_upd_idem)
  from lock_run_slow[OF this, of 2] have "lock_reach (lock_sys \<lparr>state = True, waiters = [0]\<rparr> (\<lambda>_. False) 1
     ((\<lambda>_. Idle)(0 := Holding, 1 := Waiting 0, 2 := Slow)))"
    by simp
  from lock_run_park[OF this, of 2] show ?thesis
    by (simp add: fun_upd_idem lock_demo_def numeral_2_eq_2)
qed

lemma lock_demo_simps [simp]:
  "prov lock_demo = \<lparr>state = True, waiters = [0, 1]\<rparr>" "flags lock_demo = (\<lambda>_. False)"
  "pcs lock_demo = (\<lambda>_. Idle)(0 := Holding, 1 := Waiting 0, 2 := Waiting 1)"
  by (simp_all add: lock_demo_def lock_sys_def)

text \<open>
  C1. Mutual exclusion: whatever the interleaving of acquisitions, cancellations and releases of any
  number of tasks, two tasks that hold the lock are the same task.
\<close>

theorem lock_mutual_exclusion:
  assumes "lock_reach s" and "pcs s i = Holding" and "pcs s j = Holding"
  shows "i = j"
proof -
  have r: "lk.reachable s" using assms(1) by (simp add: lock_reach_lk)
  have "{i, j} \<subseteq> {k. pcs s k = Holding}" using assms(2,3) by auto
  then have "card {i, j} \<le> 1"
    using card_mono[OF lk.holders_bounded(1)[OF r]] lk.holders_bounded(2)[OF r] le_trans by blast
  then show ?thesis by (cases "i = j") auto
qed

theorem lock_mutual_exclusion_witness:
  "\<exists>s. lock_reach s \<and> {i. pcs s i = Holding} = {0}"
proof -
  have h: "pcs lock_demo 0 = Holding" by simp
  have "{i. pcs lock_demo i = Holding} = {0}"
    using h lock_mutual_exclusion[OF lock_run_parked _ h] by blast
  then show ?thesis using lock_run_parked by blast
qed

text \<open>
  C6. The lock is neither leaked nor wedged by cancellation: when no task is acquiring, waiting for
  or holding it, it is free; and while a task is parked on an event that is not set, some task owns
  the lock and its release is still to come.
\<close>

theorem lock_never_wedged:
  assumes "lock_reach s"
  shows "((\<forall>i. pcs s i = Idle) \<longrightarrow> \<not> state (prov s)) \<and>
    (pcs s i = Waiting e \<and> \<not> flags s e \<longrightarrow> state (prov s) \<and> (\<exists>j. owner s j))"
proof -
  have r: "lk.reachable s" using assms by (simp add: lock_reach_lk)
  have "\<not> state (prov s)" if "\<forall>i. pcs s i = Idle"
    using lk.none_lost[OF r] that by (auto simp: lock_free_def split: if_splits)
  moreover have "state (prov s) \<and> (\<exists>j. owner s j)" if "pcs s i = Waiting e" "\<not> flags s e"
    using lk.parked_has_owner[OF r, of i e] that
    by (auto simp: lock_free_def waits_def split: if_splits)
  ultimately show ?thesis by blast
qed

theorem lock_never_wedged_witness:
  "\<exists>s. lock_reach s \<and> pcs s 1 = Waiting 0 \<and> \<not> flags s 0 \<and> state (prov s) \<and> (\<exists>j. owner s j)"
  using lock_never_wedged[OF lock_run_parked, of 1 0]
  by (intro exI[of _ lock_demo] conjI lock_run_parked) simp_all

text \<open>
  First come, first served: when the holder releases, the waiter with the oldest event that is
  still pending (not withdrawn by a cancellation) becomes the owner, and no other event is set.
\<close>

theorem lock_release_fifo:
  assumes "lock_reach s" and "pcs s i = Holding" and "waits s k e" and "\<not> flags s e"
    and "\<forall>j e'. waits s j e' \<and> \<not> flags s e' \<longrightarrow> e \<le> e'"
  shows "fst (lock_ctx_exit (flags s) (prov s)) = (flags s)(e := True)"
  by (rule lk.release_oldest) (use assms in \<open>auto simp: lock_reach_lk\<close>)

theorem lock_release_fifo_witness:
  "\<exists>s. lock_reach s \<and> pcs s 1 = Waiting 0 \<and> pcs s 2 = Waiting 1 \<and>
     fst (lock_ctx_exit (flags s) (prov s)) = (flags s)(0 := True)"
proof -
  have "fst (lock_ctx_exit (flags lock_demo) (prov lock_demo)) = (flags lock_demo)(0 := True)"
    by (rule lock_release_fifo[OF lock_run_parked, of 0 1]) (auto simp: waits_def split: if_splits)
  moreover have "pcs lock_demo 1 = Waiting 0" "pcs lock_demo 2 = Waiting 1" by simp_all
  ultimately show ?thesis using lock_run_parked by blast
qed

section \<open>Properties of the semaphore\<close>

lemma sem_reach_sm:
  assumes "unat n < 2 ^ 31"
  obtains m :: "31 word" where "ucast m = n" "unat m = unat n"
    "\<And>s. sem_reach n s \<longleftrightarrow> sm.reachable m s"
proof
  have u: "unat (ucast n :: 31 word) = unat n"
    using assms by (simp add: unsigned_ucast_eq take_bit_nat_eq_self)
  then show "unat (ucast n :: 31 word) = unat n" .
  show e: "ucast (ucast n :: 31 word) = n"
    by (rule word_unat_eq_iff [THEN iffD2]) (simp only: unat_ucast31 u)
  show "sem_reach n s \<longleftrightarrow> sm.reachable (ucast n) s" for s
    by (simp add: sem_reach_def sem_step_def e)
qed

text \<open>
  C7. A semaphore created with a count below $2^{31}$ lets at most that many tasks in at a time, and
  gives every permit back: the free permits are the initial count as soon as every task is outside,
  also when acquirers were cancelled while they waited or while a permit was being handed to them.
\<close>

theorem sem_permits_conserved:
  assumes "unat n < 2 ^ 31" and "sem_reach n s"
  shows "card {i. pcs s i = Holding} \<le> unat n \<and>
    card {i. owner s i} + unat (tokens (prov s)) = unat n \<and>
    ((\<forall>i. pcs s i = Idle) \<longrightarrow> tokens (prov s) = n)"
proof -
  obtain m where m: "ucast m = n" "unat m = unat n" "sm.reachable m s"
    using sem_reach_sm[OF assms(1)] assms(2) by metis
  have "unat (tokens (prov s)) = unat n" if "\<forall>i. pcs s i = Idle"
    using sm.none_lost[OF m(3)] that m(2) by auto
  then have "tokens (prov s) = n" if "\<forall>i. pcs s i = Idle"
    using that by (simp add: word_unat_eq_iff)
  then show ?thesis
    using sm.holders_bounded(2)[OF m(3)] sm.pinvD(10)[OF sm.permits.reach_inv[OF m(3)]] m(2) by auto
qed

theorem sem_permits_conserved_witness:
  "\<exists>s. sem_reach 2 s \<and> card {i. owner s i} + unat (tokens (prov s)) = 2"
proof -
  let ?s = "\<lparr>prov = sem_new 2, flags = \<lambda>_. False, fresh = 0, pcs = \<lambda>_. Idle\<rparr>"
  let ?t = "?s\<lparr>prov := sem_new 1, pcs := (pcs ?s)(7 := Holding)\<rparr>"
  have "sem_reach 2 ?s"
    unfolding sem_reach_def by (rule reach.start) (simp add: permit_init_def)
  moreover have "sem_step ?s ?t"
    unfolding sem_step_def
    by (rule permit_step.try_ok)
       (simp_all add: sem_room_def sem_new_def sem_or_raise_def sem_try_acquire_def sem_value_def as_i32_def)
  ultimately have r: "sem_reach 2 ?t"
    unfolding sem_reach_def by (rule reach.next_state)
  then have "card {i. owner ?t i} + unat (tokens (prov ?t)) = 2"
    using sem_permits_conserved[of 2 ?t] by simp
  then show ?thesis using r by blast
qed

text \<open>
  The bound is needed: a fresh semaphore with $2^{31}$ permits parks its first acquirer, because
  the count is negative once cast to \<open>i32\<close>.
\<close>

theorem sem_acquire_wide_parks:
  "sem_acquire e (sem_new 2147483648) = (False, (sem_new 2147483648)\<lparr>sem_waiters := [e]\<rparr>) \<and>
   sem_try_acquire (sem_new 2147483648) = Inl (WouldBlock ''Cannot acquire semaphore'')"
  by (simp add: sem_acquire_def sem_try_acquire_def sem_new_def sem_value_def as_i32_def)

end
