(* ===== verification/Barrier.thy ===== *)
theory Barrier
  imports Prelude
begin

text \<open>
  \<open>Barrier\<close> of \<open>src/src/sync.rs\<close> and its coroutine \<open>Barrier.wait\<close> of \<open>src/tonio/_sync.py\<close>: an atomic
  count of arrivals and one event, set by the arrival that completes the party. \<open>spawn\<close> joins its
  tasks through a barrier of one more than their number.
\<close>

record barrier =
  bvalue :: usize
  count :: usize
  bflag :: bool

definition barrier_new :: "usize \<Rightarrow> barrier" where
  "barrier_new v = \<lparr>bvalue = v, count = 0, bflag = False\<rparr>"

text \<open>\<open>Barrier::ack\<close>: the arrival's number, and the event set when the party is complete.\<close>

definition barrier_ack :: "barrier \<Rightarrow> usize \<times> barrier" where
  "barrier_ack b =
     (let c = count b; b' = b\<lparr>count := c + 1\<rparr>
      in (c, if c + 1 \<ge> bvalue b then b'\<lparr>bflag := True\<rparr> else b'))"

datatype bpc = Outside | Parked usize | Passed usize

record bsys =
  bar :: barrier
  bpcs :: "task_id \<Rightarrow> bpc"

text \<open>
  \<open>Barrier.wait\<close>: acknowledge, suspend on the event, return the number. The count never wraps: a
  process cannot hold $2^{64}$ tasks.
\<close>

inductive barrier_step :: "bsys \<Rightarrow> bsys \<Rightarrow> bool" where
  arrive: "bpcs s i = Outside \<Longrightarrow> count (bar s) \<noteq> - 1 \<Longrightarrow> barrier_ack (bar s) = (c, b) \<Longrightarrow>
     barrier_step s (s\<lparr>bar := b, bpcs := (bpcs s)(i := Parked c)\<rparr>)"
| pass: "bpcs s i = Parked c \<Longrightarrow> bflag (bar s) \<Longrightarrow>
     barrier_step s (s\<lparr>bpcs := (bpcs s)(i := Passed c)\<rparr>)"

definition barrier_init :: "usize \<Rightarrow> bsys \<Rightarrow> bool" where
  "barrier_init v s \<longleftrightarrow> bar s = barrier_new v \<and> (\<forall>i. bpcs s i = Outside)"

definition barrier_reach :: "usize \<Rightarrow> bsys \<Rightarrow> bool" where
  "barrier_reach v = reach (barrier_init v) barrier_step"

definition arrived :: "bsys \<Rightarrow> task_id set" where
  "arrived s = {i. bpcs s i \<noteq> Outside}"

fun ticket :: "bpc \<Rightarrow> nat" where
  "ticket (Parked c) = unat c"
| "ticket (Passed c) = unat c"
| "ticket Outside = 0"

definition binv :: "usize \<Rightarrow> bsys \<Rightarrow> bool" where
  "binv v s \<longleftrightarrow> bvalue (bar s) = v
     \<and> finite (arrived s) \<and> card (arrived s) = unat (count (bar s))
     \<and> (bflag (bar s) \<longleftrightarrow> arrived s \<noteq> {} \<and> unat v \<le> card (arrived s))
     \<and> (\<forall>i \<in> arrived s. ticket (bpcs s i) < card (arrived s))
     \<and> inj_on (\<lambda>i. ticket (bpcs s i)) (arrived s)
     \<and> (\<forall>i c. bpcs s i = Passed c \<longrightarrow> bflag (bar s))"

lemma binv_init: "barrier_init v s \<Longrightarrow> binv v s"
  by (auto simp: barrier_init_def barrier_new_def binv_def arrived_def)

lemma unat_Suc_nowrap:
  assumes "(c :: usize) \<noteq> - 1"
  shows "unat (c + 1) = Suc (unat c)"
proof -
  have "1 + c \<noteq> 0" using assms by (metis add_eq_0_iff)
  then have "unat (1 + c) = Suc (unat c)" by (rule unatSuc)
  then show ?thesis by (simp add: add.commute)
qed

lemma binv_arrive:
  assumes inv: "binv v s" and pc: "bpcs s i = Outside" and c: "count (bar s) \<noteq> - 1"
    and b: "barrier_ack (bar s) = (k, b)"
  shows "binv v (s\<lparr>bar := b, bpcs := (bpcs s)(i := Parked k)\<rparr>)" (is "binv v ?t")
proof -
  have k: "k = count (bar s)" and vb: "bvalue b = bvalue (bar s)" and cb: "count b = count (bar s) + 1"
    and fb: "bflag b \<longleftrightarrow> bflag (bar s) \<or> bvalue (bar s) \<le> count (bar s) + 1"
    using b by (auto simp: barrier_ack_def Let_def)
  note u = unat_Suc_nowrap[OF c]
  have a: "arrived ?t = insert i (arrived s)" and ni: "i \<notin> arrived s"
    using pc by (auto simp: arrived_def)
  have fin: "finite (arrived s)" and crd: "card (arrived s) = unat (count (bar s))"
    and val: "bvalue (bar s) = v" and lt: "\<forall>j \<in> arrived s. ticket (bpcs s j) < card (arrived s)"
    and inj: "inj_on (\<lambda>j. ticket (bpcs s j)) (arrived s)"
    and pass: "\<forall>j c. bpcs s j = Passed c \<longrightarrow> bflag (bar s)"
    and flag: "bflag (bar s) \<longleftrightarrow> arrived s \<noteq> {} \<and> unat v \<le> card (arrived s)"
    using inv unfolding binv_def by blast+
  note n = card_insert_fresh[OF fin ni a]
  have tk: "ticket (bpcs ?t j) = (if j = i then card (arrived s) else ticket (bpcs s j))" for j
    using k crd by simp
  have "bflag b \<longleftrightarrow> unat v \<le> card (arrived ?t)"
  proof -
    have "bvalue (bar s) \<le> count (bar s) + 1 \<longleftrightarrow> unat v \<le> Suc (card (arrived s))"
      unfolding word_le_nat_alt u val crd ..
    then show ?thesis using fb flag unfolding n(1) by linarith
  qed
  moreover have "inj_on (\<lambda>j. ticket (bpcs ?t j)) (arrived ?t)"
    using inj lt ni unfolding tk a inj_on_def by (metis insert_iff nat_neq_iff)
  moreover have "\<forall>j \<in> arrived ?t. ticket (bpcs ?t j) < card (arrived ?t)"
    unfolding tk n(1) using lt a by (auto simp: less_Suc_eq)
  moreover have "bpcs ?t j = Passed c' \<Longrightarrow> bflag b" for j c'
    using pass fb by (auto split: if_splits)
  moreover have "card (arrived ?t) = unat (count b)" "arrived ?t \<noteq> {}"
    using n(1) u crd cb a by simp_all
  ultimately show ?thesis
    using n(2) val vb unfolding binv_def by (simp del: fun_upd_apply)
qed

lemma binv_pass:
  assumes inv: "binv v s" and pc: "bpcs s i = Parked c" and f: "bflag (bar s)"
  shows "binv v (s\<lparr>bpcs := (bpcs s)(i := Passed c)\<rparr>)" (is "binv v ?t")
proof -
  have a: "arrived ?t = arrived s" using pc by (auto simp: arrived_def)
  have tk: "ticket (bpcs ?t j) = ticket (bpcs s j)" for j using pc by simp
  show ?thesis using inv f unfolding binv_def a tk by (elim conjE) simp
qed

interpretation br: step_system "barrier_init v" barrier_step "binv v" for v
proof
  show "binv v t" if "barrier_step s t" "binv v s" for s t
    using that by (cases rule: barrier_step.cases) (auto intro: binv_arrive binv_pass)
qed (rule binv_init)

text \<open>
  C27. The barrier opens for a party of at least its value and not before: a task passes only when
  that many tasks have arrived, and once they have the event is set; the numbers returned are
  pairwise different and below the number of arrivals.
\<close>

theorem barrier_opens_together:
  assumes "barrier_reach v s"
  shows "(\<forall>i c. bpcs s i = Passed c \<longrightarrow> unat v \<le> card (arrived s)) \<and>
    (arrived s \<noteq> {} \<and> unat v \<le> card (arrived s) \<longrightarrow> bflag (bar s)) \<and>
    inj_on (\<lambda>i. ticket (bpcs s i)) (arrived s) \<and>
    (\<lambda>i. ticket (bpcs s i)) ` arrived s \<subseteq> {..<card (arrived s)}"
proof -
  have "binv v s" using br.reach_inv assms by (simp add: barrier_reach_def)
  then show ?thesis by (auto simp: binv_def)
qed

theorem barrier_opens_together_witness:
  "\<exists>s. barrier_reach 2 s \<and> card (arrived s) = 2 \<and> bflag (bar s)"
proof -
  let ?s = "\<lparr>bar = barrier_new 2, bpcs = \<lambda>_. Outside\<rparr>"
  let ?t = "?s\<lparr>bar := (barrier_new 2)\<lparr>count := 1\<rparr>, bpcs := (bpcs ?s)(3 := Parked 0)\<rparr>"
  let ?u = "?t\<lparr>bar := (barrier_new 2)\<lparr>count := 2, bflag := True\<rparr>, bpcs := (bpcs ?t)(5 := Parked 1)\<rparr>"
  have "barrier_reach 2 ?s"
    unfolding barrier_reach_def by (rule reach.start) (simp add: barrier_init_def)
  moreover have "barrier_step ?s ?t"
    by (rule barrier_step.arrive)
       (simp_all add: barrier_ack_def barrier_new_def Let_def word_le_nat_alt)
  moreover have "barrier_step ?t ?u"
    by (rule barrier_step.arrive)
       (simp_all add: barrier_ack_def barrier_new_def Let_def word_le_nat_alt)
  ultimately have r: "barrier_reach 2 ?u"
    unfolding barrier_reach_def by (blast intro: reach.next_state)
  have "arrived ?u = {3, 5}" by (auto simp: arrived_def split: if_splits)
  then show ?thesis using r barrier_opens_together[OF r] by (intro exI[of _ ?u]) simp
qed

end
