(* ===== verification/Py_IO.thy ===== *)
theory Py_IO
  imports Prelude Py_Errors
begin

text \<open>
  How the sequential Python code is written down. A coroutine (or a plain function) is a function
  of the world it acts on, the kernel, the runtime and the objects it mutates, to its outcome and
  the world it leaves: the value it returns or the exception it raises. \<^const>\<open>None\<close> is a call that
  never returns, because a loop does not end or a suspension is never resumed; that a call returns
  is therefore always part of what is proved of it (\<open>wp\<close> is total correctness).

  Every \<open>while\<close> loop of the sources is the one combinator \<open>loop\<close>, so the two rules proved for it
  carry all the loops of the development. Python's statements are the combinators: \<open>bnd\<close> runs
  in sequence, \<open>try_except\<close> and \<open>try_else\<close> are \<open>try\<close> with handlers, \<open>try_finally\<close> the clean-up clause.
  Objects the code calls methods of (a standard-library socket, an \<open>SSLObject\<close>, a transport) are
  records of such functions, as Python looks methods up on whatever object it is given.
\<close>

type_synonym ('a, 'w) io = "'w \<Rightarrow> ((exn + 'a) \<times> 'w) option"

definition ret :: "'a \<Rightarrow> ('a, 'w) io" where
  "ret a = (\<lambda>w. Some (Inr a, w))"

definition raise :: "exn \<Rightarrow> ('a, 'w) io" where
  "raise e = (\<lambda>w. Some (Inl e, w))"

definition bnd :: "('a, 'w) io \<Rightarrow> ('a \<Rightarrow> ('b, 'w) io) \<Rightarrow> ('b, 'w) io" where
  "bnd m f = (\<lambda>w. case m w of
      None \<Rightarrow> None
    | Some (Inl e, w') \<Rightarrow> Some (Inl e, w')
    | Some (Inr a, w') \<Rightarrow> f a w')"

text \<open>
  \<open>try: m except p as e: h e\<close>, and \<open>try: m except p as e: h e else: k\<close>. The \<open>else\<close> clause is outside
  the handlers.
\<close>

definition try_else ::
    "('a, 'w) io \<Rightarrow> (exn \<Rightarrow> bool) \<Rightarrow> (exn \<Rightarrow> ('b, 'w) io) \<Rightarrow> ('a \<Rightarrow> ('b, 'w) io) \<Rightarrow> ('b, 'w) io" where
  "try_else m p h k = (\<lambda>w. case m w of
      None \<Rightarrow> None
    | Some (Inl e, w') \<Rightarrow> if p e then h e w' else Some (Inl e, w')
    | Some (Inr a, w') \<Rightarrow> k a w')"

definition try_except :: "('a, 'w) io \<Rightarrow> (exn \<Rightarrow> bool) \<Rightarrow> (exn \<Rightarrow> ('a, 'w) io) \<Rightarrow> ('a, 'w) io" where
  "try_except m p h = try_else m p h ret"

definition try_finally :: "('a, 'w) io \<Rightarrow> (unit, 'w) io \<Rightarrow> ('a, 'w) io" where
  "try_finally m f = (\<lambda>w. case m w of
      None \<Rightarrow> None
    | Some (r, w') \<Rightarrow> (case f w' of
        None \<Rightarrow> None
      | Some (Inl e, w'') \<Rightarrow> Some (Inl e, w'')
      | Some (Inr _, w'') \<Rightarrow> Some (r, w'')))"

definition read :: "('w \<Rightarrow> 'a) \<Rightarrow> ('a, 'w) io" where
  "read f = (\<lambda>w. Some (Inr (f w), w))"

definition modify :: "('w \<Rightarrow> 'w) \<Rightarrow> (unit, 'w) io" where
  "modify f = (\<lambda>w. Some (Inr (), f w))"

definition when_true :: "bool \<Rightarrow> (unit, 'w) io \<Rightarrow> (unit, 'w) io" where
  "when_true b m = (if b then m else ret ())"

text \<open>
  \<open>while True\<close>: the body answers \<^const>\<open>Inl\<close> with the loop's variables to go round again and
  \<^const>\<open>Inr\<close> to leave, by \<open>break\<close> or \<open>return\<close>.
\<close>

partial_function (option) loop :: "('s \<Rightarrow> ('s + 'a, 'w) io) \<Rightarrow> 's \<Rightarrow> ('a, 'w) io" where
  "loop body s w = (case body s w of
      None \<Rightarrow> None
    | Some (Inl e, w') \<Rightarrow> Some (Inl e, w')
    | Some (Inr (Inl s'), w') \<Rightarrow> loop body s' w'
    | Some (Inr (Inr a), w') \<Rightarrow> Some (Inr a, w'))"

declare loop.simps [code]

text \<open>\<open>for x in xs\<close>.\<close>

primrec for_each :: "'a list \<Rightarrow> ('a \<Rightarrow> (unit, 'w) io) \<Rightarrow> (unit, 'w) io" where
  "for_each [] f = ret ()"
| "for_each (x # xs) f = bnd (f x) (\<lambda>_. for_each xs f)"

text \<open>A call that came back with a value, for the evaluation of concrete runs.\<close>

fun returned :: "((exn + 'a) \<times> 'w) option \<Rightarrow> 'a option" where
  "returned (Some (Inr a, _)) = Some a"
| "returned _ = None"

lemma returned_SomeE: "returned r = Some a \<Longrightarrow> (\<And>w'. r = Some (Inr a, w') \<Longrightarrow> P) \<Longrightarrow> P"
  by (cases r rule: returned.cases) auto

definition left_with :: "('w \<Rightarrow> 'b) \<Rightarrow> ((exn + 'a) \<times> 'w) option \<Rightarrow> 'b option" where
  "left_with f r = (case r of Some (Inr _, w) \<Rightarrow> Some (f w) | _ \<Rightarrow> None)"

lemma left_withE: "left_with f r = Some b \<Longrightarrow> (\<And>a w. r = Some (Inr a, w) \<Longrightarrow> f w = b \<Longrightarrow> P) \<Longrightarrow> P"
  by (cases r rule: returned.cases) (auto simp: left_with_def)

section \<open>Calls in the pool of blocking threads\<close>

text \<open>
  What becomes of a call handed to the pool of blocking threads: it ran; it was aborted before it
  started; or it was interrupted by the cancellation after it took effect.
\<close>

datatype pool_event = Completed | Aborted | Interrupted

definition in_pool :: "(pool_event, 'w) io \<Rightarrow> ('a, 'w) io \<Rightarrow> ('a, 'w) io" where
  "in_pool pool m = bnd pool (\<lambda>ev. case ev of
      Completed \<Rightarrow> m
    | Aborted \<Rightarrow> raise CancelledError
    | Interrupted \<Rightarrow> bnd m (\<lambda>_. raise CancelledError))"

section \<open>Weakest preconditions\<close>

text \<open>
  \<open>wp m Q E w\<close>: called in \<open>w\<close>, \<open>m\<close> returns; with a value and a world that satisfy \<open>Q\<close>, or by
  raising an exception, with a world, that satisfy \<open>E\<close>. \<open>wlp\<close> asks it only of the calls that return.
\<close>

named_theorems wp \<open>weakest preconditions of the combinators and primitives\<close>

type_synonym ('a, 'w) post = "'a \<Rightarrow> 'w \<Rightarrow> bool"

definition wp :: "('a, 'w) io \<Rightarrow> ('a, 'w) post \<Rightarrow> (exn, 'w) post \<Rightarrow> 'w \<Rightarrow> bool" where
  "wp m Q E w \<longleftrightarrow> (case m w of None \<Rightarrow> False | Some (Inr a, w') \<Rightarrow> Q a w' | Some (Inl e, w') \<Rightarrow> E e w')"

definition wlp :: "('a, 'w) io \<Rightarrow> ('a, 'w) post \<Rightarrow> (exn, 'w) post \<Rightarrow> 'w \<Rightarrow> bool" where
  "wlp m Q E w \<longleftrightarrow> (case m w of None \<Rightarrow> True | Some (Inr a, w') \<Rightarrow> Q a w' | Some (Inl e, w') \<Rightarrow> E e w')"

lemma wpD:
  "wp m Q E w \<Longrightarrow> (\<exists>a w'. m w = Some (Inr a, w') \<and> Q a w') \<or> (\<exists>e w'. m w = Some (Inl e, w') \<and> E e w')"
  by (cases "m w"; cases "fst (the (m w))") (auto simp: wp_def)

lemma wp_Inr: "m w = Some (Inr a, w') \<Longrightarrow> wp m Q E w \<longleftrightarrow> Q a w'"
  by (simp add: wp_def)

lemma wp_Inl: "m w = Some (Inl e, w') \<Longrightarrow> wp m Q E w \<longleftrightarrow> E e w'"
  by (simp add: wp_def)

lemma wlp_Inr: "wlp m Q E w \<Longrightarrow> m w = Some (Inr a, w') \<Longrightarrow> Q a w'"
  by (simp add: wlp_def)

lemma wlp_Inl: "wlp m Q E w \<Longrightarrow> m w = Some (Inl e, w') \<Longrightarrow> E e w'"
  by (simp add: wlp_def)

lemma wp_mono:
  "wp m Q E w \<Longrightarrow> (\<And>a w'. Q a w' \<Longrightarrow> Q' a w') \<Longrightarrow> (\<And>e w'. E e w' \<Longrightarrow> E' e w') \<Longrightarrow> wp m Q' E' w"
  by (auto simp: wp_def split: option.splits sum.splits)

lemma wlp_mono:
  "wlp m Q E w \<Longrightarrow> (\<And>a w'. Q a w' \<Longrightarrow> Q' a w') \<Longrightarrow> (\<And>e w'. E e w' \<Longrightarrow> E' e w') \<Longrightarrow> wlp m Q' E' w"
  by (auto simp: wlp_def split: option.splits sum.splits)

lemma wp_wlp: "wp m Q E w \<Longrightarrow> wlp m Q E w"
  by (auto simp: wp_def wlp_def split: option.splits sum.splits)

lemma wp_conj: "wp m Q E w \<Longrightarrow> wlp m Q' E' w \<Longrightarrow> wp m (\<lambda>a w. Q a w \<and> Q' a w) (\<lambda>e w. E e w \<and> E' e w) w"
  by (auto simp: wp_def wlp_def split: option.splits sum.splits)

lemma wp_ret [wp]: "wp (ret a) Q E = Q a"
  by (auto simp: fun_eq_iff wp_def ret_def)

lemma wp_raise [wp]: "wp (raise e) Q E = E e"
  by (auto simp: fun_eq_iff wp_def raise_def)

lemma wp_read [wp]: "wp (read f) Q E = (\<lambda>w. Q (f w) w)"
  by (auto simp: fun_eq_iff wp_def read_def)

lemma wp_modify [wp]: "wp (modify f) Q E = (\<lambda>w. Q () (f w))"
  by (auto simp: fun_eq_iff wp_def modify_def)

lemma wp_bnd [wp]: "wp (bnd m f) Q E = wp m (\<lambda>a. wp (f a) Q E) E"
  by (auto simp: fun_eq_iff wp_def bnd_def split: option.splits sum.splits)

lemma wp_try_else [wp]: "wp (try_else m p h k) Q E = wp m (\<lambda>a. wp (k a) Q E) (\<lambda>e. if p e then wp (h e) Q E else E e)"
  by (auto simp: fun_eq_iff wp_def try_else_def split: option.splits sum.splits)

lemma wp_try_finally [wp]: "wp (try_finally m f) Q E = wp m (\<lambda>a. wp f (\<lambda>_. Q a) E) (\<lambda>e. wp f (\<lambda>_. E e) E)"
  by (auto simp: fun_eq_iff wp_def try_finally_def split: option.splits sum.splits)

lemma wp_try_except [wp]:
  "wp (try_except m p h) Q E = wp m Q (\<lambda>e. if p e then wp (h e) Q E else E e)"
  by (simp add: try_except_def wp)

lemma wp_when_true [wp]: "wp (when_true b m) Q E = (if b then wp m Q E else Q ())"
  by (simp add: when_true_def wp)

lemma wp_if [wp]: "wp (if b then m else m') Q E = (if b then wp m Q E else wp m' Q E)"
  by simp

lemma wlp_ret [wp]: "wlp (ret a) Q E = Q a"
  by (auto simp: fun_eq_iff wlp_def ret_def)

lemma wlp_raise [wp]: "wlp (raise e) Q E = E e"
  by (auto simp: fun_eq_iff wlp_def raise_def)

lemma wlp_read [wp]: "wlp (read f) Q E = (\<lambda>w. Q (f w) w)"
  by (auto simp: fun_eq_iff wlp_def read_def)

lemma wlp_modify [wp]: "wlp (modify f) Q E = (\<lambda>w. Q () (f w))"
  by (auto simp: fun_eq_iff wlp_def modify_def)

lemma wlp_bnd [wp]: "wlp (bnd m f) Q E = wlp m (\<lambda>a. wlp (f a) Q E) E"
  by (auto simp: fun_eq_iff wlp_def bnd_def split: option.splits sum.splits)

lemma wlp_try_else [wp]: "wlp (try_else m p h k) Q E = wlp m (\<lambda>a. wlp (k a) Q E) (\<lambda>e. if p e then wlp (h e) Q E else E e)"
  by (auto simp: fun_eq_iff wlp_def try_else_def split: option.splits sum.splits)

lemma wlp_try_finally [wp]: "wlp (try_finally m f) Q E = wlp m (\<lambda>a. wlp f (\<lambda>_. Q a) E) (\<lambda>e. wlp f (\<lambda>_. E e) E)"
  by (auto simp: fun_eq_iff wlp_def try_finally_def split: option.splits sum.splits)

lemma wlp_try_except [wp]:
  "wlp (try_except m p h) Q E = wlp m Q (\<lambda>e. if p e then wlp (h e) Q E else E e)"
  by (simp add: try_except_def wp)

lemma wlp_when_true [wp]: "wlp (when_true b m) Q E = (if b then wlp m Q E else Q ())"
  by (simp add: when_true_def wp)

lemma wlp_if [wp]: "wlp (if b then m else m') Q E = (if b then wlp m Q E else wlp m' Q E)"
  by simp

section \<open>Loops\<close>

text \<open>What a turn of a loop has to give: the next turn's condition, or the loop's result.\<close>

definition turn :: "('s, 'w) post \<Rightarrow> ('a, 'w) post \<Rightarrow> ('s + 'a, 'w) post" where
  "turn I Q r w \<longleftrightarrow> (case r of Inl s \<Rightarrow> I s w | Inr a \<Rightarrow> Q a w)"

lemma turn_simps [simp]: "turn I Q (Inl s) w \<longleftrightarrow> I s w" "turn I Q (Inr a) w \<longleftrightarrow> Q a w"
  by (simp_all add: turn_def)

lemma wp_loop_unfold:
  "wp (loop body s) Q E w \<longleftrightarrow> wp (body s) (turn (\<lambda>s. wp (loop body s) Q E) Q) E w"
  unfolding wp_def turn_def by (subst loop.simps) (auto split: option.splits sum.splits)

text \<open>
  Total correctness: an invariant of the loop's variables, the world and a number, where each turn
  leaves the loop as wanted or goes round with a smaller number.
\<close>

lemma wp_loop:
  fixes n :: nat
  assumes "I s w n"
    and body: "\<And>s w n. I s w n \<Longrightarrow> wp (body s) (turn (\<lambda>s w. \<exists>m<n. I s w m) Q) E w"
  shows "wp (loop body s) Q E w"
  using assms(1)
proof (induction n arbitrary: s w rule: less_induct)
  case (less n)
  show ?case
  proof (subst wp_loop_unfold, rule wp_mono[OF body[OF less.prems]])
    show "turn (\<lambda>s. wp (loop body s) Q E) Q r w'" if "turn (\<lambda>s w. \<exists>m<n. I s w m) Q r w'" for r w'
      using that by (cases r) (simp_all, blast intro: less.IH)
  qed
qed

text \<open>Partial correctness: the same without the number.\<close>

lemma wlp_loop:
  assumes "I s w" and body: "\<And>s w. I s w \<Longrightarrow> wlp (body s) (turn I Q) E w"
  shows "wlp (loop body s) Q E w"
proof -
  have "(\<forall>s w. I s w \<longrightarrow> wlp (b s) (turn I Q) E w) \<longrightarrow> I s w \<longrightarrow> (case y of (Inr a, w') \<Rightarrow> Q a w' | (Inl e, w') \<Rightarrow> E e w')"
    if "loop b s w = Some y" for b s w y
    using that
  proof (rule loop.raw_induct[rotated])
    fix lp b s w y
    assume IH: "\<And>b s w y. lp b s w = Some y \<Longrightarrow> (\<forall>s w. I s w \<longrightarrow> wlp (b s) (turn I Q) E w) \<longrightarrow> I s w \<longrightarrow>
        (case y of (Inr a, w') \<Rightarrow> Q a w' | (Inl e, w') \<Rightarrow> E e w')"
    assume stp: "(case b s w of
          None \<Rightarrow> None
        | Some (Inl e, w') \<Rightarrow> Some (Inl e, w')
        | Some (Inr (Inl s'), w') \<Rightarrow> lp b s' w'
        | Some (Inr (Inr a), w') \<Rightarrow> Some (Inr a, w')) = Some y"
    show "(\<forall>s w. I s w \<longrightarrow> wlp (b s) (turn I Q) E w) \<longrightarrow> I s w \<longrightarrow> (case y of (Inr a, w') \<Rightarrow> Q a w' | (Inl e, w') \<Rightarrow> E e w')"
    proof (intro impI)
      assume a: "\<forall>s w. I s w \<longrightarrow> wlp (b s) (turn I Q) E w" and i: "I s w"
      have "wlp (b s) (turn I Q) E w" using a i by blast
      then show "case y of (Inr a, w') \<Rightarrow> Q a w' | (Inl e, w') \<Rightarrow> E e w'"
        using stp IH[of b _ _ y] a by (auto simp: wlp_def split: option.splits sum.splits)
    qed
  qed
  then show ?thesis using assms by (auto simp: wlp_def split: option.splits)
qed

text \<open>\<open>for\<close> over a list: an invariant of the elements still to come.\<close>

lemma wp_for_each:
  assumes "I xs w" and "\<And>x xs w. I (x # xs) w \<Longrightarrow> wp (f x) (\<lambda>_. I xs) E w"
  shows "wp (for_each xs f) (\<lambda>_. I []) E w"
  using assms(1)
proof (induction xs arbitrary: w)
  case Nil
  then show ?case by (simp add: wp)
next
  case (Cons x xs)
  show ?case
    using Cons.IH by (simp add: wp) (rule wp_mono[OF assms(2)[OF Cons.prems]])
qed

text \<open>A call that leaves a part of the world, such as the set of open descriptors, as it was.\<close>

definition keeps :: "('w \<Rightarrow> 'b) \<Rightarrow> ('a, 'w) io \<Rightarrow> bool" where
  "keeps opn m \<longleftrightarrow> (\<forall>w. wp m (\<lambda>_ w'. opn w' = opn w) (\<lambda>_ w'. opn w' = opn w) w)"

lemma keeps_basic [intro!]: "keeps opn (ret a)" "keeps opn (raise e)"
  by (simp_all add: keeps_def wp)

lemma keeps_bnd [intro]:
  assumes m: "keeps opn m" and f: "\<And>a. keeps opn (f a)"
  shows "keeps opn (bnd m f)"
  unfolding keeps_def wp_bnd
proof (intro allI, rule wp_mono[OF m[unfolded keeps_def, rule_format]])
  fix w a w'
  assume "opn w' = opn w"
  then show "wp (f a) (\<lambda>_ w'. opn w' = opn w) (\<lambda>_ w'. opn w' = opn w) w'"
    using f[of a, unfolded keeps_def, rule_format, of w'] by simp
qed

lemma keeps_wp: "keeps opn m \<Longrightarrow> opn w = A \<Longrightarrow> (\<And>a w'. opn w' = A \<Longrightarrow> Q a w') \<Longrightarrow> (\<And>e w'. opn w' = A \<Longrightarrow> E e w') \<Longrightarrow> wp m Q E w"
  by (auto simp: keeps_def elim!: wp_mono allE[of _ w])

end
