(* ===== verification/Sched_IO.thy ===== *)
theory Sched_IO
  imports Prelude
begin

text \<open>
  \<open>ScheduledIO\<close> of \<open>src/src/io/schedule.rs\<close>: the cached readiness of one file descriptor, which the
  poller sets and the coroutines consume. The word is kept at its width, with the layout of the
  source: five readiness bits, the shutdown bit, and eight bits of a counter of delivered edges, the
  tick. A coroutine remembers the tick it armed under, and clears the readiness only if the tick is
  still the same, so that an edge delivered after a failed system call is not erased.
\<close>

unbundle bit_operations_syntax

section \<open>The readiness word\<close>

definition READABLE :: usize where "READABLE = 0b000001"
definition WRITABLE :: usize where "WRITABLE = 0b000010"
definition READ_CLOSED :: usize where "READ_CLOSED = 0b000100"
definition WRITE_CLOSED :: usize where "WRITE_CLOSED = 0b001000"
definition ERROR :: usize where "ERROR = 0b010000"
definition SHUTDOWN :: usize where "SHUTDOWN = 0b100000"

definition TICK_MASK :: usize where "TICK_MASK = push_bit 6 0xff"

definition READ_ALL :: usize where "READ_ALL = READABLE OR READ_CLOSED OR ERROR"
definition WRITE_ALL :: usize where "WRITE_ALL = WRITABLE OR WRITE_CLOSED OR ERROR"

definition tick_of :: "usize \<Rightarrow> u8" where
  "tick_of word = ucast (drop_bit 6 (word AND TICK_MASK))"

lemmas mask_defs = READABLE_def WRITABLE_def READ_CLOSED_def WRITE_CLOSED_def ERROR_def SHUTDOWN_def
  READ_ALL_def WRITE_ALL_def TICK_MASK_def

record sched_io =
  readiness :: usize
  tick_r :: u8
  tick_w :: u8
  reader :: "event_id option"
  writer :: "event_id option"

definition sio_new :: sched_io where
  "sio_new = \<lparr>readiness = 0, tick_r = 0, tick_w = 0, reader = None, writer = None\<rparr>"

definition current_tick :: "sched_io \<Rightarrow> u8" where
  "current_tick s = tick_of (readiness s)"

text \<open>
  \<open>arm\<close> looks at the readiness twice, without and with the mutex; the first look only spares the
  creation of an event. \<open>sio_ready\<close> is that look, and \<open>sio_arm\<close> the part under the mutex: \<^const>\<open>None\<close>
  when the direction is ready, else the event \<open>e\<close>, stored in the slot of the direction.
\<close>

definition sio_ready :: "usize \<Rightarrow> sched_io \<Rightarrow> bool" where
  "sio_ready msk s \<longleftrightarrow> readiness s AND (msk OR SHUTDOWN) \<noteq> 0"

definition sio_arm :: "usize \<Rightarrow> event_id \<Rightarrow> sched_io \<Rightarrow> event_id option \<times> sched_io" where
  "sio_arm msk e s =
     (if sio_ready msk s then (None, s)
      else (Some e, if msk AND READABLE \<noteq> 0 then s\<lparr>reader := Some e\<rparr> else s\<lparr>writer := Some e\<rparr>))"

text \<open>\<open>clear\<close>, \<open>consume\<close> and \<open>set_readiness\<close> are atomic updates of the word (\<open>fetch_update\<close>).\<close>

definition sio_clear :: "usize \<Rightarrow> u8 \<Rightarrow> sched_io \<Rightarrow> sched_io" where
  "sio_clear ready tick s =
     (if tick_of (readiness s) \<noteq> tick then s else s\<lparr>readiness := readiness s AND NOT ready\<rparr>)"

definition sio_consume :: "usize \<Rightarrow> sched_io \<Rightarrow> bool \<times> sched_io" where
  "sio_consume msk s =
     (if readiness s AND msk = 0 then (False, s)
      else (True, s\<lparr>readiness := readiness s AND NOT msk\<rparr>))"

definition set_readiness :: "usize \<Rightarrow> sched_io \<Rightarrow> sched_io" where
  "set_readiness ready s =
     s\<lparr>readiness :=
        push_bit 6 (ucast (tick_of (readiness s) + 1)) OR (readiness s AND NOT TICK_MASK) OR ready\<rparr>"

definition sio_wake :: "usize \<Rightarrow> sched_io \<Rightarrow> (event_id option \<times> event_id option) \<times> sched_io" where
  "sio_wake ready s =
     (let rd = (if ready AND READ_ALL \<noteq> 0 then reader s else None);
          wr = (if ready AND WRITE_ALL \<noteq> 0 then writer s else None)
      in ((rd, wr),
          s\<lparr>reader := (if ready AND READ_ALL \<noteq> 0 then None else reader s),
            writer := (if ready AND WRITE_ALL \<noteq> 0 then None else writer s)\<rparr>))"

definition sio_shutdown :: "sched_io \<Rightarrow> (event_id option \<times> event_id option) \<times> sched_io" where
  "sio_shutdown s = sio_wake (READ_ALL OR WRITE_ALL) (s\<lparr>readiness := readiness s OR SHUTDOWN\<rparr>)"

text \<open>
  \<open>arm_r\<close> and \<open>arm_w\<close> are the arming of a direction and, when it is ready, the store of the tick,
  which reads the word once more: \<open>note_tick_r\<close>, \<open>note_tick_w\<close>.
\<close>

definition note_tick_r :: "sched_io \<Rightarrow> sched_io" where
  "note_tick_r s = s\<lparr>tick_r := current_tick s\<rparr>"

definition note_tick_w :: "sched_io \<Rightarrow> sched_io" where
  "note_tick_w s = s\<lparr>tick_w := current_tick s\<rparr>"

definition arm_r :: "event_id \<Rightarrow> sched_io \<Rightarrow> event_id option \<times> sched_io" where
  "arm_r e s = (case sio_arm READ_ALL e s of
      (Some ev, s') \<Rightarrow> (Some ev, s')
    | (None, s') \<Rightarrow> (None, note_tick_r s'))"

definition arm_w :: "event_id \<Rightarrow> sched_io \<Rightarrow> event_id option \<times> sched_io" where
  "arm_w e s = (case sio_arm WRITE_ALL e s of
      (Some ev, s') \<Rightarrow> (Some ev, s')
    | (None, s') \<Rightarrow> (None, note_tick_w s'))"

definition clear_r :: "sched_io \<Rightarrow> sched_io" where
  "clear_r s = sio_clear READ_ALL (tick_r s) s"

definition clear_w :: "sched_io \<Rightarrow> sched_io" where
  "clear_w s = sio_clear WRITE_ALL (tick_w s) s"

definition consume_r :: "sched_io \<Rightarrow> bool \<times> sched_io" where
  "consume_r s = sio_consume READ_ALL s"

definition consume_w :: "sched_io \<Rightarrow> bool \<times> sched_io" where
  "consume_w s = sio_consume WRITE_ALL s"

text \<open>\<open>readiness_from_event\<close>: what \<open>mio\<close> reports of an event, as the five questions it is asked.\<close>

record poll_event =
  is_readable :: bool
  is_writable :: bool
  is_read_closed :: bool
  is_write_closed :: bool
  is_error :: bool

definition readiness_from_event :: "poll_event \<Rightarrow> usize" where
  "readiness_from_event ev =
     (let ready = 0;
          ready = (if is_readable ev then ready OR READABLE else ready);
          ready = (if is_writable ev then ready OR WRITABLE else ready);
          ready = (if is_read_closed ev then ready OR READ_CLOSED else ready);
          ready = (if is_write_closed ev then ready OR WRITE_CLOSED else ready)
      in (if is_error ev then ready OR ERROR else ready))"

section \<open>Bits of the word\<close>

text \<open>A mask of readiness bits: nothing at or above bit 6, where the tick is.\<close>

definition low6 :: "usize \<Rightarrow> bool" where
  "low6 m \<longleftrightarrow> take_bit 6 m = m"

lemma low6_bit: "low6 m \<Longrightarrow> 6 \<le> n \<Longrightarrow> \<not> bit m n"
  unfolding low6_def by (metis bit_take_bit_iff leD)

lemma low6_masks [simp]:
  "low6 READ_ALL" "low6 WRITE_ALL" "low6 SHUTDOWN" "low6 READABLE" "low6 WRITABLE" "low6 (a OR b) \<longleftrightarrow> low6 a \<and> low6 b"
proof -
  show "low6 (a OR b) \<longleftrightarrow> low6 a \<and> low6 b"
    unfolding low6_def bit_eq_iff by (auto simp: bit_simps)
qed (simp_all add: low6_def mask_defs)

lemma TICK_MASK_eq: "TICK_MASK = push_bit 6 (mask 8)"
  by (simp add: TICK_MASK_def mask_eq_exp_minus_1)

lemma bit_tick_of: "bit (tick_of x) n \<longleftrightarrow> n < 8 \<and> bit x (n + 6)"
  unfolding tick_of_def TICK_MASK_eq by (auto simp: bit_simps add.commute)

lemma tick_of_eq_iff: "tick_of x = tick_of y \<longleftrightarrow> (\<forall>n<8. bit x (n + 6) = bit y (n + 6))"
  by (auto simp: bit_eq_iff[of "tick_of x"] bit_tick_of)

lemma tick_of_or [simp]: "low6 m \<Longrightarrow> tick_of (x OR m) = tick_of x"
  by (simp add: tick_of_eq_iff bit_simps low6_bit)

lemma tick_of_and_not [simp]: "low6 m \<Longrightarrow> tick_of (x AND NOT m) = tick_of x"
  by (auto simp: tick_of_eq_iff bit_simps low6_bit)

lemma tick_of_set_readiness [simp]:
  assumes "low6 ready"
  shows "tick_of (readiness (set_readiness ready s)) = tick_of (readiness s) + 1"
proof -
  have "bit (tick_of (push_bit 6 (ucast t) OR (x AND NOT TICK_MASK) OR ready)) n \<longleftrightarrow> bit t n" for t :: u8 and x n
    using low6_bit[OF assms, of "n + 6"]
    by (auto simp: bit_tick_of TICK_MASK_eq bit_simps dest: bit_imp_le_length)
  then show ?thesis
    unfolding set_readiness_def bit_eq_iff[of "tick_of _"] by simp
qed

lemma set_readiness_low:
  assumes "low6 m"
  shows "readiness (set_readiness ready s) AND m = (readiness s AND m) OR (ready AND m)"
  unfolding set_readiness_def bit_eq_iff TICK_MASK_eq
  using low6_bit[OF assms] by (auto simp: bit_simps)

lemma set_readiness_slots [simp]:
  "reader (set_readiness r s) = reader s" "writer (set_readiness r s) = writer s"
  "tick_r (set_readiness r s) = tick_r s" "tick_w (set_readiness r s) = tick_w s"
  by (simp_all add: set_readiness_def)


section \<open>Clearing\<close>

lemma tick_after_edges:
  "low6 r \<Longrightarrow> tick_of (readiness ((set_readiness r ^^ k) s)) = tick_of (readiness s) + of_nat k"
  by (induction k) (simp_all add: add.commute)

lemma ticks_after_edges [simp]: "tick_r ((set_readiness r ^^ k) s) = tick_r s"
  by (induction k) simp_all

text \<open>
  A coroutine that found a direction not ready erases the readiness exactly when no edge was
  delivered since it armed, as far as the eight bits of the tick tell: after \<open>k\<close> edges the readiness
  is untouched, unless \<open>k\<close> is a multiple of 256, when it is erased although \<open>k\<close> edges were delivered.
\<close>

theorem clear_keeps_new_edges:
  assumes "low6 r"
  shows "(k mod 256 \<noteq> 0 \<longrightarrow>
      clear_r ((set_readiness r ^^ k) (note_tick_r s)) = (set_readiness r ^^ k) (note_tick_r s)) \<and>
    (k mod 256 = 0 \<longrightarrow> readiness (clear_r ((set_readiness r ^^ k) (note_tick_r s))) AND READ_ALL = 0)"
proof -
  let ?s = "(set_readiness r ^^ k) (note_tick_r s)"
  have t: "tick_of (readiness ?s) = tick_r ?s + of_nat k"
    using tick_after_edges[OF assms] by (simp add: note_tick_r_def current_tick_def)
  have "(of_nat k :: u8) = 0 \<longleftrightarrow> k mod 256 = 0"
    by (simp add: word_of_nat_eq_0_iff mod_eq_0_iff_dvd)
  then have "tick_of (readiness ?s) = tick_r ?s \<longleftrightarrow> k mod 256 = 0" using t by simp
  moreover have "(x AND NOT READ_ALL) AND READ_ALL = 0" for x :: usize
    by (auto simp: bit_eq_iff bit_simps)
  ultimately show ?thesis by (auto simp: clear_r_def sio_clear_def)
qed

theorem clear_keeps_new_edges_witness:
  "clear_r ((set_readiness READABLE ^^ 255) (note_tick_r sio_new)) = (set_readiness READABLE ^^ 255) (note_tick_r sio_new) \<and>
   readiness (clear_r ((set_readiness READABLE ^^ 256) (note_tick_r sio_new))) AND READ_ALL = 0"
  using clear_keeps_new_edges[of READABLE 255 sio_new] clear_keeps_new_edges[of READABLE 256 sio_new] by simp

text \<open>
  There is one slot per direction: when a second coroutine arms a direction on which a first one is
  parked, it takes the slot over, and no later wake-up or shutdown reaches the first one's event.
\<close>

theorem second_reader_displaces_first:
  assumes "\<not> sio_ready READ_ALL s" and "e1 \<noteq> e2" and "writer s \<noteq> Some e1"
  shows "fst (arm_r e1 s) = Some e1 \<and> fst (arm_r e2 (snd (arm_r e1 s))) = Some e2 \<and>
    (let s2 = snd (arm_r e2 (snd (arm_r e1 s))) in
     reader s2 = Some e2 \<and> Some e1 \<notin> {fst (fst (sio_wake r s2)), snd (fst (sio_wake r s2))} \<and>
     Some e1 \<notin> {fst (fst (sio_shutdown s2)), snd (fst (sio_shutdown s2))})"
proof -
  have m: "READ_ALL AND READABLE \<noteq> 0" by (simp add: mask_defs)
  have a1: "arm_r e1 s = (Some e1, s\<lparr>reader := Some e1\<rparr>)"
    using assms(1) m by (simp add: arm_r_def sio_arm_def)
  have "\<not> sio_ready READ_ALL (s\<lparr>reader := Some e1\<rparr>)" using assms(1) by (simp add: sio_ready_def)
  then have a2: "arm_r e2 (s\<lparr>reader := Some e1\<rparr>) = (Some e2, s\<lparr>reader := Some e2\<rparr>)"
    using m by (simp add: arm_r_def sio_arm_def)
  show ?thesis
    using assms(2,3) by (auto simp: a1 a2 sio_wake_def sio_shutdown_def Let_def)
qed

theorem second_reader_displaces_first_witness:
  "fst (arm_r 1 sio_new) = Some 1 \<and> fst (arm_r 2 (snd (arm_r 1 sio_new))) = Some 2 \<and>
   reader (snd (arm_r 2 (snd (arm_r 1 sio_new)))) = Some 2"
proof -
  have "\<not> sio_ready READ_ALL sio_new" by (simp add: sio_ready_def sio_new_def)
  from second_reader_displaces_first[OF this, of 1 2] show ?thesis by (simp add: sio_new_def Let_def)
qed

end
