(* ===== verification/Desc_IO.thy ===== *)
theory Desc_IO
  imports Py_IO Sched_IO
begin

text \<open>
  The retry loop that every non-blocking operation of tonio is built on, over one registered file
  descriptor: arm the direction; suspend when it is not ready; call; on \<open>EINTR\<close> call again; on
  \<open>EAGAIN\<close> clear the readiness and go round (\<open>_net/_socket.py\<close>, \<open>_fd.py\<close>).

  The world is the descriptor as the coroutine shares it with the rest: the kernel's buffers, the
  edges the kernel has not reported yet, the poller of the runtime between its two actions (set the
  readiness, wake the waiters), the other coroutine that uses the opposite direction, signals, a
  close by another task, and cancellation. What they do is a script: before every atomic access of
  the loop the next batch of the script is played, so that a theorem about all scripts is a theorem
  about all interleavings.
\<close>

section \<open>The descriptor and its environment\<close>

text \<open>
  \<open>Arrive\<close>: items come in. \<open>Peer_close\<close>: end of the incoming stream. \<open>Reset\<close>: the connection is
  reset. \<open>Drain n\<close>: the kernel takes \<open>n\<close> items out of the send buffer. \<open>Poller\<close>: the next action of
  the poller. \<open>Signal\<close>: the next call is interrupted. \<open>Shut\<close>: another task closes the descriptor.
  \<open>Cancel\<close>: the coroutine is cancelled. \<open>Arm\<close>, \<open>Clear\<close>: another coroutine arms or clears the
  direction it uses.
\<close>

datatype dir = Rd | Wr

datatype 'x act =
    Arrive "'x list" | Peer_close | Reset | Drain nat | Poller | Signal | Shut | Cancel
  | Arm dir | Clear dir

record ('x, 'y) desc =
  sio :: sched_io
  evset :: "event_id \<Rightarrow> bool"
  next_event :: event_id
  inbox :: "'x list"
  in_eof :: bool
  edge_in :: bool
  outbox :: "'y list"
  room :: nat
  edge_out :: bool
  was_reset :: bool
  fd_closed :: bool
  polled :: "usize option"
  signals :: nat
  cancelled :: bool
  script :: "'x act list list"

text \<open>The two directions of a \<open>ScheduledIO\<close>.\<close>

fun dmask :: "dir \<Rightarrow> usize" where
  "dmask Rd = READ_ALL" | "dmask Wr = WRITE_ALL"

fun dbit :: "dir \<Rightarrow> usize" where
  "dbit Rd = READABLE" | "dbit Wr = WRITABLE"

fun dslot :: "dir \<Rightarrow> sched_io \<Rightarrow> event_id option" where
  "dslot Rd s = reader s" | "dslot Wr s = writer s"

fun dtick :: "dir \<Rightarrow> sched_io \<Rightarrow> u8" where
  "dtick Rd s = tick_r s" | "dtick Wr s = tick_w s"

fun note_tick :: "dir \<Rightarrow> sched_io \<Rightarrow> sched_io" where
  "note_tick Rd s = note_tick_r s" | "note_tick Wr s = note_tick_w s"

fun clear_dir :: "dir \<Rightarrow> sched_io \<Rightarrow> sched_io" where
  "clear_dir Rd s = clear_r s" | "clear_dir Wr s = clear_w s"

fun dedge :: "dir \<Rightarrow> ('x, 'y) desc \<Rightarrow> bool" where
  "dedge Rd w = edge_in w" | "dedge Wr w = edge_out w"

text \<open>A call in the direction would not block.\<close>

fun davail :: "dir \<Rightarrow> ('x, 'y) desc \<Rightarrow> bool" where
  "davail Rd w = (inbox w \<noteq> [] \<or> in_eof w \<or> was_reset w)"
| "davail Wr w = (0 < room w \<or> was_reset w)"

definition set_events :: "event_id option \<times> event_id option \<Rightarrow> (event_id \<Rightarrow> bool) \<Rightarrow> (event_id \<Rightarrow> bool)" where
  "set_events p f = (\<lambda>e. f e \<or> fst p = Some e \<or> snd p = Some e)"

text \<open>
  The poller: report the pending edges as one event (\<open>set_readiness\<close>), then wake the waiters of the
  directions it names (\<open>wake\<close>), as \<open>Runtime\<close> does for each event it gets from \<open>mio\<close>.
\<close>

definition pending_event :: "('x, 'y) desc \<Rightarrow> poll_event" where
  "pending_event w = \<lparr>is_readable = edge_in w, is_writable = edge_out w,
     is_read_closed = edge_in w \<and> in_eof w, is_write_closed = False, is_error = False\<rparr>"

definition poller_idle :: "('x, 'y) desc \<Rightarrow> bool" where
  "poller_idle w \<longleftrightarrow> polled w = None \<and> \<not> edge_in w \<and> \<not> edge_out w"

definition poll_step :: "('x, 'y) desc \<Rightarrow> ('x, 'y) desc" where
  "poll_step w = (case polled w of
      Some r \<Rightarrow> (case sio_wake r (sio w) of
          (evs, s) \<Rightarrow> w\<lparr>sio := s, evset := set_events evs (evset w), polled := None\<rparr>)
    | None \<Rightarrow> if poller_idle w then w
        else w\<lparr>sio := set_readiness (readiness_from_event (pending_event w)) (sio w),
               polled := Some (readiness_from_event (pending_event w)),
               edge_in := False, edge_out := False\<rparr>)"

text \<open>
  \<open>Runtime::io_deregister\<close>: the shutdown bit, and both waiters woken. Closing a descriptor
  deregisters it first.
\<close>

definition deregister :: "('x, 'y) desc \<Rightarrow> ('x, 'y) desc" where
  "deregister w = (case sio_shutdown (sio w) of (evs, s) \<Rightarrow> w\<lparr>sio := s, evset := set_events evs (evset w)\<rparr>)"

text \<open>Arming: the unlocked look, then the part under the mutex with a fresh event.\<close>

definition arm_locked :: "dir \<Rightarrow> ('x, 'y) desc \<Rightarrow> event_id option \<times> ('x, 'y) desc" where
  "arm_locked d w = (case sio_arm (dmask d) (next_event w) (sio w) of
      (None, s) \<Rightarrow> (None, w\<lparr>sio := s\<rparr>)
    | (Some e, s) \<Rightarrow> (Some e, w\<lparr>sio := s, evset := (evset w)(e := False), next_event := Suc (next_event w)\<rparr>))"

fun play :: "'x act \<Rightarrow> ('x, 'y) desc \<Rightarrow> ('x, 'y) desc" where
  "play (Arrive xs) w = (if xs = [] then w else w\<lparr>inbox := inbox w @ xs, edge_in := True\<rparr>)"
| "play Peer_close w = w\<lparr>in_eof := True, edge_in := True\<rparr>"
| "play Reset w = w\<lparr>was_reset := True, edge_in := True, edge_out := True\<rparr>"
| "play (Drain n) w = (if n = 0 then w else w\<lparr>room := room w + n, edge_out := True\<rparr>)"
| "play Poller w = poll_step w"
| "play Signal w = w\<lparr>signals := Suc (signals w)\<rparr>"
| "play Shut w = (deregister w)\<lparr>fd_closed := True\<rparr>"
| "play Cancel w = w\<lparr>cancelled := True\<rparr>"
| "play (Arm d) w = (case arm_locked d w of (None, w') \<Rightarrow> w'\<lparr>sio := note_tick d (sio w')\<rparr> | (Some _, w') \<Rightarrow> w')"
| "play (Clear d) w = w\<lparr>sio := clear_dir d (sio w)\<rparr>"

definition advance :: "('x, 'y) desc \<Rightarrow> ('x, 'y) desc" where
  "advance w = (case script w of [] \<Rightarrow> w | b # bs \<Rightarrow> fold play b (w\<lparr>script := bs\<rparr>))"

section \<open>The operations of the coroutine\<close>

definition k_arm :: "dir \<Rightarrow> (event_id option, ('x, 'y) desc) io" where
  "k_arm d = (\<lambda>w0.
     let w = advance w0;
         note = (\<lambda>w. let w = advance w in Some (Inr None, w\<lparr>sio := note_tick d (sio w)\<rparr>))
     in if sio_ready (dmask d) (sio w) then note w
        else (case arm_locked d (advance w) of
            (None, w) \<Rightarrow> note w
          | (Some e, w) \<Rightarrow> Some (Inr (Some e), w)))"

definition k_clear :: "dir \<Rightarrow> (unit, ('x, 'y) desc) io" where
  "k_clear d = (\<lambda>w0. let w = advance w0 in Some (Inr (), w\<lparr>sio := clear_dir d (sio w)\<rparr>))"

text \<open>
  \<open>yield waiter\<close>: the coroutine is suspended until its event is set. The script goes on; after its
  end the poller still delivers the edges that are pending; when nothing is left to happen the
  coroutine stays suspended forever.
\<close>

definition k_await :: "event_id \<Rightarrow> (unit, ('x, 'y) desc) io" where
  "k_await e = loop (\<lambda>_ w.
     if evset w e then Some (Inr (Inr ()), w)
     else if cancelled w then Some (Inl CancelledError, w\<lparr>cancelled := False\<rparr>)
     else if script w \<noteq> [] then Some (Inr (Inl ()), advance w)
     else if poller_idle w then None
     else Some (Inr (Inl ()), poll_step w)) ()"

text \<open>
  A system call in a direction. The incoming one hands the buffer to \<open>consume\<close>, which gives the result
  and what stays; the outgoing one offers its room to \<open>produce\<close>, which gives the result, what is
  sent and the room it takes.
\<close>

definition k_call_in :: "('x list \<Rightarrow> 'r \<times> 'x list) \<Rightarrow> ('r, ('x, 'y) desc) io" where
  "k_call_in consume = (\<lambda>w0. let w = advance w0 in
     if 0 < signals w then Some (Inl InterruptedError, w\<lparr>signals := signals w - 1\<rparr>)
     else if fd_closed w then Some (Inl (OSError 9), w)
     else if was_reset w then Some (Inl (OSError 104), w)
     else if inbox w = [] \<and> \<not> in_eof w then Some (Inl BlockingIOError, w)
     else (case consume (inbox w) of (r, rest) \<Rightarrow> Some (Inr r, w\<lparr>inbox := rest\<rparr>)))"

definition k_call_out :: "(nat \<Rightarrow> 'r \<times> 'y list \<times> nat) \<Rightarrow> ('r, ('x, 'y) desc) io" where
  "k_call_out produce = (\<lambda>w0. let w = advance w0 in
     if 0 < signals w then Some (Inl InterruptedError, w\<lparr>signals := signals w - 1\<rparr>)
     else if fd_closed w then Some (Inl (OSError 9), w)
     else if was_reset w then Some (Inl BrokenPipeError, w)
     else if room w = 0 then Some (Inl BlockingIOError, w)
     else (case produce (room w) of
         (r, ys, n) \<Rightarrow> Some (Inr r, w\<lparr>outbox := outbox w @ ys, room := room w - n\<rparr>)))"

section \<open>The retry loop\<close>

text \<open>
  A registration handle, as the coroutines see it: the methods \<open>_io_arm_r\<close>, \<open>_io_arm_w\<close>, \<open>_io_clear_r\<close>,
  \<open>_io_clear_w\<close> and \<open>_io_close\<close> of \<open>Socket\<close> and \<open>Fd\<close>, and the suspension on a waiter.
\<close>

record 'w io_handle =
  io_arm_r :: "(event_id option, 'w) io"
  io_arm_w :: "(event_id option, 'w) io"
  io_clear_r :: "(unit, 'w) io"
  io_clear_w :: "(unit, 'w) io"
  io_close :: "(unit, 'w) io"
  await :: "event_id \<Rightarrow> (unit, 'w) io"

definition retry_loop ::
    "(event_id option, 'w) io \<Rightarrow> (event_id \<Rightarrow> (unit, 'w) io) \<Rightarrow> (unit, 'w) io \<Rightarrow> ('r, 'w) io \<Rightarrow> ('r, 'w) io" where
  "retry_loop arm wait clear call = loop (\<lambda>_.
     bnd arm (\<lambda>waiter. case waiter of
         Some e \<Rightarrow> bnd (wait e) (\<lambda>_. ret (Inl ()))
       | None \<Rightarrow> try_else call (\<lambda>_. True)
           (\<lambda>e. if e = InterruptedError then ret (Inl ())
                else if e = BlockingIOError then bnd clear (\<lambda>_. ret (Inl ()))
                else raise e)
           (\<lambda>r. ret (Inr r)))) ()"

definition retry_r :: "'w io_handle \<Rightarrow> ('r, 'w) io \<Rightarrow> ('r, 'w) io" where
  "retry_r h = retry_loop (io_arm_r h) (await h) (io_clear_r h)"

definition retry_w :: "'w io_handle \<Rightarrow> ('r, 'w) io \<Rightarrow> ('r, 'w) io" where
  "retry_w h = retry_loop (io_arm_w h) (await h) (io_clear_w h)"

definition k_handle :: "('x, 'y) desc io_handle" where
  "k_handle = \<lparr>io_arm_r = k_arm Rd, io_arm_w = k_arm Wr, io_clear_r = k_clear Rd, io_clear_w = k_clear Wr,
     io_close = modify deregister, await = k_await\<rparr>"

end
