(* ===== verification/Retry.thy ===== *)
theory Retry
  imports Desc_IO
begin

text \<open>
  The retry loop is right: it returns, with what the call gives, as soon as the call can succeed
  or fail for good; no wake-up is lost, whatever the interleaving with the poller, the
  other direction, signals, a close and a cancellation; and nothing that came in is lost or
  duplicated. The one assumption about time is that fewer than 128 things happen between two
  consecutive accesses of the coroutine: the tick has eight bits.
\<close>

section \<open>What the environment can do to a direction\<close>

definition bits :: "dir \<Rightarrow> ('x, 'y) desc \<Rightarrow> bool" where
  "bits d w \<longleftrightarrow> readiness (sio w) AND dmask d \<noteq> 0"

definition down :: "('x, 'y) desc \<Rightarrow> bool" where
  "down w \<longleftrightarrow> readiness (sio w) AND SHUTDOWN \<noteq> 0"

definition ready_bit :: "dir \<Rightarrow> ('x, 'y) desc \<Rightarrow> bool" where
  "ready_bit d w \<longleftrightarrow> readiness (sio w) AND dbit d \<noteq> 0"

lemma dbit_dmask: "dbit d AND dmask d = dbit d"
  by (cases d) (simp_all add: mask_defs)

lemma ready_bit_bits: "ready_bit d w \<Longrightarrow> bits d w"
proof -
  have "x AND dbit d = (x AND dmask d) AND dbit d" for x
    by (metis and.assoc and.commute dbit_dmask)
  then show "ready_bit d w \<Longrightarrow> bits d w" unfolding ready_bit_def bits_def by (metis zero_and_eq)
qed

lemma sio_ready_iff: "sio_ready (dmask d) (sio w) \<longleftrightarrow> bits d w \<or> down w"
  by (simp add: sio_ready_def bits_def down_def bit.conj_disj_distrib or_eq_0_iff)

lemma pending_bits:
  defines "r w \<equiv> readiness_from_event (pending_event w)"
  shows "r w AND dmask d \<noteq> 0 \<longleftrightarrow> dedge d w" "r w AND dbit d \<noteq> 0 \<longleftrightarrow> dedge d w"
    "r w AND SHUTDOWN = 0" "low6 (r w)"
  by (cases d; cases "edge_in w"; cases "edge_out w"; cases "in_eof w";
      simp add: r_def pending_event_def readiness_from_event_def mask_defs low6_def)+

text \<open>The first action of the poller.\<close>

definition poll_set :: "('x, 'y) desc \<Rightarrow> ('x, 'y) desc" where
  "poll_set w = w\<lparr>sio := set_readiness (readiness_from_event (pending_event w)) (sio w),
     polled := Some (readiness_from_event (pending_event w)), edge_in := False, edge_out := False\<rparr>"

lemma low6_dir [simp]: "low6 (dmask d)" "low6 (dbit d)"
  by (cases d; simp)+

lemma poll_set_bits [simp]:
  "bits d (poll_set w) \<longleftrightarrow> bits d w \<or> dedge d w"
  "ready_bit d (poll_set w) \<longleftrightarrow> ready_bit d w \<or> dedge d w"
  "down (poll_set w) \<longleftrightarrow> down w"
  using pending_bits(1,2)[of w d] pending_bits(3)[of w]
  by (auto simp: bits_def ready_bit_def down_def poll_set_def set_readiness_low or_eq_0_iff)

lemma poll_set_other [simp]:
  "tick_of (readiness (sio (poll_set w))) = tick_of (readiness (sio w)) + 1"
  "dslot d (sio (poll_set w)) = dslot d (sio w)" "dtick d (sio (poll_set w)) = dtick d (sio w)"
  "davail d (poll_set w) \<longleftrightarrow> davail d w" "\<not> dedge d (poll_set w)"
  "evset (poll_set w) = evset w" "next_event (poll_set w) = next_event w" "inbox (poll_set w) = inbox w"
  "outbox (poll_set w) = outbox w" "room (poll_set w) = room w" "script (poll_set w) = script w"
  "fd_closed (poll_set w) = fd_closed w" "signals (poll_set w) = signals w"
  "polled (poll_set w) = Some (readiness_from_event (pending_event w))"
  "edge_in (poll_set w) = False" "edge_out (poll_set w) = False"
  using pending_bits(4)[of w] by (cases d; simp add: poll_set_def)+

text \<open>Its second action.\<close>

definition poll_wake :: "usize \<Rightarrow> ('x, 'y) desc \<Rightarrow> ('x, 'y) desc" where
  "poll_wake r w = (case sio_wake r (sio w) of
     (evs, s) \<Rightarrow> w\<lparr>sio := s, evset := set_events evs (evset w), polled := None\<rparr>)"

lemma poll_step_cases:
  "poll_step w = (case polled w of Some r \<Rightarrow> poll_wake r w | None \<Rightarrow> if poller_idle w then w else poll_set w)"
  by (simp add: poll_step_def poll_wake_def poll_set_def split: option.splits)

lemma sio_wake_bits [simp]:
  "readiness (snd (sio_wake r s)) = readiness s" "dtick d (snd (sio_wake r s)) = dtick d s"
  by (cases d; simp add: sio_wake_def Let_def)+

lemma sio_wake_slot:
  "dslot d (snd (sio_wake r s)) = (if r AND dmask d \<noteq> 0 then None else dslot d s)"
  "r AND dmask d \<noteq> 0 \<Longrightarrow> dslot d s = Some e \<Longrightarrow> set_events (fst (sio_wake r s)) f e"
  "f e \<Longrightarrow> set_events (fst (sio_wake r s)) f e"
  by (cases d; simp add: sio_wake_def Let_def set_events_def)+

lemma poll_wake_simps [simp]:
  "sio (poll_wake r w) = snd (sio_wake r (sio w))"
  "evset (poll_wake r w) = set_events (fst (sio_wake r (sio w))) (evset w)" "polled (poll_wake r w) = None"
  "davail d (poll_wake r w) \<longleftrightarrow> davail d w" "dedge d (poll_wake r w) \<longleftrightarrow> dedge d w"
  "next_event (poll_wake r w) = next_event w" "inbox (poll_wake r w) = inbox w"
  "outbox (poll_wake r w) = outbox w" "room (poll_wake r w) = room w" "script (poll_wake r w) = script w"
  "fd_closed (poll_wake r w) = fd_closed w" "signals (poll_wake r w) = signals w"
  "edge_in (poll_wake r w) = edge_in w" "edge_out (poll_wake r w) = edge_out w"
  by (cases d; simp add: poll_wake_def split: prod.splits)+

section \<open>The invariant of a direction\<close>

text \<open>
  What is available is either known to the readiness word or about to be reported; a waiter in the
  slot of a direction whose bits are set is about to be woken; the descriptor is closed exactly when
  its registration is shut down.
\<close>

definition dinv :: "dir \<Rightarrow> ('x, 'y) desc \<Rightarrow> bool" where
  "dinv d w \<longleftrightarrow> (davail d w \<longrightarrow> dedge d w \<or> ready_bit d w)
     \<and> (fd_closed w \<longleftrightarrow> down w)
     \<and> (\<forall>e. dslot d (sio w) = Some e \<longrightarrow> bits d w \<or> down w \<longrightarrow> (\<exists>r. polled w = Some r \<and> r AND dmask d \<noteq> 0))
     \<and> (\<forall>e. dslot d (sio w) = Some e \<longrightarrow> e < next_event w)"

text \<open>
  How the acts \<open>as\<close> of the environment took one world to another, as far as a direction is concerned:
  when no edge was delivered, what became available is still to be reported; the waiter in the slot
  stays there or its event is set.
\<close>

fun arrivals :: "'x act list \<Rightarrow> 'x list" where
  "arrivals [] = []"
| "arrivals (Arrive xs # as) = xs @ arrivals as"
| "arrivals (_ # as) = arrivals as"

fun drained :: "'x act list \<Rightarrow> nat" where
  "drained [] = 0"
| "drained (Drain n # as) = n + drained as"
| "drained (_ # as) = drained as"

definition no_edge :: "dir \<Rightarrow> ('x, 'y) desc \<Rightarrow> ('x, 'y) desc \<Rightarrow> bool" where
  "no_edge d w w' \<longleftrightarrow> (davail d w' \<longrightarrow> davail d w \<or> dedge d w') \<and> (dedge d w \<longrightarrow> dedge d w')"

definition env :: "dir \<Rightarrow> 'x act list \<Rightarrow> ('x, 'y) desc \<Rightarrow> ('x, 'y) desc \<Rightarrow> bool" where
  "env d as w w' \<longleftrightarrow>
     (\<exists>k \<le> length as. tick_of (readiness (sio w')) = tick_of (readiness (sio w)) + of_nat k
        \<and> (k = 0 \<longrightarrow> no_edge d w w'))
     \<and> dtick d (sio w') = dtick d (sio w)
     \<and> (\<forall>e < next_event w. evset w e \<or> dslot d (sio w) = Some e \<longrightarrow> evset w' e \<or> dslot d (sio w') = Some e)
     \<and> next_event w \<le> next_event w' \<and> (davail d w \<longrightarrow> davail d w') \<and> (down w \<longrightarrow> down w')
     \<and> inbox w' = inbox w @ arrivals as \<and> outbox w' = outbox w \<and> room w' = room w + drained as"

lemma arrivals_append: "arrivals (as @ bs) = arrivals as @ arrivals bs"
  by (induction as rule: arrivals.induct) auto

lemma drained_append: "drained (as @ bs) = drained as + drained bs"
  by (induction as rule: drained.induct) auto

lemma no_edge_trans: "no_edge d u v \<Longrightarrow> no_edge d v w \<Longrightarrow> no_edge d u w"
  by (auto simp: no_edge_def)

lemma env_refl: "env d [] w w"
  by (auto simp: env_def no_edge_def)

lemma env_trans:
  assumes "env d as u v" "env d bs v w"
  shows "env d (as @ bs) u w"
proof -
  obtain k l where k: "k \<le> length as" "tick_of (readiness (sio v)) = tick_of (readiness (sio u)) + of_nat k"
      "k = 0 \<longrightarrow> no_edge d u v"
    and l: "l \<le> length bs" "tick_of (readiness (sio w)) = tick_of (readiness (sio v)) + of_nat l"
      "l = 0 \<longrightarrow> no_edge d v w"
    using assms by (auto simp: env_def)
  have "\<exists>j \<le> length (as @ bs). tick_of (readiness (sio w)) = tick_of (readiness (sio u)) + of_nat j
        \<and> (j = 0 \<longrightarrow> no_edge d u w)"
    using k l no_edge_trans by (intro exI[of _ "k + l"]) auto
  moreover have "evset w e \<or> dslot d (sio w) = Some e"
    if "e < next_event u" "evset u e \<or> dslot d (sio u) = Some e" for e
  proof -
    have "e < next_event v" "evset v e \<or> dslot d (sio v) = Some e"
      using assms(1) that by (auto simp: env_def)
    then show ?thesis using assms(2) unfolding env_def by blast
  qed
  ultimately show ?thesis using assms by (auto simp: env_def arrivals_append drained_append)
qed

text \<open>The potential of a direction: what the environment has started and not finished.\<close>

definition pot :: "dir \<Rightarrow> ('x, 'y) desc \<Rightarrow> nat" where
  "pot d w = (if edge_in w then 7 else 0) + (if edge_out w then 7 else 0) + (if polled w = None then 0 else 5)
     + 3 * signals w + (if bits d w then 1 else 0)"

definition other :: "dir \<Rightarrow> 'x act \<Rightarrow> bool" where
  "other d a \<longleftrightarrow> a \<noteq> Arm d \<and> a \<noteq> Clear d"

text \<open>What one act keeps: the invariant, the relation to the world before, a bounded potential.\<close>

definition kept :: "dir \<Rightarrow> 'x act list \<Rightarrow> ('x, 'y) desc \<Rightarrow> ('x, 'y) desc \<Rightarrow> bool" where
  "kept d as w w' \<longleftrightarrow> dinv d w' \<and> env d as w w' \<and> pot d w' \<le> pot d w + 14 * length as \<and> script w' = script w"

lemma env_one:
  assumes "tick_of (readiness (sio w')) = tick_of (readiness (sio w)) \<and> no_edge d w w'
      \<or> tick_of (readiness (sio w')) = tick_of (readiness (sio w)) + 1"
    and "dtick d (sio w') = dtick d (sio w)"
    and "\<And>e. e < next_event w \<Longrightarrow> evset w e \<or> dslot d (sio w) = Some e \<Longrightarrow> evset w' e \<or> dslot d (sio w') = Some e"
    and "next_event w \<le> next_event w'" "davail d w \<Longrightarrow> davail d w'" "down w \<Longrightarrow> down w'"
    and "inbox w' = inbox w @ arrivals [a]" "outbox w' = outbox w" "room w' = room w + drained [a]"
  shows "env d [a] w w'"
  using assms unfolding env_def
  by (auto intro: exI[of _ 0] exI[of _ 1])

lemma kept_poll_set:
  assumes "dinv d w" "polled w = None" "\<not> poller_idle w"
  shows "kept d [Poller] w (poll_set w)" "pot d (poll_set w) < pot d w"
proof -
  have "dedge d w \<Longrightarrow> edge_in w \<or> edge_out w" by (cases d) auto
  then show "pot d (poll_set w) < pot d w"
    using assms(2,3) by (auto simp: pot_def poller_idle_def)
  moreover have "env d [Poller] w (poll_set w)"
    by (rule env_one) auto
  moreover have "dinv d (poll_set w)"
    using assms pending_bits(1)[of w d] unfolding dinv_def by auto
  ultimately show "kept d [Poller] w (poll_set w)" by (simp add: kept_def)
qed

lemma kept_poll_wake:
  assumes "dinv d w" "polled w = Some r"
  shows "kept d [Poller] w (poll_wake r w)" "pot d (poll_wake r w) < pot d w"
proof -
  have b: "bits d (poll_wake r w) = bits d w" "down (poll_wake r w) = down w"
    "ready_bit d (poll_wake r w) = ready_bit d w"
    by (simp_all add: bits_def down_def ready_bit_def)
  then show "pot d (poll_wake r w) < pot d w"
    using assms(2) by (simp add: pot_def)
  moreover have "env d [Poller] w (poll_wake r w)"
    by (rule env_one) (auto simp: no_edge_def b sio_wake_slot)
  moreover have "dinv d (poll_wake r w)"
    using assms b unfolding dinv_def by (auto simp: sio_wake_slot)
  ultimately show "kept d [Poller] w (poll_wake r w)" by (simp add: kept_def)
qed

lemma kept_poll_step:
  assumes "dinv d w" "\<not> poller_idle w"
  shows "kept d [Poller] w (poll_step w)" "pot d (poll_step w) < pot d w"
  using kept_poll_set[OF assms(1)] kept_poll_wake[OF assms(1)] assms(2)
  by (auto simp: poll_step_cases split: option.splits)

lemma kept_idle: "dinv d w \<Longrightarrow> arrivals [a] = [] \<Longrightarrow> drained [a] = 0 \<Longrightarrow> kept d [a] w w"
  by (auto simp: kept_def no_edge_def intro!: env_one)

text \<open>An act that leaves the registration alone.\<close>

lemma kept_kernel:
  assumes "dinv d w" "sio w' = sio w" "evset w' = evset w" "next_event w' = next_event w"
    and "polled w' = polled w" "fd_closed w' = fd_closed w" "script w' = script w"
    and "no_edge d w w'" "davail d w \<Longrightarrow> davail d w'"
    and "inbox w' = inbox w @ arrivals [a]" "outbox w' = outbox w" "room w' = room w + drained [a]"
    and "signals w' \<le> Suc (signals w)" "signals w' = signals w \<or> edge_in w' = edge_in w \<and> edge_out w' = edge_out w"
  shows "kept d [a] w w'"
proof -
  have b: "bits d w' = bits d w" "down w' = down w" "ready_bit d w' = ready_bit d w"
    using assms(2) by (simp_all add: bits_def down_def ready_bit_def)
  have "dinv d w'"
    using assms b unfolding dinv_def no_edge_def by auto
  moreover have "env d [a] w w'" by (rule env_one) (use assms b in auto)
  moreover have "pot d w' \<le> pot d w + 14"
    using assms b by (auto simp: pot_def)
  ultimately show ?thesis using assms by (simp add: kept_def)
qed

lemma kept_deregister:
  assumes "dinv d w"
  shows "kept d [Shut] w ((deregister w)\<lparr>fd_closed := True\<rparr>)" (is "kept d _ w ?w")
proof -
  let ?s = "(sio w)\<lparr>readiness := readiness (sio w) OR SHUTDOWN\<rparr>" and ?r = "READ_ALL OR WRITE_ALL"
  have w: "?w = w\<lparr>sio := snd (sio_wake ?r ?s), evset := set_events (fst (sio_wake ?r ?s)) (evset w), fd_closed := True\<rparr>"
    by (simp add: deregister_def sio_shutdown_def split: prod.splits)
  have r: "?r AND dmask d \<noteq> 0" by (cases d) (simp_all add: mask_defs)
  have z: "SHUTDOWN AND dmask d = 0" "SHUTDOWN AND dbit d = 0" "SHUTDOWN \<noteq> 0"
    by (cases d; simp add: mask_defs)+
  have m: "(x OR SHUTDOWN) AND dmask d = x AND dmask d" "(x OR SHUTDOWN) AND dbit d = x AND dbit d"
    "(x OR SHUTDOWN) AND SHUTDOWN \<noteq> 0" for x
    using z by (simp_all add: bit.conj_disj_distrib2 or_eq_0_iff)
  have sl: "dslot d ?s = dslot d (sio w)" by (cases d) simp_all
  have av: "davail d ?w = davail d w" "dedge d ?w = dedge d w" "dtick d (sio ?w) = dtick d (sio w)"
    by (cases d; simp add: w)+
  have b: "bits d ?w = bits d w" "down ?w" "ready_bit d ?w = ready_bit d w" "dslot d (sio ?w) = None"
    using r m by (simp_all add: w bits_def down_def ready_bit_def sio_wake_slot del: and_zero_eq)
  have "dinv d ?w" using assms b av unfolding dinv_def by (simp add: w)
  moreover have "env d [Shut] w ?w"
  proof (rule env_one)
    show "evset ?w e \<or> dslot d (sio ?w) = Some e" if "evset w e \<or> dslot d (sio w) = Some e" for e
      using that sio_wake_slot(2)[OF r, of ?s e] sio_wake_slot(3) sl by (auto simp: w)
  qed (use b av in \<open>simp_all add: w no_edge_def\<close>)
  moreover have "pot d ?w = pot d w" using b(1) by (simp add: pot_def w)
  ultimately show ?thesis by (simp add: kept_def w)
qed

text \<open>The other coroutine arms or clears its own direction.\<close>

lemma opposite: "d' \<noteq> d \<Longrightarrow> dmask d' AND dbit d = 0" "dmask d' AND SHUTDOWN = 0"
  by (cases d; cases d'; simp add: mask_defs)+

lemma and_not_disjoint:
  assumes "m AND s = 0"
  shows "(x AND NOT m) AND s = x AND (s :: usize)"
proof -
  have "(x AND NOT m) AND s = (x AND s) AND NOT (m AND s)"
    by (simp add: bit_eq_iff bit_simps) blast
  then show ?thesis using assms by simp
qed

lemma kept_registration:
  assumes "dinv d w" and w': "w' = w\<lparr>sio := s\<rparr>" and "dslot d s = dslot d (sio w)" "dtick d s = dtick d (sio w)"
    and "tick_of (readiness s) = tick_of (readiness (sio w))"
    and "bits d w' \<Longrightarrow> bits d w" "down w' = down w" "ready_bit d w' = ready_bit d w" "arrivals [a] = []" "drained [a] = 0"
  shows "kept d [a] w w'"
proof -
  have av: "davail d w' = davail d w" "dedge d w' = dedge d w" by (cases d; simp add: w')+
  have "dinv d w'" using assms av unfolding dinv_def by auto
  moreover have "env d [a] w w'" by (rule env_one) (use assms av in \<open>simp_all add: no_edge_def\<close>)
  moreover have "pot d w' \<le> pot d w" using assms(6) by (auto simp: pot_def w')
  ultimately show ?thesis by (simp add: kept_def w')
qed

lemma clear_dir_eq: "clear_dir d s = sio_clear (dmask d) (dtick d s) s"
  by (cases d) (simp_all add: clear_r_def clear_w_def)

lemma kept_clear:
  assumes "dinv d w" "d' \<noteq> d"
  shows "kept d [Clear d'] w (w\<lparr>sio := clear_dir d' (sio w)\<rparr>)"
proof (rule kept_registration[OF assms(1) refl])
  let ?w = "w\<lparr>sio := clear_dir d' (sio w)\<rparr>"
  show "down ?w = down w" "ready_bit d ?w = ready_bit d w"
    using and_not_disjoint[OF opposite(2)] and_not_disjoint[OF opposite(1)[OF assms(2)]]
    by (simp_all add: down_def ready_bit_def clear_dir_eq sio_clear_def)
  have "(x AND NOT a) AND b \<noteq> 0 \<Longrightarrow> x AND b \<noteq> 0" for x a b :: usize
    by (metis and.assoc and.commute zero_and_eq)
  then show "bits d ?w \<Longrightarrow> bits d w" by (simp add: bits_def clear_dir_eq sio_clear_def split: if_splits)
  show "dslot d (clear_dir d' (sio w)) = dslot d (sio w)" "dtick d (clear_dir d' (sio w)) = dtick d (sio w)"
    "tick_of (readiness (clear_dir d' (sio w))) = tick_of (readiness (sio w))"
    by (cases d; simp add: clear_dir_eq sio_clear_def)+
qed simp_all

lemma kept_arm:
  assumes "dinv d w" "d' \<noteq> d"
  shows "kept d [Arm d'] w (play (Arm d') w)"
proof (cases "sio_ready (dmask d') (sio w)")
  case True
  then have "play (Arm d') w = w\<lparr>sio := note_tick d' (sio w)\<rparr>"
    by (simp add: arm_locked_def sio_arm_def)
  then show ?thesis
    using assms
    by (cases d'; cases d)
       (auto simp: note_tick_r_def note_tick_w_def bits_def down_def ready_bit_def intro!: kept_registration)
next
  case False
  let ?e = "next_event w"
  let ?s = "if dmask d' AND READABLE \<noteq> 0 then (sio w)\<lparr>reader := Some ?e\<rparr> else (sio w)\<lparr>writer := Some ?e\<rparr>"
  let ?w = "w\<lparr>sio := ?s, evset := (evset w)(?e := False), next_event := Suc ?e\<rparr>"
  have p: "play (Arm d') w = ?w" using False by (simp add: arm_locked_def sio_arm_def)
  have s: "readiness ?s = readiness (sio w)" by simp
  have sl: "dslot d ?s = dslot d (sio w)" "dtick d ?s = dtick d (sio w)"
    using assms(2) by (cases d; cases d'; simp add: mask_defs)+
  have b: "bits d ?w = bits d w" "down ?w = down w" "ready_bit d ?w = ready_bit d w"
    "davail d ?w = davail d w" "dedge d ?w = dedge d w"
    unfolding bits_def down_def ready_bit_def by (cases d; simp)+
  have "dinv d ?w" using assms(1) b sl unfolding dinv_def by (simp add: less_Suc_eq)
  moreover have "env d [Arm d'] w ?w" by (rule env_one) (use b sl s in \<open>auto simp: no_edge_def\<close>)
  moreover have "pot d ?w = pot d w" using b(1) by (simp add: pot_def)
  ultimately show ?thesis unfolding p by (simp add: kept_def)
qed

lemma kept_play:
  assumes "dinv d w" "other d a"
  shows "kept d [a] w (play a w)"
proof (cases a)
  case Poller
  then show ?thesis
    using kept_poll_step(1)[OF assms(1)] kept_idle[OF assms(1), of Poller]
    by (cases "poller_idle w") (auto simp: poll_step_def poller_idle_def)
next
  case Shut
  then show ?thesis using kept_deregister[OF assms(1)] by simp
next
  case (Arm d')
  then show ?thesis using kept_arm[OF assms(1)] assms(2) by (auto simp: other_def simp del: play.simps)
next
  case (Clear d')
  then show ?thesis using kept_clear[OF assms(1)] assms(2) by (auto simp: other_def)
next
  case (Arrive xs)
  then show ?thesis using assms(1)
    by (cases d; cases "xs = []") (auto simp: no_edge_def intro!: kept_kernel kept_idle)
next
  case (Drain n)
  then show ?thesis using assms(1)
    by (cases d; cases "n = 0") (auto simp: no_edge_def intro!: kept_kernel kept_idle)
qed (use assms(1) in \<open>cases d; auto simp: no_edge_def intro!: kept_kernel\<close>)+


section \<open>Playing the script\<close>

definition script_ok :: "dir \<Rightarrow> ('x, 'y) desc \<Rightarrow> bool" where
  "script_ok d w \<longleftrightarrow> (\<forall>b \<in> set (script w). length b < 128 \<and> (\<forall>a \<in> set b. other d a))"

definition incoming :: "('x, 'y) desc \<Rightarrow> 'x list" where
  "incoming w = inbox w @ arrivals (concat (script w))"

definition capacity :: "('x, 'y) desc \<Rightarrow> nat" where
  "capacity w = room w + drained (concat (script w))"

fun gives :: "dir \<Rightarrow> 'x act \<Rightarrow> bool" where
  "gives Rd (Arrive xs) \<longleftrightarrow> xs \<noteq> []"
| "gives Rd Peer_close \<longleftrightarrow> True"
| "gives Wr (Drain n) \<longleftrightarrow> 0 < n"
| "gives d Reset \<longleftrightarrow> True"
| "gives d Shut \<longleftrightarrow> True"
| "gives d _ \<longleftrightarrow> False"

text \<open>The direction is or will be usable: the call can succeed, or fail for good.\<close>

definition live :: "dir \<Rightarrow> ('x, 'y) desc \<Rightarrow> bool" where
  "live d w \<longleftrightarrow> davail d w \<or> down w \<or> (\<exists>a \<in> set (concat (script w)). gives d a)"

definition fuel :: "dir \<Rightarrow> ('x, 'y) desc \<Rightarrow> nat" where
  "fuel d w = 20 * length (concat (script w)) + pot d w"

definition moved :: "dir \<Rightarrow> 'x act list \<Rightarrow> ('x, 'y) desc \<Rightarrow> ('x, 'y) desc \<Rightarrow> bool" where
  "moved d as w w' \<longleftrightarrow> env d as w w' \<and> dinv d w' \<and> script_ok d w' \<and> fuel d w' + 6 * length as \<le> fuel d w
     \<and> incoming w' = incoming w \<and> capacity w' = capacity w \<and> (live d w \<longrightarrow> live d w') \<and> (as = [] \<longrightarrow> bits d w' = bits d w \<and> evset w' = evset w)"

lemma moved_trans: "moved d as u v \<Longrightarrow> moved d bs v w \<Longrightarrow> moved d (as @ bs) u w"
  by (auto simp: moved_def intro: env_trans)

lemma gives_play: "gives d a \<Longrightarrow> davail d (play a w) \<or> down (play a w)"
proof (cases a)
  case Shut
  have "(x OR SHUTDOWN) AND SHUTDOWN = SHUTDOWN" for x
    by (auto simp: bit_eq_iff bit_simps)
  then show ?thesis using Shut by (simp add: deregister_def sio_shutdown_def down_def sio_wake_def Let_def mask_defs)
qed (cases d; simp)+

lemma fold_kept:
  assumes "dinv d w" "\<forall>a \<in> set b. other d a"
  shows "kept d b w (fold play b w) \<and> ((\<exists>a \<in> set b. gives d a) \<longrightarrow> davail d (fold play b w) \<or> down (fold play b w))"
  using assms
proof (induction b arbitrary: w)
  case Nil
  then show ?case by (simp add: kept_def env_refl)
next
  case (Cons a b)
  have k: "kept d [a] w (play a w)" by (rule kept_play) (use Cons.prems in simp_all)
  then have IH: "kept d b (play a w) (fold play b (play a w))"
      "(\<exists>a \<in> set b. gives d a) \<longrightarrow> davail d (fold play b (play a w)) \<or> down (fold play b (play a w))"
    using Cons by (simp_all add: kept_def)
  have "kept d (a # b) w (fold play b (play a w))"
    using k IH(1) env_trans[of d "[a]" w "play a w" b] by (auto simp: kept_def)
  moreover have "davail d (fold play b (play a w)) \<or> down (fold play b (play a w))" if "gives d a"
    using gives_play[OF that, of w] IH(1) by (auto simp: kept_def env_def)
  ultimately show ?case using IH(2) by auto
qed

lemma same_but_script:
  "dinv d (w\<lparr>script := t\<rparr>) = dinv d w" "env d as (w\<lparr>script := t\<rparr>) w' = env d as w w'"
  "pot d (w\<lparr>script := t\<rparr>) = pot d w" "bits d (w\<lparr>script := t\<rparr>) = bits d w" "down (w\<lparr>script := t\<rparr>) = down w"
  "davail d (w\<lparr>script := t\<rparr>) = davail d w"
  by (cases d; simp add: dinv_def env_def no_edge_def pot_def bits_def down_def ready_bit_def)+

lemma advance_moved:
  assumes "dinv d w" "script_ok d w"
  shows "\<exists>as. moved d as w (advance w) \<and> length as < 128 \<and> length (script (advance w)) = length (script w) - 1"
proof (cases "script w")
  case Nil
  then show ?thesis using assms env_refl[of d w] by (auto simp: advance_def moved_def intro!: exI[of _ "[]"])
next
  case (Cons b bs)
  let ?w = "w\<lparr>script := bs\<rparr>"
  have b: "length b < 128" "\<forall>a \<in> set b. other d a" and bs: "script_ok d ?w"
    using assms(2) Cons by (auto simp: script_ok_def)
  have k: "kept d b ?w (fold play b ?w)" and g: "(\<exists>a \<in> set b. gives d a) \<longrightarrow> davail d (fold play b ?w) \<or> down (fold play b ?w)"
    using fold_kept[of d ?w b] assms(1) b(2) by (simp_all add: same_but_script)
  have a: "advance w = fold play b ?w" using Cons by (simp add: advance_def)
  have s: "script (fold play b ?w) = bs" using k by (simp add: kept_def)
  have e: "env d b w (fold play b ?w)" using k by (simp add: kept_def same_but_script)
  have "live d (fold play b ?w)" if "live d w"
    using that Cons s g e by (auto simp: live_def env_def)
  moreover have "incoming (fold play b ?w) = incoming w"
    using e s Cons by (simp add: incoming_def env_def arrivals_append)
  moreover have "capacity (fold play b ?w) = capacity w"
    using e s Cons by (simp add: capacity_def env_def drained_append)
  moreover have "fuel d (fold play b ?w) + 6 * length b \<le> fuel d w"
    using k s Cons by (simp add: fuel_def kept_def same_but_script)
  moreover have "bits d (fold play b ?w) = bits d w \<and> evset (fold play b ?w) = evset w" if "b = []"
    using that by (simp add: same_but_script)
  ultimately have "moved d b w (advance w)"
    using e bs s k unfolding a by (auto simp: moved_def kept_def script_ok_def)
  then show ?thesis using b(1) s a Cons by auto
qed


section \<open>The operations of the coroutine\<close>

text \<open>What stays true from one operation to the next.\<close>

definition okd :: "dir \<Rightarrow> ('x, 'y) desc \<Rightarrow> bool" where
  "okd d w \<longleftrightarrow> dinv d w \<and> script_ok d w \<and> live d w"

definition same_data :: "('x, 'y) desc \<Rightarrow> ('x, 'y) desc \<Rightarrow> bool" where
  "same_data w w' \<longleftrightarrow> incoming w' = incoming w \<and> capacity w' = capacity w \<and> outbox w' = outbox w"

lemma same_data_trans [trans]: "same_data u v \<Longrightarrow> same_data v w \<Longrightarrow> same_data u w"
  by (simp add: same_data_def)

lemma moved_ok: "moved d as w w' \<Longrightarrow> okd d w \<Longrightarrow> okd d w' \<and> same_data w w' \<and> fuel d w' \<le> fuel d w"
  by (auto simp: moved_def okd_def same_data_def env_def)

lemma okd_advance:
  assumes "okd d w"
  obtains as where "moved d as w (advance w)" "length as < 128" "okd d (advance w)"
    "length (script (advance w)) = length (script w) - 1"
proof -
  obtain as where as: "moved d as w (advance w)" "length as < 128" "length (script (advance w)) = length (script w) - 1"
    using advance_moved[of d w] assms by (auto simp: okd_def)
  then show thesis using that moved_ok[OF as(1) assms] by blast
qed

lemma moved_bits:
  "moved d as w w' \<Longrightarrow> bits d w \<or> down w \<Longrightarrow> bits d w' \<or> down w' \<or> fuel d w' < fuel d w"
  by (cases as) (auto simp: moved_def env_def)

text \<open>Changes of the registration that concern the direction of the coroutine itself.\<close>

lemma note_tick_simps [simp]:
  "readiness (note_tick d s) = readiness s" "dslot d' (note_tick d s) = dslot d' s"
  "dtick d (note_tick d s) = tick_of (readiness s)"
  by (cases d; cases d'; simp add: note_tick_r_def note_tick_w_def current_tick_def)+

lemma sio_upd_simps [simp]:
  "davail d (w\<lparr>sio := s\<rparr>) = davail d w" "dedge d (w\<lparr>sio := s\<rparr>) = dedge d w"
  "live d (w\<lparr>sio := s\<rparr>) \<longleftrightarrow> davail d w \<or> readiness s AND SHUTDOWN \<noteq> 0 \<or> (\<exists>a \<in> set (concat (script w)). gives d a)"
  "incoming (w\<lparr>sio := s\<rparr>) = incoming w" "capacity (w\<lparr>sio := s\<rparr>) = capacity w" "script_ok d (w\<lparr>sio := s\<rparr>) = script_ok d w"
  by (cases d; simp add: live_def down_def incoming_def capacity_def script_ok_def)+

lemma note_tick_ok:
  fixes w :: "('x, 'y) desc" and d :: dir
  defines "w' \<equiv> w\<lparr>sio := note_tick d (sio w)\<rparr>"
  assumes "okd d w"
  shows "okd d w'" "same_data w w'" "fuel d w' = fuel d w" "bits d w' = bits d w" "down w' = down w"
  using assms by (auto simp: okd_def dinv_def live_def same_data_def fuel_def pot_def bits_def down_def ready_bit_def)

text \<open>Arming.\<close>

definition armed :: "dir \<Rightarrow> ('x, 'y) desc \<Rightarrow> event_id option \<Rightarrow> ('x, 'y) desc \<Rightarrow> bool" where
  "armed d w r w' \<longleftrightarrow> okd d w' \<and> same_data w w' \<and> fuel d w' \<le> fuel d w \<and> (case r of
      None \<Rightarrow> dtick d (sio w') = tick_of (readiness (sio w')) \<and> (bits d w' \<or> down w' \<or> fuel d w' < fuel d w)
    | Some e \<Rightarrow> e < next_event w' \<and> \<not> evset w' e \<and> dslot d (sio w') = Some e)"

lemma armed_note:
  assumes "okd d w" "moved d as w0 w" "bits d w0 \<or> down w0" "same_data u w0" "fuel d w0 \<le> fuel d u"
  shows "armed d u None (w\<lparr>sio := note_tick d (sio w)\<rparr>)"
proof -
  have "same_data w0 w" "fuel d w \<le> fuel d w0" using assms(2) by (auto simp: moved_def env_def same_data_def)
  then show ?thesis
    using note_tick_ok[OF assms(1)] moved_bits[OF assms(2,3)] assms(4,5)
    by (auto simp: armed_def same_data_def)
qed

lemma arm_slot: "\<not> sio_ready (dmask d) s \<Longrightarrow> \<exists>s'. sio_arm (dmask d) e s = (Some e, s') \<and> dslot d s' = Some e
    \<and> readiness s' = readiness s"
  by (cases d) (auto simp: sio_arm_def mask_defs)

lemma wp_arm:
  assumes "okd d w"
  shows "wp (k_arm d) (armed d w) E w"
proof -
  obtain as where a: "moved d as w (advance w)" "okd d (advance w)" using okd_advance[OF assms] by metis
  obtain bs where b: "moved d bs (advance w) (advance (advance w))" "okd d (advance (advance w))"
    using okd_advance[OF a(2)] by metis
  let ?w = "advance (advance w)"
  obtain cs where c: "moved d cs ?w (advance ?w)" "okd d (advance ?w)"
    using okd_advance[OF b(2)] by metis
  note ma = moved_ok[OF a(1) assms] and mb = moved_ok[OF b(1) a(2)]
  consider (r1) "sio_ready (dmask d) (sio (advance w))"
    | (r2) "\<not> sio_ready (dmask d) (sio (advance w))" "sio_ready (dmask d) (sio ?w)"
    | (no) "\<not> sio_ready (dmask d) (sio (advance w))" "\<not> sio_ready (dmask d) (sio ?w)"
    by blast
  then show ?thesis
  proof cases
    case r1
    then have "armed d w None (?w\<lparr>sio := note_tick d (sio ?w)\<rparr>)"
      using armed_note[OF b(2) b(1), of w] ma by (simp add: sio_ready_iff)
    then show ?thesis using r1 by (simp add: wp_def k_arm_def Let_def)
  next
    case r2
    then have "armed d w None ((advance ?w)\<lparr>sio := note_tick d (sio (advance ?w))\<rparr>)"
      using armed_note[OF c(2) c(1), of w] ma mb same_data_trans by (auto simp: sio_ready_iff)
    then show ?thesis using r2 by (simp add: wp_def k_arm_def Let_def arm_locked_def sio_arm_def)
  next
    case no
    let ?e = "next_event ?w"
    obtain s where s: "sio_arm (dmask d) ?e (sio ?w) = (Some ?e, s)" "dslot d s = Some ?e" "readiness s = readiness (sio ?w)"
      using arm_slot[OF no(2)] by blast
    let ?v = "?w\<lparr>sio := s, evset := (evset ?w)(?e := False), next_event := Suc ?e\<rparr>"
    have eq: "bits d ?v = bits d ?w" "down ?v = down ?w" "ready_bit d ?v = ready_bit d ?w" "davail d ?v = davail d ?w"
      "dedge d ?v = dedge d ?w"
      using s(3) by (cases d; simp add: bits_def down_def ready_bit_def)+
    have "\<not> bits d ?w" "\<not> down ?w" using no(2) by (simp_all add: sio_ready_iff)
    then have "dinv d ?v" using b(2) eq s(2) by (auto simp: okd_def dinv_def)
    moreover have "live d ?v" "script_ok d ?v" "same_data ?w ?v" "fuel d ?v = fuel d ?w"
      using b(2) eq by (simp_all add: okd_def live_def script_ok_def same_data_def incoming_def capacity_def fuel_def pot_def)
    ultimately have "armed d w (Some ?e) ?v"
      using ma mb s(2) by (simp add: armed_def okd_def same_data_def)
    then show ?thesis using no(1) s(1) by (simp add: wp_def k_arm_def Let_def arm_locked_def)
  qed
qed


text \<open>Suspending.\<close>

definition parked :: "dir \<Rightarrow> event_id \<Rightarrow> ('x, 'y) desc \<Rightarrow> bool" where
  "parked d e w \<longleftrightarrow> e < next_event w \<and> (evset w e \<or> dslot d (sio w) = Some e)"

lemma parked_env: "env d as w w' \<Longrightarrow> parked d e w \<Longrightarrow> parked d e w'"
  unfolding parked_def env_def using less_le_trans by blast

lemma live_not_idle:
  assumes "okd d w" "parked d e w" "\<not> evset w e" "script w = []"
  shows "\<not> poller_idle w"
proof
  assume i: "poller_idle w"
  have "davail d w \<or> down w" using assms by (simp add: okd_def live_def)
  moreover have "\<not> dedge d w" using i by (cases d) (simp_all add: poller_idle_def)
  ultimately have "bits d w \<or> down w" using assms(1) ready_bit_bits by (auto simp: okd_def dinv_def)
  then show False using assms(1-3) i by (auto simp: okd_def dinv_def parked_def poller_idle_def)
qed

lemma poll_step_moved:
  assumes "okd d w" "\<not> poller_idle w" "script w = []"
  shows "okd d (poll_step w)" "same_data w (poll_step w)" "fuel d (poll_step w) < fuel d w"
    "script (poll_step w) = []" "env d [Poller] w (poll_step w)"
proof -
  have k: "kept d [Poller] w (poll_step w)" "pot d (poll_step w) < pot d w"
    using kept_poll_step[of d w] assms by (simp_all add: okd_def)
  then show "script (poll_step w) = []" "env d [Poller] w (poll_step w)"
    using assms(3) by (simp_all add: kept_def)
  then show "okd d (poll_step w)" "same_data w (poll_step w)" "fuel d (poll_step w) < fuel d w"
    using k assms
    by (auto simp: kept_def okd_def script_ok_def live_def same_data_def incoming_def capacity_def fuel_def env_def)
qed

lemma wp_await:
  assumes "okd d w" "parked d e w"
  shows "wp (k_await e)
    (\<lambda>_ w'. okd d w' \<and> same_data w w' \<and> (evset w e \<or> fuel d w' < fuel d w))
    (\<lambda>x w'. x = CancelledError \<and> dinv d w' \<and> script_ok d w' \<and> same_data w w') w"
  unfolding k_await_def
proof (rule wp_loop[where I = "\<lambda>_ u n. okd d u \<and> parked d e u \<and> same_data w u \<and> fuel d u \<le> fuel d w
    \<and> (evset u e \<longrightarrow> evset w e \<or> fuel d u < fuel d w) \<and> n = fuel d u + length (script u)"])
  fix t u and n :: nat
  assume I: "okd d u \<and> parked d e u \<and> same_data w u \<and> fuel d u \<le> fuel d w
      \<and> (evset u e \<longrightarrow> evset w e \<or> fuel d u < fuel d w) \<and> n = fuel d u + length (script u)"
  consider "evset u e" | "\<not> evset u e" "cancelled u" | "\<not> evset u e" "\<not> cancelled u" "script u \<noteq> []"
    | "\<not> evset u e" "\<not> cancelled u" "script u = []" by blast
  then show "wp (\<lambda>w. if evset w e then Some (Inr (Inr ()), w)
     else if cancelled w then Some (Inl CancelledError, w\<lparr>cancelled := False\<rparr>)
     else if script w \<noteq> [] then Some (Inr (Inl ()), advance w)
     else if poller_idle w then None
     else Some (Inr (Inl ()), poll_step w))
   (turn (\<lambda>_ u. \<exists>m<n. okd d u \<and> parked d e u \<and> same_data w u \<and> fuel d u \<le> fuel d w
        \<and> (evset u e \<longrightarrow> evset w e \<or> fuel d u < fuel d w) \<and> m = fuel d u + length (script u))
      (\<lambda>_ w'. okd d w' \<and> same_data w w' \<and> (evset w e \<or> fuel d w' < fuel d w)))
   (\<lambda>x w'. x = CancelledError \<and> dinv d w' \<and> script_ok d w' \<and> same_data w w') u" (is "wp ?m ?Q ?E u")
  proof cases
    case 1
    then show ?thesis using I by (simp add: wp_def)
  next
    case 2
    moreover have "dinv d (u\<lparr>cancelled := False\<rparr>)" "script_ok d (u\<lparr>cancelled := False\<rparr>)"
        "same_data w (u\<lparr>cancelled := False\<rparr>)"
      using I by (cases d; simp add: okd_def dinv_def bits_def down_def ready_bit_def script_ok_def same_data_def incoming_def capacity_def)+
    ultimately show ?thesis by (simp add: wp_def)
  next
    case 3
    obtain as where a: "moved d as u (advance u)" "okd d (advance u)" "length (script (advance u)) = length (script u) - 1"
      using okd_advance I by metis
    have "env d as u (advance u)" using a(1) by (simp add: moved_def)
    then have "parked d e (advance u)" using parked_env I by blast
    moreover have "length (script (advance u)) < length (script u)" using a(3) 3(3) by (cases "script u") simp_all
    moreover have "evset (advance u) e \<longrightarrow> fuel d (advance u) < fuel d u"
      using a(1) 3(1) by (cases as) (auto simp: moved_def)
    moreover have "fuel d u \<le> fuel d w" using I by blast
    ultimately have "evset (advance u) e \<longrightarrow> fuel d (advance u) < fuel d w" by linarith
    then show ?thesis
      using 3 I a(2) moved_ok[OF a(1)] \<open>parked d e (advance u)\<close> \<open>length (script (advance u)) < length (script u)\<close>
      by (simp add: wp_def same_data_def)
  next
    case 4
    have i: "\<not> poller_idle u" using live_not_idle[of d u e] 4 I by blast
    note p = poll_step_moved[of d u, OF _ i 4(3)]
    have "parked d e (poll_step u)" using p(5) parked_env I by blast
    then show ?thesis using 4 I i p by (simp add: wp_def same_data_def)
  qed
qed (use assms in \<open>simp add: same_data_def\<close>)


text \<open>A call in either direction, with its effect when it succeeds.\<close>

definition dir_call :: "dir \<Rightarrow> exn \<Rightarrow> (('x, 'y) desc \<Rightarrow> 'r \<times> ('x, 'y) desc) \<Rightarrow> ('r, ('x, 'y) desc) io" where
  "dir_call d err eff = (\<lambda>w0. let w = advance w0 in
     if 0 < signals w then Some (Inl InterruptedError, w\<lparr>signals := signals w - 1\<rparr>)
     else if fd_closed w then Some (Inl (OSError 9), w)
     else if was_reset w then Some (Inl err, w)
     else if \<not> davail d w then Some (Inl BlockingIOError, w)
     else Some (Inr (fst (eff w)), snd (eff w)))"

lemma k_call_in_dir:
  "k_call_in consume = dir_call Rd (OSError 104) (\<lambda>w. case consume (inbox w) of (r, rest) \<Rightarrow> (r, w\<lparr>inbox := rest\<rparr>))"
  by (auto simp: fun_eq_iff k_call_in_def dir_call_def Let_def split: prod.splits)

lemma k_call_out_dir:
  "k_call_out produce = dir_call Wr BrokenPipeError (\<lambda>w. case produce (room w) of
     (r, ys, n) \<Rightarrow> (r, w\<lparr>outbox := outbox w @ ys, room := room w - n\<rparr>))"
  by (auto simp: fun_eq_iff k_call_out_def dir_call_def Let_def split: prod.splits)

definition failed :: "exn \<Rightarrow> exn \<Rightarrow> ('x, 'y) desc \<Rightarrow> bool" where
  "failed err e w \<longleftrightarrow> e = OSError 9 \<and> fd_closed w \<or> e = err \<and> was_reset w"

lemma signal_ok:
  assumes "okd d w" "0 < signals w"
  shows "okd d (w\<lparr>signals := signals w - 1\<rparr>)" "same_data w (w\<lparr>signals := signals w - 1\<rparr>)"
    "fuel d (w\<lparr>signals := signals w - 1\<rparr>) < fuel d w"
  using assms
  by (cases d; auto simp: okd_def dinv_def live_def script_ok_def bits_def down_def ready_bit_def same_data_def
      incoming_def capacity_def fuel_def pot_def)+

text \<open>
  After a call that would block, clearing under the tick of the arming keeps the invariant: if the
  tick is the same then no edge was delivered since, and what became available is still to come.
\<close>

lemma tick_same:
  assumes "env d as u v" "env d bs v w" "length as < 128" "length bs < 128"
    and "tick_of (readiness (sio w)) = tick_of (readiness (sio u))"
  shows "no_edge d v w"
proof -
  obtain k l where kl: "k \<le> length as" "tick_of (readiness (sio v)) = tick_of (readiness (sio u)) + of_nat k"
      "l \<le> length bs" "tick_of (readiness (sio w)) = tick_of (readiness (sio v)) + of_nat l" "l = 0 \<longrightarrow> no_edge d v w"
    using assms(1,2) by (auto simp: env_def)
  then have "(of_nat (k + l) :: u8) = 0" using assms(5) by (simp add: add.assoc)
  then have "256 dvd k + l" by (simp only: word_of_nat_eq_0_iff) simp
  moreover have "k + l < 256" using kl(1,3) assms(3,4) by simp
  ultimately have "l = 0" by (auto dest: dvd_imp_le)
  then show ?thesis using kl(5) by simp
qed

lemma clear_ok:
  assumes "okd d u" "dtick d (sio u) = tick_of (readiness (sio u))"
    and m: "moved d as u v" "length as < 128" "moved d bs v w" "length bs < 128"
    and v: "\<not> davail d v" "\<not> down v"
  defines "w' \<equiv> w\<lparr>sio := clear_dir d (sio w)\<rparr>"
  shows "okd d w'" "same_data u w'" "fuel d w' \<le> fuel d u" "bits d u \<Longrightarrow> fuel d w' < fuel d u"
proof -
  have e: "env d as u v" "env d bs v w" using m by (auto simp: moved_def)
  have muv: "moved d (as @ bs) u w" using m(1,3) by (rule moved_trans)
  have w: "okd d w" "same_data u w" "fuel d w \<le> fuel d u"
    using moved_ok[OF muv assms(1)] by simp_all
  have tk: "dtick d (sio w) = tick_of (readiness (sio u))" using e assms(2) by (simp add: env_def)
  have f: "fuel d w < fuel d u \<or> bits d w" if "bits d u"
    using muv that by (cases "as @ bs") (auto simp: moved_def)
  have "okd d w' \<and> same_data u w' \<and> fuel d w' \<le> fuel d u \<and> (bits d u \<longrightarrow> fuel d w' < fuel d u)"
  proof (cases "tick_of (readiness (sio w)) = dtick d (sio w)")
    case False
    then have "w' = w" by (simp add: w'_def clear_dir_eq sio_clear_def)
    moreover have "as @ bs \<noteq> []" using False tk e by (auto simp: env_def)
    then have "fuel d w < fuel d u" using muv by (cases "as @ bs") (simp_all add: moved_def)
    ultimately show ?thesis using w by simp
  next
    case True
    have ne: "no_edge d v w" using tick_same[OF e m(2,4)] True tk by simp
    have s: "w' = w\<lparr>sio := (sio w)\<lparr>readiness := readiness (sio w) AND NOT (dmask d)\<rparr>\<rparr>"
      using True by (simp add: w'_def clear_dir_eq sio_clear_def)
    have nb: "\<not> bits d w'" by (auto simp: s bits_def bit_eq_iff bit_simps)
    have dn: "down w' = down w" using and_not_disjoint[OF opposite(2)] by (simp add: s down_def)
    have ds: "dslot d (sio w') = dslot d (sio w)" by (cases d) (simp_all add: s)
    have "davail d w \<Longrightarrow> dedge d w" using ne v(1) by (auto simp: no_edge_def)
    then have "dinv d w'"
      using w(1) nb dn ds by (auto simp: okd_def dinv_def s)
    moreover have "script_ok d w'" "live d w'" "same_data w w'"
      using w(1) dn by (auto simp: okd_def s same_data_def live_def down_def)
    moreover have "fuel d w' \<le> fuel d w" "bits d w \<Longrightarrow> fuel d w' < fuel d w"
      using nb by (simp_all add: fuel_def pot_def s)
    ultimately show ?thesis using w f by (auto simp: okd_def same_data_def)
  qed
  then show "okd d w'" "same_data u w'" "fuel d w' \<le> fuel d u" "bits d u \<Longrightarrow> fuel d w' < fuel d u"
    by simp_all
qed


section \<open>The loop\<close>

definition retry_k :: "dir \<Rightarrow> ('r, ('x, 'y) desc) io \<Rightarrow> ('r, ('x, 'y) desc) io" where
  "retry_k d call = retry_loop (k_arm d) k_await (k_clear d) call"

text \<open>One call after a successful arming.\<close>

lemma wp_dir_call:
  assumes "armed d w None u"
  shows "wp (dir_call d err eff)
     (\<lambda>r w'. \<exists>v. r = fst (eff v) \<and> w' = snd (eff v) \<and> okd d v \<and> same_data w v \<and> davail d v \<and> \<not> was_reset v \<and> \<not> fd_closed v)
     (\<lambda>e w'. okd d w' \<and> same_data w w' \<and>
        (e = InterruptedError \<and> fuel d w' < fuel d w
         \<or> (e = BlockingIOError \<and> \<not> davail d w' \<and> \<not> down w' \<and> (\<exists>as. moved d as u w' \<and> length as < 128))
         \<or> failed err e w')) u"
proof -
  have u: "okd d u" "same_data w u" "fuel d u \<le> fuel d w" using assms by (auto simp: armed_def)
  obtain as where a: "moved d as u (advance u)" "length as < 128" "okd d (advance u)" using okd_advance[OF u(1)] by metis
  have m: "same_data w (advance u)" "fuel d (advance u) \<le> fuel d w"
    using moved_ok[OF a(1) u(1)] u by (auto simp: same_data_def)
  have "down (advance u) = fd_closed (advance u)" using a(3) by (simp add: okd_def dinv_def)
  moreover note signal_ok[OF a(3)]
  ultimately show ?thesis
    using a m by (auto simp: wp_def dir_call_def Let_def failed_def same_data_def intro: order.strict_trans2)
qed

theorem wp_retry_k:
  assumes "okd d w" "err \<noteq> InterruptedError" "err \<noteq> BlockingIOError"
  shows "wp (retry_k d (dir_call d err eff))
     (\<lambda>r w'. \<exists>v. r = fst (eff v) \<and> w' = snd (eff v) \<and> okd d v \<and> same_data w v \<and> davail d v \<and> \<not> was_reset v \<and> \<not> fd_closed v)
     (\<lambda>e w'. dinv d w' \<and> script_ok d w' \<and> same_data w w' \<and> (e = CancelledError \<or> failed err e w')) w"
    (is "wp _ ?Q ?E w")
  unfolding retry_k_def retry_loop_def
proof (rule wp_loop[where I = "\<lambda>_ u n. okd d u \<and> same_data w u \<and> n = fuel d u"], goal_cases)
  case (2 t u n)
  let ?I = "\<lambda>_ v. \<exists>m<n. okd d v \<and> same_data w v \<and> m = fuel d v"
  have waited: "wp (k_await e) (\<lambda>_. turn ?I ?Q (Inl ())) ?E v" if "armed d u (Some e) v" for e v
  proof -
    have v: "okd d v" "parked d e v" "same_data w v" "fuel d v \<le> fuel d u" "\<not> evset v e"
      using that 2 by (auto simp: armed_def parked_def same_data_def)
    show ?thesis
      by (rule wp_mono[OF wp_await[OF v(1,2)]]) (use v 2 in \<open>auto simp: same_data_def\<close>)
  qed
  have called: "wp (try_else (dir_call d err eff) (\<lambda>_. True)
      (\<lambda>e. if e = InterruptedError then ret (Inl ())
           else if e = BlockingIOError then bnd (k_clear d) (\<lambda>_. ret (Inl ())) else raise e)
      (\<lambda>r. ret (Inr r))) (turn ?I ?Q) ?E v" if v: "armed d u None v" for v
  proof -
    have ok: "okd d v" "dtick d (sio v) = tick_of (readiness (sio v))" "same_data w v" "fuel d v \<le> fuel d u"
      "bits d v \<or> down v \<or> fuel d v < fuel d u"
      using v 2 by (auto simp: armed_def same_data_def)
    have cleared: "wp (k_clear d) (\<lambda>_. turn ?I ?Q (Inl ())) ?E x"
      if x: "okd d x" "\<not> davail d x" "\<not> down x" "moved d as v x" "length as < 128" for x as
    proof -
      obtain bs where b: "moved d bs x (advance x)" "length bs < 128" using okd_advance[OF x(1)] by metis
      note c = clear_ok[OF ok(1,2) x(4,5) b x(2,3)]
      have "\<not> down v" using x(3,4) by (auto simp: moved_def env_def)
      then have "fuel d ((advance x)\<lparr>sio := clear_dir d (sio (advance x))\<rparr>) < fuel d u" using c(3,4) ok(4,5) by auto
      then show ?thesis using c 2 ok(3) by (simp add: wp_def k_clear_def Let_def same_data_def)
    qed
    show ?thesis
      unfolding wp
      by (rule wp_mono[OF wp_dir_call[OF v]])
         (use 2 assms cleared in \<open>auto simp: wp okd_def same_data_def failed_def\<close>)
  qed
  have rest: "wp (case r of Some e \<Rightarrow> bnd (k_await e) (\<lambda>_. ret (Inl ()))
      | None \<Rightarrow> try_else (dir_call d err eff) (\<lambda>_. True)
          (\<lambda>e. if e = InterruptedError then ret (Inl ())
               else if e = BlockingIOError then bnd (k_clear d) (\<lambda>_. ret (Inl ())) else raise e)
          (\<lambda>r. ret (Inr r))) (turn ?I ?Q) ?E v" if "armed d u r v" for r v
    using that called waited by (cases r) (simp_all only: option.case wp_bnd wp_ret)
  show ?case
    unfolding wp_bnd by (rule wp_mono[OF wp_arm[of d u]]) (use 2 in simp, rule rest, assumption, assumption)
qed (use assms in \<open>simp add: same_data_def\<close>)

end
