(* ===== verification/Socket.thy ===== *)
theory Socket
  imports Desc_IO
begin

text \<open>
  \<open>src/tonio/_net/_socket.py\<close>: the class \<open>_Socket\<close>, its constructors and the resolution of addresses.
  A socket object is a number. What the class calls, the methods of the wrapped standard-library
  socket, the native registration of \<open>src/src/net/socket.rs\<close> and the module functions, are the fields
  of the record \<open>os\<close>, so every definition reads as the Python method over any such implementation.
\<close>

section \<open>Values and the interface\<close>

text \<open>The Python values addresses and options are made of.\<close>

datatype pyval =
    PNone | PInt int | PBool bool | PStr string | PBytes bytes | PPath string | PTuple "pyval list" | PObj nat

type_synonym sid = nat

text \<open>
  The constants of the \<open>socket\<close> module, on Linux.
\<close>

definition AF_UNIX :: int where "AF_UNIX = 1"
definition AF_INET :: int where "AF_INET = 2"
definition AF_INET6 :: int where "AF_INET6 = 10"
definition SOCK_STREAM :: int where "SOCK_STREAM = 1"
definition SOL_SOCKET :: int where "SOL_SOCKET = 1"
definition SO_ERROR :: int where "SO_ERROR = 4"
definition IPPROTO_IPV6 :: int where "IPPROTO_IPV6 = 41"
definition IPV6_V6ONLY :: int where "IPV6_V6ONLY = 26"
definition SHUT_WR :: int where "SHUT_WR = 1"
definition SHUT_RDWR :: int where "SHUT_RDWR = 2"
definition AI_PASSIVE :: int where "AI_PASSIVE = 1"
definition AI_V4MAPPED :: int where "AI_V4MAPPED = 8"
definition SOMAXCONN :: int where "SOMAXCONN = 4096"

lemmas socket_consts = AF_UNIX_def AF_INET_def AF_INET6_def SOCK_STREAM_def SOL_SOCKET_def SO_ERROR_def
  IPPROTO_IPV6_def IPV6_V6ONLY_def SHUT_WR_def SHUT_RDWR_def AI_PASSIVE_def AI_V4MAPPED_def SOMAXCONN_def

record 'w os =
  os_handle :: "sid \<Rightarrow> 'w io_handle"
  os_pool :: "(pool_event, 'w) io"
  os_register :: "int \<Rightarrow> (unit, 'w) io"
  s_eof_get :: "sid \<Rightarrow> (bool, 'w) io"
  s_eof_set :: "sid \<Rightarrow> (unit, 'w) io"
  s_family :: "sid \<Rightarrow> int"
  s_type :: "sid \<Rightarrow> int"
  s_proto :: "sid \<Rightarrow> int"
  s_fileno :: "sid \<Rightarrow> (int, 'w) io"
  s_setblocking :: "sid \<Rightarrow> bool \<Rightarrow> (unit, 'w) io"
  s_detach :: "sid \<Rightarrow> (int, 'w) io"
  s_getpeername :: "sid \<Rightarrow> (pyval, 'w) io"
  s_getsockname :: "sid \<Rightarrow> (pyval, 'w) io"
  s_getsockopt :: "sid \<Rightarrow> int \<Rightarrow> int \<Rightarrow> int option \<Rightarrow> (pyval, 'w) io"
  s_setsockopt :: "sid \<Rightarrow> int \<Rightarrow> int \<Rightarrow> pyval \<Rightarrow> int option \<Rightarrow> (unit, 'w) io"
  s_listen :: "sid \<Rightarrow> int \<Rightarrow> (unit, 'w) io"
  s_get_inheritable :: "sid \<Rightarrow> (bool, 'w) io"
  s_set_inheritable :: "sid \<Rightarrow> bool \<Rightarrow> (unit, 'w) io"
  s_dup :: "sid \<Rightarrow> (sid, 'w) io"
  s_close :: "sid \<Rightarrow> (unit, 'w) io"
  s_bind :: "sid \<Rightarrow> pyval \<Rightarrow> (unit, 'w) io"
  s_shutdown :: "sid \<Rightarrow> int \<Rightarrow> (unit, 'w) io"
  s_accept :: "sid \<Rightarrow> (sid \<times> pyval, 'w) io"
  s_connect :: "sid \<Rightarrow> pyval \<Rightarrow> (unit, 'w) io"
  s_recv :: "sid \<Rightarrow> int \<Rightarrow> int \<Rightarrow> (bytes, 'w) io"
  s_recv_into :: "sid \<Rightarrow> nat \<Rightarrow> int \<Rightarrow> int \<Rightarrow> (int, 'w) io"
  s_recvfrom :: "sid \<Rightarrow> int \<Rightarrow> int \<Rightarrow> (bytes \<times> pyval, 'w) io"
  s_recvfrom_into :: "sid \<Rightarrow> nat \<Rightarrow> int \<Rightarrow> int \<Rightarrow> (int \<times> pyval, 'w) io"
  s_recvmsg :: "sid \<Rightarrow> int \<Rightarrow> int \<Rightarrow> int \<Rightarrow> (bytes \<times> pyval \<times> int \<times> pyval, 'w) io"
  s_recvmsg_into :: "sid \<Rightarrow> nat list \<Rightarrow> int \<Rightarrow> int \<Rightarrow> (int \<times> pyval \<times> int \<times> pyval, 'w) io"
  s_send :: "sid \<Rightarrow> bytes \<Rightarrow> int \<Rightarrow> (int, 'w) io"
  s_sendto :: "sid \<Rightarrow> bytes \<Rightarrow> pyval \<Rightarrow> (int, 'w) io"
  s_sendmsg :: "sid \<Rightarrow> bytes list \<Rightarrow> pyval \<Rightarrow> int \<Rightarrow> pyval \<Rightarrow> (int, 'w) io"
  m_socket :: "int \<Rightarrow> int \<Rightarrow> int \<Rightarrow> int option \<Rightarrow> (sid, 'w) io"
  m_getaddrinfo :: "pyval \<Rightarrow> pyval \<Rightarrow> int \<Rightarrow> int \<Rightarrow> int \<Rightarrow> int \<Rightarrow> (pyval list list, 'w) io"
  m_inet_pton :: "int \<Rightarrow> pyval \<Rightarrow> (unit, 'w) io"

text \<open>\<open>yield spawn_blocking(f, ...)\<close>: the call \<open>m\<close> runs in a thread of the pool.\<close>

definition spawn_blocking :: "'w os \<Rightarrow> ('a, 'w) io \<Rightarrow> ('a, 'w) io" where
  "spawn_blocking os m = in_pool (os_pool os) m"

section \<open>Construction\<close>

text \<open>\<open>Socket::new\<close> of \<open>src/src/net/socket.rs\<close>: non-blocking mode, then the registration.\<close>

definition socket_new :: "'w os \<Rightarrow> sid \<Rightarrow> (sid, 'w) io" where
  "socket_new os s =
     bnd (s_fileno os s) (\<lambda>fd.
     bnd (s_setblocking os s False) (\<lambda>_.
     bnd (os_register os fd) (\<lambda>_. ret s)))"

definition from_stdlib_socket :: "'w os \<Rightarrow> sid \<Rightarrow> (sid, 'w) io" where
  "from_stdlib_socket os s = socket_new os s"

definition socket :: "'w os \<Rightarrow> int \<Rightarrow> int \<Rightarrow> int \<Rightarrow> int option \<Rightarrow> (sid, 'w) io" where
  "socket os family type proto fileno =
     bnd (m_socket os family type proto fileno) (from_stdlib_socket os)"

section \<open>Plain methods\<close>

definition detach :: "'w os \<Rightarrow> sid \<Rightarrow> (int, 'w) io" where
  "detach os s = bnd (io_close (os_handle os s)) (\<lambda>_. s_detach os s)"

definition fileno :: "'w os \<Rightarrow> sid \<Rightarrow> (int, 'w) io" where
  "fileno os s = s_fileno os s"

definition getpeername :: "'w os \<Rightarrow> sid \<Rightarrow> (pyval, 'w) io" where
  "getpeername os s = s_getpeername os s"

definition getsockname :: "'w os \<Rightarrow> sid \<Rightarrow> (pyval, 'w) io" where
  "getsockname os s = s_getsockname os s"

definition getsockopt :: "'w os \<Rightarrow> sid \<Rightarrow> int \<Rightarrow> int \<Rightarrow> int option \<Rightarrow> (pyval, 'w) io" where
  "getsockopt os s level optname buflen = (case buflen of
      None \<Rightarrow> s_getsockopt os s level optname None
    | Some n \<Rightarrow> s_getsockopt os s level optname (Some n))"

text \<open>
  The messages are those of the source; the first one speaks of \<open>optlen\<close> although it is raised when
  \<open>optlen\<close> is absent.
\<close>

definition setsockopt :: "'w os \<Rightarrow> sid \<Rightarrow> int \<Rightarrow> int \<Rightarrow> pyval \<Rightarrow> int option \<Rightarrow> (unit, 'w) io" where
  "setsockopt os s level optname value optlen = (case optlen of
      None \<Rightarrow>
        if value = PNone
        then raise (TypeError ''invalid value for argument 'value', must not be None when specifying optlen'')
        else s_setsockopt os s level optname value None
    | Some n \<Rightarrow>
        if value \<noteq> PNone
        then raise (TypeError ''invalid value for argument 'value', must be None when specifying optlen'')
        else s_setsockopt os s level optname value (Some n))"

definition listen :: "'w os \<Rightarrow> sid \<Rightarrow> int option \<Rightarrow> (unit, 'w) io" where
  "listen os s backlog = s_listen os s (case backlog of None \<Rightarrow> min SOMAXCONN 128 | Some n \<Rightarrow> n)"

definition get_inheritable :: "'w os \<Rightarrow> sid \<Rightarrow> (bool, 'w) io" where
  "get_inheritable os s = s_get_inheritable os s"

definition set_inheritable :: "'w os \<Rightarrow> sid \<Rightarrow> bool \<Rightarrow> (unit, 'w) io" where
  "set_inheritable os s b = s_set_inheritable os s b"

definition dup :: "'w os \<Rightarrow> sid \<Rightarrow> (sid, 'w) io" where
  "dup os s = bnd (s_dup os s) (socket_new os)"

definition sock_close :: "'w os \<Rightarrow> sid \<Rightarrow> (unit, 'w) io" where
  "sock_close os s = bnd (s_fileno os s) (\<lambda>fd.
     when_true (fd \<noteq> - 1) (bnd (io_close (os_handle os s)) (\<lambda>_. s_close os s)))"

definition sock_exit :: "'w os \<Rightarrow> sid \<Rightarrow> (unit, 'w) io" where
  "sock_exit os s = sock_close os s"

definition shutdown :: "'w os \<Rightarrow> sid \<Rightarrow> int \<Rightarrow> (unit, 'w) io" where
  "shutdown os s flag = bnd (s_shutdown os s flag) (\<lambda>_.
     when_true (flag = SHUT_WR \<or> flag = SHUT_RDWR) (s_eof_set os s))"

section \<open>Addresses\<close>

definition getaddrinfo ::
    "'w os \<Rightarrow> pyval \<Rightarrow> pyval \<Rightarrow> int \<Rightarrow> int \<Rightarrow> int \<Rightarrow> int \<Rightarrow> (pyval list list, 'w) io" where
  "getaddrinfo os host port family type proto flags =
     spawn_blocking os (m_getaddrinfo os host port family type proto flags)"

fun is_int :: "pyval \<Rightarrow> bool" where
  "is_int (PInt _) = True" | "is_int (PBool _) = True" | "is_int _ = False"

fun is_pathlike :: "pyval \<Rightarrow> bool" where
  "is_pathlike (PStr _) = True" | "is_pathlike (PBytes _) = True" | "is_pathlike (PPath _) = True"
| "is_pathlike _ = False"

fun is_TypeError :: "exn \<Rightarrow> bool" where
  "is_TypeError (TypeError _) = True" | "is_TypeError _ = False"

fun fspath :: "pyval \<Rightarrow> pyval" where
  "fspath (PPath p) = PStr p" | "fspath v = v"

text \<open>The checks at the start of \<open>_resolve_address\<close>: go on, return at once, or raise.\<close>

datatype 'a early = Continue | Return_now 'a | Fail exn

definition check_address :: "int \<Rightarrow> pyval \<Rightarrow> pyval early" where
  "check_address family address =
     (if family = AF_INET then
        (case address of
           PTuple xs \<Rightarrow> if length xs = 2 then Continue else Fail (ValueError ''address should be a (host, port) tuple'')
         | _ \<Rightarrow> Fail (ValueError ''address should be a (host, port) tuple''))
      else if family = AF_INET6 then
        (case address of
           PTuple xs \<Rightarrow> if 2 \<le> length xs \<and> length xs \<le> 4 then Continue
             else Fail (ValueError ''address should be a (host, port, [flowinfo, [scopeid]]) tuple'')
         | _ \<Rightarrow> Fail (ValueError ''address should be a (host, port, [flowinfo, [scopeid]]) tuple''))
      else if family = AF_UNIX then
        (if is_pathlike address then Return_now (fspath address) else Fail AssertionError)
      else Return_now address)"

fun tuple_items :: "pyval \<Rightarrow> pyval list" where
  "tuple_items (PTuple xs) = xs" | "tuple_items _ = []"

definition lookup_host :: "pyval \<Rightarrow> pyval" where
  "lookup_host host =
     (let host = (if host = PStr '''' then PNone else host)
      in if host = PStr ''<broadcast>'' then PStr ''255.255.255.255'' else host)"

definition lookup_flags :: "int \<Rightarrow> bool \<Rightarrow> bool \<Rightarrow> int" where
  "lookup_flags family v6only local =
     (let flags = 0; flags = (if local then flags OR AI_PASSIVE else flags)
      in if family = AF_INET6 \<and> \<not> v6only then flags OR AI_V4MAPPED else flags)"

text \<open>The result of the look-up: the last item of its first entry, with the caller's flow and scope.\<close>

definition merge_normed :: "int \<Rightarrow> pyval list \<Rightarrow> pyval \<Rightarrow> (pyval, 'w) io" where
  "merge_normed family address normed =
     (if family = AF_INET6 then
        let l = tuple_items normed in
        if length l \<noteq> 4 then raise AssertionError
        else let l = (if 3 \<le> length address then l[2 := address ! 2] else l);
                 l = (if 4 \<le> length address then l[3 := address ! 3] else l)
             in ret (PTuple l)
      else ret normed)"

definition resolve_address ::
    "'w os \<Rightarrow> int \<Rightarrow> int \<Rightarrow> int \<Rightarrow> bool \<Rightarrow> pyval \<Rightarrow> bool \<Rightarrow> (pyval, 'w) io" where
  "resolve_address os type family proto v6only address local =
     (case check_address family address of
        Fail e \<Rightarrow> raise e
      | Return_now a \<Rightarrow> ret a
      | Continue \<Rightarrow>
          let items = tuple_items address; host = items ! 0; port = items ! 1;
              lookup =
                bnd (getaddrinfo os (lookup_host host) port family type proto (lookup_flags family v6only local)) (\<lambda>res.
                  if length res < 1 then raise AssertionError
                  else merge_normed family items (last (hd res)))
          in if is_int port \<and> host \<noteq> PNone
             then try_else (m_inet_pton os family host)
                    (\<lambda>e. is_OSError e \<or> is_TypeError e) (\<lambda>_. lookup) (\<lambda>_. ret address)
             else lookup)"

text \<open>\<open>_Socket._resolve_address\<close>: ask the socket whether it is IPv6 only.\<close>

definition truthy_int :: "pyval \<Rightarrow> bool" where
  "truthy_int v = (case v of PInt n \<Rightarrow> n \<noteq> 0 | PBool b \<Rightarrow> b | _ \<Rightarrow> True)"

definition sock_resolve_address :: "'w os \<Rightarrow> sid \<Rightarrow> pyval \<Rightarrow> bool \<Rightarrow> (pyval, 'w) io" where
  "sock_resolve_address os s address local =
     bnd (if s_family os s = AF_INET6
          then bnd (s_getsockopt os s IPPROTO_IPV6 IPV6_V6ONLY None) (\<lambda>v. ret (truthy_int v))
          else ret False) (\<lambda>v6only.
     resolve_address os (s_type os s) (s_family os s) (s_proto os s) v6only address local)"

definition bind :: "'w os \<Rightarrow> sid \<Rightarrow> pyval \<Rightarrow> (unit, 'w) io" where
  "bind os s address = bnd (sock_resolve_address os s address True) (\<lambda>a. spawn_blocking os (s_bind os s a))"

section \<open>Incoming\<close>

definition accept :: "'w os \<Rightarrow> sid \<Rightarrow> (sid \<times> pyval, 'w) io" where
  "accept os s = bnd (retry_r (os_handle os s) (s_accept os s)) (\<lambda>(conn, address).
     bnd (from_stdlib_socket os conn) (\<lambda>c. ret (c, address)))"

definition recv :: "'w os \<Rightarrow> sid \<Rightarrow> int \<Rightarrow> int \<Rightarrow> (bytes, 'w) io" where
  "recv os s bufsize flags = retry_r (os_handle os s) (s_recv os s bufsize flags)"

definition recv_into :: "'w os \<Rightarrow> sid \<Rightarrow> nat \<Rightarrow> int \<Rightarrow> int \<Rightarrow> (int, 'w) io" where
  "recv_into os s buffer nbytes flags = retry_r (os_handle os s) (s_recv_into os s buffer nbytes flags)"

definition recvfrom :: "'w os \<Rightarrow> sid \<Rightarrow> int \<Rightarrow> int \<Rightarrow> (bytes \<times> pyval, 'w) io" where
  "recvfrom os s bufsize flags = retry_r (os_handle os s) (s_recvfrom os s bufsize flags)"

definition recvfrom_into :: "'w os \<Rightarrow> sid \<Rightarrow> nat \<Rightarrow> int \<Rightarrow> int \<Rightarrow> (int \<times> pyval, 'w) io" where
  "recvfrom_into os s buffer nbytes flags =
     retry_r (os_handle os s) (s_recvfrom_into os s buffer nbytes flags)"

definition recvmsg :: "'w os \<Rightarrow> sid \<Rightarrow> int \<Rightarrow> int \<Rightarrow> int \<Rightarrow> (bytes \<times> pyval \<times> int \<times> pyval, 'w) io" where
  "recvmsg os s bufsize ancbufsize flags =
     retry_r (os_handle os s) (s_recvmsg os s bufsize ancbufsize flags)"

definition recvmsg_into ::
    "'w os \<Rightarrow> sid \<Rightarrow> nat list \<Rightarrow> int \<Rightarrow> int \<Rightarrow> (int \<times> pyval \<times> int \<times> pyval, 'w) io" where
  "recvmsg_into os s buffers ancbufsize flags =
     retry_r (os_handle os s) (s_recvmsg_into os s buffers ancbufsize flags)"

section \<open>Outgoing\<close>

definition blocked :: "exn \<Rightarrow> bool" where
  "blocked e \<longleftrightarrow> e = BlockingIOError \<or> e = InterruptedError"

text \<open>An eager attempt, then the loop: \<open>send\<close>, \<open>sendto\<close> and \<open>sendmsg\<close>.\<close>

definition eager_retry_w :: "'w io_handle \<Rightarrow> ('r, 'w) io \<Rightarrow> ('r, 'w) io" where
  "eager_retry_w h call = try_except call blocked (\<lambda>_. retry_w h call)"

definition send :: "'w os \<Rightarrow> sid \<Rightarrow> bytes \<Rightarrow> int \<Rightarrow> (int, 'w) io" where
  "send os s data flags =
     (if data = [] then ret 0 else eager_retry_w (os_handle os s) (s_send os s data flags))"

text \<open>\<open>sendto\<close> returns \<open>None\<close>, not 0, when there is nothing to send.\<close>

definition sendto :: "'w os \<Rightarrow> sid \<Rightarrow> bytes \<Rightarrow> pyval \<Rightarrow> (int option, 'w) io" where
  "sendto os s data address =
     (if data = [] then ret None
      else bnd (sock_resolve_address os s address False) (\<lambda>a.
        bnd (eager_retry_w (os_handle os s) (s_sendto os s data a)) (\<lambda>n. ret (Some n))))"

definition sendmsg :: "'w os \<Rightarrow> sid \<Rightarrow> bytes list \<Rightarrow> pyval \<Rightarrow> int \<Rightarrow> pyval \<Rightarrow> (int, 'w) io" where
  "sendmsg os s buffers ancdata flags address =
     bnd (if address \<noteq> PNone then sock_resolve_address os s address False else ret address) (\<lambda>a.
       eager_retry_w (os_handle os s) (s_sendmsg os s buffers ancdata flags a))"

text \<open>
  \<open>connect\<close>: after an attempt that did not complete at once, wait until the socket is writable, read
  \<open>SO_ERROR\<close>, and take the connection as made only when it has a peer.
\<close>

definition connect :: "'w os \<Rightarrow> sid \<Rightarrow> pyval \<Rightarrow> (unit, 'w) io" where
  "connect os s address = bnd (sock_resolve_address os s address False) (\<lambda>a.
     try_else (s_connect os s a) blocked
       (\<lambda>_. loop (\<lambda>_.
          bnd (io_arm_w (os_handle os s)) (\<lambda>waiter. case waiter of
              Some e \<Rightarrow> bnd (await (os_handle os s) e) (\<lambda>_. ret (Inl ()))
            | None \<Rightarrow> bnd (s_getsockopt os s SOL_SOCKET SO_ERROR None) (\<lambda>err.
                if err \<noteq> PInt 0 then raise (ConnectFailed (case err of PInt n \<Rightarrow> n | _ \<Rightarrow> 0))
                else try_else (s_getpeername os s) is_OSError
                  (\<lambda>_. bnd (io_clear_w (os_handle os s)) (\<lambda>_. ret (Inl ())))
                  (\<lambda>_. ret (Inr ()))))) ())
       ret)"


section \<open>An idle implementation\<close>

text \<open>Every call succeeds and does nothing; the starting point of the concrete worlds of the witnesses.\<close>

definition idle_handle :: "'w io_handle" where
  "idle_handle = \<lparr>io_arm_r = ret None, io_arm_w = ret None, io_clear_r = ret (), io_clear_w = ret (),
     io_close = ret (), await = \<lambda>_. ret ()\<rparr>"

definition idle_os :: "'w os" where
  "idle_os = \<lparr>os_handle = \<lambda>_. idle_handle, os_pool = ret Completed, os_register = \<lambda>_. ret (),
     s_eof_get = \<lambda>_. ret False, s_eof_set = \<lambda>_. ret (), s_family = \<lambda>_. AF_UNIX, s_type = \<lambda>_. SOCK_STREAM,
     s_proto = \<lambda>_. 0, s_fileno = \<lambda>_. ret 5, s_setblocking = \<lambda>_ _. ret (),
     s_detach = \<lambda>_. ret 5, s_getpeername = \<lambda>_. ret PNone, s_getsockname = \<lambda>_. ret PNone,
     s_getsockopt = \<lambda>_ _ _ _. ret (PInt 0), s_setsockopt = \<lambda>_ _ _ _ _. ret (), s_listen = \<lambda>_ _. ret (),
     s_get_inheritable = \<lambda>_. ret False, s_set_inheritable = \<lambda>_ _. ret (), s_dup = ret,
     s_close = \<lambda>_. ret (), s_bind = \<lambda>_ _. ret (), s_shutdown = \<lambda>_ _. ret (), s_accept = \<lambda>_. ret (1, PNone),
     s_connect = \<lambda>_ _. ret (), s_recv = \<lambda>_ _ _. ret [],
     s_recv_into = \<lambda>_ _ _ _. ret 0, s_recvfrom = \<lambda>_ _ _. ret ([], PNone), s_recvfrom_into = \<lambda>_ _ _ _. ret (0, PNone),
     s_recvmsg = \<lambda>_ _ _ _. ret ([], PNone, 0, PNone), s_recvmsg_into = \<lambda>_ _ _ _. ret (0, PNone, 0, PNone),
     s_send = \<lambda>_ d _. ret (int (length d)), s_sendto = \<lambda>_ _ _. ret 0, s_sendmsg = \<lambda>_ _ _ _ _. ret 0,
     m_socket = \<lambda>_ _ _ _. ret 0, m_getaddrinfo = \<lambda>_ _ _ _ _ _. ret [], m_inet_pton = \<lambda>_ _. raise (OSError 22)\<rparr>"

lemmas idle_defs = idle_os_def idle_handle_def

end
