(* ===== verification/Streams.thy ===== *)
theory Streams
  imports Socket
begin

text \<open>
  Byte streams: \<open>SocketStream\<close> and \<open>SocketListener\<close> of \<open>src/tonio/_net/_streams.py\<close> over a socket, and
  \<open>Fd\<close>, \<open>ProcFd\<close> and \<open>FdStream\<close> of \<open>src/tonio/_fd.py\<close> over a raw descriptor, with the clean-up of
  \<open>_Stream\<close> (\<open>src/tonio/_streams.py\<close>).
\<close>

section \<open>Streams over sockets\<close>

definition IPPROTO_TCP :: int where "IPPROTO_TCP = 6"
definition TCP_NODELAY :: int where "TCP_NODELAY = 1"
definition TCP_NOTSENT_LOWAT :: int where "TCP_NOTSENT_LOWAT = 25"

definition suppress :: "(exn \<Rightarrow> bool) \<Rightarrow> (unit, 'w) io \<Rightarrow> (unit, 'w) io" where
  "suppress p m = try_except m p (\<lambda>_. ret ())"

text \<open>
  \<open>SocketStream.__init__\<close>. The argument is \<^const>\<open>None\<close> when it is not a tonio socket. The options are
  best effort.
\<close>

definition stream_init :: "'w os \<Rightarrow> sid option \<Rightarrow> (sid, 'w) io" where
  "stream_init os sock = (case sock of
      None \<Rightarrow> raise (TypeError ''SocketStream requires a TonIO socket object'')
    | Some s \<Rightarrow>
        if s_type os s \<noteq> SOCK_STREAM then raise (ValueError ''SocketStream requires a SOCK_STREAM socket'')
        else bnd (suppress is_OSError (setsockopt os s IPPROTO_TCP TCP_NODELAY (PBool True) None)) (\<lambda>_.
             bnd (suppress is_OSError (setsockopt os s IPPROTO_TCP TCP_NOTSENT_LOWAT (PInt (2 ^ 14)) None)) (\<lambda>_.
             ret s)))"

definition stream_send_all :: "'w os \<Rightarrow> sid \<Rightarrow> bytes \<Rightarrow> (unit, 'w) io" where
  "stream_send_all os s data = bnd (s_eof_get os s) (\<lambda>eof.
     if eof then raise (RuntimeError ''can't send data after sending EOF'')
     else if data = [] then ret ()
     else loop (\<lambda>total_sent.
       if total_sent < int (length data)
       then bnd (send os s (drop (nat total_sent) data) 0) (\<lambda>sent. ret (Inl (total_sent + sent)))
       else ret (Inr ())) 0)"

definition stream_send_eof :: "'w os \<Rightarrow> sid \<Rightarrow> (unit, 'w) io" where
  "stream_send_eof os s = bnd (s_eof_get os s) (\<lambda>eof.
     if eof then ret () else shutdown os s SHUT_WR)"

definition default_max :: "int option \<Rightarrow> int" where
  "default_max max_bytes = (case max_bytes of None \<Rightarrow> 65536 | Some n \<Rightarrow> if n = 0 then 65536 else n)"

definition stream_receive_some :: "'w os \<Rightarrow> sid \<Rightarrow> int option \<Rightarrow> (bytes, 'w) io" where
  "stream_receive_some os s max_bytes = recv os s (default_max max_bytes) 0"

definition stream_close :: "'w os \<Rightarrow> sid \<Rightarrow> (unit, 'w) io" where
  "stream_close os s = sock_close os s"

text \<open>\<open>_Stream.__exit__\<close>: leaving a stream's block closes it, whatever the block did.\<close>

definition with_stream :: "(unit, 'w) io \<Rightarrow> ('a, 'w) io \<Rightarrow> ('a, 'w) io" where
  "with_stream close body = try_finally body close"

text \<open>
  The errno values \<open>SocketListener.accept\<close> ignores, on Linux: \<open>ECONNABORTED\<close>, \<open>ECONNRESET\<close>, \<open>EHOSTDOWN\<close>,
  \<open>EHOSTUNREACH\<close>, \<open>ENETDOWN\<close>, \<open>ENETUNREACH\<close>, \<open>ENONET\<close>, \<open>ENOPROTOOPT\<close>, \<open>ENOSR\<close>, \<open>EOPNOTSUPP\<close>, \<open>EPERM\<close>,
  \<open>EPROTO\<close>, \<open>EPROTONOSUPPORT\<close>, \<open>ESOCKTNOSUPPORT\<close>, \<open>ETIMEDOUT\<close>.
\<close>

definition ignorable_accept_errnos :: "int list" where
  "ignorable_accept_errnos = [103, 104, 112, 113, 100, 101, 64, 92, 63, 95, 1, 71, 93, 94, 110]"

definition ignorable :: "exn \<Rightarrow> bool" where
  "ignorable e \<longleftrightarrow> (case os_errno e of Some n \<Rightarrow> n \<in> set ignorable_accept_errnos | None \<Rightarrow> False)"

definition listener_init :: "'w os \<Rightarrow> sid option \<Rightarrow> (sid, 'w) io" where
  "listener_init os sock = (case sock of
      None \<Rightarrow> raise (TypeError ''SocketStream requires a TonIO socket object'')
    | Some s \<Rightarrow>
        if s_type os s \<noteq> SOCK_STREAM then raise (ValueError ''SocketStream requires a SOCK_STREAM socket'')
        else ret s)"

definition listener_accept :: "'w os \<Rightarrow> sid \<Rightarrow> (sid, 'w) io" where
  "listener_accept os s = loop (\<lambda>_.
     try_else (accept os s) is_OSError
       (\<lambda>e. if \<not> ignorable e then raise e else ret (Inl ()))
       (\<lambda>(sock, _). bnd (stream_init os (Some sock)) (\<lambda>st. ret (Inr st)))) ()"

definition listener_close :: "'w os \<Rightarrow> sid \<Rightarrow> (unit, 'w) io" where
  "listener_close os s = sock_close os s"

section \<open>Streams over descriptors\<close>

text \<open>
  What \<open>FdStream\<close> calls: the native \<open>Fd\<close> (\<open>src/src/fd.rs\<close>), \<open>os.read\<close>, \<open>os.write\<close> and \<open>os.close\<close>, and
  its two locks, of which it uses \<open>or_raise\<close> and the end of the \<open>with\<close> block.
\<close>

record 'w fd_os =
  fd_handle :: "'w io_handle"
  fd_no :: "(int, 'w) io"
  fd_drop :: "(unit, 'w) io"
  fd_os_close :: "int \<Rightarrow> (unit, 'w) io"
  fd_write :: "int \<Rightarrow> bytes \<Rightarrow> (int, 'w) io"
  fd_read :: "int \<Rightarrow> int \<Rightarrow> (bytes, 'w) io"
  lock_r_or_raise :: "(unit, 'w) io"
  lock_r_exit :: "(unit, 'w) io"
  lock_w_or_raise :: "(unit, 'w) io"
  lock_w_exit :: "(unit, 'w) io"

definition with_lock :: "(unit, 'w) io \<Rightarrow> (unit, 'w) io \<Rightarrow> ('a, 'w) io \<Rightarrow> ('a, 'w) io" where
  "with_lock or_raise lexit body = bnd or_raise (\<lambda>_. try_finally body lexit)"

definition fd_is_closed :: "'w fd_os \<Rightarrow> (bool, 'w) io" where
  "fd_is_closed os = bnd (fd_no os) (\<lambda>fd. ret (fd = - 1))"

definition fd_close :: "'w fd_os \<Rightarrow> (unit, 'w) io" where
  "fd_close os = bnd (fd_is_closed os) (\<lambda>c.
     if c then ret ()
     else bnd (fd_no os) (\<lambda>fd.
          bnd (io_close (fd_handle os)) (\<lambda>_.
          bnd (fd_drop os) (\<lambda>_. fd_os_close os fd))))"

text \<open>\<open>ProcFd\<close> repeats the methods of \<open>Fd\<close>.\<close>

definition proc_fd_close :: "'w fd_os \<Rightarrow> (unit, 'w) io" where
  "proc_fd_close os = bnd (fd_is_closed os) (\<lambda>c.
     if c then ret ()
     else bnd (fd_no os) (\<lambda>fd.
          bnd (io_close (fd_handle os)) (\<lambda>_.
          bnd (fd_drop os) (\<lambda>_. fd_os_close os fd))))"

definition fdstream_send_all :: "'w fd_os \<Rightarrow> bytes \<Rightarrow> (unit, 'w) io" where
  "fdstream_send_all os data = bnd (fd_is_closed os) (\<lambda>c.
     if c then raise (RuntimeError ''file closed'')
     else bnd (fd_no os) (\<lambda>fd.
       with_lock (lock_w_or_raise os) (lock_w_exit os)
         (if data = [] then ret ()
          else loop (\<lambda>sent.
            if sent < int (length data)
            then bnd (retry_w (fd_handle os)
                   (try_except (fd_write os fd (drop (nat sent) data)) (\<lambda>e. e = BrokenPipeError)
                      (\<lambda>e. raise (ResourceBroken (Some e)))))
                 (\<lambda>n. ret (Inl (sent + n)))
            else ret (Inr ())) 0)))"

definition fdstream_receive_some :: "'w fd_os \<Rightarrow> int option \<Rightarrow> (bytes, 'w) io" where
  "fdstream_receive_some os max_bytes = bnd (fd_is_closed os) (\<lambda>c.
     if c then raise (RuntimeError ''file closed'')
     else bnd (fd_no os) (\<lambda>fd.
       with_lock (lock_r_or_raise os) (lock_r_exit os)
         (retry_r (fd_handle os) (fd_read os fd (default_max max_bytes)))))"

definition fdstream_close :: "'w fd_os \<Rightarrow> (unit, 'w) io" where
  "fdstream_close os = fd_close os"

text \<open>\<open>open_proc_fd\<close>: \<open>ProcessLookupError\<close> is the \<open>OSError\<close> of errno \<open>ESRCH\<close> (3).\<close>

definition open_proc_fd :: "(nat \<Rightarrow> ('f, 'w) io) \<Rightarrow> nat \<Rightarrow> ('f option, 'w) io" where
  "open_proc_fd proc_fd pid =
     try_else (proc_fd pid) (\<lambda>e. e = OSError 3) (\<lambda>_. ret None) (\<lambda>f. ret (Some f))"

end
