(* ===== verification/Stream_Props.thy ===== *)
theory Stream_Props
  imports Retry Streams
begin

text \<open>
  What the byte streams promise, over a descriptor shared with its environment (\<open>Desc_IO\<close>): a receive
  returns the next bytes of what the peer sent, and nothing is lost when it is cancelled or fails; a
  \<open>send_all\<close> that returns has handed over every byte in order, and one that raises a prefix of
  them. Both return whenever the peer makes progress, for every interleaving with the poller.
\<close>

section \<open>The kernel's part\<close>

text \<open>
  What \<open>recv\<close>/\<open>os.read\<close> and \<open>send\<close>/\<open>os.write\<close> do with the buffers: at most the number of bytes asked
  for, and as much of the data as there is room for.
\<close>

definition take_bytes :: "int \<Rightarrow> 'x list \<Rightarrow> 'x list \<times> 'x list" where
  "take_bytes n b = (take (nat n) b, drop (nat n) b)"

definition put_bytes :: "'y list \<Rightarrow> nat \<Rightarrow> int \<times> 'y list \<times> nat" where
  "put_bytes data free = (let k = min free (length data) in (int k, take k data, k))"

definition byte_socket :: "(u8, u8) desc os \<Rightarrow> sid \<Rightarrow> bool" where
  "byte_socket os s \<longleftrightarrow> os_handle os s = k_handle
     \<and> (\<forall>n fl. s_recv os s n fl = k_call_in (take_bytes n))
     \<and> (\<forall>data fl. s_send os s data fl = k_call_out (put_bytes data))
     \<and> s_eof_get os s = ret False"

definition byte_fd :: "(u8, u8) desc fd_os \<Rightarrow> bool" where
  "byte_fd os \<longleftrightarrow> fd_handle os = k_handle \<and> (\<exists>n. n \<noteq> - 1 \<and> fd_no os = ret n)
     \<and> (\<forall>fd n. fd_read os fd n = k_call_in (take_bytes n))
     \<and> (\<forall>fd data. fd_write os fd data = k_call_out (put_bytes data))
     \<and> lock_r_or_raise os = ret () \<and> lock_r_exit os = ret () \<and> lock_w_or_raise os = ret () \<and> lock_w_exit os = ret ()"

lemma retry_k_eq:
  "retry_r k_handle call = retry_k Rd call" "retry_w k_handle call = retry_k Wr call"
  by (simp_all add: retry_r_def retry_w_def retry_k_def k_handle_def)

section \<open>Receiving\<close>

text \<open>What holds of a descriptor between two calls of a coroutine that uses one direction of it.\<close>

definition resting :: "dir \<Rightarrow> ('x, 'y) desc \<Rightarrow> bool" where
  "resting d w \<longleftrightarrow> dinv d w \<and> script_ok d w"

definition received :: "int \<Rightarrow> ('x, 'y) desc \<Rightarrow> 'x list \<Rightarrow> ('x, 'y) desc \<Rightarrow> bool" where
  "received n w data w' \<longleftrightarrow> incoming w = data @ incoming w' \<and> int (length data) \<le> n
     \<and> (data = [] \<longrightarrow> in_eof w' \<and> inbox w' = []) \<and> resting Rd w'"

definition not_received :: "('x, 'y) desc \<Rightarrow> exn \<Rightarrow> ('x, 'y) desc \<Rightarrow> bool" where
  "not_received w e w' \<longleftrightarrow> incoming w' = incoming w \<and> resting Rd w'
     \<and> (e = CancelledError \<or> e = OSError 9 \<and> fd_closed w' \<or> e = OSError 104 \<and> was_reset w')"

lemma resting_inbox:
  assumes "okd Rd v" "davail Rd v"
  shows "resting Rd (v\<lparr>inbox := rest\<rparr>)"
  using assms by (auto simp: okd_def resting_def dinv_def script_ok_def bits_def down_def ready_bit_def)

lemma wp_retry_read:
  assumes "okd Rd w" "0 < n"
  shows "wp (retry_k Rd (k_call_in (take_bytes n))) (received n w) (not_received w) w"
  unfolding k_call_in_dir
proof (rule wp_mono[OF wp_retry_k[OF assms(1)]])
  fix data w'
  assume "\<exists>v. data = fst (case take_bytes n (inbox v) of (r, rest) \<Rightarrow> (r, v\<lparr>inbox := rest\<rparr>)) \<and>
      w' = snd (case take_bytes n (inbox v) of (r, rest) \<Rightarrow> (r, v\<lparr>inbox := rest\<rparr>)) \<and>
      okd Rd v \<and> same_data w v \<and> davail Rd v \<and> \<not> was_reset v \<and> \<not> fd_closed v"
  then obtain v where v: "data = take (nat n) (inbox v)" "w' = v\<lparr>inbox := drop (nat n) (inbox v)\<rparr>"
      "okd Rd v" "same_data w v" "davail Rd v" "\<not> was_reset v"
    by (auto simp: take_bytes_def)
  have "data @ inbox w' = inbox v" using v(1,2) by simp
  then have "incoming v = data @ incoming w'"
    using v(2) by (simp add: incoming_def flip: append_assoc)
  then have "incoming w = data @ incoming w'" using v(4) by (simp add: same_data_def)
  then show "received n w data w'"
    using v resting_inbox[OF v(3,5)] assms(2) by (auto simp: received_def)
qed (auto simp: not_received_def resting_def same_data_def failed_def)

section \<open>Sending\<close>

lemma wp_eager_call:
  assumes "okd d w"
  shows "wp (dir_call d err eff)
     (\<lambda>r w'. \<exists>v. r = fst (eff v) \<and> w' = snd (eff v) \<and> okd d v \<and> same_data w v \<and> davail d v \<and> \<not> was_reset v \<and> \<not> fd_closed v)
     (\<lambda>e w'. okd d w' \<and> same_data w w' \<and> (e = InterruptedError \<or> e = BlockingIOError \<or> failed err e w')) w"
proof -
  obtain as where a: "moved d as w (advance w)" "okd d (advance w)" using okd_advance[OF assms] by metis
  show ?thesis
    using a moved_ok[OF a(1) assms] signal_ok[OF a(2)]
    by (auto simp: wp_def dir_call_def Let_def failed_def same_data_def)
qed

definition put :: "('x, 'y) desc \<Rightarrow> 'y list \<Rightarrow> int \<Rightarrow> ('x, 'y) desc \<Rightarrow> bool" where
  "put w data r w' \<longleftrightarrow> 0 < r \<and> r \<le> int (length data) \<and> outbox w' = outbox w @ take (nat r) data
     \<and> capacity w = nat r + capacity w' \<and> resting Wr w'"

definition not_put :: "('x, 'y) desc \<Rightarrow> exn \<Rightarrow> ('x, 'y) desc \<Rightarrow> bool" where
  "not_put w e w' \<longleftrightarrow> outbox w' = outbox w
     \<and> (e = CancelledError \<or> e = OSError 9 \<and> fd_closed w' \<or> e = BrokenPipeError \<and> was_reset w')"

lemma put_effect:
  assumes "okd Wr v" "same_data w v" "davail Wr v" "\<not> was_reset v" "data \<noteq> []"
  defines "k \<equiv> min (room v) (length data)"
  shows "put w data (int k) (v\<lparr>outbox := outbox v @ take k data, room := room v - k\<rparr>)"
proof -
  have "0 < k" "k \<le> room v" using assms by (auto simp: k_def)
  then show ?thesis
    using assms
    by (auto simp: put_def same_data_def capacity_def resting_def okd_def dinv_def script_ok_def bits_def
        down_def ready_bit_def)
qed

lemma wp_retry_write:
  assumes "okd Wr w" "data \<noteq> []"
  shows "wp (retry_k Wr (k_call_out (put_bytes data))) (put w data) (not_put w) w"
  unfolding k_call_out_dir put_bytes_def Let_def prod.case
  by (rule wp_mono[OF wp_retry_k[OF assms(1)]])
     (use put_effect[OF _ _ _ _ assms(2)] in \<open>auto simp: not_put_def same_data_def failed_def\<close>)

lemma wp_send:
  assumes "byte_socket os s" "okd Wr w" "data \<noteq> []"
  shows "wp (send os s data fl) (put w data) (not_put w) w"
proof -
  have eq: "send os s data fl = try_except (k_call_out (put_bytes data)) blocked
      (\<lambda>_. retry_k Wr (k_call_out (put_bytes data)))"
    using assms(1,3) by (simp add: send_def byte_socket_def eager_retry_w_def retry_k_eq)
  have again: "wp (retry_k Wr (k_call_out (put_bytes data))) (put w data) (not_put w) w'"
    if "okd Wr w'" "same_data w w'" for w'
    by (rule wp_mono[OF wp_retry_write[OF that(1) assms(3)]])
       (use that(2) in \<open>auto simp: put_def not_put_def same_data_def\<close>)
  show ?thesis
    unfolding eq wp_try_except
  proof (subst k_call_out_dir, rule wp_mono[OF wp_eager_call[OF assms(2)]])
    fix e w'
    assume "okd Wr w' \<and> same_data w w' \<and> (e = InterruptedError \<or> e = BlockingIOError \<or> failed BrokenPipeError e w')"
    then show "(if blocked e then wp (retry_k Wr (k_call_out (put_bytes data))) (put w data) (not_put w) else not_put w e) w'"
      using again by (auto simp: blocked_def not_put_def same_data_def failed_def)
  qed (use put_effect[OF _ _ _ _ assms(3)] in \<open>auto simp: put_bytes_def Let_def\<close>)
qed

lemma drained_pos: "0 < drained as \<Longrightarrow> \<exists>a \<in> set as. gives Wr a"
  by (induction as rule: drained.induct) auto

lemma capacity_live: "resting Wr w \<Longrightarrow> 0 < capacity w \<Longrightarrow> okd Wr w"
  using drained_pos[of "concat (script w)"] by (auto simp: okd_def resting_def live_def capacity_def)

definition sent_all :: "('x, 'y) desc \<Rightarrow> 'y list \<Rightarrow> ('x, 'y) desc \<Rightarrow> bool" where
  "sent_all w data w' \<longleftrightarrow> outbox w' = outbox w @ data \<and> capacity w = length data + capacity w' \<and> resting Wr w'"

definition sent_prefix :: "('x, 'y) desc \<Rightarrow> 'y list \<Rightarrow> (exn \<Rightarrow> exn) \<Rightarrow> exn \<Rightarrow> ('x, 'y) desc \<Rightarrow> bool" where
  "sent_prefix w data conv e w' \<longleftrightarrow> (\<exists>k < length data. outbox w' = outbox w @ take k data)
     \<and> (e = CancelledError \<or> e = OSError 9 \<and> fd_closed w' \<or> e = conv BrokenPipeError \<and> was_reset w')"

text \<open>The loop of \<open>send_all\<close>, over any way to put a first part of the data.\<close>

lemma wp_send_loop:
  fixes put_op :: "'y list \<Rightarrow> (int, ('x, 'y) desc) io"
  assumes put_some: "\<And>w data. okd Wr w \<Longrightarrow> data \<noteq> [] \<Longrightarrow> wp (put_op data) (put w data)
      (\<lambda>e w'. outbox w' = outbox w \<and> (e = CancelledError \<or> e = OSError 9 \<and> fd_closed w' \<or> e = conv BrokenPipeError \<and> was_reset w')) w"
    and w: "resting Wr w" "length data \<le> capacity w"
  shows "wp (loop (\<lambda>sent. if sent < int (length data)
        then bnd (put_op (drop (nat sent) data)) (\<lambda>n. ret (Inl (sent + n))) else ret (Inr ())) 0)
     (\<lambda>_. sent_all w data) (sent_prefix w data conv) w"
proof (rule wp_loop[where I = "\<lambda>sent u n. 0 \<le> sent \<and> sent \<le> int (length data) \<and> resting Wr u
    \<and> outbox u = outbox w @ take (nat sent) data \<and> capacity w = nat sent + capacity u \<and> n = nat (int (length data) - sent)"],
    goal_cases)
  case (2 sent u n)
  show ?case
  proof (cases "sent < int (length data)")
    case True
    let ?rest = "drop (nat sent) data"
    have ok: "okd Wr u" using capacity_live[of u] 2 True w(2) by auto
    have ne: "?rest \<noteq> []" using True 2 by auto
    show ?thesis
      unfolding if_P[OF True] wp_bnd wp_ret
    proof (rule wp_mono[OF put_some[OF ok ne]])
      fix r and u' :: "('x, 'y) desc"
      assume p: "put u ?rest r u'"
      have "take (nat sent) data @ take (nat r) ?rest = take (nat (sent + r)) data"
        using p 2 by (simp add: put_def nat_add_distrib take_add)
      then show "turn (\<lambda>sent u. \<exists>m<n. 0 \<le> sent \<and> sent \<le> int (length data) \<and> resting Wr u \<and>
          outbox u = outbox w @ take (nat sent) data \<and> capacity w = nat sent + capacity u \<and>
          m = nat (int (length data) - sent)) (\<lambda>_. sent_all w data) (Inl (sent + r)) u'"
        using p 2 by (auto simp: put_def nat_add_distrib)
    next
      fix e and u' :: "('x, 'y) desc"
      assume "outbox u' = outbox u \<and> (e = CancelledError \<or> e = OSError 9 \<and> fd_closed u' \<or> e = conv BrokenPipeError \<and> was_reset u')"
      moreover have "nat sent < length data" using True 2 by auto
      ultimately show "sent_prefix w data conv e u'" using 2 by (auto simp: sent_prefix_def)
    qed
  next
    case False
    then show ?thesis using 2 by (simp add: wp sent_all_def)
  qed
qed (use w in auto)


section \<open>Socket streams\<close>

text \<open>
  A descriptor for the witnesses: three bytes are in flight, the poller runs between the accesses of
  the coroutine, which is interrupted by a signal once; the send buffer has room for one byte and is
  drained twice.
\<close>

definition demo_desc :: "(u8, u8) desc" where
  "demo_desc = \<lparr>sio = sio_new, evset = \<lambda>_. False, next_event = 0, inbox = [], in_eof = False, edge_in = False,
     outbox = [], room = 0, edge_out = False, was_reset = False, fd_closed = False, polled = None, signals = 0,
     cancelled = False, script = [[], [Signal], [Arrive [7, 8], Drain 1], [Poller], [Poller, Arrive [9], Drain 2]]\<rparr>"

lemma demo_desc_ok: "resting d demo_desc" "okd d demo_desc" "capacity demo_desc = 3" "incoming demo_desc = [7, 8, 9]"
  by (cases d; simp add: demo_desc_def okd_def resting_def dinv_def script_ok_def live_def capacity_def incoming_def
      sio_new_def bits_def down_def other_def)+

definition demo_os :: "(u8, u8) desc os" where
  "demo_os = idle_os\<lparr>os_handle := \<lambda>_. k_handle, s_fileno := \<lambda>_. read (\<lambda>w. if fd_closed w then - 1 else 5),
     s_close := \<lambda>_. modify (\<lambda>w. w\<lparr>fd_closed := True\<rparr>), s_recv := \<lambda>_ n _. k_call_in (take_bytes n),
     s_send := \<lambda>_ data _. k_call_out (put_bytes data)\<rparr>"

lemma demo_os_socket: "byte_socket demo_os 0"
  by (simp add: demo_os_def byte_socket_def idle_os_def)

text \<open>
  C4. Receiving on a non-blocking socket is reliable: when bytes, the end of the stream, a reset or a
  close by another task are there or will come, \<open>recv\<close> returns, however its accesses interleave with
  the poller, signals, and the other coroutine that uses the socket. What it returns is the next part of
  what the peer sent, empty only at the end of the stream; when it raises, because it was
  cancelled or the connection failed, no byte is lost.
\<close>

theorem recv_delivers:
  assumes "byte_socket os s" and "okd Rd w" and "0 < n"
  shows "wp (recv os s n fl) (received n w) (not_received w) w"
  using wp_retry_read[OF assms(2,3)] assms(1) by (simp add: recv_def byte_socket_def retry_k_eq)

theorem recv_delivers_witness:
  "\<exists>w'. recv demo_os 0 10 0 demo_desc = Some (Inr [7, 8, 9], w') \<and> received 10 demo_desc [7, 8, 9] w'"
proof -
  have "returned (recv demo_os 0 10 0 demo_desc) = Some [7, 8, 9]" by code_simp
  then obtain w' where "recv demo_os 0 10 0 demo_desc = Some (Inr [7, 8, 9], w')" by (rule returned_SomeE)
  then show ?thesis
    using recv_delivers[OF demo_os_socket demo_desc_ok(2), of 10 0] by (simp add: wp_Inr)
qed

text \<open>
  C19. \<open>SocketStream.send_all\<close>: when the peer takes as many bytes as there are to send, the call
  returns after handing over exactly these bytes in order; when it raises, because it was cancelled
  or the connection failed, a proper prefix of them was handed over.
\<close>

theorem stream_send_all_delivers:
  assumes "byte_socket os s" and "resting Wr w" and "length data \<le> capacity w"
  shows "wp (stream_send_all os s data) (\<lambda>_. sent_all w data) (sent_prefix w data id) w"
proof (cases "data = []")
  case True
  then show ?thesis using assms by (simp add: stream_send_all_def byte_socket_def wp sent_all_def)
next
  case False
  have "wp (send os s d 0) (put u d) (\<lambda>e w'. outbox w' = outbox u
      \<and> (e = CancelledError \<or> e = OSError 9 \<and> fd_closed w' \<or> e = id BrokenPipeError \<and> was_reset w')) u"
    if "okd Wr u" "d \<noteq> []" for u d
    by (rule wp_mono[OF wp_send[OF assms(1) that]]) (auto simp: not_put_def)
  from wp_send_loop[of "\<lambda>d. send os s d 0" id w data, OF this assms(2,3)] show ?thesis
    using False assms(1) by (simp add: stream_send_all_def byte_socket_def wp)
qed

theorem stream_send_all_delivers_witness:
  "\<exists>w'. stream_send_all demo_os 0 [1, 2, 3] demo_desc = Some (Inr (), w') \<and> outbox w' = [1, 2, 3]"
proof -
  have "returned (stream_send_all demo_os 0 [1, 2, 3] demo_desc) = Some ()" by code_simp
  then obtain w' where r: "stream_send_all demo_os 0 [1, 2, 3] demo_desc = Some (Inr (), w')" by (rule returned_SomeE)
  have "wp (stream_send_all demo_os 0 [1, 2, 3]) (\<lambda>_. sent_all demo_desc [1, 2, 3])
      (sent_prefix demo_desc [1, 2, 3] id) demo_desc"
    by (rule stream_send_all_delivers[OF demo_os_socket demo_desc_ok(1)]) (simp add: demo_desc_ok(3))
  then show ?thesis using r by (simp add: wp_Inr sent_all_def demo_desc_def)
qed

end
