(* ===== verification/Socket_Props.thy ===== *)
theory Socket_Props
  imports Stream_Props
begin

text \<open>
  Further properties of \<open>_Socket\<close> and of the descriptor streams: the delivery guarantees for
  \<open>FdStream\<close>, addresses, and closing.
\<close>

section \<open>Descriptor streams\<close>

lemma broken_pipe_conv:
  "try_except (k_call_out produce) (\<lambda>e. e = BrokenPipeError) (\<lambda>e. raise (ResourceBroken (Some e))) =
   dir_call Wr (ResourceBroken (Some BrokenPipeError)) (\<lambda>w. case produce (room w) of
     (r, ys, n) \<Rightarrow> (r, w\<lparr>outbox := outbox w @ ys, room := room w - n\<rparr>))"
  unfolding k_call_out_dir
  by (auto simp: fun_eq_iff try_except_def try_else_def dir_call_def Let_def raise_def ret_def)

lemma wp_fd_put:
  assumes "okd Wr w" "data \<noteq> []"
  shows "wp (retry_k Wr (try_except (k_call_out (put_bytes data)) (\<lambda>e. e = BrokenPipeError)
        (\<lambda>e. raise (ResourceBroken (Some e))))) (put w data)
     (\<lambda>e w'. outbox w' = outbox w \<and> (e = CancelledError \<or> e = OSError 9 \<and> fd_closed w'
        \<or> e = ResourceBroken (Some BrokenPipeError) \<and> was_reset w')) w"
  unfolding broken_pipe_conv put_bytes_def Let_def prod.case
  by (rule wp_mono[OF wp_retry_k[OF assms(1)]])
     (use put_effect[OF _ _ _ _ assms(2)] in \<open>auto simp: same_data_def failed_def\<close>)

text \<open>
  \<open>FdStream.send_all\<close> hands over all the bytes in order when the peer takes them, and a proper prefix
  when it raises; a broken pipe surfaces as \<open>ResourceBroken\<close> with the \<open>BrokenPipeError\<close> as its cause.
\<close>

theorem fdstream_send_all_delivers:
  assumes "byte_fd os" and "resting Wr w" and "length data \<le> capacity w"
  shows "wp (fdstream_send_all os data) (\<lambda>_. sent_all w data) (sent_prefix w data (\<lambda>e. ResourceBroken (Some e))) w"
proof (cases "data = []")
  case True
  then show ?thesis
    using assms by (auto simp: fdstream_send_all_def fd_is_closed_def with_lock_def byte_fd_def wp sent_all_def)
next
  case False
  let ?put = "\<lambda>d. retry_k Wr (try_except (k_call_out (put_bytes d)) (\<lambda>e. e = BrokenPipeError)
        (\<lambda>e. raise (ResourceBroken (Some e))))"
  have "wp (loop (\<lambda>sent. if sent < int (length data)
        then bnd (?put (drop (nat sent) data)) (\<lambda>n. ret (Inl (sent + n))) else ret (Inr ())) 0)
     (\<lambda>_. sent_all w data) (sent_prefix w data (\<lambda>e. ResourceBroken (Some e))) w"
    by (rule wp_send_loop[where put_op = ?put]) (use wp_fd_put assms in auto)
  moreover obtain n where "n \<noteq> - 1" "fd_no os = ret n" using assms(1) by (auto simp: byte_fd_def)
  moreover have "fd_handle os = k_handle" "fd_write os = (\<lambda>_ d. k_call_out (put_bytes d))"
      "lock_w_or_raise os = ret ()" "lock_w_exit os = ret ()"
    using assms(1) by (auto simp: byte_fd_def retry_k_eq fun_eq_iff)
  ultimately show ?thesis
    unfolding fdstream_send_all_def fd_is_closed_def with_lock_def using False by (simp add: wp retry_k_eq cong: if_cong)
qed

definition demo_fd :: "(u8, u8) desc fd_os" where
  "demo_fd = \<lparr>fd_handle = k_handle, fd_no = ret 3, fd_drop = ret (), fd_os_close = \<lambda>_. ret (),
     fd_write = \<lambda>_ d. k_call_out (put_bytes d), fd_read = \<lambda>_ n. k_call_in (take_bytes n),
     lock_r_or_raise = ret (), lock_r_exit = ret (), lock_w_or_raise = ret (), lock_w_exit = ret ()\<rparr>"

lemma demo_fd_ok: "byte_fd demo_fd"
  by (auto simp: demo_fd_def byte_fd_def intro: exI[of _ 3])

theorem fdstream_send_all_delivers_witness:
  "wp (fdstream_send_all demo_fd [4, 5]) (\<lambda>_. sent_all demo_desc [4, 5])
     (sent_prefix demo_desc [4, 5] (\<lambda>e. ResourceBroken (Some e))) demo_desc"
  by (rule fdstream_send_all_delivers[OF demo_fd_ok demo_desc_ok(1)]) (simp add: demo_desc_ok(3))

text \<open>
  \<open>FdStream.receive_some\<close> returns the next bytes of the stream, at most as many as asked for
  (65536 when the caller names none or zero), and none is lost when it raises.
\<close>

theorem fdstream_receive_delivers:
  assumes "byte_fd os" and "okd Rd w" and "0 < default_max mx"
  shows "wp (fdstream_receive_some os mx) (received (default_max mx) w) (not_received w) w"
  using wp_retry_read[OF assms(2,3)] assms(1)
  by (auto simp: fdstream_receive_some_def fd_is_closed_def with_lock_def byte_fd_def retry_k_eq wp)

theorem fdstream_receive_delivers_witness:
  "wp (fdstream_receive_some demo_fd None) (received 65536 demo_desc) (not_received demo_desc) demo_desc"
  using fdstream_receive_delivers[OF demo_fd_ok demo_desc_ok(2), of None] by (simp add: default_max_def)

section \<open>Addresses\<close>

text \<open>
  Resolution of an IPv4 or IPv6 address: a numeric host with a numeric port comes back as given,
  without a look-up; a tuple of the wrong length, or no tuple, raises \<open>ValueError\<close> before any look-up.
\<close>

theorem resolve_numeric_or_invalid:
  assumes "family = AF_INET \<or> family = AF_INET6"
  shows "(\<forall>xs. address = PTuple xs \<longrightarrow> 2 \<le> length xs \<longrightarrow> length xs \<le> (if family = AF_INET then 2 else 4) \<longrightarrow>
        is_int (xs ! 1) \<longrightarrow> xs ! 0 \<noteq> PNone \<longrightarrow> m_inet_pton os family (xs ! 0) w = Some (Inr (), w) \<longrightarrow>
        resolve_address os type family proto v6only address local w = Some (Inr address, w)) \<and>
    ((\<nexists>xs. address = PTuple xs \<and> 2 \<le> length xs \<and> length xs \<le> (if family = AF_INET then 2 else 4)) \<longrightarrow>
        (\<exists>msg. resolve_address os type family proto v6only address local w = Some (Inl (ValueError msg), w)))"
  using assms
  by (auto simp: resolve_address_def check_address_def socket_consts try_else_def ret_def raise_def Let_def
      split: pyval.splits)

theorem resolve_numeric_or_invalid_witness:
  "resolve_address demo_os 1 AF_INET 0 False (PInt 80) True demo_desc =
     Some (Inl (ValueError ''address should be a (host, port) tuple''), demo_desc)"
proof -
  have "\<exists>msg. resolve_address demo_os 1 AF_INET 0 False (PInt 80) True demo_desc = Some (Inl (ValueError msg), demo_desc)"
    using resolve_numeric_or_invalid[of AF_INET "PInt 80" demo_os demo_desc 1 0 False True] by simp
  then show ?thesis by (simp add: resolve_address_def check_address_def raise_def)
qed

text \<open>
  Resolution of an IPv6 host name keeps the flow information and the scope the caller gave: they
  replace those of the first look-up result; the look-up asks for mapped IPv4 addresses unless the
  socket is IPv6 only, and for a passive address when it is a local one.
\<close>

theorem resolve_v6_keeps_scope:
  assumes "address = PTuple [PStr host, port, flow, scope]" and "host \<noteq> ''''" and "host \<noteq> ''<broadcast>''"
    and "\<not> is_int port" and "os_pool os w = Some (Inr Completed, w)"
    and "m_getaddrinfo os (PStr host) port AF_INET6 type proto ((if local then 1 else 0) + (if v6only then 0 else 8)) w
      = Some (Inr ((entry @ [PTuple [a, b, c, d]]) # others), w')"
  shows "resolve_address os type AF_INET6 proto v6only address local w = Some (Inr (PTuple [a, b, flow, scope]), w')"
  using assms
  by (cases local; cases v6only)
     (simp_all add: resolve_address_def check_address_def socket_consts lookup_host_def lookup_flags_def
      getaddrinfo_def spawn_blocking_def in_pool_def bnd_def ret_def merge_normed_def Let_def)

theorem resolve_v6_keeps_scope_witness:
  "\<exists>os. resolve_address os 1 AF_INET6 6 False (PTuple [PStr ''h'', PStr ''http'', PInt 7, PInt 2]) False demo_desc
     = Some (Inr (PTuple [PStr ''::1'', PInt 80, PInt 7, PInt 2]), demo_desc)"
proof -
  let ?os = "demo_os\<lparr>m_getaddrinfo := \<lambda>_ _ _ _ _ _. ret [[PInt 10, PTuple [PStr ''::1'', PInt 80, PInt 0, PInt 0]]]\<rparr>"
  have "resolve_address ?os 1 AF_INET6 6 False (PTuple [PStr ''h'', PStr ''http'', PInt 7, PInt 2]) False demo_desc
     = Some (Inr (PTuple [PStr ''::1'', PInt 80, PInt 7, PInt 2]), demo_desc)"
    by (rule resolve_v6_keeps_scope[where entry = "[PInt 10]" and others = "[]"]) (rule refl, simp_all add: ret_def demo_os_def idle_os_def)
  then show ?thesis by blast
qed

section \<open>Closing\<close>

definition closable :: "('x, 'y) desc os \<Rightarrow> sid \<Rightarrow> bool" where
  "closable os s \<longleftrightarrow> os_handle os s = k_handle
     \<and> s_fileno os s = read (\<lambda>w. if fd_closed w then - 1 else 5)
     \<and> s_close os s = modify (\<lambda>w. w\<lparr>fd_closed := True\<rparr>)"

text \<open>
  \<open>_Socket.close\<close> wakes the coroutines parked on the socket in either direction before the
  descriptor goes away, and closing a closed socket does nothing.
\<close>

theorem close_wakes_parked:
  assumes "closable os s" and "\<not> fd_closed w"
  shows "\<exists>w'. sock_close os s w = Some (Inr (), w') \<and> fd_closed w' \<and> down w' \<and>
    (\<forall>d e. dslot d (sio w) = Some e \<longrightarrow> evset w' e \<and> dslot d (sio w') = None) \<and>
    sock_close os s w' = Some (Inr (), w')"
proof -
  let ?s = "(sio w)\<lparr>readiness := readiness (sio w) OR SHUTDOWN\<rparr>" and ?r = "READ_ALL OR WRITE_ALL"
  let ?w = "(deregister w)\<lparr>fd_closed := True\<rparr>"
  have w: "?w = w\<lparr>sio := snd (sio_wake ?r ?s), evset := set_events (fst (sio_wake ?r ?s)) (evset w), fd_closed := True\<rparr>"
    by (simp add: deregister_def sio_shutdown_def split: prod.splits)
  have c: "sock_close os s w = Some (Inr (), ?w)"
    using assms
    by (simp add: sock_close_def closable_def k_handle_def bnd_def read_def modify_def when_true_def)
  have "(x OR SHUTDOWN) AND SHUTDOWN = SHUTDOWN" for x by (auto simp: bit_eq_iff bit_simps)
  then have "down ?w" by (simp add: w down_def mask_defs)
  moreover have "sock_close os s ?w = Some (Inr (), ?w)"
    using assms(1) by (simp add: sock_close_def closable_def bnd_def read_def when_true_def ret_def)
  moreover have "evset ?w e \<and> dslot d (sio ?w) = None" if "dslot d (sio w) = Some e" for d e
  proof -
    have r: "?r AND dmask d \<noteq> 0" by (cases d) (simp_all add: mask_defs)
    have "dslot d ?s = Some e" using that by (cases d) simp_all
    then show ?thesis using r sio_wake_slot(2)[OF r] by (simp add: w sio_wake_slot(1))
  qed
  ultimately show ?thesis using c by (intro exI[of _ ?w]) (simp add: w)
qed

theorem close_wakes_parked_witness:
  "\<exists>w'. sock_close demo_os 0 demo_desc = Some (Inr (), w') \<and> fd_closed w' \<and> down w'"
proof -
  have "closable demo_os 0" by (simp add: closable_def demo_os_def)
  then show ?thesis using close_wakes_parked[of demo_os 0 demo_desc] by (auto simp: demo_desc_def)
qed

end
