(* ===== verification/Tls.thy ===== *)
theory Tls
  imports Streams
begin

text \<open>
  TLS streams: \<open>TLSStream\<close>, \<open>_SSLProxy\<close> and \<open>TLSListener\<close> of \<open>src/tonio/_net/_tls.py\<close> and the native state
  cell of \<open>src/src/net/tls.rs\<close>. The \<open>ssl\<close> module is the interface \<open>tls_os\<close>: an \<open>SSLObject\<close> over two memory
  buffers, ingress and egress; so is the transport, any stream with \<open>send_all\<close>, \<open>receive_some\<close> and
  \<open>close\<close>. The fields of the Python object are in the world, next to the world of these two.
\<close>

section \<open>The state cell\<close>

datatype tls_state = TInit | THandshake | TReady | TBroken | TClosed

fun tls_code :: "tls_state \<Rightarrow> nat" where
  "tls_code TInit = 0" | "tls_code THandshake = 1" | "tls_code TReady = 2" | "tls_code TBroken = 3" | "tls_code TClosed = 4"

text \<open>The states are ordered by their codes, the order in which a stream goes through them.\<close>

instantiation tls_state :: linorder
begin

definition less_eq_tls_state :: "tls_state \<Rightarrow> tls_state \<Rightarrow> bool" where
  "s \<le> t \<longleftrightarrow> tls_code s \<le> tls_code t"

definition less_tls_state :: "tls_state \<Rightarrow> tls_state \<Rightarrow> bool" where
  "s < t \<longleftrightarrow> tls_code s < tls_code t"

instance
proof
  fix s t :: tls_state
  show "s \<le> t \<Longrightarrow> t \<le> s \<Longrightarrow> s = t" by (cases s; cases t) (simp_all add: less_eq_tls_state_def)
qed (auto simp: less_eq_tls_state_def less_tls_state_def)

end

record 'w tlsw =
  tst :: tls_state
  egress_stack :: bytes
  recv_count :: nat
  recv_est_size :: int
  recv_locked :: bool
  send_locked :: bool
  inner :: 'w

definition on_inner :: "('a, 'w) io \<Rightarrow> ('a, 'w tlsw) io" where
  "on_inner m = (\<lambda>w. case m (inner w) of None \<Rightarrow> None | Some (r, v) \<Rightarrow> Some (r, w\<lparr>inner := v\<rparr>))"

definition bad_change :: "('a, 'w) io" where
  "bad_change = raise (RuntimeError ''Invalid TLSStream state change'')"

definition handshake_pre :: "(unit, 'w tlsw) io" where
  "handshake_pre = (\<lambda>w. case cas TInit THandshake (tst w) of
      Some t \<Rightarrow> Some (Inr (), w\<lparr>tst := t\<rparr>) | None \<Rightarrow> bad_change w)"

definition handshake_post :: "(unit, 'w tlsw) io" where
  "handshake_post = (\<lambda>w. case cas THandshake TReady (tst w) of
      Some t \<Rightarrow> Some (Inr (), w\<lparr>tst := t\<rparr>) | None \<Rightarrow> bad_change w)"

definition set_broken :: "(unit, 'w tlsw) io" where
  "set_broken = modify (\<lambda>w. w\<lparr>tst := TBroken\<rparr>)"

definition set_closed :: "(unit, 'w tlsw) io" where
  "set_closed = modify (\<lambda>w. w\<lparr>tst := TClosed\<rparr>)"

definition get_state :: "(nat, 'w tlsw) io" where
  "get_state = read (\<lambda>w. tls_code (tst w))"

definition check_ready :: "(unit, 'w tlsw) io" where
  "check_ready = (\<lambda>w. if tst w = TReady then Some (Inr (), w)
     else Some (Inl (RuntimeError ''TLSStream in bad state''), w))"

text \<open>
  The two locks, as one task sees them: entering a free one takes it, and a task that enters one it holds itself never comes back. What several tasks do with the send lock is the theory \<open>Tls_Tasks\<close>.
\<close>

definition lock_recv_enter :: "(unit, 'w tlsw) io" where
  "lock_recv_enter = (\<lambda>w. if recv_locked w then None else Some (Inr (), w\<lparr>recv_locked := True\<rparr>))"

definition lock_recv_exit :: "(unit, 'w tlsw) io" where
  "lock_recv_exit = modify (\<lambda>w. w\<lparr>recv_locked := False\<rparr>)"

definition lock_send_enter :: "(unit, 'w tlsw) io" where
  "lock_send_enter = (\<lambda>w. if send_locked w then None else Some (Inr (), w\<lparr>send_locked := True\<rparr>))"

definition lock_send_exit :: "(unit, 'w tlsw) io" where
  "lock_send_exit = modify (\<lambda>w. w\<lparr>send_locked := False\<rparr>)"

section \<open>The SSL object and the transport\<close>

record 'w tls_os =
  x_read :: "int \<Rightarrow> (bytes, 'w) io"
  x_write :: "bytes \<Rightarrow> (int, 'w) io"
  x_do_handshake :: "(unit, 'w) io"
  x_unwrap :: "(unit, 'w) io"
  x_server_side :: bool
  x_version :: "(string, 'w) io"
  x_ingress_write :: "bytes \<Rightarrow> (unit, 'w) io"
  x_ingress_eof :: "(unit, 'w) io"
  x_ingress_pending :: "(int, 'w) io"
  x_egress_read :: "(bytes, 'w) io"
  t_send_all :: "bytes \<Rightarrow> (unit, 'w) io"
  t_receive_some :: "(bytes, 'w) io"
  t_close :: "(unit, 'w) io"
  compat_https :: bool

text \<open>
  \<open>_SSLProxy._step\<close>: one call of the SSL object, and what it left in the egress buffer. Only the want
  of input is caught.
\<close>

definition ssl_step :: "'w tls_os \<Rightarrow> ('a, 'w) io \<Rightarrow> ('a option \<times> bool \<times> bytes, 'w tlsw) io" where
  "ssl_step os fn = on_inner (try_else fn (\<lambda>e. e = SSLWantReadError)
     (\<lambda>_. bnd (x_egress_read os) (\<lambda>b. ret (None, True, b)))
     (\<lambda>r. bnd (x_egress_read os) (\<lambda>b. ret (Some r, False, b))))"

definition is_eof :: "exn option \<Rightarrow> bool" where
  "is_eof e = (case e of Some (SSLError eof) \<Rightarrow> eof | _ \<Rightarrow> False)"

fun is_ssl_error :: "exn \<Rightarrow> bool" where
  "is_ssl_error (SSLError _) = True" | "is_ssl_error SSLWantReadError = True" | "is_ssl_error _ = False"

text \<open>\<open>except (SSLError, CertificateError): self._set_broken(); raise ResourceBroken from exc\<close>.\<close>

definition guard_ssl :: "('a, 'w tlsw) io \<Rightarrow> ('a, 'w tlsw) io" where
  "guard_ssl m = try_except m is_ssl_error (\<lambda>e. bnd set_broken (\<lambda>_. raise (ResourceBroken (Some e))))"

section \<open>The stream\<close>

definition tls_recv :: "'w tls_os \<Rightarrow> (unit, 'w tlsw) io" where
  "tls_recv os = bnd (read recv_count) (\<lambda>n0.
     bnd lock_recv_enter (\<lambda>_. try_finally
       (bnd (read recv_count) (\<lambda>n.
          if n0 = n then
            bnd (on_inner (t_receive_some os)) (\<lambda>data.
            bnd (if data = [] then on_inner (x_ingress_eof os)
                 else bnd (modify (\<lambda>w. w\<lparr>recv_est_size := max (recv_est_size w) (int (length data))\<rparr>)) (\<lambda>_.
                      on_inner (x_ingress_write os data))) (\<lambda>_.
            modify (\<lambda>w. w\<lparr>recv_count := recv_count w + 1\<rparr>)))
          else ret ()))
       lock_recv_exit))"

definition tls_send :: "'w tls_os \<Rightarrow> bytes \<Rightarrow> (unit, 'w tlsw) io" where
  "tls_send os data = bnd lock_send_enter (\<lambda>_. try_finally
     (try_except
        (bnd (read (\<lambda>w. egress_stack w @ data)) (\<lambda>all.
         bnd (modify (\<lambda>w. w\<lparr>egress_stack := []\<rparr>)) (\<lambda>_.
         on_inner (t_send_all os all))))
        (\<lambda>_. True) (\<lambda>e. bnd set_broken (\<lambda>_. raise e)))
     lock_send_exit)"

text \<open>Send what the SSL object made, or else feed it when it wants input.\<close>

definition pump :: "'w tls_os \<Rightarrow> bool \<Rightarrow> bytes \<Rightarrow> (unit, 'w tlsw) io" where
  "pump os want_read to_send =
     (if to_send \<noteq> [] then tls_send os to_send else if want_read then tls_recv os else ret ())"

definition ssl_dance :: "'w tls_os \<Rightarrow> ('a, 'w) io \<Rightarrow> ('a option, 'w tlsw) io" where
  "ssl_dance os fn = loop (\<lambda>_.
     bnd (guard_ssl (ssl_step os fn)) (\<lambda>(r, want_read, to_send).
     bnd (pump os want_read to_send) (\<lambda>_.
     ret (if \<not> want_read then Inr r else Inl ())))) ()"

text \<open>
  \<open>handshake\<close>: the last flight of a TLS 1.3 server is kept back, to go out with the first data.
\<close>

definition tls_handshake :: "'w tls_os \<Rightarrow> (unit, 'w tlsw) io" where
  "tls_handshake os = bnd handshake_pre (\<lambda>_.
     bnd (loop (\<lambda>done.
       if done then ret (Inr ())
       else bnd (guard_ssl (ssl_step os (x_do_handshake os))) (\<lambda>(_, want_read, to_send).
            bnd (if \<not> want_read \<and> x_server_side os
                 then bnd (on_inner (x_version os)) (\<lambda>v. ret (v = ''TLSv1.3'')) else ret False) (\<lambda>hold.
            bnd (if hold
                 then bnd (modify (\<lambda>w. w\<lparr>egress_stack := egress_stack w @ to_send\<rparr>)) (\<lambda>_. ret [])
                 else ret to_send) (\<lambda>to_send.
            bnd (pump os want_read to_send) (\<lambda>_.
            ret (Inl (\<not> want_read))))))) False) (\<lambda>_.
     handshake_post))"

definition tls_send_all :: "'w tls_os \<Rightarrow> bytes \<Rightarrow> (unit, 'w tlsw) io" where
  "tls_send_all os data = bnd check_ready (\<lambda>_.
     if data = [] then ret ()
     else bnd (ssl_dance os (x_write os data)) (\<lambda>_. ret ()))"

definition tls_receive_some :: "'w tls_os \<Rightarrow> int option \<Rightarrow> (bytes option, 'w tlsw) io" where
  "tls_receive_some os max_bytes = bnd check_ready (\<lambda>_.
     bnd (case max_bytes of
        None \<Rightarrow> bnd (on_inner (x_ingress_pending os)) (\<lambda>p. read (\<lambda>w. max (recv_est_size w) p))
      | Some n \<Rightarrow> ret n) (\<lambda>n.
     try_except (ssl_dance os (x_read os n))
       (\<lambda>e. case e of ResourceBroken _ \<Rightarrow> True | _ \<Rightarrow> False)
       (\<lambda>e. case e of
          ResourceBroken cause \<Rightarrow> if compat_https os \<and> is_eof cause then ret (Some []) else raise e
        | _ \<Rightarrow> raise e)))"

text \<open>\<open>close\<close>, in the order of the source: the state is set before it is compared with 3.\<close>

definition tls_close :: "'w tls_os \<Rightarrow> (unit, 'w tlsw) io" where
  "tls_close os = bnd get_state (\<lambda>st.
     if st = 4 then ret ()
     else bnd set_closed (\<lambda>_. bnd get_state (\<lambda>st.
       if st = 3 \<or> compat_https os then on_inner (t_close os)
       else try_finally
         (suppress (\<lambda>e. case e of ResourceBroken _ \<Rightarrow> True | _ \<Rightarrow> False)
           (bnd (guard_ssl (ssl_step os (x_unwrap os))) (\<lambda>(_, _, to_send).
            if to_send \<noteq> [] then tls_send os to_send else ret ())))
         (on_inner (t_close os)))))"

definition tls_exit :: "'w tls_os \<Rightarrow> (unit, 'w tlsw) io" where
  "tls_exit os = bnd get_state (\<lambda>st.
     if st = 4 then ret ()
     else if st = 3 \<or> compat_https os then bnd set_closed (\<lambda>_. on_inner (t_close os))
     else raise (RuntimeError ''TLSStream needs to be manually closed''))"

text \<open>
  \<open>TLSListener.accept\<close>: accept on the transport, then the handshake as a server. A failed handshake
  raises from here; nothing closes the accepted stream.
\<close>

definition tls_init :: "'w \<Rightarrow> 'w tlsw" where
  "tls_init v = \<lparr>tst = TInit, egress_stack = [], recv_count = 0, recv_est_size = 16384, recv_locked = False, send_locked = False, inner = v\<rparr>"

definition tls_accept :: "('s, 'w) io \<Rightarrow> ('s \<Rightarrow> 'w tls_os) \<Rightarrow> 'w \<Rightarrow> ((exn + 's) \<times> 'w tlsw) option" where
  "tls_accept t_accept os v = (case t_accept v of
      None \<Rightarrow> None
    | Some (Inl e, v') \<Rightarrow> Some (Inl e, tls_init v')
    | Some (Inr s, v') \<Rightarrow> bnd (tls_handshake (os s)) (\<lambda>_. ret s) (tls_init v'))"

definition tls_listener_close :: "'w tls_os \<Rightarrow> (unit, 'w) io" where
  "tls_listener_close os = t_close os"

end
