(* ===== verification/Tls_Props.thy ===== *)
theory Tls_Props
  imports Tls "HOL-Library.Sublist"
begin

text \<open>
  What a TLS stream does with the bytes its SSL object makes: all of them reach the transport, once and
  in order, across handshake, sends and receives, with the last flight of a TLS 1.3 server held back
  until the first send. Then the state machine, and what closing really does.
\<close>

section \<open>What the stream relies on\<close>

text \<open>
  Of a world: the bytes the transport took, the content of the egress buffer, every byte the SSL object
  ever made, and a bound on how often it still asks for input. Then the errors, apart from wanting input, the SSL object can raise, and the exceptions the transport can.
\<close>

record 'w ssl_view =
  wire :: "'w \<Rightarrow> bytes"
  outq :: "'w \<Rightarrow> bytes"
  made :: "'w \<Rightarrow> bytes"
  wants :: "'w \<Rightarrow> nat"
  ssl_fails :: "exn \<Rightarrow> bool"
  link_fails :: "exn \<Rightarrow> bool"

definition quiet :: "'w ssl_view \<Rightarrow> ('a, 'w) io \<Rightarrow> bool" where
  "quiet V m \<longleftrightarrow> (\<forall>v. wp m (\<lambda>_ v'. wire V v' = wire V v \<and> outq V v' = outq V v \<and> made V v' = made V v \<and> wants V v' \<le> wants V v)
     (\<lambda>e v'. link_fails V e \<and> wire V v' = wire V v \<and> outq V v' = outq V v \<and> made V v' = made V v) v)"

text \<open>
  A call of the SSL object appends what it makes to the egress buffer. When it wants input after making
  something, or is given input when it wants some, it is closer to not wanting any more.
\<close>

definition ssl_call :: "'w ssl_view \<Rightarrow> ('a, 'w) io \<Rightarrow> bool" where
  "ssl_call V m \<longleftrightarrow> (\<forall>v. wp m
     (\<lambda>_ v'. \<exists>b. made V v' = made V v @ b \<and> outq V v' = outq V v @ b \<and> wire V v' = wire V v)
     (\<lambda>e v'. is_ssl_error e \<and> (e = SSLWantReadError \<or> ssl_fails V e) \<and> (\<exists>b. made V v' = made V v @ b \<and> outq V v' = outq V v @ b \<and> wire V v' = wire V v
          \<and> (e = SSLWantReadError \<longrightarrow> 0 < wants V v' \<and> wants V v' \<le> wants V v \<and> (b \<noteq> [] \<longrightarrow> wants V v' < wants V v)))) v)"

definition ssl_env :: "'w ssl_view \<Rightarrow> 'w tls_os \<Rightarrow> bool" where
  "ssl_env V os \<longleftrightarrow> (\<forall>n. ssl_call V (x_read os n)) \<and> (\<forall>d. ssl_call V (x_write os d))
     \<and> ssl_call V (x_do_handshake os) \<and> ssl_call V (x_unwrap os)
     \<and> (\<forall>v. wp (x_version os) (\<lambda>_ v'. wire V v' = wire V v \<and> outq V v' = outq V v \<and> made V v' = made V v) (\<lambda>_ _. False) v)
     \<and> quiet V (x_ingress_pending os) \<and> quiet V (t_close os)
     \<and> (\<forall>v. wp (x_egress_read os) (\<lambda>b v'. b = outq V v \<and> outq V v' = [] \<and> wire V v' = wire V v \<and> made V v' = made V v
            \<and> wants V v' = wants V v) (\<lambda>_ _. False) v)
     \<and> (\<forall>v. 0 < wants V v \<longrightarrow> wp (bnd (t_receive_some os) (\<lambda>d. if d = [] then x_ingress_eof os else x_ingress_write os d))
          (\<lambda>_ v'. wire V v' = wire V v \<and> outq V v' = outq V v \<and> made V v' = made V v \<and> wants V v' < wants V v)
          (\<lambda>e v'. link_fails V e \<and> wire V v' = wire V v \<and> outq V v' = outq V v \<and> made V v' = made V v) v)
     \<and> (\<forall>d v. wp (t_send_all os d)
          (\<lambda>_ v'. wire V v' = wire V v @ d \<and> outq V v' = outq V v \<and> made V v' = made V v \<and> wants V v' \<le> wants V v)
          (\<lambda>e v'. link_fails V e \<and> (\<exists>k. wire V v' = wire V v @ take k d \<and> made V v' = made V v)) v)"

lemma ssl_envD:
  assumes "ssl_env V os"
  shows "ssl_call V (x_read os n)" "ssl_call V (x_write os d)" "ssl_call V (x_do_handshake os)" "ssl_call V (x_unwrap os)"
    "wp (x_version os) (\<lambda>_ v'. wire V v' = wire V v \<and> outq V v' = outq V v \<and> made V v' = made V v) (\<lambda>_ _. False) v" "quiet V (x_ingress_pending os)" "quiet V (t_close os)"
    "wp (x_egress_read os) (\<lambda>b v'. b = outq V v \<and> outq V v' = [] \<and> wire V v' = wire V v \<and> made V v' = made V v
            \<and> wants V v' = wants V v) (\<lambda>_ _. False) v"
    "0 < wants V v \<Longrightarrow> wp (bnd (t_receive_some os) (\<lambda>d. if d = [] then x_ingress_eof os else x_ingress_write os d))
          (\<lambda>_ v'. wire V v' = wire V v \<and> outq V v' = outq V v \<and> made V v' = made V v \<and> wants V v' < wants V v)
          (\<lambda>e v'. link_fails V e \<and> wire V v' = wire V v \<and> outq V v' = outq V v \<and> made V v' = made V v) v"
    "wp (t_send_all os d)
          (\<lambda>_ v'. wire V v' = wire V v @ d \<and> outq V v' = outq V v \<and> made V v' = made V v \<and> wants V v' \<le> wants V v)
          (\<lambda>e v'. link_fails V e \<and> (\<exists>k. wire V v' = wire V v @ take k d \<and> made V v' = made V v)) v"
  using assms unfolding ssl_env_def by blast+

lemma wp_on_inner [wp]:
  "wp (on_inner m) Q E w \<longleftrightarrow> wp m (\<lambda>a v. Q a (w\<lparr>inner := v\<rparr>)) (\<lambda>e v. E e (w\<lparr>inner := v\<rparr>)) (inner w)"
  by (auto simp: wp_def on_inner_def split: option.splits sum.splits)

lemma wp_tls_locks [wp]:
  "wp lock_recv_enter Q E w \<longleftrightarrow> \<not> recv_locked w \<and> Q () (w\<lparr>recv_locked := True\<rparr>)" "wp lock_recv_exit Q E w \<longleftrightarrow> Q () (w\<lparr>recv_locked := False\<rparr>)"
  "wp lock_send_enter Q E w \<longleftrightarrow> \<not> send_locked w \<and> Q () (w\<lparr>send_locked := True\<rparr>)" "wp lock_send_exit Q E w \<longleftrightarrow> Q () (w\<lparr>send_locked := False\<rparr>)"
  by (simp_all add: wp_def lock_recv_enter_def lock_recv_exit_def lock_send_enter_def lock_send_exit_def modify_def)

section \<open>The bytes on the wire\<close>

text \<open>
  \<open>in_hand b\<close>: everything the SSL object made is on the wire, held back, or the bytes \<open>b\<close> the coroutine
  carries, and the locks are free. \<open>linked\<close>: the same between two operations. \<open>safe\<close>: also after a failure, what is on the wire is
  the beginning of what was made, and the locks are free. \<open>blamed\<close>: the exception is one of the SSL object, wrapped, or one of the transport.
\<close>

definition in_hand :: "'w ssl_view \<Rightarrow> bytes \<Rightarrow> 'w tlsw \<Rightarrow> bool" where
  "in_hand V b w \<longleftrightarrow> made V (inner w) = wire V (inner w) @ egress_stack w @ b \<and> outq V (inner w) = [] \<and> \<not> recv_locked w \<and> \<not> send_locked w"

definition linked :: "'w ssl_view \<Rightarrow> 'w tlsw \<Rightarrow> bool" where
  "linked V w \<longleftrightarrow> in_hand V [] w"

definition safe :: "'w ssl_view \<Rightarrow> 'w tlsw \<Rightarrow> bool" where
  "safe V w \<longleftrightarrow> prefix (wire V (inner w)) (made V (inner w)) \<and> \<not> recv_locked w \<and> \<not> send_locked w \<and> (tst w = TBroken \<or> linked V w)"

definition blamed :: "'w ssl_view \<Rightarrow> exn \<Rightarrow> bool" where
  "blamed V e \<longleftrightarrow> (\<exists>x. e = ResourceBroken (Some x) \<and> ssl_fails V x) \<or> link_fails V e"

lemma in_hand_prefix: "in_hand V b w \<Longrightarrow> prefix (wire V (inner w)) (made V (inner w))"
  by (simp add: in_hand_def prefix_def)

lemma linked_safe: "linked V w \<Longrightarrow> safe V w"
  using in_hand_prefix by (auto simp: linked_def safe_def in_hand_def)

definition stepped :: "'w ssl_view \<Rightarrow> 'w tlsw \<Rightarrow> 'a option \<times> bool \<times> bytes \<Rightarrow> 'w tlsw \<Rightarrow> bool" where
  "stepped V w = (\<lambda>(r, want, b) w'. in_hand V b w' \<and> tst w' = tst w \<and>
     (want \<longrightarrow> 0 < wants V (inner w') \<and> wants V (inner w') \<le> wants V (inner w) \<and> (b \<noteq> [] \<longrightarrow> wants V (inner w') < wants V (inner w))))"

lemma wp_ssl_step:
  fixes fn :: "('r, 'w) io"
  assumes env: "ssl_env V os" and fn: "ssl_call V fn" and w: "linked V w"
  shows "wp (ssl_step os fn) (stepped V w)
     (\<lambda>e w'. is_ssl_error e \<and> ssl_fails V e \<and> prefix (wire V (inner w')) (made V (inner w')) \<and> \<not> recv_locked w' \<and> \<not> send_locked w') w"
proof -
  let ?E = "\<lambda>e v. is_ssl_error e \<and> ssl_fails V e \<and> prefix (wire V v) (made V v) \<and> \<not> recv_locked w \<and> \<not> send_locked w"
  have rd: "wp (x_egress_read os) (\<lambda>b v. stepped V w (r, want, b) (w\<lparr>inner := v\<rparr>)) E v"
    if "\<exists>b. made V v = made V (inner w) @ b \<and> outq V v = outq V (inner w) @ b \<and> wire V v = wire V (inner w) \<and>
        (want \<longrightarrow> 0 < wants V v \<and> wants V v \<le> wants V (inner w) \<and> (b \<noteq> [] \<longrightarrow> wants V v < wants V (inner w)))"
      for r :: "'r option" and want E v
    by (rule wp_mono[OF ssl_envD(8)[OF env]]) (use that w in \<open>auto simp: stepped_def in_hand_def linked_def\<close>)
  have "wp fn (\<lambda>a. wp (x_egress_read os) (\<lambda>b v. stepped V w (Some a, False, b) (w\<lparr>inner := v\<rparr>)) ?E)
      (\<lambda>e. if e = SSLWantReadError then wp (x_egress_read os) (\<lambda>b v. stepped V w (None :: 'r option, True, b) (w\<lparr>inner := v\<rparr>)) ?E else ?E e) (inner w)"
  proof (rule wp_mono[OF fn[unfolded ssl_call_def, rule_format]])
    fix e v
    assume e: "is_ssl_error e \<and> (e = SSLWantReadError \<or> ssl_fails V e) \<and> (\<exists>b. made V v = made V (inner w) @ b \<and> outq V v = outq V (inner w) @ b \<and> wire V v = wire V (inner w) \<and>
        (e = SSLWantReadError \<longrightarrow> 0 < wants V v \<and> wants V v \<le> wants V (inner w) \<and> (b \<noteq> [] \<longrightarrow> wants V v < wants V (inner w))))"
    then have "prefix (wire V v) (made V v) \<and> \<not> recv_locked w \<and> \<not> send_locked w" using w by (auto simp: linked_def in_hand_def)
    then show "(if e = SSLWantReadError then wp (x_egress_read os) (\<lambda>b v. stepped V w (None :: 'r option, True, b) (w\<lparr>inner := v\<rparr>)) ?E else ?E e) v"
      using e by (cases "e = SSLWantReadError") (simp_all, intro rd, blast)
  qed (rule rd, simp)
  then show ?thesis by (simp add: ssl_step_def wp cong: if_cong)
qed

lemma wp_guarded_step:
  assumes "ssl_env V os" "ssl_call V fn" "linked V w"
  shows "wp (guard_ssl (ssl_step os fn)) (stepped V w)
     (\<lambda>e w'. safe V w' \<and> tst w' = TBroken \<and> blamed V e) w"
  unfolding guard_ssl_def wp_try_except
  by (rule wp_mono[OF wp_ssl_step[OF assms]]) (auto simp: wp set_broken_def safe_def blamed_def)

lemma wp_tls_send:
  assumes "ssl_env V os" "in_hand V b w"
  shows "wp (tls_send os b) (\<lambda>_ w'. linked V w' \<and> egress_stack w' = [] \<and> tst w' = tst w \<and> wants V (inner w') \<le> wants V (inner w))
     (\<lambda>e w'. safe V w' \<and> tst w' = TBroken \<and> blamed V e) w"
proof -
  let ?all = "egress_stack w @ b"
  have pre: "prefix (x @ take k ?all) (x @ ?all)" for x k
    by (simp only: same_prefix_prefix take_is_prefix)
  have free: "\<not> send_locked w" "\<not> recv_locked w" using assms(2) by (simp_all add: in_hand_def)
  have "wp (t_send_all os ?all)
     (\<lambda>_ v. linked V (w\<lparr>egress_stack := [], inner := v, send_locked := False\<rparr>) \<and> wants V v \<le> wants V (inner w))
     (\<lambda>e v. safe V (w\<lparr>egress_stack := [], inner := v, tst := TBroken, send_locked := False\<rparr>) \<and> blamed V e) (inner w)"
  proof (rule wp_mono[OF ssl_envD(10)[OF assms(1)]])
    fix e v assume "link_fails V e \<and> (\<exists>k. wire V v = wire V (inner w) @ take k ?all \<and> made V v = made V (inner w))"
    then show "safe V (w\<lparr>egress_stack := [], inner := v, tst := TBroken, send_locked := False\<rparr>) \<and> blamed V e"
      using assms(2) pre[of "wire V (inner w)"] by (auto simp: in_hand_def safe_def blamed_def simp del: take_append)
  qed (use assms(2) in \<open>auto simp: linked_def in_hand_def\<close>)
  then show ?thesis using free
    by (auto simp: tls_send_def wp set_broken_def elim!: wp_mono)
qed

lemma wp_tls_recv:
  assumes "ssl_env V os" "linked V w" "0 < wants V (inner w)"
  shows "wp (tls_recv os) (\<lambda>_ w'. linked V w' \<and> tst w' = tst w \<and> wants V (inner w') < wants V (inner w))
     (\<lambda>e w'. safe V w' \<and> blamed V e) w"
proof -
  note r = ssl_envD(9)[OF assms(1,3), unfolded wp_bnd]
  have free: "\<not> send_locked w" "\<not> recv_locked w" using assms(2) by (simp_all add: linked_def in_hand_def)
  have "linked V w'" if "inner w' = v" "egress_stack w' = egress_stack w" "\<not> recv_locked w'" "\<not> send_locked w'" "wire V v = wire V (inner w)"
      "outq V v = outq V (inner w)" "made V v = made V (inner w)" for w' v
    using that assms(2) by (simp add: linked_def in_hand_def)
  note l = this linked_safe[OF this]
  show ?thesis
    unfolding tls_recv_def using free
    by (simp add: wp, intro wp_mono[OF r]) (auto simp: wp blamed_def elim!: wp_mono intro!: l split: if_splits)
qed

lemma wp_pump:
  assumes "ssl_env V os" "stepped V w (r, want, b) u" "in_hand V b u"
  shows "wp (pump os want b) (\<lambda>_ w'. linked V w' \<and> tst w' = tst w \<and> (want \<longrightarrow> wants V (inner w') < wants V (inner w)))
     (\<lambda>e w'. safe V w' \<and> blamed V e) u"
proof -
  have u: "tst u = tst w" "want \<Longrightarrow> wants V (inner u) \<le> wants V (inner w)"
    "want \<Longrightarrow> b \<noteq> [] \<Longrightarrow> wants V (inner u) < wants V (inner w)" "want \<Longrightarrow> 0 < wants V (inner u)"
    using assms(2) by (auto simp: stepped_def)
  consider "b \<noteq> []" | "b = []" "want" | "b = []" "\<not> want" by blast
  then show ?thesis
  proof cases
    case 1
    then show ?thesis
      using u wp_tls_send[OF assms(1,3)] by (auto simp: pump_def elim!: wp_mono)
  next
    case 2
    then have "linked V u" using assms(3) by (simp add: linked_def)
    from wp_tls_recv[OF assms(1) this u(4)[OF 2(2)]] show ?thesis
      using u 2 by (auto simp: pump_def elim!: wp_mono)
  next
    case 3
    then show ?thesis using u(1) assms(3) by (simp add: pump_def wp linked_def)
  qed
qed

lemma wp_ssl_dance:
  assumes env: "ssl_env V os" and fn: "ssl_call V fn" and w: "linked V w"
  shows "wp (ssl_dance os fn) (\<lambda>_ w'. linked V w' \<and> tst w' = tst w) (\<lambda>e w'. safe V w' \<and> blamed V e) w"
  unfolding ssl_dance_def
proof (rule wp_loop[where I = "\<lambda>_ u n. linked V u \<and> tst u = tst w \<and> n = wants V (inner u)"], goal_cases)
  case (2 t u n)
  have "wp (case x of (r, want, b) \<Rightarrow> bnd (pump os want b) (\<lambda>_. ret (if \<not> want then Inr r else Inl ())))
      (turn (\<lambda>_ u. \<exists>m<n. linked V u \<and> tst u = tst w \<and> m = wants V (inner u)) (\<lambda>_ w'. linked V w' \<and> tst w' = tst w))
      (\<lambda>e w'. safe V w' \<and> blamed V e) v" if "stepped V u x v" for x v
  proof -
    obtain r want b where x: "x = (r, want, b)" by (cases x) auto
    have "in_hand V b v" using that by (simp add: x stepped_def)
    from wp_pump[OF env that[unfolded x] this] show ?thesis
      using 2 by (auto simp: x wp elim!: wp_mono)
  qed
  then show ?case
    using 2 unfolding wp_bnd by (intro wp_mono[OF wp_guarded_step[OF env fn]]) (auto simp: wp)
qed (use w in simp)


section \<open>A link for the witnesses\<close>

text \<open>
  An SSL object without a cipher over a transport that takes everything: the handshake is a hello, an
  answer of the peer and a finish.
\<close>

record plain =
  p_wire :: bytes
  p_outq :: bytes
  p_made :: bytes
  p_inq :: bytes
  p_eof :: bool
  p_flights :: nat
  p_peer :: "bytes list"
  p_closed :: nat

definition emit :: "bytes \<Rightarrow> plain \<Rightarrow> plain" where
  "emit b v = v\<lparr>p_outq := p_outq v @ b, p_made := p_made v @ b\<rparr>"

definition plain_os :: "bool \<Rightarrow> plain tls_os" where
  "plain_os server = \<lparr>
     x_read = \<lambda>n v. if p_inq v \<noteq> [] then Some (Inr (take (nat n) (p_inq v)), v\<lparr>p_inq := drop (nat n) (p_inq v)\<rparr>)
        else if p_eof v then Some (Inl (SSLError True), v) else Some (Inl SSLWantReadError, v),
     x_write = \<lambda>d v. Some (Inr (int (length d)), emit d v),
     x_do_handshake = \<lambda>v. (case p_flights v of
          0 \<Rightarrow> Some (Inr (), v)
        | Suc 0 \<Rightarrow> if p_inq v \<noteq> [] then Some (Inr (), emit [20] (v\<lparr>p_flights := 0, p_inq := []\<rparr>))
            else if p_eof v then Some (Inl (SSLError True), v) else Some (Inl SSLWantReadError, v)
        | Suc n \<Rightarrow> Some (Inl SSLWantReadError, emit [22] (v\<lparr>p_flights := n\<rparr>))),
     x_unwrap = \<lambda>v. if p_inq v \<noteq> [] then Some (Inl (SSLError False), v) else Some (Inr (), emit [21] v),
     x_server_side = server, x_version = ret ''TLSv1.3'',
     x_ingress_write = \<lambda>d. modify (\<lambda>v. v\<lparr>p_inq := p_inq v @ d\<rparr>), x_ingress_eof = modify (\<lambda>v. v\<lparr>p_eof := True\<rparr>),
     x_ingress_pending = read (\<lambda>v. int (length (p_inq v))),
     x_egress_read = \<lambda>v. Some (Inr (p_outq v), v\<lparr>p_outq := []\<rparr>),
     t_send_all = \<lambda>d. modify (\<lambda>v. v\<lparr>p_wire := p_wire v @ d\<rparr>),
     t_receive_some = \<lambda>v. (if p_eof v \<or> p_inq v \<noteq> [] then Some (Inl (OSError 104), v)
        else case p_peer v of [] \<Rightarrow> Some (Inr [], v) | c # cs \<Rightarrow> Some (Inr c, v\<lparr>p_peer := cs\<rparr>)),
     t_close = modify (\<lambda>v. v\<lparr>p_closed := Suc (p_closed v)\<rparr>),
     compat_https = False\<rparr>"

definition plain_view :: "plain ssl_view" where
  "plain_view = \<lparr>wire = p_wire, outq = p_outq, made = p_made,
     wants = \<lambda>v. 2 * p_flights v + (if p_inq v = [] \<and> \<not> p_eof v then 1 else 0), ssl_fails = \<lambda>e. case e of SSLError _ \<Rightarrow> True | _ \<Rightarrow> False, link_fails = \<lambda>e. e = OSError 104\<rparr>"

definition plain_start :: "plain tlsw" where
  "plain_start = tls_init \<lparr>p_wire = [], p_outq = [], p_made = [], p_inq = [], p_eof = False, p_flights = 2,
     p_peer = [[1]], p_closed = 0\<rparr>"

lemma plain_env: "ssl_env plain_view (plain_os server)"
  unfolding ssl_env_def
proof (intro conjI allI)
  show "ssl_call plain_view (x_do_handshake (plain_os server))"
    by (auto simp: ssl_call_def plain_view_def plain_os_def wp_def emit_def split: nat.splits)
  show "0 < wants plain_view v \<longrightarrow> wp (bnd (t_receive_some (plain_os server)) (\<lambda>d. if d = [] then x_ingress_eof (plain_os server) else x_ingress_write (plain_os server) d))
          (\<lambda>_ v'. wire plain_view v' = wire plain_view v \<and> outq plain_view v' = outq plain_view v \<and> made plain_view v' = made plain_view v \<and> wants plain_view v' < wants plain_view v)
          (\<lambda>e v'. link_fails plain_view e \<and> wire plain_view v' = wire plain_view v \<and> outq plain_view v' = outq plain_view v \<and> made plain_view v' = made plain_view v) v" for v
    by (auto simp: plain_view_def plain_os_def wp_def bnd_def modify_def split: list.splits)
qed (auto simp: ssl_call_def quiet_def plain_view_def plain_os_def wp_def emit_def modify_def read_def ret_def)

lemma plain_linked: "linked plain_view plain_start" "tst plain_start = TInit"
  by (simp_all add: linked_def in_hand_def plain_view_def plain_start_def tls_init_def)

section \<open>Handshake, sending, receiving\<close>

lemma wp_handshake_loop:
  assumes env: "ssl_env V os" and w: "linked V w"
  shows "wp (loop (\<lambda>done.
       if done then ret (Inr ())
       else bnd (guard_ssl (ssl_step os (x_do_handshake os))) (\<lambda>(_, want_read, to_send).
            bnd (if \<not> want_read \<and> x_server_side os
                 then bnd (on_inner (x_version os)) (\<lambda>v. ret (v = ''TLSv1.3'')) else ret False) (\<lambda>hold.
            bnd (if hold
                 then bnd (modify (\<lambda>w. w\<lparr>egress_stack := egress_stack w @ to_send\<rparr>)) (\<lambda>_. ret [])
                 else ret to_send) (\<lambda>to_send.
            bnd (pump os want_read to_send) (\<lambda>_.
            ret (Inl (\<not> want_read))))))) False)
     (\<lambda>_ w'. linked V w' \<and> tst w' = tst w) (\<lambda>e w'. safe V w' \<and> blamed V e) w"
proof (rule wp_loop[where I = "\<lambda>done u n. linked V u \<and> tst u = tst w \<and> n = (if done then 0 else Suc (wants V (inner u)))"],
    goal_cases)
  case (2 d u n)
  show ?case
  proof (cases d)
    case True
    then show ?thesis using 2 by (simp add: wp)
  next
    case False
    let ?I = "\<lambda>done u. \<exists>m<n. linked V u \<and> tst u = tst w \<and> m = (if done then 0 else Suc (wants V (inner u)))"
    have n: "n = Suc (wants V (inner u))" "linked V u" "tst u = tst w" using 2 False by simp_all
    have pumped: "wp (pump os want b) (\<lambda>_. ?I (\<not> want)) (\<lambda>e w'. safe V w' \<and> blamed V e) v"
      if "in_hand V b v" "tst v = tst w" "want \<Longrightarrow> wants V (inner v) \<le> wants V (inner u)"
        "want \<Longrightarrow> b \<noteq> [] \<Longrightarrow> wants V (inner v) < wants V (inner u)" "want \<Longrightarrow> 0 < wants V (inner v)" for want b v
    proof -
      have st: "stepped V u (None :: unit option, want, b) v" using that n(3) by (simp add: stepped_def)
      show ?thesis by (rule wp_mono[OF wp_pump[OF env st that(1)]]) (use n in auto)
    qed
    have held: "wp (on_inner (x_version os)) (\<lambda>a. wp (if a = ''TLSv1.3''
          then bnd (modify (\<lambda>w. w\<lparr>egress_stack := egress_stack w @ b\<rparr>)) (\<lambda>_. ret []) else ret b)
          (\<lambda>b. wp (pump os False b) (\<lambda>_. ?I True) (\<lambda>e w'. safe V w' \<and> blamed V e)) (\<lambda>e w'. safe V w' \<and> blamed V e)) (\<lambda>e w'. safe V w' \<and> blamed V e) v"
      if v: "in_hand V b v" "tst v = tst w" for b v
    proof -
      show ?thesis
        unfolding wp_on_inner
      proof (rule wp_mono[OF ssl_envD(5)[OF env]])
        fix a x
        assume x: "wire V x = wire V (inner v) \<and> outq V x = outq V (inner v) \<and> made V x = made V (inner v)"
        then have "in_hand V b (v\<lparr>inner := x\<rparr>)" "in_hand V [] (v\<lparr>inner := x, egress_stack := egress_stack v @ b\<rparr>)"
          using v by (simp_all add: in_hand_def)
        then show "wp (if a = ''TLSv1.3''
            then bnd (modify (\<lambda>w. w\<lparr>egress_stack := egress_stack w @ b\<rparr>)) (\<lambda>_. ret []) else ret b)
            (\<lambda>b. wp (pump os False b) (\<lambda>_. ?I True) (\<lambda>e w'. safe V w' \<and> blamed V e)) (\<lambda>e w'. safe V w' \<and> blamed V e) (v\<lparr>inner := x\<rparr>)"
          using pumped[of _ _ False] v(2) by (simp add: wp)
      qed simp
    qed
    have rest: "wp (case x of (_, want_read, to_send) \<Rightarrow>
            bnd (if \<not> want_read \<and> x_server_side os
                 then bnd (on_inner (x_version os)) (\<lambda>v. ret (v = ''TLSv1.3'')) else ret False) (\<lambda>hold.
            bnd (if hold
                 then bnd (modify (\<lambda>w. w\<lparr>egress_stack := egress_stack w @ to_send\<rparr>)) (\<lambda>_. ret [])
                 else ret to_send) (\<lambda>to_send.
            bnd (pump os want_read to_send) (\<lambda>_.
            ret (Inl (\<not> want_read)))))) (turn ?I (\<lambda>_ w'. linked V w' \<and> tst w' = tst w)) (\<lambda>e w'. safe V w' \<and> blamed V e) v"
      if "stepped V u x v" for x :: "unit option \<times> bool \<times> bytes" and v
    proof -
      obtain r want b where x: "x = (r, want, b)" by (cases x) auto
      have v: "in_hand V b v" "tst v = tst w" "want \<Longrightarrow> wants V (inner v) \<le> wants V (inner u)"
        "want \<Longrightarrow> b \<noteq> [] \<Longrightarrow> wants V (inner v) < wants V (inner u)" "want \<Longrightarrow> 0 < wants V (inner v)"
        using that n(3) by (auto simp: x stepped_def)
      show ?thesis
        using held[OF v(1,2)] pumped[OF v]
        by (cases "\<not> want \<and> x_server_side os") (auto simp: x wp cong: if_cong)
    qed
    show ?thesis
      unfolding if_not_P[OF False] wp_bnd[of "guard_ssl _"]
      by (rule wp_mono[OF wp_guarded_step[OF env ssl_envD(3)[OF env] n(2)]], rule rest) auto
  qed
qed (use w in simp)

text \<open>
  A handshake on a fresh stream ends with the stream ready, and everything the SSL object made is
  on the wire in order, or held back to go first with the next data (the last flight of a TLS 1.3
  server). It raises only what the SSL object, wrapped, or the transport raised; then what is on the wire is the beginning of what was made.
\<close>

theorem tls_handshake_links:
  assumes "ssl_env V os" and "linked V w" and "tst w = TInit"
  shows "wp (tls_handshake os) (\<lambda>_ w'. tst w' = TReady \<and> linked V w') (\<lambda>e w'. safe V w' \<and> blamed V e) w"
proof -
  let ?w = "w\<lparr>tst := THandshake\<rparr>"
  have l: "linked V ?w" using assms(2) by (simp add: linked_def in_hand_def)
  have post: "wp handshake_post (\<lambda>_ w'. tst w' = TReady \<and> linked V w') (\<lambda>e w'. safe V w' \<and> blamed V e) v"
    if "linked V v \<and> tst v = tst ?w" for v
    using that by (simp add: wp_def handshake_post_def linked_def in_hand_def cas_def)
  have pre: "wp handshake_pre Q E w = Q () ?w" for Q E
    using assms(3) by (simp add: wp_def handshake_pre_def cas_def)
  show ?thesis
    unfolding tls_handshake_def wp_bnd[of handshake_pre] pre wp_bnd[of "loop _ _"]
    by (rule wp_mono[OF wp_handshake_loop[OF assms(1) l]]) (auto intro: post)
qed

theorem tls_handshake_links_witness:
  "\<exists>w'. tls_handshake (plain_os True) plain_start = Some (Inr (), w') \<and> tst w' = TReady \<and>
     p_wire (inner w') = [22] \<and> egress_stack w' = [20]"
proof -
  have "left_with (\<lambda>w. (p_wire (inner w), egress_stack w)) (tls_handshake (plain_os True) plain_start) = Some ([22], [20])"
    by code_simp
  then obtain w' where r: "tls_handshake (plain_os True) plain_start = Some (Inr (), w')"
      "p_wire (inner w') = [22]" "egress_stack w' = [20]"
    by (auto elim: left_withE)
  then show ?thesis
    using tls_handshake_links[OF plain_env plain_linked, of True] by (simp add: wp_Inr)
qed

text \<open>
  C21. Sending and receiving on a ready stream that is used by one task at a time keep the link: when the call returns, everything the SSL
  object ever made is on the wire or held back, in the order in which it was made, the stream is ready and its locks are free; only with \<open>https_compatible\<close> an end of the input may be returned as no data from a stream that
  is broken. When it raises, the exception is one of the SSL object, wrapped, or one of the transport, what
  is on the wire is the beginning of what was made, the locks are free, and the stream is broken unless nothing is missing. What several tasks at a time do to the order is \<open>Tls_Tasks\<close>.
\<close>

theorem tls_transfer_links:
  assumes "ssl_env V os" and "linked V w" and "tst w = TReady"
  shows "wp (tls_send_all os data) (\<lambda>_ w'. tst w' = TReady \<and> linked V w') (\<lambda>e w'. safe V w' \<and> blamed V e) w \<and>
    wp (tls_receive_some os mx) (\<lambda>r w'. tst w' = TReady \<and> linked V w' \<or> compat_https os \<and> r = Some [] \<and> safe V w') (\<lambda>e w'. safe V w' \<and> blamed V e) w"
proof
  have ready: "wp check_ready Q E w = Q () w" for Q E using assms(3) by (simp add: wp_def check_ready_def)
  show "wp (tls_send_all os data) (\<lambda>_ w'. tst w' = TReady \<and> linked V w') (\<lambda>e w'. safe V w' \<and> blamed V e) w"
  proof (cases "data = []")
    case True
    then show ?thesis using assms by (simp add: tls_send_all_def wp_bnd ready wp_ret)
  next
    case False
    then show ?thesis
      using wp_ssl_dance[OF assms(1) ssl_envD(2)[OF assms(1)] assms(2), of data] assms(3)
      by (auto simp: tls_send_all_def wp_bnd ready wp_ret elim!: wp_mono)
  qed
  have dance: "wp (try_except (ssl_dance os (x_read os n)) (\<lambda>e. case e of ResourceBroken _ \<Rightarrow> True | _ \<Rightarrow> False)
       (\<lambda>e. case e of ResourceBroken cause \<Rightarrow> if compat_https os \<and> is_eof cause then ret (Some []) else raise e
        | _ \<Rightarrow> raise e)) (\<lambda>r w'. tst w' = TReady \<and> linked V w' \<or> compat_https os \<and> r = Some [] \<and> safe V w') (\<lambda>e w'. safe V w' \<and> blamed V e) v"
    if "linked V v" "tst v = TReady" for n v
    unfolding wp_try_except
    by (rule wp_mono[OF wp_ssl_dance[OF assms(1) ssl_envD(1)[OF assms(1)] that(1)]])
       (use that(2) in \<open>auto simp: wp split: exn.splits\<close>)
  have size: "wp (case mx of None \<Rightarrow> bnd (on_inner (x_ingress_pending os)) (\<lambda>p. read (\<lambda>w. max (recv_est_size w) p)) | Some n \<Rightarrow> ret n)
     (\<lambda>_ w'. linked V w' \<and> tst w' = TReady) (\<lambda>e w'. safe V w' \<and> blamed V e) w"
  proof (cases mx)
    case None
    have "wp (x_ingress_pending os)
         (\<lambda>_ v'. linked V (w\<lparr>inner := v'\<rparr>)) (\<lambda>e v'. safe V (w\<lparr>inner := v'\<rparr>) \<and> blamed V e) (inner w)"
      by (rule wp_mono[OF ssl_envD(6)[OF assms(1), unfolded quiet_def, rule_format]])
         (use assms(2) in \<open>auto simp: linked_def in_hand_def blamed_def intro!: linked_safe\<close>)
    then show ?thesis using None assms(3) by (simp add: wp)
  qed (use assms in \<open>simp add: wp\<close>)
  show "wp (tls_receive_some os mx) (\<lambda>r w'. tst w' = TReady \<and> linked V w' \<or> compat_https os \<and> r = Some [] \<and> safe V w') (\<lambda>e w'. safe V w' \<and> blamed V e) w"
    unfolding tls_receive_some_def wp_bnd[of check_ready] ready wp_bnd[of "case mx of None \<Rightarrow> _ | Some n \<Rightarrow> _ n"]
    by (rule wp_mono[OF size]) (auto intro: dance)
qed

theorem tls_transfer_links_witness:
  "wp (tls_send_all (plain_os False) [5, 6]) (\<lambda>_ w'. tst w' = TReady \<and> linked plain_view w') (\<lambda>e w'. safe plain_view w' \<and> blamed plain_view e)
     (plain_start\<lparr>tst := TReady\<rparr>)"
proof -
  have "linked plain_view (plain_start\<lparr>tst := TReady\<rparr>)" using plain_linked(1) by (simp add: linked_def in_hand_def)
  from tls_transfer_links[OF plain_env this, where data = "[5, 6]" and mx = None] show ?thesis by simp
qed

text \<open>
  The state machine guards the operations: the handshake runs only on a fresh stream, sending and
  receiving only on a ready one; otherwise they raise and change nothing.
\<close>

theorem tls_state_guards:
  "(tst w \<noteq> TInit \<longrightarrow> tls_handshake os w = Some (Inl (RuntimeError ''Invalid TLSStream state change''), w)) \<and>
   (tst w \<noteq> TReady \<longrightarrow> tls_send_all os data w = Some (Inl (RuntimeError ''TLSStream in bad state''), w) \<and>
      tls_receive_some os mx w = Some (Inl (RuntimeError ''TLSStream in bad state''), w))"
  by (simp add: tls_handshake_def handshake_pre_def bad_change_def cas_def bnd_def raise_def tls_send_all_def
      tls_receive_some_def check_ready_def)

theorem tls_state_guards_witness:
  "tls_send_all (plain_os True) [1] plain_start = Some (Inl (RuntimeError ''TLSStream in bad state''), plain_start)"
  using tls_state_guards[of plain_start "plain_os True" "[1]" None] plain_linked(2) by simp

section \<open>Closing\<close>

text \<open>
  The test for a broken stream in \<open>close\<close> never succeeds, because the state is overwritten before it
  is read: closing a broken stream is closing a ready one, so it still exchanges a TLS close
  message over the broken transport.
\<close>

theorem tls_close_ignores_broken:
  assumes "tst w = TBroken"
  shows "tls_close os w = tls_close os (w\<lparr>tst := TReady\<rparr>)"
  using assms
  by (simp add: tls_close_def bnd_def get_state_def read_def set_closed_def modify_def)

theorem tls_close_ignores_broken_witness:
  "\<exists>w'. tls_close (plain_os True) (plain_start\<lparr>tst := TBroken\<rparr>) = Some (Inr (), w') \<and> p_wire (inner w') = [21]"
proof -
  have "left_with (\<lambda>w. p_wire (inner w)) (tls_close (plain_os True) (plain_start\<lparr>tst := TReady\<rparr>)) = Some [21]"
    by code_simp
  then show ?thesis
    using tls_close_ignores_broken[of "plain_start\<lparr>tst := TBroken\<rparr>" "plain_os True"]
    by (auto elim: left_withE)
qed

text \<open>
  When the SSL object refuses to shut down, \<open>close\<close> closes the transport and returns, but leaves the
  stream broken instead of closed, so a second \<open>close\<close> goes through all of it again and closes the
  transport a second time.
\<close>

theorem tls_close_not_final:
  assumes "tst w \<noteq> TClosed" and "\<not> compat_https os"
    and "x_unwrap os (inner w) = Some (Inl (SSLError b), v)" and "t_close os v = Some (Inr (), v')"
  shows "tls_close os w = Some (Inr (), w\<lparr>tst := TBroken, inner := v'\<rparr>)"
  using assms
  by (cases "tst w")
     (simp_all add: tls_close_def bnd_def get_state_def read_def set_closed_def set_broken_def modify_def try_finally_def
      suppress_def try_except_def try_else_def guard_ssl_def ssl_step_def on_inner_def raise_def ret_def)

theorem tls_close_not_final_witness:
  "\<exists>w w' w''. tls_close (plain_os True) w = Some (Inr (), w') \<and> tls_close (plain_os True) w' = Some (Inr (), w'') \<and>
     p_closed (inner w'') = 2"
proof -
  let ?v = "(inner plain_start)\<lparr>p_inq := [9]\<rparr>"
  let ?w = "plain_start\<lparr>tst := TReady, inner := ?v\<rparr>"
  let ?w' = "?w\<lparr>tst := TBroken, inner := ?v\<lparr>p_closed := 1\<rparr>\<rparr>"
  have "tls_close (plain_os True) ?w = Some (Inr (), ?w')"
    by (rule tls_close_not_final[where b = False and v = ?v])
       (simp_all add: plain_os_def modify_def plain_start_def tls_init_def)
  moreover have "tls_close (plain_os True) ?w' = Some (Inr (), ?w'\<lparr>tst := TBroken, inner := ?v\<lparr>p_closed := 2\<rparr>\<rparr>)"
    by (rule tls_close_not_final[where b = False and v = "?v\<lparr>p_closed := 1\<rparr>"])
       (simp_all add: plain_os_def modify_def plain_start_def tls_init_def)
  ultimately show ?thesis by (intro exI conjI) (assumption, assumption, simp)
qed

end
