(* ===== verification/Hilvl.thy ===== *)
theory Hilvl
  imports Tls
begin

text \<open>
  \<open>src/tonio/_net/_hilvl.py\<close>: listeners, Unix sockets, and the serving loops. (The racing connection attempts
  of \<open>open_tcp_stream\<close> are a machine of their own, in \<open>Happy_Eyeballs\<close>.)
\<close>

text \<open>What the module calls besides sockets.\<close>

record 'w hi =
  h_chmod :: "pyval \<Rightarrow> int \<Rightarrow> (unit, 'w) io"
  h_unlink :: "pyval \<Rightarrow> (unit, 'w) io"
  h_sleep :: "(unit, 'w) io"

text \<open>\<open>EMFILE\<close>, \<open>ENFILE\<close>, \<open>ENOMEM\<close>, \<open>ENOBUFS\<close> on Linux.\<close>

definition accept_retry_errnos :: "int list" where
  "accept_retry_errnos = [24, 23, 12, 105]"

definition EADDRINUSE :: int where "EADDRINUSE = 98"
definition EAFNOSUPPORT :: int where "EAFNOSUPPORT = 97"
definition SO_REUSEADDR :: int where "SO_REUSEADDR = 2"

section \<open>Clean-up\<close>

text \<open>\<open>_close_all_sockets\<close>: close what is in the set at the end, whatever the block did; report the errors.\<close>

fun close_each :: "'w os \<Rightarrow> sid list \<Rightarrow> exn list \<Rightarrow> (exn list, 'w) io" where
  "close_each os [] errs = ret errs"
| "close_each os (s # ss) errs =
     try_else (sock_close os s) (\<lambda>_. True) (\<lambda>e. close_each os ss (errs @ [e])) (\<lambda>_. close_each os ss errs)"

text \<open>\<open>BaseExceptionGroup(msg, errs)\<close>: Python makes it an \<open>ExceptionGroup\<close> when all of them are of class \<open>Exception\<close>.\<close>

definition base_group :: "string \<Rightarrow> exn list \<Rightarrow> exn" where
  "base_group msg errs = (if \<forall>e \<in> set errs. is_Exception e then ExceptionGroup msg errs else BaseExceptionGroup msg errs)"

definition raise_all :: "exn list \<Rightarrow> (unit, 'w) io" where
  "raise_all errs = (case errs of
      [] \<Rightarrow> ret ()
    | [e] \<Rightarrow> raise e
    | _ \<Rightarrow> raise (base_group '''' errs))"

definition close_all_sockets :: "'w os \<Rightarrow> ('w \<Rightarrow> sid list) \<Rightarrow> ('a, 'w) io \<Rightarrow> ('a, 'w) io" where
  "close_all_sockets os socks body =
     try_finally body (bnd (read socks) (\<lambda>ss. bnd (close_each os ss []) raise_all))"

definition close_on_error :: "(unit, 'w) io \<Rightarrow> ('a, 'w) io \<Rightarrow> ('a, 'w) io" where
  "close_on_error close body = try_except body (\<lambda>_. True) (\<lambda>e. bnd close (\<lambda>_. raise e))"

section \<open>Unix sockets\<close>

definition unix_check_path :: "pyval \<Rightarrow> int option \<Rightarrow> (pyval, 'w) io" where
  "unix_check_path path mode =
     (if \<not> is_pathlike path then raise (TypeError ''expected str, bytes or os.PathLike object'')
      else let p = fspath path in
        if p = PStr '''' \<or> p = PBytes [] then raise (ValueError ''path must not be empty'')
        else if mode \<noteq> None \<and> (case p of PBytes (b # _) \<Rightarrow> b = 0 | _ \<Rightarrow> False)
        then raise (ValueError ''mode is not supported for abstract namespace sockets'')
        else ret p)"

definition unix_bind :: "'w os \<Rightarrow> 'w hi \<Rightarrow> sid \<Rightarrow> pyval \<Rightarrow> int option \<Rightarrow> (unit, 'w) io" where
  "unix_bind os hi s path mode =
     bnd (try_except (s_bind os s path) is_OSError
            (\<lambda>e. if os_errno e = Some EADDRINUSE then raise (OSError EADDRINUSE) else raise e)) (\<lambda>_.
     (case mode of
        None \<Rightarrow> ret ()
      | Some m \<Rightarrow> try_except (h_chmod hi path m) (\<lambda>_. True)
          (\<lambda>e. bnd (suppress is_OSError (h_unlink hi path)) (\<lambda>_. raise e))))"

definition open_unix_socket :: "'w os \<Rightarrow> pyval \<Rightarrow> (sid, 'w) io" where
  "open_unix_socket os filename =
     bnd (socket os AF_UNIX SOCK_STREAM 0 None) (\<lambda>s.
     bnd (close_on_error (sock_close os s)
            (if is_pathlike filename then connect os s (fspath filename)
             else raise (TypeError ''expected str, bytes or os.PathLike object''))) (\<lambda>_.
     stream_init os (Some s)))"

definition clamp_backlog :: "int option \<Rightarrow> int" where
  "clamp_backlog backlog = min (case backlog of None \<Rightarrow> 65535 | Some n \<Rightarrow> if n = 0 then 65535 else n) 65535"

definition open_unix_listener :: "'w os \<Rightarrow> 'w hi \<Rightarrow> pyval \<Rightarrow> int option \<Rightarrow> int option \<Rightarrow> (sid, 'w) io" where
  "open_unix_listener os hi path mode backlog =
     bnd (unix_check_path path mode) (\<lambda>p.
     bnd (socket os AF_UNIX SOCK_STREAM 0 None) (\<lambda>s.
     close_on_error (sock_close os s)
       (bnd (spawn_blocking os (unix_bind os hi s p mode)) (\<lambda>_.
        bnd (listen os s (Some (clamp_backlog backlog))) (\<lambda>_.
        listener_init os (Some s))))))"

section \<open>TCP listeners\<close>

text \<open>An entry of \<open>getaddrinfo\<close>: family, type, protocol, canonical name, address.\<close>

fun gai_fields :: "pyval list \<Rightarrow> (int \<times> int \<times> int \<times> pyval) option" where
  "gai_fields [PInt f, PInt t, PInt p, _, a] = Some (f, t, p, a)"
| "gai_fields _ = None"

text \<open>The body of the loop after the socket is there: options, bind, listen.\<close>

definition setup_listener :: "'w os \<Rightarrow> int \<Rightarrow> int \<Rightarrow> sid \<Rightarrow> pyval \<Rightarrow> (sid, 'w) io" where
  "setup_listener os backlog family s sockaddr =
     close_on_error (sock_close os s)
       (bnd (setsockopt os s SOL_SOCKET SO_REUSEADDR (PInt 1) None) (\<lambda>_.
        bnd (if family = AF_INET6 then setsockopt os s IPPROTO_IPV6 IPV6_V6ONLY (PInt 1) None else ret ()) (\<lambda>_.
        bnd (bind os s sockaddr) (\<lambda>_.
        bnd (listen os s (Some backlog)) (\<lambda>_.
        listener_init os (Some s))))))"

definition add_listener ::
    "'w os \<Rightarrow> int \<Rightarrow> pyval list \<Rightarrow> sid list \<times> exn list \<Rightarrow> (sid list \<times> exn list, 'w) io" where
  "add_listener os backlog entry acc = (case acc of (listeners, unsupported) \<Rightarrow>
     (case gai_fields entry of
        None \<Rightarrow> raise (ValueError ''not enough values to unpack'')
      | Some (family, type, proto, sockaddr) \<Rightarrow>
          try_else (socket os family type proto None) is_OSError
            (\<lambda>e. if os_errno e = Some EAFNOSUPPORT then ret (listeners, unsupported @ [e]) else raise e)
            (\<lambda>s. bnd (setup_listener os backlog family s sockaddr) (\<lambda>l. ret (listeners @ [l], unsupported)))))"

text \<open>
  The loop over the addresses. The outer \<open>except\<close> closes the listeners made so far: they are the loop's
  variable, so the handler is around each turn.
\<close>

fun close_listeners :: "'w os \<Rightarrow> sid list \<Rightarrow> (unit, 'w) io" where
  "close_listeners os [] = ret ()"
| "close_listeners os (l # ls) = bnd (listener_close os l) (\<lambda>_. close_listeners os ls)"

fun add_listeners ::
    "'w os \<Rightarrow> int \<Rightarrow> pyval list list \<Rightarrow> sid list \<times> exn list \<Rightarrow> (sid list \<times> exn list, 'w) io" where
  "add_listeners os backlog [] acc = ret acc"
| "add_listeners os backlog (a # as) acc =
     try_else (add_listener os backlog a acc) (\<lambda>_. True)
       (\<lambda>e. bnd (close_listeners os (fst acc)) (\<lambda>_. raise e))
       (add_listeners os backlog as)"

definition open_tcp_listeners :: "'w os \<Rightarrow> pyval \<Rightarrow> pyval \<Rightarrow> int option \<Rightarrow> (sid list, 'w) io" where
  "open_tcp_listeners os port host backlog =
     (if \<not> is_int port then raise (TypeError ''port must be an int'')
      else bnd (getaddrinfo os host port 0 SOCK_STREAM 0 AI_PASSIVE) (\<lambda>addresses.
           bnd (add_listeners os (clamp_backlog backlog) addresses ([], [])) (\<lambda>(listeners, unsupported).
           if unsupported \<noteq> [] \<and> listeners = [] then raise (OSError EAFNOSUPPORT)
           else ret listeners)))"

section \<open>Serving\<close>

text \<open>
  \<open>_listener_handler\<close>, for any listener: a socket listener or a TLS one. \<open>start\<close> is
  \<open>spawn.without_tracking(handler(stream))\<close>.
\<close>

definition serve_turn :: "'w hi \<Rightarrow> ('s, 'w) io \<Rightarrow> ('s \<Rightarrow> (unit, 'w) io) \<Rightarrow> unit \<Rightarrow> (unit + unit, 'w) io" where
  "serve_turn hi laccept start = (\<lambda>_. try_else laccept is_OSError
     (\<lambda>e. if (case os_errno e of Some n \<Rightarrow> n \<in> set accept_retry_errnos | None \<Rightarrow> False)
          then bnd (h_sleep hi) (\<lambda>_. ret (Inl ()))
          else raise e)
     (\<lambda>stream. bnd (start stream) (\<lambda>_. ret (Inl ()))))"

definition listener_handler ::
    "'w hi \<Rightarrow> ('s, 'w) io \<Rightarrow> (unit, 'w) io \<Rightarrow> ('s \<Rightarrow> (unit, 'w) io) \<Rightarrow> (unit, 'w) io" where
  "listener_handler hi laccept lclose start = with_stream lclose (loop (serve_turn hi laccept start) ())"

text \<open>\<open>serve_listeners\<close>: one task per listener, joined by \<open>spawn.without_results\<close>.\<close>

definition serve_listeners ::
    "'w hi \<Rightarrow> ('s \<Rightarrow> (unit, 'w) io) \<Rightarrow> (('s, 'w) io \<times> (unit, 'w) io) list \<Rightarrow> (unit, 'w) io list" where
  "serve_listeners hi start listeners = map (\<lambda>(acc, cl). listener_handler hi acc cl start) listeners"

text \<open>What \<open>serve_listeners\<close> needs of a socket listener: its \<open>accept\<close> and its \<open>close\<close>.\<close>

definition socket_listener :: "'w os \<Rightarrow> sid \<Rightarrow> (sid, 'w) io \<times> (unit, 'w) io" where
  "socket_listener os l = (listener_accept os l, listener_close os l)"

text \<open>\<open>join\<close> stands for \<open>yield spawn.without_results(*tasks)\<close>.\<close>

definition serve_tcp ::
    "'w os \<Rightarrow> 'w hi \<Rightarrow> ((unit, 'w) io list \<Rightarrow> (unit, 'w) io) \<Rightarrow> (sid \<Rightarrow> (unit, 'w) io) \<Rightarrow>
     pyval \<Rightarrow> pyval \<Rightarrow> int option \<Rightarrow> (unit, 'w) io" where
  "serve_tcp os hi join start port host backlog =
     bnd (open_tcp_listeners os port host backlog) (\<lambda>ls.
     join (serve_listeners hi start (map (socket_listener os) ls)))"

definition serve_unix ::
    "'w os \<Rightarrow> 'w hi \<Rightarrow> ((unit, 'w) io list \<Rightarrow> (unit, 'w) io) \<Rightarrow> (sid \<Rightarrow> (unit, 'w) io) \<Rightarrow>
     pyval \<Rightarrow> int option \<Rightarrow> int option \<Rightarrow> (unit, 'w) io" where
  "serve_unix os hi join start path mode backlog =
     bnd (open_unix_listener os hi path mode backlog) (\<lambda>l.
     join (serve_listeners hi start [socket_listener os l]))"

section \<open>TLS on top\<close>

text \<open>
  \<open>open_tls_over_tcp_stream\<close>: \<open>tcp\<close> is \<open>open_tcp_stream(host, port, ...)\<close>, \<open>ctx\<close> the SSL object for the
  stream. A handshake that fails raises with the TCP stream left open.
\<close>

definition open_tls_over_tcp_stream :: "('s, 'w) io \<Rightarrow> ('s \<Rightarrow> 'w tls_os) \<Rightarrow> 'w \<Rightarrow> ((exn + 's) \<times> 'w tlsw) option" where
  "open_tls_over_tcp_stream tcp ctx v = (case tcp v of
      None \<Rightarrow> None
    | Some (Inl e, v') \<Rightarrow> Some (Inl e, tls_init v')
    | Some (Inr s, v') \<Rightarrow> bnd (tls_handshake (ctx s)) (\<lambda>_. ret s) (tls_init v'))"

text \<open>
  A TLS listener for \<open>serve_listeners\<close>: accept and close of \<open>TLSListener\<close>. The fields of an accepted stream
  are its own; the serving loop goes on with the world below them.
\<close>

definition tls_listener :: "'w os \<Rightarrow> (sid \<Rightarrow> 'w tls_os) \<Rightarrow> sid \<Rightarrow> (sid, 'w) io \<times> (unit, 'w) io" where
  "tls_listener os ctx l =
     (\<lambda>v. case tls_accept (listener_accept os l) ctx v of None \<Rightarrow> None | Some (r, w) \<Rightarrow> Some (r, inner w),
      listener_close os l)"

definition open_tls_over_tcp_listeners ::
    "'w os \<Rightarrow> (sid \<Rightarrow> 'w tls_os) \<Rightarrow> pyval \<Rightarrow> pyval \<Rightarrow> int option \<Rightarrow> (((sid, 'w) io \<times> (unit, 'w) io) list, 'w) io" where
  "open_tls_over_tcp_listeners os ctx port host backlog =
     bnd (open_tcp_listeners os port host backlog) (\<lambda>ls. ret (map (tls_listener os ctx) ls))"

definition serve_tls_over_tcp ::
    "'w os \<Rightarrow> 'w hi \<Rightarrow> (sid \<Rightarrow> 'w tls_os) \<Rightarrow> ((unit, 'w) io list \<Rightarrow> (unit, 'w) io) \<Rightarrow> (sid \<Rightarrow> (unit, 'w) io) \<Rightarrow>
     pyval \<Rightarrow> pyval \<Rightarrow> int option \<Rightarrow> (unit, 'w) io" where
  "serve_tls_over_tcp os hi ctx join start port host backlog =
     bnd (open_tls_over_tcp_listeners os ctx port host backlog) (\<lambda>ls. join (serve_listeners hi start ls))"

end
