(* ===== verification/Hilvl_Props.thy ===== *)
theory Hilvl_Props
  imports Hilvl Tls_Props
begin

text \<open>
  Properties of the high-level functions: which sockets are open after a call, which errors are
  reported, and when a serving loop ends.
\<close>

section \<open>What is left open\<close>

text \<open>\<open>opn\<close> tells the open sockets of a world.\<close>

text \<open>
  What the functions rely on: creating a socket gives a new one or raises, closing takes it away, and
  the other calls, look-ups included, come back and keep the set.
\<close>

definition sock_env :: "'w os \<Rightarrow> ('w \<Rightarrow> sid set) \<Rightarrow> bool" where
  "sock_env os opn \<longleftrightarrow>
     (\<forall>f t p w. wp (socket os f t p None) (\<lambda>s w'. s \<notin> opn w \<and> opn w' = insert s (opn w)) (\<lambda>_ w'. opn w' = opn w) w)
     \<and> (\<forall>s w. wp (sock_close os s) (\<lambda>_ w'. opn w' = opn w - {s}) (\<lambda>_ _. False) w)
     \<and> (\<forall>s l o' v n. keeps opn (s_setsockopt os s l o' v n)) \<and> (\<forall>s n. keeps opn (s_listen os s n))
     \<and> (\<forall>s a. keeps opn (bind os s a)) \<and> (\<forall>h p f t pr fl. keeps opn (getaddrinfo os h p f t pr fl))"

lemma sock_envD:
  assumes "sock_env os opn"
  shows "wp (socket os f t p None) (\<lambda>s w'. s \<notin> opn w \<and> opn w' = insert s (opn w)) (\<lambda>_ w'. opn w' = opn w) w"
    "wp (sock_close os s) (\<lambda>_ w'. opn w' = opn w - {s}) (\<lambda>_ _. False) w"
    "keeps opn (s_setsockopt os s l o' v n)" "keeps opn (s_listen os s k)" "keeps opn (bind os s a)"
    "keeps opn (getaddrinfo os h q f t pr fl)"
  using assms by (simp_all add: sock_env_def)

lemma wp_close_on_error:
  assumes "sock_env os opn" "wp body Q (\<lambda>_ w'. opn w' = insert s A) w" "s \<notin> A"
  shows "wp (close_on_error (sock_close os s) body) Q (\<lambda>_ w'. opn w' = A) w"
  unfolding close_on_error_def wp_try_except
proof (rule wp_mono[OF assms(2)])
  fix e w'
  assume "opn w' = insert s A"
  then show "(if True then wp (bnd (sock_close os s) (\<lambda>_. raise e)) Q (\<lambda>_ w'. opn w' = A) else (\<lambda>w'. opn w' = A)) w'"
    using assms(3) by (simp add: wp, intro wp_mono[OF sock_envD(2)[OF assms(1)]]) (auto simp: wp)
qed

lemma wp_setup_listener:
  assumes "sock_env os opn" "opn w = insert s A" "s \<notin> A"
  shows "wp (setup_listener os b f s a) (\<lambda>l w'. l = s \<and> opn w' = insert s A) (\<lambda>_ w'. opn w' = A) w"
  unfolding setup_listener_def
proof (rule wp_close_on_error[OF assms(1) _ assms(3)])
  have k: "keeps opn (setsockopt os s l o' (PInt n) None)" for l o' n
    using sock_envD(3)[OF assms(1)] by (simp add: setsockopt_def)
  have k2: "keeps opn (bnd (if f = AF_INET6 then setsockopt os s IPPROTO_IPV6 IPV6_V6ONLY (PInt 1) None else ret ()) (\<lambda>_.
        bnd (bind os s a) (\<lambda>_. listen os s (Some b))))"
    using k sock_envD(4,5)[OF assms(1)] by (auto simp: listen_def intro!: keeps_bnd)
  have last: "wp (listener_init os (Some s)) (\<lambda>l w'. l = s \<and> opn w' = insert s A) (\<lambda>_ w'. opn w' = insert s A) w'"
    if "opn w' = insert s A" for w'
    using that by (simp add: listener_init_def wp)
  have eq: "bnd (setsockopt os s SOL_SOCKET SO_REUSEADDR (PInt 1) None) (\<lambda>_.
        bnd (if f = AF_INET6 then setsockopt os s IPPROTO_IPV6 IPV6_V6ONLY (PInt 1) None else ret ()) (\<lambda>_.
        bnd (bind os s a) (\<lambda>_. bnd (listen os s (Some b)) (\<lambda>_. listener_init os (Some s))))) =
      bnd (bnd (setsockopt os s SOL_SOCKET SO_REUSEADDR (PInt 1) None) (\<lambda>_.
        bnd (if f = AF_INET6 then setsockopt os s IPPROTO_IPV6 IPV6_V6ONLY (PInt 1) None else ret ()) (\<lambda>_.
        bnd (bind os s a) (\<lambda>_. listen os s (Some b))))) (\<lambda>_. listener_init os (Some s))"
    by (simp add: fun_eq_iff bnd_def split: option.splits sum.splits)
  show "wp (bnd (setsockopt os s SOL_SOCKET SO_REUSEADDR (PInt 1) None) (\<lambda>_.
        bnd (if f = AF_INET6 then setsockopt os s IPPROTO_IPV6 IPV6_V6ONLY (PInt 1) None else ret ()) (\<lambda>_.
        bnd (bind os s a) (\<lambda>_. bnd (listen os s (Some b)) (\<lambda>_. listener_init os (Some s))))))
     (\<lambda>l w'. l = s \<and> opn w' = insert s A) (\<lambda>_ w'. opn w' = insert s A) w"
    unfolding eq wp_bnd[of _ "\<lambda>_. listener_init os (Some s)"]
    by (rule keeps_wp[OF keeps_bnd[OF k k2] assms(2)]) (auto intro: last)
qed

lemma wp_close_listeners:
  assumes "sock_env os opn"
  shows "wp (close_listeners os ls) (\<lambda>_ w'. opn w' = opn w - set ls) (\<lambda>_ _. False) w"
proof (induction ls arbitrary: w)
  case Nil
  then show ?case by (simp add: wp)
next
  case (Cons l ls)
  show ?case
    unfolding close_listeners.simps wp_bnd listener_close_def
    by (rule wp_mono[OF sock_envD(2)[OF assms]]) (auto intro: wp_mono[OF Cons])
qed

lemma wp_add_listener:
  assumes "sock_env os opn"
  shows "wp (add_listener os b a (ls, un))
     (\<lambda>r w'. fst r = ls \<and> opn w' = opn w \<or> (\<exists>s. fst r = ls @ [s] \<and> s \<notin> opn w \<and> opn w' = insert s (opn w)))
     (\<lambda>_ w'. opn w' = opn w) w"
proof (cases "gai_fields a")
  case None
  then show ?thesis by (simp add: add_listener_def wp)
next
  case (Some q)
  obtain f t p ad where q: "q = (f, t, p, ad)" by (cases q) auto
  have "wp (bnd (setup_listener os b f s ad) (\<lambda>l. ret (ls @ [l], un)))
     (\<lambda>r w'. fst r = ls \<and> opn w' = opn w \<or> (\<exists>s. fst r = ls @ [s] \<and> s \<notin> opn w \<and> opn w' = insert s (opn w)))
     (\<lambda>_ w'. opn w' = opn w) v" if "s \<notin> opn w \<and> opn v = insert s (opn w)" for s v
    unfolding wp_bnd wp_ret
    by (rule wp_mono[OF wp_setup_listener[OF assms, of v s "opn w"]]) (use that in auto)
  then show ?thesis
    unfolding add_listener_def Some q prod.case option.case wp_try_else
    by (intro wp_mono[OF sock_envD(1)[OF assms]]) (auto simp: wp)
qed

lemma wp_add_listeners:
  assumes "sock_env os opn" "opn w = A \<union> set ls" "distinct ls" "set ls \<inter> A = {}"
  shows "wp (add_listeners os b as (ls, un))
     (\<lambda>r w'. distinct (fst r) \<and> set (fst r) \<inter> A = {} \<and> opn w' = A \<union> set (fst r)) (\<lambda>_ w'. opn w' = A) w"
  using assms(2-4)
proof (induction as arbitrary: ls un w)
  case Nil
  then show ?case by (simp add: wp)
next
  case (Cons a as)
  have fail: "wp (bnd (close_listeners os ls) (\<lambda>_. raise e))
      (\<lambda>r w'. distinct (fst r) \<and> set (fst r) \<inter> A = {} \<and> opn w' = A \<union> set (fst r)) (\<lambda>_ w'. opn w' = A) v" if "opn v = opn w" for e v
    unfolding wp_bnd wp_raise by (rule wp_mono[OF wp_close_listeners[OF assms(1)]]) (use that Cons.prems in auto)
  show ?case
    unfolding add_listeners.simps wp_try_else fst_conv
  proof (rule wp_mono[OF wp_add_listener[OF assms(1)]])
    fix r :: "sid list \<times> exn list" and v
    assume r: "fst r = ls \<and> opn v = opn w \<or> (\<exists>s. fst r = ls @ [s] \<and> s \<notin> opn w \<and> opn v = insert s (opn w))"
    obtain ls' un' where [simp]: "r = (ls', un')" by (cases r)
    show "wp (add_listeners os b as r) (\<lambda>r w'. distinct (fst r) \<and> set (fst r) \<inter> A = {} \<and> opn w' = A \<union> set (fst r)) (\<lambda>_ w'. opn w' = A) v"
      unfolding \<open>r = (ls', un')\<close> by (rule Cons.IH) (use r Cons.prems in auto)
  qed (use fail in auto)
qed

text \<open>
  For the witnesses: an operating system whose world is the list of its open sockets, with one address
  that cannot be bound and one family that is not supported.
\<close>

definition tab_os :: "pyval list list \<Rightarrow> sid list os" where
  "tab_os gai = idle_os\<lparr>
     s_fileno := \<lambda>s. read (\<lambda>w. if s \<in> set w then int s else - 1),
     s_close := \<lambda>s. modify (filter (\<lambda>x. x \<noteq> s)),
     s_bind := \<lambda>_ a. if a = PStr ''taken'' then raise (OSError EADDRINUSE) else ret (),
     m_socket := \<lambda>f _ _ _ w. if f = 99 then Some (Inl (OSError EAFNOSUPPORT), w)
        else Some (Inr (Suc (sum_list w)), Suc (sum_list w) # w),
     m_getaddrinfo := \<lambda>_ _ _ _ _ _. ret gai\<rparr>"

lemmas tab_defs = tab_os_def idle_defs

lemma tab_env: "sock_env (tab_os gai) set"
proof -
  have fresh: "Suc (sum_list w) \<notin> set w" for w :: "nat list"
    using member_le_sum_list[of "Suc (sum_list w)" w] by auto
  have k: "keeps opn (spawn_blocking (tab_os gai) m)" if "keeps opn m" for opn and m :: "('a, sid list) io"
    using that by (simp add: spawn_blocking_def in_pool_def tab_defs keeps_def wp)
  have "keeps set (bind (tab_os gai) s a)" for s a
    unfolding bind_def
  proof (rule keeps_bnd)
    show "keeps set (sock_resolve_address (tab_os gai) s a True)"
      by (auto simp: sock_resolve_address_def resolve_address_def check_address_def tab_defs socket_consts
          intro!: keeps_bnd)
    show "keeps set (spawn_blocking (tab_os gai) (s_bind (tab_os gai) s b))" for b
      by (rule k) (auto simp: tab_defs)
  qed
  moreover have "keeps set (getaddrinfo (tab_os gai) h p f t pr fl)" for h p f t pr fl
    unfolding getaddrinfo_def by (rule k) (auto simp: tab_defs)
  moreover have "wp (socket (tab_os gai) f t p None) (\<lambda>s w'. s \<notin> set w \<and> set w' = insert s (set w)) (\<lambda>_ w'. set w' = set w) w" for f t p w
    using fresh by (simp add: socket_def from_stdlib_socket_def socket_new_def tab_defs wp_def bnd_def read_def ret_def)
  moreover have "wp (sock_close (tab_os gai) s) (\<lambda>_ w'. set w' = set w - {s}) (\<lambda>_ _. False) w" for s w
    by (auto simp: sock_close_def tab_defs wp)
  ultimately show ?thesis
    unfolding sock_env_def by (auto simp: tab_defs)
qed

text \<open>
  C22. \<open>open_tcp_listeners\<close> leaks no socket: when it returns, the sockets opened by the call are exactly
  the listeners it returns, all different; when it raises, wherever it failed, none of them is open.
\<close>

theorem open_tcp_listeners_no_leak:
  assumes "sock_env os opn"
  shows "wp (open_tcp_listeners os port host backlog)
     (\<lambda>ls w'. distinct ls \<and> set ls \<inter> opn w = {} \<and> opn w' = opn w \<union> set ls) (\<lambda>_ w'. opn w' = opn w) w"
proof -
  have "wp (bnd (add_listeners os (clamp_backlog backlog) as ([], [])) (\<lambda>(ls, un).
       if un \<noteq> [] \<and> ls = [] then raise (OSError EAFNOSUPPORT) else ret ls))
     (\<lambda>ls w'. distinct ls \<and> set ls \<inter> opn w = {} \<and> opn w' = opn w \<union> set ls) (\<lambda>_ w'. opn w' = opn w) v"
    if "opn v = opn w" for as v
    unfolding wp_bnd
    by (rule wp_mono[OF wp_add_listeners[OF assms, of v "opn w" "[]"]]) (use that in \<open>auto simp: wp split: prod.splits\<close>)
  then have "wp (bnd (getaddrinfo os host port 0 SOCK_STREAM 0 AI_PASSIVE) (\<lambda>as.
        bnd (add_listeners os (clamp_backlog backlog) as ([], [])) (\<lambda>(ls, un).
          if un \<noteq> [] \<and> ls = [] then raise (OSError EAFNOSUPPORT) else ret ls)))
     (\<lambda>ls w'. distinct ls \<and> set ls \<inter> opn w = {} \<and> opn w' = opn w \<union> set ls) (\<lambda>_ w'. opn w' = opn w) w"
    unfolding wp_bnd[of "getaddrinfo os host port 0 SOCK_STREAM 0 AI_PASSIVE"]
    by (intro keeps_wp[OF sock_envD(6)[OF assms] refl]) auto
  then show ?thesis by (simp add: open_tcp_listeners_def wp)
qed


theorem open_tcp_listeners_no_leak_witness:
  "\<exists>w'. open_tcp_listeners (tab_os [[PInt 1, PInt 1, PInt 0, PNone, PStr ''a''], [PInt 99, PInt 1, PInt 0, PNone, PStr ''b''],
        [PInt 1, PInt 1, PInt 0, PNone, PStr ''taken'']]) (PInt 80) PNone None [3] = Some (Inl (OSError EADDRINUSE), w') \<and> set w' = {3}"
proof -
  let ?os = "tab_os [[PInt 1, PInt 1, PInt 0, PNone, PStr ''a''], [PInt 99, PInt 1, PInt 0, PNone, PStr ''b''],
        [PInt 1, PInt 1, PInt 0, PNone, PStr ''taken'']]"
  have "map_option fst (open_tcp_listeners ?os (PInt 80) PNone None [3]) = Some (Inl (OSError EADDRINUSE))"
    by code_simp
  then obtain w' where r: "open_tcp_listeners ?os (PInt 80) PNone None [3] = Some (Inl (OSError EADDRINUSE), w')"
    by auto
  have "wp (open_tcp_listeners ?os (PInt 80) PNone None)
     (\<lambda>ls w'. distinct ls \<and> set ls \<inter> set [3] = {} \<and> set w' = set [3] \<union> set ls) (\<lambda>_ w'. set w' = set [3]) [3]"
    by (rule open_tcp_listeners_no_leak[OF tab_env])
  then have "set w' = {3}" using r by (simp add: wp_Inl)
  then show ?thesis using r by blast
qed

section \<open>Serving\<close>

text \<open>
  A serving loop over TLS ends with its first client whose handshake fails: \<open>TLSListener.accept\<close> raises
  \<open>ResourceBroken\<close>, which is no \<open>OSError\<close>, so the handler closes the listener and raises it.
\<close>

theorem tls_bad_client_stops_listener:
  assumes "listener_accept os l v = Some (Inr s, v')"
    and "tls_handshake (ctx s) (tls_init v') = Some (Inl (ResourceBroken c), w)"
    and "listener_close os l (inner w) = Some (Inr (), v'')"
  shows "listener_handler hi (fst (tls_listener os ctx l)) (snd (tls_listener os ctx l)) start v
    = Some (Inl (ResourceBroken c), v'')"
proof -
  have "fst (tls_listener os ctx l) v = Some (Inl (ResourceBroken c), inner w)"
    using assms(1,2) by (simp add: tls_listener_def tls_accept_def bnd_def)
  then show ?thesis
    using assms(3)
    by (simp add: listener_handler_def with_stream_def try_finally_def loop.simps serve_turn_def try_else_def is_OSError_def
        tls_listener_def)
qed

definition idle_hi :: "'w hi" where
  "idle_hi = \<lparr>h_chmod = \<lambda>_ _. ret (), h_unlink = \<lambda>_. ret (), h_sleep = ret ()\<rparr>"

theorem tls_bad_client_stops_listener_witness:
  "\<exists>v v''. listener_handler idle_hi (fst (tls_listener idle_os (\<lambda>_. plain_os True) 0)) (snd (tls_listener idle_os (\<lambda>_. plain_os True) 0))
      (\<lambda>_. ret ()) v = Some (Inl (ResourceBroken (Some (SSLError True))), v'')"
proof -
  let ?v = "(inner plain_start)\<lparr>p_peer := []\<rparr>"
  have a: "listener_accept idle_os 0 ?v = Some (Inr 1, ?v)" by code_simp
  have "map_option fst (tls_handshake (plain_os True) (tls_init ?v)) = Some (Inl (ResourceBroken (Some (SSLError True))))"
    by code_simp
  then obtain w where h: "tls_handshake (plain_os True) (tls_init ?v) = Some (Inl (ResourceBroken (Some (SSLError True))), w)" by auto
  have c: "listener_close idle_os 0 (inner w) = Some (Inr (), inner w)"
    by (simp add: listener_close_def sock_close_def idle_defs bnd_def ret_def when_true_def)
  show ?thesis
    by (intro exI, rule tls_bad_client_stops_listener[OF a h c])
qed

text \<open>
  A turn of a serving loop that is survived, and one that fails: \<open>accept\<close> raises something else than a resource error, or the pause after a resource error or starting the handler raises.
\<close>

definition accept_run :: "'w hi \<Rightarrow> ('s, 'w) io \<Rightarrow> ('s \<Rightarrow> (unit, 'w) io) \<Rightarrow> 'w \<Rightarrow> 'w \<Rightarrow> bool" where
  "accept_run hi acc start v v' \<longleftrightarrow>
     (\<exists>s u. acc v = Some (Inr s, u) \<and> start s u = Some (Inr (), v')) \<or>
     (\<exists>e n u. acc v = Some (Inl e, u) \<and> os_errno e = Some n \<and> n \<in> {24, 23, 12, 105} \<and> h_sleep hi u = Some (Inr (), v'))"

definition accept_fails :: "'w hi \<Rightarrow> ('s, 'w) io \<Rightarrow> ('s \<Rightarrow> (unit, 'w) io) \<Rightarrow> 'w \<Rightarrow> exn \<Rightarrow> 'w \<Rightarrow> bool" where
  "accept_fails hi acc start v e v' \<longleftrightarrow>
     (\<exists>s u. acc v = Some (Inr s, u) \<and> start s u = Some (Inl e, v')) \<or>
     acc v = Some (Inl e, v') \<and> (\<forall>n. os_errno e = Some n \<longrightarrow> n \<notin> {24, 23, 12, 105}) \<or>
     (\<exists>x n u. acc v = Some (Inl x, u) \<and> os_errno x = Some n \<and> n \<in> {24, 23, 12, 105} \<and> h_sleep hi u = Some (Inl e, v'))"

lemma serve_turn_run: "accept_run hi acc start v v' \<Longrightarrow> serve_turn hi acc start () v = Some (Inr (Inl ()), v')"
  by (auto simp: accept_run_def serve_turn_def try_else_def bnd_def ret_def is_OSError_def accept_retry_errnos_def)

lemma serve_turn_fails: "accept_fails hi acc start v e v' \<Longrightarrow> serve_turn hi acc start () v = Some (Inl e, v')"
  by (auto simp: accept_fails_def serve_turn_def try_else_def bnd_def raise_def is_OSError_def accept_retry_errnos_def split: option.splits)

lemma serve_turn_cases: "wlp (serve_turn hi acc start ()) (\<lambda>r v'. r = Inl () \<and> accept_run hi acc start v v') (\<lambda>e v'. accept_fails hi acc start v e v') v"
  by (auto simp: wlp_def serve_turn_def try_else_def bnd_def ret_def raise_def is_OSError_def accept_retry_errnos_def accept_run_def accept_fails_def
      split: option.splits sum.splits if_splits)

lemma serving_loop_run:
  assumes "(accept_run hi acc start)\<^sup>*\<^sup>* v u" and "accept_fails hi acc start u e u'"
  shows "loop (serve_turn hi acc start) () v = Some (Inl e, u')"
  using assms
proof (induction rule: converse_rtranclp_induct)
  case base
  then show ?case by (subst loop.simps) (simp add: serve_turn_fails)
next
  case (step v w)
  then show ?case by (subst loop.simps) (simp add: serve_turn_run)
qed

lemma serving_loop_ends:
  "wlp (loop (serve_turn hi acc start) ()) (\<lambda>_ _. False) (\<lambda>e u'. \<exists>u. (accept_run hi acc start)\<^sup>*\<^sup>* v u \<and> accept_fails hi acc start u e u') v"
proof (rule wlp_loop[where I = "\<lambda>_. (accept_run hi acc start)\<^sup>*\<^sup>* v"])
  fix s w
  assume "(accept_run hi acc start)\<^sup>*\<^sup>* v w"
  then show "wlp (serve_turn hi acc start s) (turn (\<lambda>_. (accept_run hi acc start)\<^sup>*\<^sup>* v) (\<lambda>_ _. False))
      (\<lambda>e u'. \<exists>u. (accept_run hi acc start)\<^sup>*\<^sup>* v u \<and> accept_fails hi acc start u e u') w"
    by (cases s, simp only:, intro wlp_mono[OF serve_turn_cases]) (auto intro: rtranclp.rtrancl_into_rtrancl)
qed simp

lemma serving_loop_iff:
  "loop (serve_turn hi acc start) () v = Some (r, u') \<longleftrightarrow> (\<exists>u e. (accept_run hi acc start)\<^sup>*\<^sup>* v u \<and> accept_fails hi acc start u e u' \<and> r = Inl e)"
  using serving_loop_ends[of hi acc start v] serving_loop_run[of hi acc start v] by (cases r) (auto simp: wlp_def)

text \<open>
  C37. How a serving loop ends. The task of a listener goes on over accepted streams, each handed to the handler before the next is accepted, and over the errors a busy host runs into (\<open>EMFILE\<close>, \<open>ENFILE\<close>, \<open>ENOMEM\<close>,
  \<open>ENOBUFS\<close>), with a pause after each. It never returns normally: it ends exactly when a turn fails, by another error of \<open>accept\<close>, of the pause or of starting the handler; then the listener is closed, and that
  error is raised, or the one of closing it.
\<close>

theorem serving_ends_closed:
  "listener_handler hi acc lclose start v = Some (r, v') \<longleftrightarrow>
     (\<exists>u e u' c. (accept_run hi acc start)\<^sup>*\<^sup>* v u \<and> accept_fails hi acc start u e u' \<and> lclose u' = Some (c, v') \<and>
        r = Inl (case c of Inr _ \<Rightarrow> e | Inl x \<Rightarrow> x))"
proof -
  have "listener_handler hi acc lclose start v = Some (r, v') \<longleftrightarrow>
      (\<exists>q u' c. loop (serve_turn hi acc start) () v = Some (q, u') \<and> lclose u' = Some (c, v') \<and> r = (case c of Inr _ \<Rightarrow> q | Inl x \<Rightarrow> Inl x))"
    by (auto simp: listener_handler_def with_stream_def try_finally_def split: option.splits sum.splits)
  then show ?thesis unfolding serving_loop_iff by (auto split: sum.splits)
qed

theorem serving_ends_closed_witness:
  "listener_handler (idle_hi :: nat list hi)
     (\<lambda>w. case w of [] \<Rightarrow> Some (Inl (OSError 9), []) | x # xs \<Rightarrow> if x = 0 then Some (Inl (OSError 24), xs) else Some (Inr x, xs))
     (modify (\<lambda>w. 99 # w)) (\<lambda>_. ret ()) [4, 0, 5] = Some (Inl (OSError 9), [99])"
proof -
  let ?acc = "\<lambda>w. case w of [] \<Rightarrow> Some (Inl (OSError 9), []) | x # xs \<Rightarrow> if x = 0 then Some (Inl (OSError 24), xs) else Some (Inr x, xs :: nat list)"
  have run: "accept_run idle_hi ?acc (\<lambda>_. ret ()) (x # xs) xs" for x :: nat and xs
    by (cases "x = 0") (auto simp: accept_run_def idle_hi_def ret_def)
  have "(accept_run idle_hi ?acc (\<lambda>_. ret ()))\<^sup>*\<^sup>* [4, 0, 5] []"
    using run by (meson converse_rtranclp_into_rtranclp rtranclp.rtrancl_refl)
  moreover have "accept_fails idle_hi ?acc (\<lambda>_. ret ()) [] (OSError 9) []" by (simp add: accept_fails_def)
  ultimately show ?thesis
    unfolding serving_ends_closed by (intro exI[of _ "[]"] exI[of _ "OSError 9"] exI[of _ "Inr ()"]) (simp add: modify_def)
qed

section \<open>Unix sockets and clean-up\<close>

text \<open>
  Binding a Unix socket with a mode: the mode is applied only after a successful bind, and when it cannot
  be applied the path is removed again, failures of the removal aside, and the error of the mode
  change is the one raised.
\<close>

theorem unix_bind_cleans_up:
  assumes "s_bind os s path w = Some (Inr (), u)" and "h_chmod hi path m u = Some (Inl e, v)"
    and "h_unlink hi path v = Some (r, v')" and "r = Inr () \<or> (\<exists>x. r = Inl x \<and> is_OSError x)"
  shows "unix_bind os hi s path (Some m) w = Some (Inl e, v')"
  using assms
  by (auto simp: unix_bind_def try_except_def try_else_def bnd_def suppress_def raise_def ret_def)

theorem unix_bind_cleans_up_witness:
  "unix_bind idle_os (idle_hi\<lparr>h_chmod := \<lambda>_ _. raise (OSError 1), h_unlink := \<lambda>_. modify Suc\<rparr>) 0 (PStr ''/p'') (Some 448) 7
     = Some (Inl (OSError 1), 8)"
  by (rule unix_bind_cleans_up[where u = 7 and v = 7 and r = "Inr ()"])
     (simp_all add: idle_os_def ret_def raise_def modify_def)

fun close_failures :: "(sid \<Rightarrow> exn option) \<Rightarrow> sid list \<Rightarrow> exn list" where
  "close_failures f [] = []"
| "close_failures f (s # ss) = (case f s of None \<Rightarrow> [] | Some e \<Rightarrow> [e]) @ close_failures f ss"

lemma close_each_all:
  assumes "\<And>s w. sock_close os s w = Some (case f s of None \<Rightarrow> Inr () | Some e \<Rightarrow> Inl e, cl s w)"
  shows "close_each os ss errs w = Some (Inr (errs @ close_failures f ss), fold cl ss w)"
proof (induction ss arbitrary: errs w)
  case (Cons s ss)
  then show ?case by (cases "f s") (simp_all add: try_else_def assms)
qed (simp add: ret_def)

text \<open>
  \<open>_close_all_sockets\<close> closes every socket of its set, also when closing some of them fails, and then raises what
  failed: one error as it is, several as a group; with none, the outcome of the block stands.
\<close>

theorem close_all_sockets_closes_all:
  assumes "\<And>s w. sock_close os s w = Some (case f s of None \<Rightarrow> Inr () | Some e \<Rightarrow> Inl e, cl s w)"
    and "body w = Some (r, u)"
  shows "close_all_sockets os socks body w = Some
     (case close_failures f (socks u) of [] \<Rightarrow> r | [e] \<Rightarrow> Inl e | es \<Rightarrow> Inl (base_group '''' es), fold cl (socks u) u)"
  using assms(2) close_each_all[OF assms(1), of "socks u" "[]" u]
  by (auto simp: close_all_sockets_def try_finally_def bnd_def read_def raise_all_def raise_def ret_def split: list.splits)

theorem close_all_sockets_closes_all_witness:
  "close_all_sockets (idle_os\<lparr>s_close := \<lambda>s w. Some (if s = 2 then Inl (OSError 5) else Inr (), s # w)\<rparr>) (\<lambda>_. [1, 2, 3]) (ret True) []
     = Some (Inl (OSError 5), [3, 2, 1])"
proof -
  let ?os = "idle_os\<lparr>s_close := \<lambda>s w. Some (if s = 2 then Inl (OSError 5) else Inr (), s # w)\<rparr>"
  have "close_all_sockets ?os (\<lambda>_. [1, 2, 3]) (ret True) [] = Some
     (case close_failures (\<lambda>s. if s = 2 then Some (OSError 5) else None) [1, 2, 3] of [] \<Rightarrow> Inr True | [e] \<Rightarrow> Inl e
        | es \<Rightarrow> Inl (base_group '''' es), fold (#) [1, 2, 3] [])"
    by (rule close_all_sockets_closes_all)
       (simp_all add: sock_close_def idle_defs bnd_def ret_def when_true_def)
  then show ?thesis by simp
qed

end
