(* ===== verification/Happy_Eyeballs.thy ===== *)
theory Happy_Eyeballs
  imports Prelude
begin

text \<open>
  \<open>open_tcp_stream\<close> of \<open>src/tonio/_net/_hilvl.py\<close>: connection attempts to the addresses of a host, started one after
  the other, each as soon as its predecessor failed or a delay passed, in a scope that the first
  success cancels. The function and its attempts are tasks that run in parallel, so they are a step
  relation; one step is what a task does between two points where another thread can get in.

  The scope is the one of \<open>src/tonio/_scope.py\<close> and \<open>src/src/scope.rs\<close>: \<open>cancel\<close> only raises a flag; \<open>_exit\<close>
  looks at the flag once, and when it is up sets the events of the unfinished children and aborts them, which a
  child notices at its next suspension; the join waits for the events.
\<close>

type_synonym sock = nat

text \<open>
  An attempt: not spawned; spawned, about to create its socket; connecting; connected and running on,
  about to declare its socket the winner; about to cancel the scope; finished, or failed with an
  \<open>OSError\<close>, or ended by another exception (a \<open>UnicodeError\<close> of \<open>bind\<close>, say), which the attempt does not catch
  and the scope drops, or unwound by the abort.
\<close>

datatype apc = Unborn | Born | Connecting sock | Connected sock | Declared sock | Finished | Failed | Crashed | Unwound

text \<open>
  The function: in the \<open>for\<close> loop; waiting for the failure or the delay; joining the scope; looking for the
  winner; past \<open>SocketStream(winning_socket)\<close>; returned this stream's socket; raised; failed its assertion.
\<close>

datatype mpc = Spawning | Delaying | Joining | Checking | Streaming sock | Returned sock | Raised | Assertion_failed

record he =
  mpc :: mpc
  spawned :: nat
  att :: "nat \<Rightarrow> apc"
  event :: "nat \<Rightarrow> bool"
  aborted :: "nat \<Rightarrow> bool"
  winner :: "sock option"
  cancelled :: bool
  errs :: nat
  next_sock :: sock
  open_sockets :: "sock set"
  live_socks :: "sock set"
  connected :: "sock set"

definition he_init :: "he \<Rightarrow> bool" where
  "he_init s \<longleftrightarrow> mpc s = Spawning \<and> spawned s = 0 \<and> (\<forall>i. att s i = Unborn \<and> \<not> event s i \<and> \<not> aborted s i)
     \<and> winner s = None \<and> \<not> cancelled s \<and> errs s = 0 \<and> open_sockets s = {} \<and> live_socks s = {} \<and> connected s = {}"

text \<open>
  \<open>_exit\<close> and the join, for \<open>n\<close> targets. \<open>finally\<close> of \<open>_close_all_sockets\<close> closes what is in \<open>open_sockets\<close>;
  \<open>live_socks\<close> are the sockets not closed yet, \<open>connected\<close> those whose \<open>connect\<close> succeeded.
\<close>

definition running :: "apc \<Rightarrow> bool" where
  "running a \<longleftrightarrow> a \<noteq> Finished \<and> a \<noteq> Failed \<and> a \<noteq> Crashed \<and> a \<noteq> Unwound"

definition scope_exit :: "nat \<Rightarrow> he \<Rightarrow> he" where
  "scope_exit n s = s\<lparr>mpc := Joining,
     event := (\<lambda>i. event s i \<or> cancelled s \<and> i < n), aborted := (\<lambda>i. cancelled s \<and> i < n \<and> \<not> event s i)\<rparr>"

inductive he_step :: "nat \<Rightarrow> he \<Rightarrow> he \<Rightarrow> bool" for n :: nat where
  spawn: "mpc s = Spawning \<Longrightarrow> spawned s < n \<Longrightarrow>
     he_step n s (s\<lparr>mpc := Delaying, spawned := Suc (spawned s), att := (att s)(spawned s := Born)\<rparr>)"
| delayed: "mpc s = Delaying \<Longrightarrow> he_step n s (s\<lparr>mpc := Spawning\<rparr>)"
| scope_exit: "mpc s = Spawning \<Longrightarrow> spawned s = n \<Longrightarrow> he_step n s (scope_exit n s)"
| joined: "mpc s = Joining \<Longrightarrow> (\<forall>i<n. event s i) \<Longrightarrow> he_step n s (s\<lparr>mpc := Checking\<rparr>)"
| lost: "mpc s = Checking \<Longrightarrow> winner s = None \<Longrightarrow>
     he_step n s (s\<lparr>mpc := if errs s = n then Raised else Assertion_failed,
       live_socks := live_socks s - open_sockets s, open_sockets := {}\<rparr>)"
| won: "mpc s = Checking \<Longrightarrow> winner s = Some x \<Longrightarrow> he_step n s (s\<lparr>mpc := Streaming x\<rparr>)"
| leave: "mpc s = Streaming x \<Longrightarrow> winner s = Some y \<Longrightarrow>
     he_step n s (s\<lparr>mpc := Returned x, live_socks := live_socks s - (open_sockets s - {y}), open_sockets := {y}\<rparr>)"
| socket_ok: "att s i = Born \<Longrightarrow> he_step n s
     (s\<lparr>att := (att s)(i := Connecting (next_sock s)), next_sock := Suc (next_sock s),
        open_sockets := insert (next_sock s) (open_sockets s), live_socks := insert (next_sock s) (live_socks s)\<rparr>)"
| connect_ok: "att s i = Connecting x \<Longrightarrow> x \<in> live_socks s \<Longrightarrow> he_step n s
     (s\<lparr>att := (att s)(i := Connected x), connected := insert x (connected s)\<rparr>)"
| fail: "att s i = Born \<or> att s i = Connecting x \<Longrightarrow> he_step n s
     (s\<lparr>att := (att s)(i := Failed), errs := Suc (errs s), event := (event s)(i := True)\<rparr>)"
| crash: "att s i = Born \<or> att s i = Connecting x \<Longrightarrow> he_step n s (s\<lparr>att := (att s)(i := Crashed), event := (event s)(i := True)\<rparr>)"
| declare_winner: "att s i = Connected x \<Longrightarrow> he_step n s (s\<lparr>att := (att s)(i := Declared x), winner := Some x\<rparr>)"
| cancel: "att s i = Declared x \<Longrightarrow> he_step n s
     (s\<lparr>att := (att s)(i := Finished), cancelled := True, event := (event s)(i := True)\<rparr>)"
| unwind: "att s i = Born \<or> att s i = Connecting x \<Longrightarrow> aborted s i \<Longrightarrow> he_step n s
     (s\<lparr>att := (att s)(i := Unwound), event := (event s)(i := True)\<rparr>)"

definition he_reach :: "nat \<Rightarrow> he \<Rightarrow> bool" where
  "he_reach n = reach he_init (he_step n)"

section \<open>The invariant\<close>

text \<open>
  Of one attempt: a connected socket is on record, an attempt that declared its socket left a winner; without a
  winner nothing is aborted, and an event that is set belongs to an attempt that failed or crashed.
\<close>

definition att_ok :: "sock option \<Rightarrow> sock set \<Rightarrow> bool \<Rightarrow> bool \<Rightarrow> apc \<Rightarrow> bool" where
  "att_ok w k ev ab a \<longleftrightarrow> (\<forall>x. a = Connected x \<longrightarrow> x \<in> k)
     \<and> ((\<exists>x. a = Declared x) \<or> a = Finished \<longrightarrow> w \<noteq> None)
     \<and> (w = None \<longrightarrow> \<not> ab \<and> a \<noteq> Unwound \<and> (ev \<longrightarrow> a = Failed \<or> a = Crashed))"

lemma att_ok_mono:
  "att_ok w k ev ab a \<Longrightarrow> k \<subseteq> k' \<Longrightarrow> (w \<noteq> None \<Longrightarrow> w' \<noteq> None) \<Longrightarrow> (w' = None \<Longrightarrow> ev' = ev \<and> ab' = ab) \<Longrightarrow> att_ok w' k' ev' ab' a"
  by (auto simp: att_ok_def)

definition atts_ok :: "he \<Rightarrow> bool" where
  "atts_ok s \<longleftrightarrow> (\<forall>i. att_ok (winner s) (connected s) (event s i) (aborted s i) (att s i))"

text \<open>Of the attempts together: those of the targets spawned so far, every failure counted once.\<close>

definition counted :: "he \<Rightarrow> bool" where
  "counted s \<longleftrightarrow> (\<forall>i. spawned s \<le> i \<longrightarrow> att s i = Unborn) \<and> errs s = card {i. att s i = Failed} \<and> finite {i. att s i = Failed}"

text \<open>Of the sockets: until the block is left all of them are open and in the set.\<close>

definition ended_all :: "nat \<Rightarrow> he \<Rightarrow> bool" where
  "ended_all n s \<longleftrightarrow> (\<forall>i. if i < n then att s i = Failed \<or> att s i = Crashed else att s i = Unborn) \<and> live_socks s = {}"

definition inside :: "he \<Rightarrow> bool" where
  "inside s \<longleftrightarrow> connected s \<subseteq> live_socks s \<and> live_socks s \<subseteq> open_sockets s"

definition main_ok :: "nat \<Rightarrow> he \<Rightarrow> bool" where
  "main_ok n s \<longleftrightarrow> spawned s \<le> n \<and> (\<forall>x. winner s = Some x \<longrightarrow> x \<in> connected s) \<and> (cancelled s \<longrightarrow> winner s \<noteq> None)
     \<and> (case mpc s of
          Joining \<Rightarrow> spawned s = n \<and> inside s
        | Checking \<Rightarrow> spawned s = n \<and> (\<forall>i<n. event s i) \<and> inside s
        | Streaming x \<Rightarrow> x \<in> connected s \<and> inside s
        | Returned x \<Rightarrow> x \<in> connected s \<and> (x \<in> live_socks s \<or> (\<exists>y \<in> connected s. y \<noteq> x))
        | Raised \<Rightarrow> errs s = n \<and> ended_all n s \<and> (\<forall>i<n. att s i = Failed)
        | Assertion_failed \<Rightarrow> ended_all n s \<and> (\<exists>i<n. att s i = Crashed)
        | _ \<Rightarrow> inside s)"

definition he_inv :: "nat \<Rightarrow> he \<Rightarrow> bool" where
  "he_inv n s \<longleftrightarrow> atts_ok s \<and> counted s \<and> main_ok n s"

lemma he_inv_init: "he_init s \<Longrightarrow> he_inv n s"
  by (simp add: he_init_def he_inv_def atts_ok_def att_ok_def counted_def main_ok_def inside_def)

text \<open>A step of an attempt.\<close>

lemma atts_ok_upd:
  assumes "atts_ok s" and "att_ok (winner t) (connected t) (event t i) (aborted t i) a" and "att t = (att s)(i := a)"
    and "connected s \<subseteq> connected t" "winner s \<noteq> None \<Longrightarrow> winner t \<noteq> None"
    and "\<And>j. j \<noteq> i \<Longrightarrow> event t j = event s j" "aborted t = aborted s"
  shows "atts_ok t"
  unfolding atts_ok_def
proof
  fix j
  show "att_ok (winner t) (connected t) (event t j) (aborted t j) (att t j)"
  proof (cases "j = i")
    case False
    have "att_ok (winner s) (connected s) (event s j) (aborted s j) (att s j)" using assms(1) by (simp add: atts_ok_def)
    then show ?thesis using False assms(3-7) by (auto elim!: att_ok_mono)
  qed (use assms(2,3) in simp)
qed

lemma counted_upd:
  assumes "counted s" "att t = (att s)(i := a)" "spawned t = spawned s" "att s i \<noteq> Unborn" "att s i \<noteq> Failed"
    and "errs t = (if a = Failed then Suc (errs s) else errs s)"
  shows "counted t"
proof -
  have "{j. att t j = Failed} = (if a = Failed then insert i {j. att s j = Failed} else {j. att s j = Failed})"
    using assms(2,5) by auto
  moreover have "i \<notin> {j. att s j = Failed}" using assms(5) by simp
  ultimately show ?thesis using assms by (auto simp: counted_def)
qed

text \<open>What a step of an attempt may do to the sockets.\<close>

definition sockets_grow :: "he \<Rightarrow> he \<Rightarrow> bool" where
  "sockets_grow s t \<longleftrightarrow> connected s \<subseteq> connected t \<and> connected t \<subseteq> connected s \<union> live_socks s \<and> live_socks s \<subseteq> live_socks t \<and>
     open_sockets s \<subseteq> open_sockets t \<and> live_socks t - live_socks s \<subseteq> open_sockets t"

lemma inside_grow: "sockets_grow s t \<Longrightarrow> inside s \<Longrightarrow> inside t"
  unfolding sockets_grow_def inside_def by blast

lemma main_ok_upd:
  assumes "main_ok n s" "running (att s i)" "att s i \<noteq> Unborn"
    and "mpc t = mpc s" "spawned t = spawned s" "sockets_grow s t"
    and "\<And>x. winner t = Some x \<Longrightarrow> winner s = Some x \<or> x \<in> connected t"
    and "cancelled t \<Longrightarrow> winner t \<noteq> None" "\<And>j. event s j \<Longrightarrow> event t j"
  shows "main_ok n t"
proof -
  have "\<not> ended_all n s" using assms(2,3) by (auto simp: ended_all_def running_def split: if_splits)
  then have "mpc s \<noteq> Raised" "mpc s \<noteq> Assertion_failed" using assms(1) by (auto simp: main_ok_def)
  moreover have g: "connected s \<subseteq> connected t" "live_socks s \<subseteq> live_socks t" using assms(6) by (auto simp: sockets_grow_def)
  moreover have w: "\<forall>x. winner t = Some x \<longrightarrow> x \<in> connected t" using assms(1,7) g(1) by (auto simp: main_ok_def)
  ultimately show ?thesis
    using assms(1,4,5,9) inside_grow[OF assms(6)] assms(8) by (cases "mpc s") (simp_all add: main_ok_def, blast+)
qed


lemma he_inv_upd:
  assumes "he_inv n s" "running (att s i)" "att s i \<noteq> Unborn" "att t = (att s)(i := a)"
    and "att_ok (winner t) (connected t) (event t i) (aborted t i) a"
    and "mpc t = mpc s" "spawned t = spawned s" "sockets_grow s t" "aborted t = aborted s"
    and "winner s \<noteq> None \<Longrightarrow> winner t \<noteq> None" "\<And>x. winner t = Some x \<Longrightarrow> winner s = Some x \<or> x \<in> connected t"
    and "cancelled t \<Longrightarrow> winner t \<noteq> None" "\<And>j. j \<noteq> i \<Longrightarrow> event t j = event s j" "event s i \<Longrightarrow> event t i"
    and "errs t = (if a = Failed then Suc (errs s) else errs s)"
  shows "he_inv n t"
proof -
  have "event t j" if "event s j" for j using assms(13,14) that by (cases "j = i") auto
  then have "main_ok n t" using assms by (intro main_ok_upd[of n s i t]) (auto simp: he_inv_def)
  moreover have "atts_ok t" using assms by (intro atts_ok_upd[of s t i a]) (auto simp: he_inv_def sockets_grow_def)
  moreover have "counted t" using assms by (intro counted_upd[of s t i a]) (auto simp: he_inv_def running_def)
  ultimately show ?thesis by (simp add: he_inv_def)
qed

lemma he_inv_att: "he_inv n s \<Longrightarrow> att_ok (winner s) (connected s) (event s i) (aborted s i) (att s i)"
  by (simp add: he_inv_def atts_ok_def)

lemma he_inv_cancelled: "he_inv n s \<Longrightarrow> cancelled s \<Longrightarrow> winner s \<noteq> None"
  by (simp add: he_inv_def main_ok_def)

lemma he_inv_main:
  assumes "he_inv n s" "att t = att s" "event t = event s" "aborted t = aborted s" "winner t = winner s"
    "connected t = connected s" "spawned t = spawned s" "errs t = errs s" "main_ok n t"
  shows "he_inv n t"
  using assms by (simp add: he_inv_def atts_ok_def counted_def)

lemma card_below: "card {i. i < n \<and> P i} = n \<longleftrightarrow> (\<forall>i<n. P i)"
proof
  assume "card {i. i < n \<and> P i} = n"
  then have "{i. i < n \<and> P i} = {..<n}" by (intro card_subset_eq) auto
  then show "\<forall>i<n. P i" by blast
next
  assume "\<forall>i<n. P i"
  then have "{i. i < n \<and> P i} = {..<n}" by blast
  then show "card {i. i < n \<and> P i} = n" by simp
qed

lemma he_inv_step:
  assumes "he_step n s t" "he_inv n s"
  shows "he_inv n t"
  using assms(1)
proof (cases rule: he_step.cases)
  case spawn
  have u: "att s (spawned s) = Unborn" using assms(2) by (simp add: he_inv_def counted_def)
  have "atts_ok t" using spawn assms(2) u he_inv_att[OF assms(2), of "spawned s"]
    by (intro atts_ok_upd[of s t "spawned s" Born]) (auto simp: he_inv_def att_ok_def)
  moreover have "{i. att t i = Failed} = {i. att s i = Failed}" using spawn u by auto
  then have "counted t" using spawn assms(2) by (auto simp: he_inv_def counted_def)
  moreover have "main_ok n t" using spawn assms(2) by (simp add: he_inv_def main_ok_def inside_def)
  ultimately show ?thesis by (simp add: he_inv_def)
next
  case scope_exit
  have "att_ok (winner s) (connected s) (event t i) (aborted t i) (att s i)" for i
    using he_inv_att[OF assms(2), of i] he_inv_cancelled[OF assms(2)] scope_exit
    by (auto simp: scope_exit_def att_ok_def)
  then show ?thesis
    using scope_exit assms(2) by (simp add: he_inv_def atts_ok_def counted_def main_ok_def scope_exit_def inside_def)
next
  case lost
  then have e: "if i < n then att s i = Failed \<or> att s i = Crashed else att s i = Unborn" for i
    using assms(2) he_inv_att[OF assms(2), of i] by (auto simp: he_inv_def counted_def main_ok_def att_ok_def)
  then have "{i. att s i = Failed} = {i. i < n \<and> att s i = Failed}" by (metis apc.distinct(11))
  then have c: "errs s = card {i. i < n \<and> att s i = Failed}" using assms(2) by (simp add: he_inv_def counted_def)
  have "errs s = n \<longleftrightarrow> (\<forall>i<n. att s i = Failed)" unfolding c by (rule card_below)
  moreover from lost assms(2) have "live_socks s - open_sockets s = {}" by (auto simp: he_inv_def main_ok_def inside_def)
  moreover have "(\<forall>i<n. att s i = Failed) \<or> (\<exists>i<n. att s i = Crashed)" using e by metis
  ultimately show ?thesis
    using lost assms(2) e by (intro he_inv_main[OF assms(2)]) (auto simp: he_inv_def main_ok_def ended_all_def)
next
  case (leave x y)
  then have "x \<in> live_socks t \<or> (\<exists>z \<in> connected t. z \<noteq> x)" using assms(2) by (cases "x = y") (auto simp: he_inv_def main_ok_def inside_def)
  then show ?thesis using leave assms(2) by (intro he_inv_main[OF assms(2)]) (auto simp: he_inv_def main_ok_def)
next
  case (fail i x)
  then show ?thesis
    using assms(2) by (intro he_inv_upd[OF assms(2), of i t Failed]) (auto simp: running_def sockets_grow_def att_ok_def dest: he_inv_cancelled he_inv_att[of n s i])
next
  case (crash i x)
  then show ?thesis
    using assms(2) by (intro he_inv_upd[OF assms(2), of i t Crashed]) (auto simp: running_def sockets_grow_def att_ok_def dest: he_inv_cancelled he_inv_att[of n s i])
next
  case (unwind i x)
  then show ?thesis
    using assms(2) he_inv_att[OF assms(2), of i]
    by (intro he_inv_upd[OF assms(2), of i t Unwound]) (auto simp: running_def sockets_grow_def att_ok_def dest: he_inv_cancelled)
next
  case (socket_ok i)
  then show ?thesis
    using assms(2) he_inv_att[OF assms(2), of i]
    by (intro he_inv_upd[OF assms(2), of i t "Connecting (next_sock s)"]) (auto simp: running_def sockets_grow_def att_ok_def dest: he_inv_cancelled)
next
  case (connect_ok i x)
  then show ?thesis
    using assms(2) he_inv_att[OF assms(2), of i]
    by (intro he_inv_upd[OF assms(2), of i t "Connected x"]) (auto simp: running_def sockets_grow_def att_ok_def dest: he_inv_cancelled)
next
  case (declare_winner i x)
  then show ?thesis
    using assms(2) he_inv_att[OF assms(2), of i]
    by (intro he_inv_upd[OF assms(2), of i t "Declared x"]) (auto simp: running_def sockets_grow_def att_ok_def dest: he_inv_cancelled)
next
  case (cancel i x)
  then show ?thesis
    using assms(2) he_inv_att[OF assms(2), of i]
    by (intro he_inv_upd[OF assms(2), of i t Finished]) (auto simp: running_def sockets_grow_def att_ok_def dest: he_inv_cancelled)
qed (use assms(2) in \<open>auto simp: he_inv_def main_ok_def atts_ok_def counted_def inside_def\<close>)

interpretation eyeballs: step_system he_init "he_step n" "he_inv n" for n
  by unfold_locales (auto intro: he_inv_init he_inv_step)


section \<open>Properties\<close>

text \<open>Runs of the machine, for the witnesses and for the race below.\<close>

lemma he_next: "he_reach n s \<Longrightarrow> he_step n s t \<Longrightarrow> he_reach n t"
  unfolding he_reach_def by (rule reach.next_state)

definition he_start :: he where
  "he_start = \<lparr>mpc = Spawning, spawned = 0, att = \<lambda>_. Unborn, event = \<lambda>_. False, aborted = \<lambda>_. False, winner = None,
     cancelled = False, errs = 0, next_sock = 0, open_sockets = {}, live_socks = {}, connected = {}\<rparr>"

lemma he_start_reach: "he_reach n he_start"
  unfolding he_reach_def by (rule reach.start) (simp add: he_init_def he_start_def)

text \<open>
  C23. What \<open>open_tcp_stream\<close> gives, for every interleaving of the attempts. A stream it returns is over a socket whose connection was made, and which is open unless a second attempt connected too (see
  \<open>open_tcp_stream_race\<close>). It raises its \<open>OSError\<close> only when the attempt of every target failed with an \<open>OSError\<close>. Its assertion fails only when some attempt was ended by an exception of another
  class (see \<open>open_tcp_stream_asserts\<close>). In the last two cases no socket is left open.
\<close>

theorem open_tcp_stream_result:
  assumes "he_reach n s"
  shows "(\<forall>x. mpc s = Returned x \<longrightarrow> x \<in> connected s \<and> (x \<in> live_socks s \<or> (\<exists>y \<in> connected s. y \<noteq> x))) \<and>
    (mpc s = Raised \<longrightarrow> errs s = n \<and> {i. att s i = Failed} = {..<n} \<and> live_socks s = {}) \<and>
    (mpc s = Assertion_failed \<longrightarrow> (\<exists>i<n. att s i = Crashed) \<and> live_socks s = {})"
proof -
  have inv: "main_ok n s" using eyeballs.reach_inv assms by (simp add: he_reach_def he_inv_def)
  have "{i. att s i = Failed} = {..<n}" if "mpc s = Raised"
    using inv that by (auto simp: main_ok_def ended_all_def split: if_splits)
  then show ?thesis using inv by (auto simp: main_ok_def ended_all_def)
qed

text \<open>A target that connects.\<close>

definition he_won :: he where
  "he_won = \<lparr>mpc = Returned 0, spawned = 1, att = (\<lambda>_. Unborn)(0 := Finished), event = (\<lambda>_. False)(0 := True), aborted = \<lambda>_. False, winner = Some 0,
     cancelled = True, errs = 0, next_sock = 1, open_sockets = {0}, live_socks = {0}, connected = {0}\<rparr>"

lemma he_won_reach: "he_reach 1 he_won"
proof -
  let ?a = "he_start\<lparr>mpc := Delaying, spawned := 1, att := (\<lambda>_. Unborn)(0 := Born)\<rparr>"
  let ?b = "?a\<lparr>att := (\<lambda>_. Unborn)(0 := Connecting 0), next_sock := 1, open_sockets := {0}, live_socks := {0}\<rparr>"
  let ?c = "?b\<lparr>att := (\<lambda>_. Unborn)(0 := Connected 0), connected := {0}\<rparr>"
  let ?d = "?c\<lparr>att := (\<lambda>_. Unborn)(0 := Declared 0), winner := Some 0\<rparr>"
  let ?e = "?d\<lparr>att := (\<lambda>_. Unborn)(0 := Finished), cancelled := True, event := (\<lambda>_. False)(0 := True)\<rparr>"
  let ?g = "scope_exit 1 (?e\<lparr>mpc := Spawning\<rparr>)"
  have g: "?g = ?e\<lparr>mpc := Joining\<rparr>" by (auto simp: scope_exit_def he_start_def fun_eq_iff)
  have st: "he_step 1 he_start ?a" "he_step 1 ?a ?b" "he_step 1 ?b ?c" "he_step 1 ?c ?d" "he_step 1 ?d ?e" "he_step 1 ?e (?e\<lparr>mpc := Spawning\<rparr>)" "he_step 1 (?e\<lparr>mpc := Spawning\<rparr>) ?g"
    "he_step 1 (?e\<lparr>mpc := Joining\<rparr>) (?e\<lparr>mpc := Checking\<rparr>)" "he_step 1 (?e\<lparr>mpc := Checking\<rparr>) (?e\<lparr>mpc := Streaming 0\<rparr>)" "he_step 1 (?e\<lparr>mpc := Streaming 0\<rparr>) he_won"
    using he_step.spawn[of he_start 1] he_step.socket_ok[of ?a 0 1] he_step.connect_ok[of ?b 0 0 1] he_step.declare_winner[of ?c 0 0 1] he_step.cancel[of ?d 0 0 1]
      he_step.delayed[of ?e 1] he_step.scope_exit[of "?e\<lparr>mpc := Spawning\<rparr>" 1] he_step.joined[of "?e\<lparr>mpc := Joining\<rparr>" 1] he_step.won[of "?e\<lparr>mpc := Checking\<rparr>" 0 1]
      he_step.leave[of "?e\<lparr>mpc := Streaming 0\<rparr>" 0 0 1]
    by (simp_all add: he_start_def he_won_def)
  from he_next[OF he_next[OF he_next[OF he_next[OF he_next[OF he_next[OF he_next[OF he_start_reach st(1)] st(2)] st(3)] st(4)] st(5)] st(6)] st(7)]
  have "he_reach 1 (?e\<lparr>mpc := Joining\<rparr>)" unfolding g .
  from he_next[OF he_next[OF he_next[OF this st(8)] st(9)] st(10)] show ?thesis .
qed

theorem open_tcp_stream_result_witness:
  "he_reach 1 he_won \<and> mpc he_won = Returned 0 \<and> 0 \<in> connected he_won \<and> (0 \<in> live_socks he_won \<or> (\<exists>y \<in> connected he_won. y \<noteq> 0))"
  using open_tcp_stream_result[OF he_won_reach] he_won_reach by (simp add: he_won_def)

text \<open>
  The assertion does fail: an attempt that \<open>bind\<close> ends with an exception other than \<open>OSError\<close> is not in \<open>errs\<close>.
\<close>

theorem open_tcp_stream_asserts: "\<exists>s. he_reach 1 s \<and> mpc s = Assertion_failed"
proof -
  let ?a = "he_start\<lparr>mpc := Delaying, spawned := 1, att := (\<lambda>_. Unborn)(0 := Born)\<rparr>"
  let ?b = "?a\<lparr>att := (\<lambda>_. Unborn)(0 := Crashed), event := (\<lambda>_. False)(0 := True)\<rparr>"
  let ?g = "scope_exit 1 (?b\<lparr>mpc := Spawning\<rparr>)"
  have g: "?g = ?b\<lparr>mpc := Joining\<rparr>" by (auto simp: scope_exit_def he_start_def fun_eq_iff)
  have st: "he_step 1 he_start ?a" "he_step 1 ?a ?b" "he_step 1 ?b (?b\<lparr>mpc := Spawning\<rparr>)" "he_step 1 (?b\<lparr>mpc := Spawning\<rparr>) ?g"
    "he_step 1 (?b\<lparr>mpc := Joining\<rparr>) (?b\<lparr>mpc := Checking\<rparr>)" "he_step 1 (?b\<lparr>mpc := Checking\<rparr>) (?b\<lparr>mpc := Assertion_failed\<rparr>)"
    using he_step.spawn[of he_start 1] he_step.crash[of ?a 0 0 1] he_step.delayed[of ?b 1] he_step.scope_exit[of "?b\<lparr>mpc := Spawning\<rparr>" 1]
      he_step.joined[of "?b\<lparr>mpc := Joining\<rparr>" 1] he_step.lost[of "?b\<lparr>mpc := Checking\<rparr>" 1]
    by (simp_all add: he_start_def)
  from he_next[OF he_next[OF he_next[OF he_next[OF he_start_reach st(1)] st(2)] st(3)] st(4)] have "he_reach 1 (?b\<lparr>mpc := Joining\<rparr>)" unfolding g .
  from he_next[OF he_next[OF this st(5)] st(6)] have "he_reach 1 (?b\<lparr>mpc := Assertion_failed\<rparr>)" .
  then show ?thesis by (intro exI[of _ "?b\<lparr>mpc := Assertion_failed\<rparr>"]) simp
qed

definition he_race :: he where
  "he_race = \<lparr>mpc = Spawning, spawned = 2, att = (\<lambda>_. Unborn)(0 := Connecting 0, 1 := Connecting 1), event = \<lambda>_. False,
     aborted = \<lambda>_. False, winner = None, cancelled = False, errs = 0, next_sock = 2, open_sockets = {0, 1},
     live_socks = {0, 1}, connected = {}\<rparr>"

lemma he_race_reach: "he_reach 2 he_race"
proof -
  let ?a = "he_start\<lparr>mpc := Delaying, spawned := 1, att := (\<lambda>_. Unborn)(0 := Born)\<rparr>"
  let ?b = "?a\<lparr>att := (att ?a)(0 := Connecting 0), next_sock := 1, open_sockets := {0}, live_socks := {0}\<rparr>"
  let ?c = "?b\<lparr>mpc := Spawning\<rparr>"
  let ?d = "?c\<lparr>mpc := Delaying, spawned := 2, att := (att ?c)(1 := Born)\<rparr>"
  let ?e = "?d\<lparr>att := (att ?d)(1 := Connecting 1), next_sock := 2, open_sockets := {1, 0}, live_socks := {1, 0}\<rparr>"
  have "he_step 2 he_start ?a" using he_step.spawn[of he_start 2] by (simp add: he_start_def)
  from he_next[OF he_start_reach this] have r: "he_reach 2 ?a" .
  have "he_step 2 ?a ?b" using he_step.socket_ok[of ?a 0 2] by (simp add: he_start_def)
  from he_next[OF r this] have r: "he_reach 2 ?b" .
  have "he_step 2 ?b ?c" by (rule he_step.delayed) simp
  from he_next[OF r this] have r: "he_reach 2 ?c" .
  have "he_step 2 ?c ?d" using he_step.spawn[of ?c 2] by (simp add: he_start_def numeral_2_eq_2)
  from he_next[OF r this] have r: "he_reach 2 ?d" .
  have "he_step 2 ?d ?e" using he_step.socket_ok[of ?d 1 2] by (simp add: he_start_def numeral_2_eq_2)
  from he_next[OF r this] have r: "he_reach 2 ?e" .
  have "he_step 2 ?e (?e\<lparr>mpc := Spawning\<rparr>)" by (rule he_step.delayed) simp
  from he_next[OF r this] have r: "he_reach 2 (?e\<lparr>mpc := Spawning\<rparr>)" .
  have "?e\<lparr>mpc := Spawning\<rparr> = he_race" by (simp add: he_race_def he_start_def insert_commute)
  then show ?thesis using r by simp
qed

text \<open>
  The join of the scope does not wait for the attempts it aborts, and the function reads
  \<open>winning_socket\<close> twice: with two addresses that both connect, it can return a stream whose socket it
  has just closed, while the other socket stays open forever.
\<close>

theorem open_tcp_stream_race:
  "\<exists>s. he_reach 2 s \<and> mpc s = Returned 0 \<and> 0 \<notin> live_socks s \<and> live_socks s = {1}"
proof -
  let ?a = "he_race\<lparr>att := (att he_race)(0 := Connected 0), connected := {0}\<rparr>"
  let ?b = "?a\<lparr>att := (att ?a)(0 := Declared 0), winner := Some 0\<rparr>"
  let ?c = "?b\<lparr>att := (att ?b)(0 := Finished), cancelled := True, event := (event ?b)(0 := True)\<rparr>"
  let ?d = "?c\<lparr>att := (att ?c)(1 := Connected 1), connected := {1, 0}\<rparr>"
  let ?e = "scope_exit 2 ?d"
  let ?f = "?e\<lparr>mpc := Checking\<rparr>"
  let ?g = "?f\<lparr>mpc := Streaming 0\<rparr>"
  let ?h = "?g\<lparr>att := (att ?g)(1 := Declared 1), winner := Some 1\<rparr>"
  let ?i = "?h\<lparr>mpc := Returned 0, live_socks := live_socks ?h - (open_sockets ?h - {1}), open_sockets := {1}\<rparr>"
  have "he_step 2 he_race ?a" using he_step.connect_ok[of he_race 0 0 2] by (simp add: he_race_def)
  from he_next[OF he_race_reach this] have r: "he_reach 2 ?a" .
  have "he_step 2 ?a ?b" by (rule he_step.declare_winner) simp
  from he_next[OF r this] have r: "he_reach 2 ?b" .
  have "he_step 2 ?b ?c" by (rule he_step.cancel[where x = 0]) simp
  from he_next[OF r this] have r: "he_reach 2 ?c" .
  have "he_step 2 ?c ?d" using he_step.connect_ok[of ?c 1 1 2] by (simp add: he_race_def)
  from he_next[OF r this] have r: "he_reach 2 ?d" .
  have "he_step 2 ?d ?e" by (rule he_step.scope_exit) (simp_all add: he_race_def)
  from he_next[OF r this] have r: "he_reach 2 ?e" .
  have "he_step 2 ?e ?f" by (rule he_step.joined) (auto simp: scope_exit_def)
  from he_next[OF r this] have r: "he_reach 2 ?f" .
  have "he_step 2 ?f ?g" by (rule he_step.won) (simp_all add: scope_exit_def)
  from he_next[OF r this] have r: "he_reach 2 ?g" .
  have "he_step 2 ?g ?h" by (rule he_step.declare_winner) (simp add: scope_exit_def)
  from he_next[OF r this] have r: "he_reach 2 ?h" .
  have "he_step 2 ?h ?i" by (rule he_step.leave) simp_all
  from he_next[OF r this] have r: "he_reach 2 ?i" .
  have "live_socks ?i = {1}" by (auto simp: scope_exit_def he_race_def)
  then show ?thesis using r by (intro exI[of _ ?i]) simp
qed

text \<open>
  Cancelling the scope after the function has begun to join it has no effect: with two addresses, of
  which the first never answers, a second one that connects after its delay does not let the
  function return; it stays in the join until the first attempt ends.
\<close>

theorem open_tcp_stream_late_winner_waits:
  "\<exists>s. he_reach 2 s \<and> mpc s = Joining \<and> winner s = Some 1 \<and> cancelled s \<and> att s 0 = Connecting 0 \<and> \<not> aborted s 0 \<and> \<not> event s 0 \<and>
     (\<forall>t. he_step 2 s t \<longrightarrow> att t 0 = Connecting 0 \<longrightarrow> mpc t = Joining \<and> \<not> event t 0 \<and> \<not> aborted t 0)"
proof -
  let ?a = "scope_exit 2 he_race"
  let ?b = "?a\<lparr>att := (att ?a)(1 := Connected 1), connected := {1}\<rparr>"
  let ?c = "?b\<lparr>att := (att ?b)(1 := Declared 1), winner := Some 1\<rparr>"
  let ?d = "?c\<lparr>att := (att ?c)(1 := Finished), cancelled := True, event := (event ?c)(1 := True)\<rparr>"
  have "he_step 2 he_race ?a" by (rule he_step.scope_exit) (simp_all add: he_race_def)
  from he_next[OF he_race_reach this] have r: "he_reach 2 ?a" .
  have "he_step 2 ?a ?b" using he_step.connect_ok[of ?a 1 1 2] by (simp add: he_race_def scope_exit_def)
  from he_next[OF r this] have r: "he_reach 2 ?b" .
  have "he_step 2 ?b ?c" by (rule he_step.declare_winner) simp
  from he_next[OF r this] have r: "he_reach 2 ?c" .
  have "he_step 2 ?c ?d" by (rule he_step.cancel[where x = 1]) simp
  from he_next[OF r this] have r: "he_reach 2 ?d" .
  have d: "mpc ?d = Joining" "\<not> event ?d 0" "\<not> aborted ?d 0" "att ?d = (\<lambda>_. Unborn)(0 := Connecting 0, 1 := Finished)"
    by (auto simp: scope_exit_def he_race_def fun_upd_def)
  have "mpc t = Joining \<and> \<not> event t 0 \<and> \<not> aborted t 0" if "he_step 2 ?d t" "att t 0 = Connecting 0" for t
    using that(1)
  proof (cases rule: he_step.cases)
    case (fail i x)
    then show ?thesis using d that(2) by (cases "i = 0") (auto split: if_splits)
  next
    case (crash i x)
    then show ?thesis using d that(2) by (cases "i = 0") (auto split: if_splits)
  qed (use d that(2) in \<open>auto split: if_splits\<close>)
  then show ?thesis using r d by (intro exI[of _ ?d]) simp
qed

theorem open_tcp_stream_late_winner_waits_witness:
  "\<exists>s. he_reach 2 s \<and> mpc s = Joining \<and> winner s = Some 1 \<and> cancelled s \<and> \<not> event s 0"
  using open_tcp_stream_late_winner_waits by blast

end
