(* ===== verification/Spawn.thy ===== *)
theory Spawn
  imports Barrier Py_Errors "HOL-Library.Multiset"
begin

text \<open>
  \<open>spawn\<close>, \<open>spawn.without_results\<close>, \<open>map\<close> and \<open>map_blocking\<close> of \<open>src/tonio/_ctl.py\<close>, with the \<open>Result\<close> holder of
  \<open>src/src/events.rs\<close> they collect values in. The children run in parallel, so the group is a step relation: one step
  is what the caller or one wrapper does between two points where another thread can get in. How a child's own
  coroutine ends is left open: any value, any exception.

  The theorem is the join: the caller gets past the barrier only after every child has ended, and then raises
  all their exceptions or returns all their values, each at the index of its coroutine.
\<close>

section \<open>Result\<close>

text \<open>
  A Python value is an \<open>option\<close> here, \<^const>\<open>None\<close> standing for Python's \<open>None\<close>, which an untouched slot
  holds. Storing out of range panics; \<open>fetch\<close> of a holder of one slot gives the value, of any other a list.
\<close>

record 'v result_holder =
  rsize :: nat
  rdata :: "'v option list"

datatype 'v fetched = One "'v option" | Many "'v option list"

definition result_new :: "nat \<Rightarrow> 'v result_holder" where
  "result_new n = \<lparr>rsize = n, rdata = replicate n None\<rparr>"

definition result_store :: "'v option \<Rightarrow> nat \<Rightarrow> 'v result_holder \<Rightarrow> 'v result_holder option" where
  "result_store v i r = (if i < length (rdata r) then Some (r\<lparr>rdata := (rdata r)[i := v]\<rparr>) else None)"

definition result_fetch :: "'v result_holder \<Rightarrow> 'v fetched" where
  "result_fetch r = (if rsize r = 1 then One (hd (rdata r)) else Many (rdata r))"

section \<open>The group of children\<close>

type_synonym 'v outcome = "exn + 'v option"

text \<open>
  A wrapper: not spawned; in \<open>yield coro\<close>; past it, with the outcome; past the \<open>try\<close> and \<open>except\<close> clauses; past the
  \<open>finally\<close> clause. The caller: spawning the coroutine of this index; with \<open>join()\<close> not yet started; suspended in
  \<open>barrier.wait()\<close>; done, with what \<open>join\<close> raises or returns.
\<close>

datatype 'v kid = Unspawned | Run | Ended "'v outcome" | Recorded "'v outcome" | Acked "'v outcome"

datatype 'v spc = Spawning nat | Started | Waiting | Joined "exn + 'v fetched option"

record 'v group =
  sbar :: barrier
  sres :: "'v result_holder"
  serrs :: "exn list"
  kids :: "nat \<Rightarrow> 'v kid"
  smain :: "'v spc"

definition spawn_init :: "nat \<Rightarrow> 'v group" where
  "spawn_init n = \<lparr>sbar = barrier_new (of_nat n + 1), sres = result_new n, serrs = [], kids = (\<lambda>_. Unspawned), smain = Spawning 0\<rparr>"

text \<open>
  The clauses of \<open>wrapper\<close> after the coroutine has ended. \<open>keep\<close> tells \<open>spawn\<close> from \<open>without_results\<close>, whose
  wrapper has no \<open>res.store\<close>. An exception that is no \<open>Exception\<close> passes both clauses.
\<close>

definition record_outcome :: "bool \<Rightarrow> nat \<Rightarrow> 'v outcome \<Rightarrow> 'v group \<Rightarrow> 'v group option" where
  "record_outcome keep i out s = (case out of
     Inr v \<Rightarrow> if keep then map_option (\<lambda>r. s\<lparr>sres := r\<rparr>) (result_store v i (sres s)) else Some s
   | Inl e \<Rightarrow> Some (if is_Exception e then s\<lparr>serrs := serrs s @ [e]\<rparr> else s))"

definition join_result :: "bool \<Rightarrow> 'v group \<Rightarrow> exn + 'v fetched option" where
  "join_result keep s = (if serrs s \<noteq> [] then Inl (ExceptionGroup ''SpawnExceptionGroup'' (serrs s))
     else Inr (if keep then Some (result_fetch (sres s)) else None))"

inductive spawn_step :: "bool \<Rightarrow> nat \<Rightarrow> 'v group \<Rightarrow> 'v group \<Rightarrow> bool" for keep n where
  spawn_one: "smain s = Spawning k \<Longrightarrow> k < n \<Longrightarrow>
     spawn_step keep n s (s\<lparr>kids := (kids s)(k := Run), smain := Spawning (Suc k)\<rparr>)"
| spawned: "smain s = Spawning n \<Longrightarrow> spawn_step keep n s (s\<lparr>smain := Started\<rparr>)"
| ends: "kids s i = Run \<Longrightarrow> spawn_step keep n s (s\<lparr>kids := (kids s)(i := Ended out)\<rparr>)"
| records: "kids s i = Ended out \<Longrightarrow> record_outcome keep i out s = Some t \<Longrightarrow>
     spawn_step keep n s (t\<lparr>kids := (kids s)(i := Recorded out)\<rparr>)"
| acks: "kids s i = Recorded out \<Longrightarrow> barrier_ack (sbar s) = (c, b) \<Longrightarrow>
     spawn_step keep n s (s\<lparr>sbar := b, kids := (kids s)(i := Acked out)\<rparr>)"
| waits: "smain s = Started \<Longrightarrow> barrier_ack (sbar s) = (c, b) \<Longrightarrow>
     spawn_step keep n s (s\<lparr>sbar := b, smain := Waiting\<rparr>)"
| joins: "smain s = Waiting \<Longrightarrow> bflag (sbar s) \<Longrightarrow>
     spawn_step keep n s (s\<lparr>smain := Joined (join_result keep s)\<rparr>)"

text \<open>The barrier counts in a \<open>usize\<close>, which the number of children and the caller have to fit in.\<close>

definition spawn_reach :: "bool \<Rightarrow> nat \<Rightarrow> 'v group \<Rightarrow> bool" where
  "spawn_reach keep n = reach (\<lambda>s. s = spawn_init n \<and> Suc n < 2 ^ 64) (spawn_step keep n)"

text \<open>
  \<open>map\<close> and \<open>map_blocking\<close>: \<open>tasks\<close> has \<open>n\<close> elements, \<open>f\<close> is what \<open>spawn(*tasks)\<close> gave. The value of a single task is
  put in a list, anything else is returned as it is. \<^const>\<open>None\<close> is a value that is no list of values of tasks.
\<close>

definition map_value :: "nat \<Rightarrow> 'v fetched \<Rightarrow> 'v option list option" where
  "map_value n f = (case f of One v \<Rightarrow> if n = 1 then Some [v] else None | Many vs \<Rightarrow> if n = 1 then None else Some vs)"

definition map_join :: "nat \<Rightarrow> exn + 'v fetched option \<Rightarrow> exn + 'v option list option" where
  "map_join n r = (case r of Inl e \<Rightarrow> Inl e | Inr f \<Rightarrow> Inr (Option.bind f (map_value n)))"

section \<open>The invariant\<close>

text \<open>What a child contributes: its arrival at the barrier, the exceptions it logged, the value it stored.\<close>

definition arrival :: "'v kid \<Rightarrow> nat" where
  "arrival k = (case k of Acked _ \<Rightarrow> 1 | _ \<Rightarrow> 0)"

definition raised_by :: "'v outcome \<Rightarrow> exn multiset" where
  "raised_by out = (case out of Inl e \<Rightarrow> if is_Exception e then {#e#} else {#} | Inr _ \<Rightarrow> {#})"

definition value_of :: "'v outcome \<Rightarrow> 'v option" where
  "value_of out = (case out of Inr v \<Rightarrow> v | Inl _ \<Rightarrow> None)"

definition logged :: "'v kid \<Rightarrow> exn multiset" where
  "logged k = (case k of Recorded out \<Rightarrow> raised_by out | Acked out \<Rightarrow> raised_by out | _ \<Rightarrow> {#})"

definition stored :: "bool \<Rightarrow> 'v kid \<Rightarrow> 'v option" where
  "stored keep k = (if keep then case k of Recorded out \<Rightarrow> value_of out | Acked out \<Rightarrow> value_of out | _ \<Rightarrow> None else None)"

definition results_ok :: "bool \<Rightarrow> nat \<Rightarrow> 'v group \<Rightarrow> bool" where
  "results_ok keep n s \<longleftrightarrow> rsize (sres s) = n \<and> rdata (sres s) = map (\<lambda>i. stored keep (kids s i)) [0..<n]
     \<and> mset (serrs s) = (\<Sum>i<n. logged (kids s i))"

definition barrier_ok :: "nat \<Rightarrow> 'v group \<Rightarrow> bool" where
  "barrier_ok n s \<longleftrightarrow> bvalue (sbar s) = of_nat n + 1
     \<and> unat (barrier.count (sbar s)) = (\<Sum>i<n. arrival (kids s i)) + (case smain s of Waiting \<Rightarrow> 1 | Joined _ \<Rightarrow> 1 | _ \<Rightarrow> 0)
     \<and> (bflag (sbar s) \<longleftrightarrow> unat (barrier.count (sbar s)) = Suc n)"

definition main_spawn_ok :: "bool \<Rightarrow> nat \<Rightarrow> 'v group \<Rightarrow> bool" where
  "main_spawn_ok keep n s \<longleftrightarrow> (\<forall>i\<ge>n. kids s i = Unspawned) \<and> (case smain s of
     Spawning k \<Rightarrow> \<forall>i. kids s i = Unspawned \<longleftrightarrow> k \<le> i
   | Joined r \<Rightarrow> bflag (sbar s) \<and> r = join_result keep s
   | _ \<Rightarrow> \<forall>i<n. kids s i \<noteq> Unspawned)"

definition spawn_inv :: "bool \<Rightarrow> nat \<Rightarrow> 'v group \<Rightarrow> bool" where
  "spawn_inv keep n s \<longleftrightarrow> Suc n < 2 ^ 64 \<and> results_ok keep n s \<and> barrier_ok n s \<and> main_spawn_ok keep n s"

lemmas kid_defs = arrival_def logged_def stored_def


lemma spawn_inv_init: "Suc n < 2 ^ 64 \<Longrightarrow> spawn_inv keep n (spawn_init n)"
  by (simp add: spawn_inv_def spawn_init_def results_ok_def barrier_ok_def main_spawn_ok_def kid_defs
      result_new_def barrier_new_def map_replicate_trivial)

lemma sum_arrivals: "(\<Sum>i<n. arrival (k i)) \<le> n" "(\<Sum>i<n. arrival (k i)) = n \<longleftrightarrow> (\<forall>i<n. \<exists>out. k i = Acked out)"
proof -
  show le: "(\<Sum>i<n. arrival (k i)) \<le> n" for n
    using sum_bounded_above[of "{..<n}" "\<lambda>i. arrival (k i)" 1] by (simp add: arrival_def split: kid.splits)
  show "(\<Sum>i<n. arrival (k i)) = n \<longleftrightarrow> (\<forall>i<n. \<exists>out. k i = Acked out)"
  proof (induction n)
    case (Suc n)
    have "arrival (k n) = 1 \<or> arrival (k n) = 0" "arrival (k n) = 1 \<longleftrightarrow> (\<exists>out. k n = Acked out)"
      by (auto simp: arrival_def split: kid.splits)
    then show ?case using Suc le[of n] by (auto simp: less_Suc_eq)
  qed simp
qed

lemma barrier_ack_ok:
  assumes "barrier_ack b = (c, b')" "bvalue b = of_nat n + 1" "Suc n < 2 ^ 64" "unat (barrier.count b) = m" "m \<le> n"
    "bflag b \<longleftrightarrow> m = Suc n"
  shows "bvalue b' = of_nat n + 1" "unat (barrier.count b') = Suc m" "bflag b' \<longleftrightarrow> Suc m = Suc n"
proof -
  have "unat (- 1 :: usize) = 2 ^ 64 - 1" by (simp add: unsigned_minus_1_eq_mask mask_eq_exp_minus_1)
  then have "barrier.count b \<noteq> - 1" using assms(3-5) by auto
  note u = unat_Suc_nowrap[OF this]
  have v: "unat (of_nat n + 1 :: usize) = Suc n"
  proof -
    have "(of_nat n + 1 :: usize) = of_nat (Suc n)" by simp
    then show ?thesis using assms(3) by (simp only: unsigned_of_nat take_bit_nat_eq_self) (simp add: take_bit_nat_eq_self)
  qed
  show "bvalue b' = of_nat n + 1" "unat (barrier.count b') = Suc m" using assms u by (auto simp: barrier_ack_def Let_def)
  show "bflag b' \<longleftrightarrow> Suc m = Suc n"
    using assms u v by (auto simp: barrier_ack_def Let_def word_le_nat_alt split: if_splits)
qed

text \<open>A child that has not arrived yet: it is one of the \<open>n\<close>, and the join has not happened.\<close>

lemma pending_kid:
  assumes "spawn_inv keep n s" "arrival (kids s i) = 0" "kids s i \<noteq> Unspawned"
  shows "i < n" "\<not> bflag (sbar s)" "smain s \<noteq> Joined r"
proof -
  show i: "i < n" using assms(1,3) by (auto simp: spawn_inv_def main_spawn_ok_def not_le[symmetric])
  have "(\<Sum>j<n. arrival (kids s j)) \<noteq> n" using assms(2) i unfolding sum_arrivals(2) by (auto simp: arrival_def)
  with sum_arrivals(1)[of "kids s" n] have "(\<Sum>j<n. arrival (kids s j)) < n" by simp
  then show b: "\<not> bflag (sbar s)" using assms(1) by (auto simp: spawn_inv_def barrier_ok_def split: spc.splits)
  then show "smain s \<noteq> Joined r" using assms(1) by (auto simp: spawn_inv_def main_spawn_ok_def)
qed

lemma main_spawn_ok_kid:
  assumes "spawn_inv keep n s" "arrival (kids s i) = 0" "kids s i \<noteq> Unspawned" "k \<noteq> Unspawned"
    "kids t = (kids s)(i := k)" "smain t = smain s"
  shows "main_spawn_ok keep n t"
  using assms pending_kid[OF assms(1-3)] by (auto simp: spawn_inv_def main_spawn_ok_def split: spc.splits)

lemma barrier_ok_kid:
  assumes "barrier_ok n s" "i < n" "arrival k = arrival (kids s i)" "kids t = (kids s)(i := k)" "smain t = smain s" "sbar t = sbar s"
  shows "barrier_ok n t"
  using assms sum_fun_upd[of i n arrival "kids s" k] by (simp add: barrier_ok_def)

lemma results_ok_kid:
  assumes "results_ok keep n s" "i < n" "kids t = (kids s)(i := k)" "rsize (sres t) = rsize (sres s)"
    "rdata (sres t) = (rdata (sres s))[i := stored keep k]"
    "mset (serrs t) + logged (kids s i) = mset (serrs s) + logged k"
  shows "results_ok keep n t"
proof -
  have "mset (serrs t) = (\<Sum>j<n. logged (kids t j))"
  proof (rule add_right_imp_eq)
    show "mset (serrs t) + logged (kids s i) = (\<Sum>j<n. logged (kids t j)) + logged (kids s i)"
      using assms(1) unfolding results_ok_def assms(6) assms(3) sum_fun_upd[OF assms(2)] by simp
  qed
  moreover have "rdata (sres t) = map (\<lambda>j. stored keep (kids t j)) [0..<n]"
    using assms by (auto simp: results_ok_def list_eq_iff_nth_eq nth_list_update)
  ultimately show ?thesis using assms(1,4) by (simp add: results_ok_def)
qed

lemma results_ok_silent:
  assumes "results_ok keep n s" "i < n" "kids t = (kids s)(i := k)" "sres t = sres s" "serrs t = serrs s"
    "stored keep k = stored keep (kids s i)" "logged k = logged (kids s i)"
  shows "results_ok keep n t"
proof -
  have "(rdata (sres s))[i := stored keep k] = rdata (sres s)"
    using assms by (simp add: results_ok_def list_eq_iff_nth_eq nth_list_update)
  then show ?thesis using assms by (intro results_ok_kid[of keep n s i t k]) simp_all
qed

lemma spawn_inv_ends:
  assumes "spawn_inv keep n s" "kids s i = Run"
  shows "spawn_inv keep n (s\<lparr>kids := (kids s)(i := Ended out)\<rparr>)" (is "spawn_inv keep n ?t")
proof -
  note p = pending_kid[OF assms(1), of i]
  have "main_spawn_ok keep n ?t" using assms by (intro main_spawn_ok_kid[of keep n s i "Ended out"]) (simp_all add: arrival_def)
  moreover have "barrier_ok n ?t" "results_ok keep n ?t"
    using assms p by (auto simp: spawn_inv_def kid_defs intro!: barrier_ok_kid[of n s i "Ended out"] results_ok_silent[of keep n s i _ "Ended out"])
  ultimately show ?thesis using assms(1) by (simp add: spawn_inv_def)
qed

lemma record_outcome_frame:
  "record_outcome keep i out s = Some t \<Longrightarrow> sbar t = sbar s \<and> kids t = kids s \<and> smain t = smain s"
  by (auto simp: record_outcome_def split: sum.splits if_splits)

lemma record_outcome_results:
  assumes "record_outcome keep i out s = Some t" "results_ok keep n s" "i < n" "kids s i = Ended out"
  shows "results_ok keep n (t\<lparr>kids := (kids s)(i := Recorded out)\<rparr>)"
proof (rule results_ok_kid[OF assms(2,3), where k = "Recorded out"])
  have "rdata (sres s) ! i = None" using assms by (simp add: results_ok_def stored_def)
  then have same: "(rdata (sres s))[i := None] = rdata (sres s)" by (metis list_update_id)
  show "rdata (sres (t\<lparr>kids := (kids s)(i := Recorded out)\<rparr>)) = (rdata (sres s))[i := stored keep (Recorded out)]"
    using assms(1) same by (auto simp: record_outcome_def result_store_def stored_def value_of_def split: sum.splits if_splits)
  show "mset (serrs (t\<lparr>kids := (kids s)(i := Recorded out)\<rparr>)) + logged (kids s i) = mset (serrs s) + logged (Recorded out)"
    using assms(1,4) by (auto simp: record_outcome_def logged_def raised_by_def split: sum.splits if_splits)
  show "rsize (sres (t\<lparr>kids := (kids s)(i := Recorded out)\<rparr>)) = rsize (sres s)"
    using assms(1) by (auto simp: record_outcome_def result_store_def split: sum.splits if_splits)
qed simp

lemma spawn_inv_records:
  assumes "spawn_inv keep n s" "kids s i = Ended out" "record_outcome keep i out s = Some t"
  shows "spawn_inv keep n (t\<lparr>kids := (kids s)(i := Recorded out)\<rparr>)" (is "spawn_inv keep n ?t")
proof -
  note p = pending_kid[OF assms(1), of i] and f = record_outcome_frame[OF assms(3)]
  have i: "i < n" using assms p by (simp add: arrival_def)
  have ok: "results_ok keep n s" "barrier_ok n s" "Suc n < 2 ^ 64" using assms(1) by (simp_all add: spawn_inv_def)
  have "main_spawn_ok keep n ?t"
    by (rule main_spawn_ok_kid[OF assms(1), of i "Recorded out"]) (simp_all add: assms(2) f arrival_def)
  moreover have "barrier_ok n ?t"
    by (rule barrier_ok_kid[OF ok(2) i, of "Recorded out"]) (simp_all add: assms(2) f arrival_def)
  ultimately show ?thesis using record_outcome_results[OF assms(3) ok(1) i assms(2)] ok(3) by (simp add: spawn_inv_def)
qed

lemma spawn_inv_acks:
  assumes "spawn_inv keep n s" "kids s i = Recorded out" "barrier_ack (sbar s) = (c, b)"
  shows "spawn_inv keep n (s\<lparr>sbar := b, kids := (kids s)(i := Acked out)\<rparr>)" (is "spawn_inv keep n ?t")
proof -
  have i: "i < n" and nf: "\<not> bflag (sbar s)" using pending_kid[OF assms(1), of i] assms(2) by (simp_all add: arrival_def)
  have ok: "results_ok keep n s" "barrier_ok n s" "Suc n < 2 ^ 64" using assms(1) by (simp_all add: spawn_inv_def)
  let ?m = "unat (barrier.count (sbar s))"
  have sum: "(\<Sum>j<n. arrival (((kids s)(i := Acked out)) j)) = Suc (\<Sum>j<n. arrival (kids s j))"
    using sum_fun_upd[OF i, of arrival "kids s" "Acked out"] assms(2) by (simp add: arrival_def)
  have "Suc (\<Sum>j<n. arrival (kids s j)) \<le> n" using sum_arrivals(1)[of "(kids s)(i := Acked out)" n] sum by simp
  then have m: "?m \<le> n" "?m \<noteq> Suc n" using ok(2) by (auto simp: barrier_ok_def split: spc.splits)
  have a: "bvalue b = of_nat n + 1" "unat (barrier.count b) = Suc ?m" "bflag b \<longleftrightarrow> Suc ?m = Suc n"
    using barrier_ack_ok[OF assms(3) _ ok(3) refl m(1)] ok(2) nf m(2) by (simp_all add: barrier_ok_def)
  have "barrier_ok n ?t" using a ok(2) sum by (simp add: barrier_ok_def del: fun_upd_apply)
  moreover have "main_spawn_ok keep n ?t"
    by (rule main_spawn_ok_kid[OF assms(1), of i "Acked out"]) (simp_all add: assms(2) arrival_def)
  moreover have "results_ok keep n ?t"
    by (rule results_ok_silent[OF ok(1) i, where k = "Acked out"]) (simp_all add: assms(2) kid_defs)
  ultimately show ?thesis using ok(3) by (simp add: spawn_inv_def)
qed

lemma spawn_inv_waits:
  assumes "spawn_inv keep n s" "smain s = Started" "barrier_ack (sbar s) = (c, b)"
  shows "spawn_inv keep n (s\<lparr>sbar := b, smain := Waiting\<rparr>)"
proof -
  have ok: "barrier_ok n s" "Suc n < 2 ^ 64" using assms(1) by (simp_all add: spawn_inv_def)
  let ?m = "unat (barrier.count (sbar s))"
  have m: "?m = (\<Sum>j<n. arrival (kids s j))" "?m \<le> n" using ok(1) assms(2) sum_arrivals(1)[of "kids s" n] by (simp_all add: barrier_ok_def)
  have "bvalue b = of_nat n + 1" "unat (barrier.count b) = Suc ?m" "bflag b \<longleftrightarrow> Suc ?m = Suc n"
    using barrier_ack_ok[OF assms(3) _ ok(2) refl m(2)] ok(1) m by (simp_all add: barrier_ok_def)
  then show ?thesis using assms(1,2) m(1) by (simp add: spawn_inv_def barrier_ok_def results_ok_def main_spawn_ok_def)
qed

lemma spawn_inv_spawn_one:
  assumes "spawn_inv keep n s" "smain s = Spawning k" "k < n"
  shows "spawn_inv keep n (s\<lparr>kids := (kids s)(k := Run), smain := Spawning (Suc k)\<rparr>)" (is "spawn_inv keep n ?t")
proof -
  have ok: "results_ok keep n s" "barrier_ok n s" "Suc n < 2 ^ 64" using assms(1) by (simp_all add: spawn_inv_def)
  have m: "(\<forall>i\<ge>n. kids s i = Unspawned)" "\<And>i. kids s i = Unspawned \<longleftrightarrow> k \<le> i"
    using assms(1,2) by (simp_all add: spawn_inv_def main_spawn_ok_def)
  have u: "kids s k = Unspawned" using m(2) by simp
  have "barrier_ok n (s\<lparr>kids := (kids s)(k := Run)\<rparr>)"
    by (rule barrier_ok_kid[OF ok(2) assms(3), of Run]) (simp_all add: u arrival_def)
  then have "barrier_ok n ?t" using assms(2) by (simp add: barrier_ok_def)
  moreover have "results_ok keep n ?t"
    by (rule results_ok_silent[OF ok(1) assms(3), where k = Run]) (simp_all add: u kid_defs)
  moreover have "(((kids s)(k := Run)) i = Unspawned) = (Suc k \<le> i)" for i using m(2)[of i] by auto
  then have "main_spawn_ok keep n ?t" using assms(3) by (simp add: main_spawn_ok_def del: fun_upd_apply)
  ultimately show ?thesis using ok(3) by (simp add: spawn_inv_def)
qed

lemma spawn_inv_main:
  assumes "spawn_inv keep n s"
  shows "smain s = Spawning n \<Longrightarrow> spawn_inv keep n (s\<lparr>smain := Started\<rparr>)"
    and "smain s = Waiting \<Longrightarrow> bflag (sbar s) \<Longrightarrow> spawn_inv keep n (s\<lparr>smain := Joined (join_result keep s)\<rparr>)"
  using assms by (auto simp: spawn_inv_def results_ok_def barrier_ok_def main_spawn_ok_def join_result_def)

interpretation sp: step_system "\<lambda>s. s = spawn_init n \<and> Suc n < 2 ^ 64" "spawn_step keep n" "spawn_inv keep n" for keep n
proof
  show "spawn_inv keep n t" if "spawn_step keep n s t" "spawn_inv keep n s" for s t :: "'a group"
    using that by (cases rule: spawn_step.cases)
      (auto intro: spawn_inv_spawn_one spawn_inv_main spawn_inv_ends spawn_inv_records spawn_inv_acks spawn_inv_waits)
qed (simp add: spawn_inv_init)

section \<open>The join\<close>

lemma spawn_reach_inv: "spawn_reach keep n s \<Longrightarrow> spawn_inv keep n s"
  unfolding spawn_reach_def by (rule sp.reach_inv)

lemma spawn_can_join:
  assumes "spawn_inv keep n s" "\<forall>i<n. \<exists>out. kids s i = Acked out" "smain s = Waiting"
  shows "spawn_step keep n s (s\<lparr>smain := Joined (join_result keep s)\<rparr>)"
proof (rule spawn_step.joins[OF assms(3)])
  show "bflag (sbar s)" using assms sum_arrivals(2)[of "kids s" n] by (simp add: spawn_inv_def barrier_ok_def)
qed

lemma spawn_joined_all:
  assumes "spawn_inv keep n s" "smain s = Joined r"
  shows "\<forall>i<n. \<exists>out. kids s i = Acked out"
proof -
  have "(\<Sum>i<n. arrival (kids s i)) = n" using assms by (auto simp: spawn_inv_def main_spawn_ok_def barrier_ok_def)
  then show ?thesis by (simp only: sum_arrivals(2))
qed

definition outcome_of :: "'v kid \<Rightarrow> 'v outcome" where
  "outcome_of k = (case k of Ended out \<Rightarrow> out | Recorded out \<Rightarrow> out | Acked out \<Rightarrow> out | _ \<Rightarrow> Inr None)"

lemma spawn_joined_results:
  assumes "spawn_inv keep n s" "smain s = Joined r"
  shows "mset (serrs s) = (\<Sum>i<n. raised_by (outcome_of (kids s i)))"
    and "keep \<Longrightarrow> rdata (sres s) = map (\<lambda>i. value_of (outcome_of (kids s i))) [0..<n]"
proof -
  have k: "logged (kids s i) = raised_by (outcome_of (kids s i))" "keep \<Longrightarrow> stored keep (kids s i) = value_of (outcome_of (kids s i))"
    if "i < n" for i
    using spawn_joined_all[OF assms] that by (auto simp: kid_defs outcome_of_def)
  show "mset (serrs s) = (\<Sum>i<n. raised_by (outcome_of (kids s i)))"
    using assms(1) k(1) by (simp add: spawn_inv_def results_ok_def)
  show "keep \<Longrightarrow> rdata (sres s) = map (\<lambda>i. value_of (outcome_of (kids s i))) [0..<n]"
    using assms(1) k(2) by (simp add: spawn_inv_def results_ok_def)
qed

text \<open>
  C5. The join of \<open>spawn\<close>. When the caller is past \<open>yield spawn(...)\<close>, every child has ended and run its \<open>finally\<close> clause.
  If some ended with an \<open>Exception\<close>, the caller gets one \<open>ExceptionGroup\<close> of all of them, each as often as it was raised;
  otherwise it gets the children's values, each at the index of its coroutine, where a child that ended with an exception
  that is no \<open>Exception\<close>, such as \<open>CancelledError\<close>, leaves \<open>None\<close>. And it does get there: once every child has ended, a caller
  that waits can go on.
\<close>

theorem spawn_join:
  fixes s :: "'v group"
  assumes "spawn_reach True n s"
  shows "(\<forall>r. smain s = Joined r \<longrightarrow> (\<exists>out. (\<forall>i<n. kids s i = Acked (out i)) \<and>
        (case r of
           Inr f \<Rightarrow> (\<forall>i<n. raised_by (out i) = {#}) \<and>
             f = Some (if n = 1 then One (value_of (out 0)) else Many (map (\<lambda>i. value_of (out i)) [0..<n]))
         | Inl e \<Rightarrow> (\<exists>es. e = ExceptionGroup ''SpawnExceptionGroup'' es \<and> es \<noteq> [] \<and> mset es = (\<Sum>i<n. raised_by (out i))))))
    \<and> ((\<forall>i<n. \<exists>out. kids s i = Acked out) \<and> smain s = Waiting \<longrightarrow> spawn_step True n s (s\<lparr>smain := Joined (join_result True s)\<rparr>))"
proof (intro conjI allI impI)
  fix r assume j: "smain s = Joined r"
  let ?out = "\<lambda>i. outcome_of (kids s i)"
  note inv = spawn_reach_inv[OF assms]
  note all = spawn_joined_all[OF inv j] and res = spawn_joined_results[OF inv j]
  have r: "r = join_result True s" "rsize (sres s) = n" using inv j by (simp_all add: spawn_inv_def main_spawn_ok_def results_ok_def)
  have "\<forall>i<n. kids s i = Acked (?out i)" using all by (auto simp: outcome_of_def)
  moreover have "\<forall>i<n. raised_by (?out i) = {#}" if "serrs s = []" using res(1) that by (auto simp: sum_eq_empty_iff)
  moreover have "hd (map f [0..<n]) = f 0" if "n = 1" for f :: "nat \<Rightarrow> 'v option" using that by simp
  ultimately show "\<exists>out. (\<forall>i<n. kids s i = Acked (out i)) \<and> (case r of
           Inr f \<Rightarrow> (\<forall>i<n. raised_by (out i) = {#}) \<and>
             f = Some (if n = 1 then One (value_of (out 0)) else Many (map (\<lambda>i. value_of (out i)) [0..<n]))
         | Inl e \<Rightarrow> (\<exists>es. e = ExceptionGroup ''SpawnExceptionGroup'' es \<and> es \<noteq> [] \<and> mset es = (\<Sum>i<n. raised_by (out i))))"
    using res r by (intro exI[of _ ?out]) (auto simp: join_result_def result_fetch_def)
next
  assume "(\<forall>i<n. \<exists>out. kids s i = Acked out) \<and> smain s = Waiting"
  then show "spawn_step True n s (s\<lparr>smain := Joined (join_result True s)\<rparr>)"
    using spawn_can_join[OF spawn_reach_inv[OF assms]] by blast
qed

text \<open>The run of one child that returns 7.\<close>

definition spawn_demo :: "nat group" where
  "spawn_demo = \<lparr>sbar = \<lparr>bvalue = 2, count = 2, bflag = True\<rparr>, sres = \<lparr>rsize = 1, rdata = [Some 7]\<rparr>, serrs = [],
     kids = (\<lambda>_. Unspawned)(0 := Acked (Inr (Some 7))), smain = Joined (Inr (Some (One (Some 7))))\<rparr>"

lemma spawn_demo_reach: "spawn_reach True 1 spawn_demo"
proof -
  let ?R = "spawn_step True 1 :: nat group \<Rightarrow> nat group \<Rightarrow> bool"
  let ?st = "\<lambda>c f v k m. \<lparr>sbar = \<lparr>bvalue = 2, count = c, bflag = f\<rparr>, sres = \<lparr>rsize = 1, rdata = [v]\<rparr>, serrs = [],
     kids = (\<lambda>_. Unspawned)(0 := k), smain = m\<rparr> :: nat group"
  let ?o = "Inr (Some 7) :: nat outcome"
  note defs = spawn_init_def result_new_def barrier_new_def
  have r0: "reach (\<lambda>s. s = spawn_init 1 \<and> Suc 1 < 2 ^ 64) ?R (?st 0 False None Unspawned (Spawning 0))"
    by (rule reach.start) (simp add: defs fun_eq_iff)
  have r1: "?R (?st 0 False None Unspawned (Spawning 0)) (?st 0 False None Run (Spawning 1))"
    using spawn_step.spawn_one[of "?st 0 False None Unspawned (Spawning 0)" 0 1 True] by simp
  have r2: "?R (?st 0 False None Run (Spawning 1)) (?st 0 False None Run Started)"
    using spawn_step.spawned[of "?st 0 False None Run (Spawning 1)" 1 True] by simp
  have r3: "?R (?st 0 False None Run Started) (?st 0 False None (Ended ?o) Started)"
    using spawn_step.ends[of "?st 0 False None Run Started" 0 True 1 ?o] by simp
  have r4: "?R (?st 0 False None (Ended ?o) Started) (?st 0 False (Some 7) (Recorded ?o) Started)"
    using spawn_step.records[of "?st 0 False None (Ended ?o) Started" 0 ?o True _ 1]
    by (simp add: record_outcome_def result_store_def)
  have r5: "?R (?st 0 False (Some 7) (Recorded ?o) Started) (?st 1 False (Some 7) (Acked ?o) Started)"
    using spawn_step.acks[of "?st 0 False (Some 7) (Recorded ?o) Started" 0 ?o _ _ True 1]
    by (simp add: barrier_ack_def Let_def word_le_nat_alt)
  have r6: "?R (?st 1 False (Some 7) (Acked ?o) Started) (?st 2 True (Some 7) (Acked ?o) Waiting)"
    using spawn_step.waits[of "?st 1 False (Some 7) (Acked ?o) Started" _ _ True 1]
    by (simp add: barrier_ack_def Let_def word_le_nat_alt)
  have r7: "?R (?st 2 True (Some 7) (Acked ?o) Waiting) spawn_demo"
    using spawn_step.joins[of "?st 2 True (Some 7) (Acked ?o) Waiting" True 1]
    by (simp add: spawn_demo_def join_result_def result_fetch_def)
  note go = reach.next_state
  show ?thesis unfolding spawn_reach_def by (rule go[OF go[OF go[OF go[OF go[OF go[OF go[OF r0 r1] r2] r3] r4] r5] r6] r7])
qed

theorem spawn_join_witness:
  "spawn_reach True 1 spawn_demo \<and> smain spawn_demo = Joined (Inr (Some (One (Some 7)))) \<and>
   (\<exists>out. kids spawn_demo 0 = Acked out \<and> raised_by out = {#} \<and> value_of out = Some 7)"
proof -
  have "smain spawn_demo = Joined (Inr (Some (One (Some 7))))" by (simp add: spawn_demo_def)
  then show ?thesis using spawn_join[OF spawn_demo_reach] spawn_demo_reach by auto
qed

text \<open>
  \<open>map\<close> (and \<open>map_blocking\<close>) returns a list with one value per task, in the order of the tasks, for any number of
  tasks: also for none, where \<open>spawn\<close> gives an empty list, and for one, where it gives the bare value.
\<close>

theorem map_in_order:
  assumes "spawn_reach True n s" "smain s = Joined (Inr f)"
  shows "\<exists>vs. map_join n (Inr f) = Inr (Some vs) \<and> length vs = n \<and>
    (\<forall>i<n. \<exists>out. kids s i = Acked out \<and> vs ! i = value_of out)"
proof -
  note inv = spawn_reach_inv[OF assms(1)]
  let ?vs = "map (\<lambda>i. value_of (outcome_of (kids s i))) [0..<n]"
  have "rdata (sres s) = ?vs" using spawn_joined_results(2)[OF inv assms(2)] by simp
  moreover have "Inr f = join_result True s" "rsize (sres s) = n"
    using inv assms(2) by (simp_all add: spawn_inv_def main_spawn_ok_def results_ok_def)
  ultimately have "map_join n (Inr f) = Inr (Some ?vs)"
    by (auto simp: map_join_def map_value_def join_result_def result_fetch_def split: if_splits)
  moreover have "\<exists>out. kids s i = Acked out \<and> ?vs ! i = value_of out" if "i < n" for i
    using spawn_joined_all[OF inv assms(2)] that by (auto simp: outcome_of_def)
  ultimately show ?thesis by (intro exI[of _ ?vs]) simp
qed

theorem map_in_order_witness:
  "\<exists>vs. map_join 1 (Inr (Some (One (Some (7 :: nat))))) = Inr (Some vs) \<and> length vs = 1"
proof -
  have "smain spawn_demo = Joined (Inr (Some (One (Some 7))))" by (simp add: spawn_demo_def)
  from map_in_order[OF spawn_demo_reach this] show ?thesis by blast
qed

end
