(* ===== verification/Blocking.thy ===== *)
theory Blocking
  imports Prelude Py_Errors
begin

text \<open>
  \<open>spawn_blocking\<close> of \<open>src/tonio/_ctl.py\<close> and the task it hands to the thread pool, \<open>BlockingTaskCtl\<close> and \<open>BlockingTask\<close>
  of \<open>src/src/blocking.rs\<close>. The calling coroutine and the pool's thread run in parallel and share the task's state, its
  thread id, its event and a \<open>Result\<close> of two slots. The state is a \<open>compare_exchange\<close> cell, everything else a plain store; one
  step of the relation is one such access. A cancelled caller aborts the task: before it runs by taking it out of the
  state \<open>Queued\<close>, while it runs by an asynchronous exception to the thread whose id it read.
\<close>

datatype task_state = Queued | Running | Cancelled | Done

text \<open>Slot 1 of the result: the value of the function or its exception.\<close>

datatype 'v slot = Val 'v | Exn exn

text \<open>
  The thread in \<open>BlockingTask::run\<close>: not there yet; with the task in hand on this thread; its id published; in the
  function; past it, with the outcome; past the first store, the second, the reset of the id, the store of \<open>Done\<close>; out,
  after \<open>notify\<close> or, without an outcome, after a failed \<open>begin\<close>.
\<close>

datatype 'v rpc = In_queue | Taken nat | Published nat | Calling nat | Called nat "exn + 'v" | Half nat "exn + 'v"
  | Full nat "exn + 'v" | Tid_reset nat "exn + 'v" | Done_set nat "exn + 'v" | Left nat "(exn + 'v) option"

text \<open>
  The caller: not started; in the first wait; past it; in \<open>ctl.abort()\<close> before the \<open>compare_exchange\<close>, before the two
  stores and the \<open>notify\<close> of a task it withdrew, before the load of the id, before \<open>PyThreadState_SetAsyncExc\<close>; in the second
  wait; out. \<open>None\<close> as a value is Python's.
\<close>

datatype 'v cpc = Outside | Wait_1 | Fetching | Aborting | C_half | C_full | C_notify | Load_tid | Throwing nat | Wait_2
  | Out "exn + 'v slot option"

record 'v btask =
  bstate :: task_state
  btid :: nat
  bev :: bool
  berr :: "bool option"
  bval :: "'v slot option"
  brun :: "'v rpc"
  bcall :: "'v cpc"
  bcancelled :: bool

definition btask_new :: "'v btask" where
  "btask_new = \<lparr>bstate = Queued, btid = 0, bev = False, berr = None, bval = None, brun = In_queue, bcall = Outside, bcancelled = False\<rparr>"

definition slot_of :: "exn + 'v \<Rightarrow> 'v slot" where
  "slot_of out = (case out of Inl e \<Rightarrow> Exn e | Inr v \<Rightarrow> Val v)"

text \<open>The end of \<open>spawn_blocking\<close>: \<open>if err is True: raise val\<close>, else \<open>return val\<close>. Python cannot raise \<open>None\<close>.\<close>

definition blocking_result :: "bool option \<Rightarrow> 'v slot option \<Rightarrow> exn + 'v slot option" where
  "blocking_result err v = (if err = Some True
     then (case v of Some (Exn e) \<Rightarrow> Inl e | _ \<Rightarrow> Inl (TypeError ''exceptions must derive from BaseException''))
     else Inr v)"

section \<open>Steps\<close>

text \<open>The thread: \<open>begin\<close>, the call, \<open>store_ok\<close> or \<open>store_err\<close>, \<open>finish\<close>, \<open>notify\<close>.\<close>

inductive run_step :: "'v btask \<Rightarrow> 'v btask \<Rightarrow> bool" where
  publish: "brun k = Taken t \<Longrightarrow> run_step k (k\<lparr>btid := t, brun := Published t\<rparr>)"
| begin_ok: "brun k = Published t \<Longrightarrow> cas Queued Running (bstate k) = Some st \<Longrightarrow> run_step k (k\<lparr>bstate := st, brun := Calling t\<rparr>)"
| begin_fail: "brun k = Published t \<Longrightarrow> cas Queued Running (bstate k) = None \<Longrightarrow> run_step k (k\<lparr>btid := 0, brun := Left t None\<rparr>)"
| call: "brun k = Calling t \<Longrightarrow> run_step k (k\<lparr>brun := Called t out\<rparr>)"
| store_0: "brun k = Called t out \<Longrightarrow> run_step k (k\<lparr>berr := Some (isl out), brun := Half t out\<rparr>)"
| store_1: "brun k = Half t out \<Longrightarrow> run_step k (k\<lparr>bval := Some (slot_of out), brun := Full t out\<rparr>)"
| finish_tid: "brun k = Full t out \<Longrightarrow> run_step k (k\<lparr>btid := 0, brun := Tid_reset t out\<rparr>)"
| finish: "brun k = Tid_reset t out \<Longrightarrow> run_step k (k\<lparr>bstate := Done, brun := Done_set t out\<rparr>)"
| notify: "brun k = Done_set t out \<Longrightarrow> run_step k (k\<lparr>bev := True, brun := Left t (Some out)\<rparr>)"

text \<open>\<open>BlockingTaskCtl::abort\<close>, up to the asynchronous exception.\<close>

inductive abort_step :: "'v btask \<Rightarrow> 'v btask \<Rightarrow> bool" where
  withdraw: "bcall k = Aborting \<Longrightarrow> cas Queued Cancelled (bstate k) = Some st \<Longrightarrow> abort_step k (k\<lparr>bstate := st, bcall := C_half\<rparr>)"
| c_store_0: "bcall k = C_half \<Longrightarrow> abort_step k (k\<lparr>berr := Some True, bcall := C_full\<rparr>)"
| c_store_1: "bcall k = C_full \<Longrightarrow> abort_step k (k\<lparr>bval := Some (Exn CancelledError), bcall := C_notify\<rparr>)"
| c_notify: "bcall k = C_notify \<Longrightarrow> abort_step k (k\<lparr>bev := True, bcall := Wait_2\<rparr>)"
| not_queued: "bcall k = Aborting \<Longrightarrow> cas Queued Cancelled (bstate k) = None \<Longrightarrow>
     abort_step k (k\<lparr>bcall := if bstate k = Running then Load_tid else Wait_2\<rparr>)"
| load_tid: "bcall k = Load_tid \<Longrightarrow> abort_step k (k\<lparr>bcall := if btid k > 0 then Throwing (btid k) else Wait_2\<rparr>)"

text \<open>
  \<open>spawn_blocking\<close>: the first wait with \<open>CancelledError\<close> suppressed, the look at the result, the second wait, which
  a second cancellation leaves.
\<close>

inductive caller_step :: "'v btask \<Rightarrow> 'v btask \<Rightarrow> bool" where
  submit: "bcall k = Outside \<Longrightarrow> caller_step k (k\<lparr>bcall := Wait_1\<rparr>)"
| wake: "bcall k = Wait_1 \<Longrightarrow> bev k \<Longrightarrow> caller_step k (k\<lparr>bcall := Fetching\<rparr>)"
| cancelled: "bcall k = Wait_1 \<Longrightarrow> caller_step k (k\<lparr>bcall := Fetching, bcancelled := True\<rparr>)"
| fetch: "bcall k = Fetching \<Longrightarrow>
     caller_step k (k\<lparr>bcall := if berr k = None then Aborting else Out (blocking_result (berr k) (bval k))\<rparr>)"
| wake_2: "bcall k = Wait_2 \<Longrightarrow> bev k \<Longrightarrow> caller_step k (k\<lparr>bcall := Out (blocking_result (berr k) (bval k))\<rparr>)"
| cancelled_2: "bcall k = Wait_2 \<Longrightarrow> caller_step k (k\<lparr>bcall := Out (Inl CancelledError), bcancelled := True\<rparr>)"

text \<open>
  The pool: every task on one of the threads, a thread with one task at a time, its current one in \<open>busy\<close>; \<open>async_exc\<close> is the exception pending
  for a thread, which hits whatever Python code runs there next and which the thread discards after each task.
\<close>

record 'v pool =
  tasks :: "nat \<Rightarrow> 'v btask"
  busy :: "nat \<Rightarrow> nat option"
  async_exc :: "nat \<Rightarrow> bool"

inductive pool_step :: "'v pool \<Rightarrow> 'v pool \<Rightarrow> bool" where
  take: "brun (tasks s i) = In_queue \<Longrightarrow> bcall (tasks s i) \<noteq> Outside \<Longrightarrow> t > 0 \<Longrightarrow> busy s t = None \<Longrightarrow>
     pool_step s (s\<lparr>tasks := (tasks s)(i := (tasks s i)\<lparr>brun := Taken t\<rparr>), busy := (busy s)(t := Some i)\<rparr>)"
| own: "run_step (tasks s i) k \<or> abort_step (tasks s i) k \<or> caller_step (tasks s i) k \<Longrightarrow>
     pool_step s (s\<lparr>tasks := (tasks s)(i := k)\<rparr>)"
| throw: "bcall (tasks s i) = Throwing t \<Longrightarrow>
     pool_step s (s\<lparr>tasks := (tasks s)(i := (tasks s i)\<lparr>bcall := Wait_2\<rparr>), async_exc := (async_exc s)(t := True)\<rparr>)"
| hit: "brun (tasks s i) = Calling t \<Longrightarrow> async_exc s t \<Longrightarrow>
     pool_step s (s\<lparr>tasks := (tasks s)(i := (tasks s i)\<lparr>brun := Called t (Inl CancelledError)\<rparr>), async_exc := (async_exc s)(t := False)\<rparr>)"
| again: "brun (tasks s i) = Left t out \<Longrightarrow> busy s t = Some i \<Longrightarrow>
     pool_step s (s\<lparr>busy := (busy s)(t := None), async_exc := (async_exc s)(t := False)\<rparr>)"

definition pool_init :: "'v pool \<Rightarrow> bool" where
  "pool_init s \<longleftrightarrow> (\<forall>i. tasks s i = btask_new) \<and> (\<forall>t. busy s t = None \<and> \<not> async_exc s t)"

definition pool_reach :: "'v pool \<Rightarrow> bool" where
  "pool_reach = reach pool_init pool_step"

section \<open>The invariant of a task\<close>

definition slots :: "exn + 'v \<Rightarrow> 'v btask \<Rightarrow> bool" where
  "slots out k \<longleftrightarrow> berr k = Some (isl out) \<and> bval k = Some (slot_of out)"

definition blank :: "'v btask \<Rightarrow> bool" where
  "blank k \<longleftrightarrow> berr k = None \<and> bval k = None \<and> \<not> bev k"

definition run_ok :: "'v btask \<Rightarrow> bool" where
  "run_ok k \<longleftrightarrow> (case brun k of
     Calling _ \<Rightarrow> bstate k = Running \<and> blank k
   | Called _ _ \<Rightarrow> bstate k = Running \<and> blank k
   | Half _ out \<Rightarrow> bstate k = Running \<and> berr k = Some (isl out) \<and> bval k = None \<and> \<not> bev k
   | Full _ out \<Rightarrow> bstate k = Running \<and> slots out k \<and> \<not> bev k
   | Tid_reset _ out \<Rightarrow> bstate k = Running \<and> slots out k \<and> \<not> bev k
   | Done_set _ out \<Rightarrow> bstate k = Done \<and> slots out k \<and> \<not> bev k
   | Left _ (Some out) \<Rightarrow> bstate k = Done \<and> slots out k \<and> bev k
   | Left _ None \<Rightarrow> bstate k = Cancelled
   | _ \<Rightarrow> bstate k = Cancelled \<or> bstate k = Queued)"

definition withdrawn_ok :: "'v btask \<Rightarrow> bool" where
  "withdrawn_ok k \<longleftrightarrow> (case bcall k of
     C_half \<Rightarrow> blank k
   | C_full \<Rightarrow> berr k = Some True \<and> bval k = None \<and> \<not> bev k
   | C_notify \<Rightarrow> slots (Inl CancelledError) k \<and> \<not> bev k
   | Wait_2 \<Rightarrow> slots (Inl CancelledError) k \<and> bev k
   | Out r \<Rightarrow> r = Inl CancelledError
   | _ \<Rightarrow> False)"

text \<open>The outcome of the function, once it has one.\<close>

definition run_outcome :: "'v rpc \<Rightarrow> (exn + 'v) option" where
  "run_outcome r = (case r of Called _ out \<Rightarrow> Some out | Half _ out \<Rightarrow> Some out | Full _ out \<Rightarrow> Some out
     | Tid_reset _ out \<Rightarrow> Some out | Done_set _ out \<Rightarrow> Some out | Left _ out \<Rightarrow> out | _ \<Rightarrow> None)"

definition proper_result :: "exn + 'v \<Rightarrow> exn + 'v slot option" where
  "proper_result out = (case out of Inl e \<Rightarrow> Inl e | Inr v \<Rightarrow> Inr (Some (Val v)))"

definition torn_result :: "exn + 'v slot option \<Rightarrow> bool" where
  "torn_result r \<longleftrightarrow> r = Inr None \<or> r = Inl (TypeError ''exceptions must derive from BaseException'')"

definition caller_ok :: "'v btask \<Rightarrow> bool" where
  "caller_ok k \<longleftrightarrow> (case bcall k of
     Outside \<Rightarrow> \<not> bcancelled k
   | Wait_1 \<Rightarrow> \<not> bcancelled k
   | Fetching \<Rightarrow> bcancelled k \<or> bev k
   | Out r \<Rightarrow> (\<exists>out. run_outcome (brun k) = Some out \<and> r = proper_result out)
       \<or> bcancelled k \<and> (r = Inl CancelledError \<or> run_outcome (brun k) \<noteq> None \<and> torn_result r)
   | _ \<Rightarrow> bcancelled k)"

definition task_ok :: "'v btask \<Rightarrow> bool" where
  "task_ok k \<longleftrightarrow> run_ok k \<and> caller_ok k \<and> (bstate k = Queued \<longrightarrow> blank k)
     \<and> (bstate k = Cancelled \<longrightarrow> withdrawn_ok k) \<and> (bstate k \<noteq> Cancelled \<longrightarrow> bcall k \<noteq> C_half \<and> bcall k \<noteq> C_full \<and> bcall k \<noteq> C_notify)"

lemmas task_defs = task_ok_def run_ok_def caller_ok_def withdrawn_ok_def slots_def blank_def run_outcome_def

lemma blocking_result_slots: "blocking_result (Some (isl out)) (Some (slot_of out)) = proper_result out"
  by (cases out) (simp_all add: blocking_result_def slot_of_def proper_result_def)

lemma blocking_result_torn: "torn_result (blocking_result (Some b) None)"
  by (simp add: blocking_result_def torn_result_def)

lemma bcall_frame [simp]: "blank (k\<lparr>bcall := c\<rparr>) = blank k" "slots out (k\<lparr>bcall := c\<rparr>) = slots out k" "run_ok (k\<lparr>bcall := c\<rparr>) = run_ok k"
  by (simp_all add: blank_def slots_def run_ok_def split: rpc.splits option.splits)

lemma task_ok_new: "task_ok btask_new"
  by (simp add: task_defs btask_new_def)

lemma task_ok_run: "run_step k k' \<Longrightarrow> task_ok k \<Longrightarrow> task_ok k'"
  by (cases rule: run_step.cases, assumption)
     (auto simp: task_defs split: cpc.splits)

lemma task_ok_abort: "abort_step k k' \<Longrightarrow> task_ok k \<Longrightarrow> task_ok k'"
  by (cases rule: abort_step.cases, assumption)
     (auto simp: task_defs slot_of_def split: rpc.splits option.splits)

text \<open>What the caller can find in the slots when it looks at them.\<close>

lemma task_ok_look:
  assumes "task_ok k" "berr k = Some b" "bstate k \<noteq> Cancelled"
  shows "\<exists>out. run_outcome (brun k) = Some out \<and> (blocking_result (Some b) (bval k) = proper_result out
    \<or> \<not> bev k \<and> torn_result (blocking_result (Some b) (bval k)))"
  using assms by (cases "brun k")
    (auto simp: task_defs blocking_result_slots blocking_result_torn split: option.splits)

lemma task_ok_event: "task_ok k \<Longrightarrow> bev k \<Longrightarrow> bcall k = Wait_2 \<Longrightarrow> \<exists>b. berr k = Some b"
  by (cases "brun k") (auto simp: task_defs split: option.splits cpc.splits)

lemma task_ok_out:
  assumes "task_ok k" "berr k = Some b" "bcall k = Fetching \<or> bcall k = Wait_2 \<and> bev k"
  shows "task_ok (k\<lparr>bcall := Out (blocking_result (berr k) (bval k))\<rparr>)"
proof (cases "bstate k = Cancelled")
  case True
  then have "withdrawn_ok k" "caller_ok k" using assms(1) by (simp_all add: task_ok_def)
  then have "blocking_result (berr k) (bval k) = Inl CancelledError" "bcancelled k"
    using assms(3) by (auto simp: withdrawn_ok_def slots_def blocking_result_def slot_of_def caller_ok_def)
  then show ?thesis using assms(1) True by (simp add: task_ok_def caller_ok_def withdrawn_ok_def)
next
  case False
  from task_ok_look[OF assms(1,2) False] assms have "caller_ok (k\<lparr>bcall := Out (blocking_result (berr k) (bval k))\<rparr>)"
    by (auto simp: caller_ok_def task_ok_def)
  then show ?thesis using assms(1) False by (simp add: task_ok_def)
qed

lemma task_ok_caller:
  assumes "caller_step k k'" "task_ok k"
  shows "task_ok k'"
  using assms(1)
proof cases
  case fetch
  then show ?thesis using assms(2) task_ok_out[OF assms(2)]
    by (cases "berr k") (auto simp: task_defs split: rpc.splits option.splits)
next
  case wake_2
  then show ?thesis using task_ok_event[OF assms(2)] task_ok_out[OF assms(2)] by auto
qed (use assms(2) in \<open>auto simp: task_defs split: rpc.splits option.splits\<close>)

definition pool_inv :: "'v pool \<Rightarrow> bool" where
  "pool_inv s \<longleftrightarrow> (\<forall>i. task_ok (tasks s i))"

interpretation bp: step_system pool_init pool_step pool_inv
proof
  show "pool_inv t" if "pool_step s t" "pool_inv s" for s t :: "'a pool"
    using that(1)
  proof cases
    case (take i t)
    have "task_ok (tasks s i)" using that(2) by (simp add: pool_inv_def)
    then have "task_ok ((tasks s i)\<lparr>brun := Taken t\<rparr>)" using take by (auto simp: task_defs split: cpc.splits)
    then show ?thesis using take that(2) by (simp add: pool_inv_def)
  next
    case (own i k)
    moreover have "task_ok (tasks s i)" using that(2) by (simp add: pool_inv_def)
    ultimately have "task_ok k" using task_ok_run task_ok_abort task_ok_caller by blast
    then show ?thesis using own that(2) by (simp add: pool_inv_def)
  next
    case (throw i t)
    have "task_ok (tasks s i)" using that(2) by (simp add: pool_inv_def)
    then have "task_ok ((tasks s i)\<lparr>bcall := Wait_2\<rparr>)" using throw by (auto simp: task_defs split: rpc.splits option.splits)
    then show ?thesis using throw that(2) by (simp add: pool_inv_def)
  next
    case (hit i t)
    have "task_ok (tasks s i)" using that(2) by (simp add: pool_inv_def)
    then have "task_ok ((tasks s i)\<lparr>brun := Called t (Inl CancelledError)\<rparr>)" using hit
      by (intro task_ok_run[OF run_step.call]) auto
    then show ?thesis using hit that(2) by (simp add: pool_inv_def)
  qed (use that(2) in \<open>simp add: pool_inv_def\<close>)
qed (simp add: pool_init_def pool_inv_def task_ok_new)

text \<open>
  C25. What \<open>spawn_blocking\<close> gives its caller, whatever the threads do. A caller that was not cancelled gets what the
  function returned or raised, and only after it has. A cancelled caller gets that, or \<open>CancelledError\<close>, or, when it looked
  between the two stores of the thread, half of it: \<open>None\<close>, or a \<open>TypeError\<close> from \<open>raise None\<close>. And a task withdrawn from
  the queue is never run.
\<close>

theorem spawn_blocking_result:
  assumes "pool_reach s"
  shows "(\<forall>i r. bcall (tasks s i) = Out r \<longrightarrow>
      (\<exists>out. run_outcome (brun (tasks s i)) = Some out \<and> r = proper_result out)
      \<or> bcancelled (tasks s i) \<and> (r = Inl CancelledError \<or> run_outcome (brun (tasks s i)) \<noteq> None \<and> torn_result r)) \<and>
    (\<forall>i. bstate (tasks s i) = Cancelled \<longrightarrow> run_outcome (brun (tasks s i)) = None)"
proof -
  have "task_ok (tasks s i)" for i using bp.reach_inv assms by (auto simp: pool_reach_def pool_inv_def)
  then have k: "caller_ok (tasks s i)" "run_ok (tasks s i)" for i by (simp_all add: task_ok_def)
  have "run_outcome (brun (tasks s i)) = None" if "bstate (tasks s i) = Cancelled" for i
    using k(2)[of i] that by (simp add: run_ok_def run_outcome_def split: rpc.splits option.splits)
  moreover have "(\<exists>out. run_outcome (brun (tasks s i)) = Some out \<and> r = proper_result out)
      \<or> bcancelled (tasks s i) \<and> (r = Inl CancelledError \<or> run_outcome (brun (tasks s i)) \<noteq> None \<and> torn_result r)"
    if "bcall (tasks s i) = Out r" for i r using k(1)[of i] that by (simp add: caller_ok_def)
  ultimately show ?thesis by blast
qed

section \<open>Concrete runs\<close>

text \<open>Two tasks, on a thread with the number 5.\<close>

definition duo :: "'v btask \<Rightarrow> 'v btask \<Rightarrow> nat option \<Rightarrow> bool \<Rightarrow> 'v pool" where
  "duo k l b a = \<lparr>tasks = (\<lambda>_. btask_new)(0 := k, 1 := l), busy = (\<lambda>_. None)(5 := b), async_exc = (\<lambda>_. False)(5 := a)\<rparr>"

definition task_move :: "'v btask \<Rightarrow> 'v btask \<Rightarrow> bool" where
  "task_move k k' \<longleftrightarrow> run_step k k' \<or> abort_step k k' \<or> caller_step k k'"

lemma duo_init: "pool_reach (duo btask_new btask_new None False)"
  unfolding pool_reach_def by (rule reach.start) (simp add: pool_init_def duo_def)

lemma duo_own_0: "task_move\<^sup>*\<^sup>* k k' \<Longrightarrow> pool_reach (duo k l b a) \<Longrightarrow> pool_reach (duo k' l b a)"
proof (induction rule: rtranclp_induct)
  case (step y z)
  have "pool_step (duo y l b a) ((duo y l b a)\<lparr>tasks := (tasks (duo y l b a))(0 := z)\<rparr>)"
    using step.hyps(2) by (intro pool_step.own) (simp add: duo_def task_move_def)
  moreover have "(duo y l b a)\<lparr>tasks := (tasks (duo y l b a))(0 := z)\<rparr> = duo z l b a" by (simp add: duo_def fun_eq_iff)
  ultimately show ?case using step by (auto simp: pool_reach_def intro: reach.next_state)
qed

lemma duo_own_1: "task_move\<^sup>*\<^sup>* l l' \<Longrightarrow> pool_reach (duo k l b a) \<Longrightarrow> pool_reach (duo k l' b a)"
proof (induction rule: rtranclp_induct)
  case (step y z)
  have "pool_step (duo k y b a) ((duo k y b a)\<lparr>tasks := (tasks (duo k y b a))(1 := z)\<rparr>)"
    using step.hyps(2) by (intro pool_step.own) (simp add: duo_def task_move_def)
  moreover have "(duo k y b a)\<lparr>tasks := (tasks (duo k y b a))(1 := z)\<rparr> = duo k z b a" by (simp add: duo_def fun_eq_iff)
  ultimately show ?case using step by (auto simp: pool_reach_def intro: reach.next_state)
qed

text \<open>The stretches of a run of one task: the record is written out so that each step is one rewrite.\<close>

abbreviation tk :: "task_state \<Rightarrow> nat \<Rightarrow> bool \<Rightarrow> bool option \<Rightarrow> 'v slot option \<Rightarrow> 'v rpc \<Rightarrow> 'v cpc \<Rightarrow> bool \<Rightarrow> 'v btask" where
  "tk st t ev err v run call c \<equiv> \<lparr>bstate = st, btid = t, bev = ev, berr = err, bval = v, brun = run, bcall = call, bcancelled = c\<rparr>"

lemma tk_submit: "task_move\<^sup>*\<^sup>* (btask_new :: 'v btask) (tk Queued 0 False None None In_queue Wait_1 False)"
  by (rule r_into_rtranclp) (use caller_step.submit[of "btask_new :: 'v btask"] in \<open>simp add: btask_new_def task_move_def\<close>)

lemma tk_begin: "task_move\<^sup>*\<^sup>* (tk Queued 0 False None None (Taken t) c d) (tk Running t False None None (Calling t) c d)"
proof -
  have "task_move (tk Queued 0 False None None (Taken t) c d) (tk Queued t False None None (Published t) c d)"
    using run_step.publish[of "tk Queued 0 False None None (Taken t) c d" t] by (simp add: task_move_def)
  moreover have "task_move (tk Queued t False None None (Published t) c d) (tk Running t False None None (Calling t) c d)"
    using run_step.begin_ok[of "tk Queued t False None None (Published t) c d" t Running] by (simp add: task_move_def)
  ultimately show ?thesis by (meson converse_rtranclp_into_rtranclp rtranclp.rtrancl_refl)
qed

lemma tk_half: "task_move\<^sup>*\<^sup>* (tk Running t False None None (Calling t) c d) (tk Running t False (Some (isl out)) None (Half t out) c d)"
proof -
  have "task_move (tk Running t False None None (Calling t) c d) (tk Running t False None None (Called t out) c d)"
    using run_step.call[of "tk Running t False None None (Calling t) c d" t out] by (simp add: task_move_def)
  moreover have "task_move (tk Running t False None None (Called t out) c d) (tk Running t False (Some (isl out)) None (Half t out) c d)"
    using run_step.store_0[of "tk Running t False None None (Called t out) c d" t out] by (simp add: task_move_def)
  ultimately show ?thesis by (meson converse_rtranclp_into_rtranclp rtranclp.rtrancl_refl)
qed

lemma tk_finish: "task_move\<^sup>*\<^sup>* (tk Running t False (Some (isl out)) None (Half t out) c d)
    (tk Done 0 True (Some (isl out)) (Some (slot_of out)) (Left t (Some out)) c d)"
proof -
  let ?e = "Some (isl out)" and ?v = "Some (slot_of out)"
  have "task_move (tk Running t False ?e None (Half t out) c d) (tk Running t False ?e ?v (Full t out) c d)"
    using run_step.store_1[of "tk Running t False ?e None (Half t out) c d" t out] by (simp add: task_move_def)
  moreover have "task_move (tk Running t False ?e ?v (Full t out) c d) (tk Running 0 False ?e ?v (Tid_reset t out) c d)"
    using run_step.finish_tid[of "tk Running t False ?e ?v (Full t out) c d" t out] by (simp add: task_move_def)
  moreover have "task_move (tk Running 0 False ?e ?v (Tid_reset t out) c d) (tk Done 0 False ?e ?v (Done_set t out) c d)"
    using run_step.finish[of "tk Running 0 False ?e ?v (Tid_reset t out) c d" t out] by (simp add: task_move_def)
  moreover have "task_move (tk Done 0 False ?e ?v (Done_set t out) c d) (tk Done 0 True ?e ?v (Left t (Some out)) c d)"
    using run_step.notify[of "tk Done 0 False ?e ?v (Done_set t out) c d" t out] by (simp add: task_move_def)
  ultimately show ?thesis by (meson converse_rtranclp_into_rtranclp rtranclp.rtrancl_refl)
qed

text \<open>The task of number 0 on the thread, and the thread free again.\<close>

lemma duo_take_0:
  assumes "pool_reach (duo (tk Queued 0 False None None In_queue Wait_1 False) l None a)"
  shows "pool_reach (duo (tk Queued 0 False None None (Taken 5) Wait_1 False) l (Some 0) a)" (is "pool_reach ?t")
proof -
  let ?s = "duo (tk Queued 0 False None None In_queue Wait_1 False) l None a"
  have "pool_step ?s (?s\<lparr>tasks := (tasks ?s)(0 := (tasks ?s 0)\<lparr>brun := Taken 5\<rparr>), busy := (busy ?s)(5 := Some 0)\<rparr>)"
    by (rule pool_step.take) (simp_all add: duo_def)
  moreover have "?s\<lparr>tasks := (tasks ?s)(0 := (tasks ?s 0)\<lparr>brun := Taken 5\<rparr>), busy := (busy ?s)(5 := Some 0)\<rparr> = ?t"
    by (simp add: duo_def fun_eq_iff)
  ultimately show ?thesis using assms by (simp add: pool_reach_def reach.next_state)
qed

lemma duo_take_1:
  assumes "pool_reach (duo k (tk Queued 0 False None None In_queue Wait_1 False) None a)"
  shows "pool_reach (duo k (tk Queued 0 False None None (Taken 5) Wait_1 False) (Some 1) a)" (is "pool_reach ?t")
proof -
  let ?s = "duo k (tk Queued 0 False None None In_queue Wait_1 False) None a"
  have "pool_step ?s (?s\<lparr>tasks := (tasks ?s)(1 := (tasks ?s 1)\<lparr>brun := Taken 5\<rparr>), busy := (busy ?s)(5 := Some 1)\<rparr>)"
    by (rule pool_step.take) (simp_all add: duo_def)
  moreover have "?s\<lparr>tasks := (tasks ?s)(1 := (tasks ?s 1)\<lparr>brun := Taken 5\<rparr>), busy := (busy ?s)(5 := Some 1)\<rparr> = ?t"
    by (simp add: duo_def fun_eq_iff)
  ultimately show ?thesis using assms by (simp add: pool_reach_def reach.next_state)
qed

lemma duo_again:
  assumes "pool_reach (duo k l (Some 0) a)" "brun k = Left 5 out"
  shows "pool_reach (duo k l None False)"
proof -
  let ?s = "duo k l (Some 0) a"
  have "pool_step ?s (?s\<lparr>busy := (busy ?s)(5 := None), async_exc := (async_exc ?s)(5 := False)\<rparr>)"
    using assms(2) by (intro pool_step.again[where i = 0]) (simp_all add: duo_def)
  moreover have "?s\<lparr>busy := (busy ?s)(5 := None), async_exc := (async_exc ?s)(5 := False)\<rparr> = duo k l None False"
    by (simp add: duo_def fun_eq_iff)
  ultimately show ?thesis using assms(1) by (simp add: pool_reach_def reach.next_state)
qed

lemma duo_started:
  "pool_reach (duo (tk Running 5 False None None (Calling 5) Wait_1 False) (btask_new :: 'v btask) (Some 0) False)"
  by (rule duo_own_0[OF tk_begin], rule duo_take_0, rule duo_own_0[OF tk_submit], rule duo_init)

lemma tk_fetch:
  assumes "err \<noteq> None"
  shows "task_move\<^sup>*\<^sup>* (tk st t True err v r Wait_1 d) (tk st t True err v r (Out (blocking_result err v)) d)"
proof -
  have "task_move (tk st t True err v r Wait_1 d) (tk st t True err v r Fetching d)"
    using caller_step.wake[of "tk st t True err v r Wait_1 d"] by (simp add: task_move_def)
  moreover have "task_move (tk st t True err v r Fetching d) (tk st t True err v r (Out (blocking_result err v)) d)"
    using caller_step.fetch[of "tk st t True err v r Fetching d"] assms by (simp add: task_move_def)
  ultimately show ?thesis by (meson converse_rtranclp_into_rtranclp rtranclp.rtrancl_refl)
qed

theorem spawn_blocking_result_witness:
  "\<exists>s :: nat pool. pool_reach s \<and> bcall (tasks s 0) = Out (Inr (Some (Val 7))) \<and> \<not> bcancelled (tasks s 0) \<and>
     run_outcome (brun (tasks s 0)) = Some (Inr 7)"
proof -
  let ?o = "Inr 7 :: exn + nat"
  let ?s = "duo (tk Done 0 True (Some False) (Some (Val 7)) (Left 5 (Some ?o)) (Out (Inr (Some (Val 7)))) False) btask_new (Some 0) False"
  have "pool_reach (duo (tk Done 0 True (Some (isl ?o)) (Some (slot_of ?o)) (Left 5 (Some ?o)) Wait_1 False) btask_new (Some 0) False)"
    by (rule duo_own_0[OF tk_finish], rule duo_own_0[OF tk_half], rule duo_started)
  then have "pool_reach (duo (tk Done 0 True (Some False) (Some (Val 7)) (Left 5 (Some ?o)) Wait_1 False) btask_new (Some 0) False)"
    by (simp add: slot_of_def)
  then have r: "pool_reach ?s" using duo_own_0[OF tk_fetch] by (fastforce simp: blocking_result_def)
  then show ?thesis using spawn_blocking_result[OF r]
    by (intro exI[of _ ?s]) (auto simp: duo_def proper_result_def run_outcome_def)
qed

text \<open>
  The two stores of the result are separate: a caller that is cancelled just then sees the first and not the second.
  The function returned 7, the call of \<open>spawn_blocking\<close> returns \<open>None\<close>.
\<close>

theorem spawn_blocking_torn_read:
  "\<exists>s :: nat pool. pool_reach s \<and> run_outcome (brun (tasks s 0)) = Some (Inr 7) \<and> bcall (tasks s 0) = Out (Inr None)"
proof -
  let ?o = "Inr 7 :: exn + nat"
  let ?k = "\<lambda>c d. tk Running 5 False (Some False) None (Half 5 ?o) c d"
  have "task_move (?k Wait_1 False) (?k Fetching True)"
    using caller_step.cancelled[of "?k Wait_1 False"] by (simp add: task_move_def)
  moreover have "task_move (?k Fetching True) (?k (Out (Inr None)) True)"
    using caller_step.fetch[of "?k Fetching True"] by (simp add: task_move_def blocking_result_def)
  ultimately have "task_move\<^sup>*\<^sup>* (?k Wait_1 False) (?k (Out (Inr None)) True)"
    by (meson converse_rtranclp_into_rtranclp rtranclp.rtrancl_refl)
  moreover have "pool_reach (duo (?k Wait_1 False) btask_new (Some 0) False)"
    using duo_own_0[OF tk_half duo_started, of ?o] by simp
  ultimately have "pool_reach (duo (?k (Out (Inr None)) True) btask_new (Some 0) False)" by (rule duo_own_0)
  then show ?thesis by (intro exI[of _ "duo (?k (Out (Inr None)) True) btask_new (Some 0) False"]) (simp add: duo_def run_outcome_def)
qed

text \<open>A caller cancelled while its task runs, up to the asynchronous exception.\<close>

lemma tk_abort:
  assumes "t > 0"
  shows "task_move\<^sup>*\<^sup>* (tk Running t False None None r Wait_1 False) (tk Running t False None None r (Throwing t) True)"
proof -
  let ?k = "\<lambda>c. tk Running t False None None r c True"
  have "task_move (tk Running t False None None r Wait_1 False) (?k Fetching)"
    using caller_step.cancelled[of "tk Running t False None None r Wait_1 False"] by (simp add: task_move_def)
  moreover have "task_move (?k Fetching) (?k Aborting)" using caller_step.fetch[of "?k Fetching"] by (simp add: task_move_def)
  moreover have "task_move (?k Aborting) (?k Load_tid)" using abort_step.not_queued[of "?k Aborting"] by (simp add: task_move_def)
  moreover have "task_move (?k Load_tid) (?k (Throwing t))" using abort_step.load_tid[of "?k Load_tid"] assms by (simp add: task_move_def)
  ultimately show ?thesis by (meson converse_rtranclp_into_rtranclp rtranclp.rtrancl_refl)
qed

lemma duo_throw:
  assumes "pool_reach (duo (tk st u ev err v r (Throwing 5) d) l b a)"
  shows "pool_reach (duo (tk st u ev err v r Wait_2 d) l b True)" (is "pool_reach ?t")
proof -
  let ?s = "duo (tk st u ev err v r (Throwing 5) d) l b a"
  have "pool_step ?s (?s\<lparr>tasks := (tasks ?s)(0 := (tasks ?s 0)\<lparr>bcall := Wait_2\<rparr>), async_exc := (async_exc ?s)(5 := True)\<rparr>)"
    by (rule pool_step.throw) (simp add: duo_def)
  moreover have "?s\<lparr>tasks := (tasks ?s)(0 := (tasks ?s 0)\<lparr>bcall := Wait_2\<rparr>), async_exc := (async_exc ?s)(5 := True)\<rparr> = ?t"
    by (simp add: duo_def fun_eq_iff)
  ultimately show ?thesis using assms by (simp add: pool_reach_def reach.next_state)
qed

lemma duo_hit:
  assumes "pool_reach (duo k (tk Running 5 ev err v (Calling 5) c d) b True)"
  shows "pool_reach (duo k (tk Running 5 ev err v (Called 5 (Inl CancelledError)) c d) b False)" (is "pool_reach ?t")
proof -
  let ?s = "duo k (tk Running 5 ev err v (Calling 5) c d) b True"
  let ?u = "?s\<lparr>tasks := (tasks ?s)(1 := (tasks ?s 1)\<lparr>brun := Called 5 (Inl CancelledError)\<rparr>), async_exc := (async_exc ?s)(5 := False)\<rparr>"
  have "pool_step ?s ?u" by (rule pool_step.hit) (simp_all add: duo_def)
  moreover have "?u = ?t" by (simp add: duo_def fun_eq_iff)
  ultimately show ?thesis using assms by (simp add: pool_reach_def reach.next_state)
qed

text \<open>
  An abort can hit another task. The aborting caller has read the thread's id while its own task was running; by
  the time it throws, that task has returned its value and the thread runs the task of another caller, who was never
  cancelled and whose function now ends with \<open>CancelledError\<close>.
\<close>

theorem abort_hits_other_task:
  "\<exists>s :: nat pool. pool_reach s \<and> run_outcome (brun (tasks s 0)) = Some (Inr 7) \<and>
     run_outcome (brun (tasks s 1)) = Some (Inl CancelledError) \<and> \<not> bcancelled (tasks s 1) \<and> bcall (tasks s 1) = Wait_1"
proof -
  let ?o = "Inr 7 :: exn + nat"
  let ?d = "\<lambda>c. tk Done 0 True (Some False) (Some (Val 7)) (Left 5 (Some ?o)) c True"
  have "task_move\<^sup>*\<^sup>* (tk Running 5 False None None (Calling 5) (Throwing 5) True) (?d (Throwing 5))"
    using rtranclp_trans[OF tk_half tk_finish, of 5 "Throwing 5" True ?o] by (simp add: slot_of_def)
  moreover have "pool_reach (duo (tk Running 5 False None None (Calling 5) (Throwing 5) True) (btask_new :: nat btask) (Some 0) False)"
    by (rule duo_own_0[OF tk_abort duo_started]) simp
  ultimately have "pool_reach (duo (?d (Throwing 5)) btask_new (Some 0) False)" by (rule duo_own_0)
  then have "pool_reach (duo (?d (Throwing 5)) btask_new None False)" by (rule duo_again) simp
  then have "pool_reach (duo (?d (Throwing 5)) (tk Running 5 False None None (Calling 5) Wait_1 False) (Some 1) False)"
    by (intro duo_own_1[OF tk_begin] duo_take_1 duo_own_1[OF tk_submit])
  then have "pool_reach (duo (?d Wait_2) (tk Running 5 False None None (Called 5 (Inl CancelledError)) Wait_1 False) (Some 1) False)"
    by (intro duo_hit duo_throw)
  then show ?thesis
    by (intro exI[of _ "duo (?d Wait_2) (tk Running 5 False None None (Called 5 (Inl CancelledError)) Wait_1 False) (Some 1) False"])
       (simp add: duo_def run_outcome_def)
qed

end
