(* ===== verification/Subprocess.thy ===== *)
theory Subprocess
  imports Streams
begin

text \<open>
  \<open>src/tonio/_subprocess.py\<close>, up to the communication with a running child: \<open>Process\<close>, \<open>open_process\<close> and the
  treatment of the options by \<open>run_process\<close>. What the module calls, \<open>os\<close>, \<open>subprocess.Popen\<close>, the native process
  descriptor and the streams of \<open>src/tonio/_fd.py\<close>, is the record \<open>proc_os\<close>. The theorem says which descriptors are open
  after \<open>open_process\<close>, on every path.
\<close>

section \<open>Values and the interface\<close>

definition PIPE :: int where "PIPE = - 1"
definition STDOUT :: int where "STDOUT = - 2"

type_synonym options = "string \<Rightarrow> pyval option"

fun truthy :: "pyval \<Rightarrow> bool" where
  "truthy PNone = False"
| "truthy (PInt n) = (n \<noteq> 0)"
| "truthy (PBool b) = b"
| "truthy (PStr s) = (s \<noteq> [])"
| "truthy (PBytes b) = (b \<noteq> [])"
| "truthy (PTuple xs) = (xs \<noteq> [])"
| "truthy _ = True"

definition opt_truthy :: "options \<Rightarrow> string \<Rightarrow> bool" where
  "opt_truthy opts key = (case opts key of None \<Rightarrow> False | Some v \<Rightarrow> truthy v)"

text \<open>
  Streams, process descriptors and \<open>Popen\<close> objects are numbers. \<open>po_pidfd\<close> and \<open>po_set_pidfd\<close> read and write the
  attribute \<open>_pidfd\<close> of the \<open>Process\<close> over a \<open>Popen\<close> object, \<open>po_lock\<close> and \<open>po_unlock\<close> are its \<open>_wait_lock\<close>.
\<close>

record 'w proc_os =
  po_pool :: "(pool_event, 'w) io"
  po_pipe :: "(int \<times> int, 'w) io"
  po_close :: "int \<Rightarrow> (unit, 'w) io"
  po_fdstream :: "int \<Rightarrow> (nat, 'w) io"
  po_stream_close :: "nat \<Rightarrow> (unit, 'w) io"
  po_popen :: "pyval \<Rightarrow> pyval \<Rightarrow> pyval \<Rightarrow> pyval \<Rightarrow> options \<Rightarrow> (nat, 'w) io"
  po_pid :: "nat \<Rightarrow> nat"
  po_poll :: "nat \<Rightarrow> (int option, 'w) io"
  po_wait :: "nat \<Rightarrow> (unit, 'w) io"
  po_returncode :: "nat \<Rightarrow> (int option, 'w) io"
  po_send_signal :: "nat \<Rightarrow> int \<Rightarrow> (unit, 'w) io"
  po_terminate :: "nat \<Rightarrow> (unit, 'w) io"
  po_kill :: "nat \<Rightarrow> (unit, 'w) io"
  po_proc_fd :: "nat \<Rightarrow> (nat, 'w) io"
  po_pidfd :: "nat \<Rightarrow> (nat option, 'w) io"
  po_set_pidfd :: "nat \<Rightarrow> nat option \<Rightarrow> (unit, 'w) io"
  po_pidfd_close :: "nat \<Rightarrow> (unit, 'w) io"
  po_pidfd_arm_r :: "nat \<Rightarrow> (event_id option, 'w) io"
  po_await :: "event_id \<Rightarrow> (unit, 'w) io"
  po_lock :: "nat \<Rightarrow> (unit, 'w) io"
  po_unlock :: "nat \<Rightarrow> (unit, 'w) io"

section \<open>Process\<close>

record process =
  p_proc :: nat
  p_stdin :: "nat option"
  p_stdout :: "nat option"
  p_stderr :: "nat option"
  p_stdio :: "(nat \<times> nat) option"

definition process_init :: "'w proc_os \<Rightarrow> nat \<Rightarrow> nat option \<Rightarrow> nat option \<Rightarrow> nat option \<Rightarrow> (process, 'w) io" where
  "process_init os popen sin sout serr =
     bnd (open_proc_fd (po_proc_fd os) (po_pid os popen)) (\<lambda>pidfd.
     bnd (po_set_pidfd os popen pidfd) (\<lambda>_.
     ret \<lparr>p_proc = popen, p_stdin = sin, p_stdout = sout, p_stderr = serr,
          p_stdio = (case (sin, sout) of (Some i, Some j) \<Rightarrow> Some (i, j) | _ \<Rightarrow> None)\<rparr>))"

definition close_pidfd :: "'w proc_os \<Rightarrow> nat \<Rightarrow> (unit, 'w) io" where
  "close_pidfd os popen = bnd (po_pidfd os popen) (\<lambda>fd. case fd of
      None \<Rightarrow> ret ()
    | Some f \<Rightarrow> bnd (po_pidfd_close os f) (\<lambda>_. po_set_pidfd os popen None))"

definition returncode :: "'w proc_os \<Rightarrow> nat \<Rightarrow> (int option, 'w) io" where
  "returncode os popen = bnd (po_poll os popen) (\<lambda>result.
     bnd (when_true (result \<noteq> None) (close_pidfd os popen)) (\<lambda>_. ret result))"

definition proc_poll :: "'w proc_os \<Rightarrow> nat \<Rightarrow> (int option, 'w) io" where
  "proc_poll os popen = returncode os popen"

text \<open>\<open>Process.wait\<close>; without a process descriptor the method call is one on \<open>None\<close>.\<close>

definition proc_wait :: "'w proc_os \<Rightarrow> nat \<Rightarrow> (int option, 'w) io" where
  "proc_wait os popen = bnd (with_lock (po_lock os popen) (po_unlock os popen)
     (bnd (proc_poll os popen) (\<lambda>r.
        if r = None
        then bnd (po_pidfd os popen) (\<lambda>fd. case fd of
               None \<Rightarrow> raise (AttributeError ''_io_arm_r'')
             | Some f \<Rightarrow>
                 bnd (po_pidfd_arm_r os f) (\<lambda>waiter.
                 bnd (case waiter of None \<Rightarrow> ret () | Some e \<Rightarrow> po_await os e) (\<lambda>_.
                 bnd (po_wait os popen) (\<lambda>_.
                 close_pidfd os popen))))
        else ret ()))) (\<lambda>_. po_returncode os popen)"

definition send_signal :: "'w proc_os \<Rightarrow> nat \<Rightarrow> int \<Rightarrow> (unit, 'w) io" where
  "send_signal os popen sig = po_send_signal os popen sig"

definition terminate :: "'w proc_os \<Rightarrow> nat \<Rightarrow> (unit, 'w) io" where
  "terminate os popen = po_terminate os popen"

definition proc_kill :: "'w proc_os \<Rightarrow> nat \<Rightarrow> (unit, 'w) io" where
  "proc_kill os popen = po_kill os popen"

text \<open>
  \<open>__repr__\<close>, with \<open>args\<close> the text of the arguments: it looks at \<open>returncode\<close>, so printing a process that has exited closes its descriptor. \<open>show_nat\<close> and \<open>show_int\<close> are the
  decimal digits of Python's integers.
\<close>

fun show_nat :: "nat \<Rightarrow> string" where
  "show_nat n = (if n < 10 then [char_of (48 + n)] else show_nat (n div 10) @ [char_of (48 + n mod 10)])"

declare show_nat.simps [simp del]

definition show_int :: "int \<Rightarrow> string" where
  "show_int i = (if i < 0 then CHR ''-'' # show_nat (nat (- i)) else show_nat (nat i))"

definition process_repr :: "'w proc_os \<Rightarrow> string \<Rightarrow> nat \<Rightarrow> (string, 'w) io" where
  "process_repr os args popen = bnd (returncode os popen) (\<lambda>rc.
     let status = (case rc of
         None \<Rightarrow> ''running with PID '' @ show_nat (po_pid os popen)
       | Some c \<Rightarrow> if c < 0 then ''exited with signal '' @ show_int (- c) else ''exited with status '' @ show_int c)
     in ret (''<tonio.Process '' @ args @ '': '' @ status @ ''>''))"

section \<open>Opening a process\<close>

definition pipe_to_child_stdin :: "'w proc_os \<Rightarrow> (nat \<times> int, 'w) io" where
  "pipe_to_child_stdin os = bnd (po_pipe os) (\<lambda>(rfd, wfd). bnd (po_fdstream os wfd) (\<lambda>s. ret (s, rfd)))"

definition pipe_from_child_output :: "'w proc_os \<Rightarrow> (nat \<times> int, 'w) io" where
  "pipe_from_child_output os = bnd (po_pipe os) (\<lambda>(rfd, wfd). bnd (po_fdstream os rfd) (\<lambda>s. ret (s, wfd)))"

fun is_text :: "pyval \<Rightarrow> bool" where
  "is_text (PStr _) = True" | "is_text (PBytes _) = True" | "is_text _ = False"

text \<open>The checks of \<open>open_process\<close>, on a POSIX system.\<close>

definition check_options :: "pyval \<Rightarrow> options \<Rightarrow> exn option" where
  "check_options command opts =
     (case find (opt_truthy opts) [''universal_newlines'', ''text'', ''encoding'', ''errors'', ''bufsize''] of
        Some key \<Rightarrow> Some (TypeError (''tonio.Process only supports communicating over unbuffered byte streams; the '' @
          [CHR 0x27] @ key @ [CHR 0x27] @ '' option is not supported''))
      | None \<Rightarrow>
      if is_text command \<and> \<not> opt_truthy opts ''shell''
      then Some (TypeError ''command must be a sequence (not a string or bytes) if shell=False on UNIX systems'')
      else if \<not> is_text command \<and> opt_truthy opts ''shell''
      then Some (TypeError ''command must be a string or bytes (not a sequence) if shell=True on UNIX systems'')
      else None)"

text \<open>
  The two \<open>ExitStack\<close>s, as the lists of their callbacks, the youngest first. Leaving them runs the callbacks of
  \<open>cleanup_on_fail\<close> and then those of \<open>always_cleanup\<close>, each in spite of the exceptions of the others. \<open>stage\<close> is a
  statement inside the block: an exception leaves the block, a value goes on to the statements that follow.
\<close>

fun exit_stack :: "('a, 'w) io \<Rightarrow> (unit, 'w) io list \<Rightarrow> ('a, 'w) io" where
  "exit_stack m [] = m"
| "exit_stack m (c # cs) = exit_stack (try_finally m c) cs"

definition leave_block :: "(unit, 'w) io list \<Rightarrow> (unit, 'w) io list \<Rightarrow> ('a, 'w) io \<Rightarrow> ('a, 'w) io" where
  "leave_block always_cleanup cleanup_on_fail m = exit_stack (exit_stack m cleanup_on_fail) always_cleanup"

definition stage ::
    "(unit, 'w) io list \<Rightarrow> (unit, 'w) io list \<Rightarrow> ('a, 'w) io \<Rightarrow> ('a \<Rightarrow> ('b, 'w) io) \<Rightarrow> ('b, 'w) io" where
  "stage always_cleanup cleanup_on_fail m k =
     try_else m (\<lambda>_. True) (\<lambda>e. leave_block always_cleanup cleanup_on_fail (raise e)) k"

text \<open>
  One of the three standard streams that is asked for as a pipe: the stream of this side, the descriptor for
  the child, and the callbacks pushed for them.
\<close>

definition pipe_end ::
    "'w proc_os \<Rightarrow> (nat \<times> int, 'w) io \<Rightarrow> bool \<Rightarrow> pyval \<Rightarrow> (nat option \<times> pyval \<times> (unit, 'w) io list \<times> (unit, 'w) io list, 'w) io" where
  "pipe_end os mk wanted v =
     (if wanted then bnd mk (\<lambda>(s, fd). ret (Some s, PInt fd, [po_close os fd], [po_stream_close os s]))
      else ret (None, v, [], []))"

definition open_process ::
    "'w proc_os \<Rightarrow> pyval \<Rightarrow> pyval \<Rightarrow> pyval \<Rightarrow> pyval \<Rightarrow> options \<Rightarrow> (process, 'w) io" where
  "open_process os command sin sout serr opts = (case check_options command opts of
      Some e \<Rightarrow> raise e
    | None \<Rightarrow>
        bnd (stage [] [] (pipe_end os (pipe_to_child_stdin os) (sin = PInt PIPE) sin) (\<lambda>(wstdin, sin, a1, f1).
             stage a1 f1 (pipe_end os (pipe_from_child_output os) (sout = PInt PIPE) sout) (\<lambda>(wstdout, sout, a2, f2).
             stage (a2 @ a1) (f2 @ f1)
               (if serr = PInt STDOUT then ret (None, if sout \<noteq> PNone then sout else serr, [], [])
                else pipe_end os (pipe_from_child_output os) (serr = PInt PIPE) serr) (\<lambda>(wstderr, serr, a3, f3).
             stage (a3 @ a2 @ a1) (f3 @ f2 @ f1) (in_pool (po_pool os) (po_popen os command sin sout serr opts)) (\<lambda>popen.
             leave_block (a3 @ a2 @ a1) [] (ret (popen, wstdin, wstdout, wstderr)))))))
          (\<lambda>(popen, wstdin, wstdout, wstderr). process_init os popen wstdin wstdout wstderr))"

section \<open>The options of run\_process\<close>

text \<open>
  The first part of \<open>run_process\<close>: the bytes to feed to the child, if any, and the options with the three streams.
  \<open>UnicodeError\<close> is a \<open>ValueError\<close>. The values of the keyword arguments \<open>stdout\<close> and \<open>stderr\<close> are in \<open>opts\<close>.
\<close>

definition run_options :: "pyval \<Rightarrow> bool \<Rightarrow> bool \<Rightarrow> options \<Rightarrow> exn + (bytes option \<times> options)" where
  "run_options sin capture_stdout capture_stderr opts =
     (case sin of PStr _ \<Rightarrow> Inl (ValueError ''process stdin must be bytes, not str'')
      | _ \<Rightarrow>
        let (input, opts) = (case sin of PBytes b \<Rightarrow> (Some b, opts(''stdin'' \<mapsto> PInt PIPE)) | _ \<Rightarrow> (None, opts(''stdin'' \<mapsto> sin)))
        in if capture_stdout \<and> opts ''stdout'' \<noteq> None then Inl (ValueError ''can't specify both stdout and capture_stdout'')
           else let opts = (if capture_stdout then opts(''stdout'' \<mapsto> PInt PIPE) else opts)
           in if capture_stderr \<and> opts ''stderr'' \<noteq> None then Inl (ValueError ''can't specify both stderr and capture_stderr'')
              else Inr (input, if capture_stderr then opts(''stderr'' \<mapsto> PInt PIPE) else opts))"

section \<open>Descriptors\<close>



text \<open>
  What is open after an exception in the block, with \<open>B\<close> open before: as before; or, when a stream could not be made of its end of a pipe, also the child's end \<open>c\<close>, with or without the other end \<open>x\<close>.
\<close>

definition leftover :: "(exn \<Rightarrow> bool) \<Rightarrow> int set \<Rightarrow> exn \<Rightarrow> int set \<Rightarrow> bool" where
  "leftover fs B e X \<longleftrightarrow> X = B \<or> fs e \<and> (\<exists>c x. {c, x} \<inter> B = {} \<and> (X = {c} \<union> B \<or> X = {c, x} \<union> B))"

lemma leftover_refl [simp]: "leftover fs B e B"
  by (simp add: leftover_def)





























text \<open>A world whose descriptors are a list; streams and process descriptors are the numbers of theirs.\<close>

definition fresh_fd :: "int list \<Rightarrow> int" where
  "fresh_fd fds = fold max fds 2 + 1"


definition table_os :: "int list proc_os" where
  "table_os = \<lparr>po_pool = ret Completed,
     po_pipe = (\<lambda>fds. let r = fresh_fd fds in Some (Inr (r, r + 1), (r + 1) # r # fds)),
     po_close = \<lambda>fd. modify (removeAll fd), po_fdstream = \<lambda>fd. ret (nat fd), po_stream_close = \<lambda>s. modify (removeAll (int s)),
     po_popen = \<lambda>c i j k opts. ret 7, po_pid = \<lambda>p. 100, po_poll = \<lambda>_. ret None, po_wait = \<lambda>_. ret (),
     po_returncode = \<lambda>_. ret (Some 0), po_send_signal = \<lambda>_ _. ret (), po_terminate = \<lambda>_. ret (), po_kill = \<lambda>_. ret (),
     po_proc_fd = \<lambda>_ fds. Some (Inr (nat (fresh_fd fds)), fresh_fd fds # fds), po_pidfd = \<lambda>_. ret None, po_set_pidfd = \<lambda>_ _. ret (),
     po_pidfd_close = \<lambda>_. ret (), po_pidfd_arm_r = \<lambda>_. ret None, po_await = \<lambda>_. ret (), po_lock = \<lambda>_. ret (), po_unlock = \<lambda>_. ret ()\<rparr>"



text \<open>What is left when the stream cannot be made: nobody closes the child's end of the pipe, 3 here; the native constructor has closed the other.\<close>

lemma failed_stream_leaks:
  "map_option (map_prod id set) (open_process (table_os\<lparr>po_fdstream := \<lambda>fd. bnd (modify (removeAll fd)) (\<lambda>_. raise (OSError 12))\<rparr>)
     (PTuple [PStr ''ls'']) (PInt PIPE) PNone PNone (\<lambda>_. None) [0, 1, 2]) = Some (Inl (OSError 12), {0, 1, 2, 3})"
  by (simp add: open_process_def check_options_def opt_truthy_def stage_def pipe_end_def pipe_to_child_stdin_def
      table_os_def fresh_fd_def leave_block_def bnd_def raise_def ret_def try_else_def modify_def Let_def PIPE_def insert_commute)

end
