(* ===== verification/Run_Process.thy ===== *)
theory Run_Process
  imports Subprocess
begin

text \<open>
  \<open>run_process\<close> of \<open>src/tonio/_subprocess.py\<close> once the child is started: the tasks \<open>feed_input\<close> and \<open>read_output\<close>, the wait for the
  exit, the join and the result. The tasks, the child and its descendants run in parallel, so this part is a step relation; a step of
  a task is one call of its stream (\<open>Socket_Props\<close> says what those calls do). A pipe stays open as
  long as anybody holds its writing end, which need not be until the child exits.
\<close>

section \<open>State\<close>

text \<open>
  An output of the child: what is in the pipe, whether a writer is left, the chunks collected, whether the task is over or
  there is none; \<open>written\<close> is all that ever was written.
\<close>

record child_output =
  pipe :: bytes
  wopen :: bool
  chunks :: "bytes list"
  rdone :: bool
  written :: bytes

datatype feeder = Feeding bytes | Fed

datatype run_result =
    Completed_process int "bytes option" "bytes option"
  | Called_process_error int "bytes option" "bytes option"
  | Task_group exn

datatype rmain = In_wait | In_join int | Run_done run_result

record run =
  fpipe :: bytes
  fbroken :: bool
  feed :: feeder
  out :: child_output
  err :: child_output
  rerrs :: "exn list"
  rexit :: "int option"
  rmain :: rmain

definition output_new :: "bool \<Rightarrow> child_output" where
  "output_new capture = \<lparr>pipe = [], wopen = True, chunks = [], rdone = \<not> capture, written = []\<rparr>"

definition run_init :: "bytes option \<Rightarrow> bool \<Rightarrow> bool \<Rightarrow> run" where
  "run_init input cout cerr = \<lparr>fpipe = [], fbroken = False, feed = (case input of None \<Rightarrow> Fed | Some b \<Rightarrow> Feeding b),
     out = output_new cout, err = output_new cerr, rerrs = [], rexit = None, rmain = In_wait\<rparr>"

section \<open>Steps\<close>

text \<open>
  \<open>read_output\<close>: a chunk of at least one byte, or the empty one, which the operating system gives when the pipe is
  empty and no writer is left. An error of the stream ends the task and is logged by \<open>spawn.without_results\<close>.
\<close>

inductive read_step :: "child_output \<Rightarrow> child_output \<Rightarrow> bool" where
  chunk: "\<not> rdone r \<Longrightarrow> pipe r = c @ rest \<Longrightarrow> c \<noteq> [] \<Longrightarrow> read_step r (r\<lparr>chunks := chunks r @ [c], pipe := rest\<rparr>)"
| eof: "\<not> rdone r \<Longrightarrow> pipe r = [] \<Longrightarrow> \<not> wopen r \<Longrightarrow> read_step r (r\<lparr>rdone := True\<rparr>)"

text \<open>The writers of an output: the child and its descendants.\<close>

inductive write_step :: "child_output \<Rightarrow> child_output \<Rightarrow> bool" where
  writes: "wopen r \<Longrightarrow> write_step r (r\<lparr>pipe := pipe r @ bs, written := written r @ bs\<rparr>)"
| closes: "write_step r (r\<lparr>wopen := False\<rparr>)"

text \<open>The end of \<open>run_process\<close>. A return code of 0 is false in Python.\<close>

definition captured :: "bool \<Rightarrow> child_output \<Rightarrow> bytes option" where
  "captured capture r = (if capture then Some (concat (chunks r)) else None)"

definition run_finish :: "bool \<Rightarrow> bool \<Rightarrow> bool \<Rightarrow> int \<Rightarrow> run \<Rightarrow> run_result" where
  "run_finish check cout cerr c s = (if rerrs s \<noteq> [] then Task_group (ExceptionGroup ''SpawnExceptionGroup'' (rerrs s))
     else let stdout = captured cout (out s); stderr = captured cerr (err s)
          in if c \<noteq> 0 \<and> check then Called_process_error c stdout stderr else Completed_process c stdout stderr)"

text \<open>
  \<open>feed_input\<close> writes what the pipe takes; when the child has closed its end, the \<open>ResourceBroken\<close> of the stream is
  swallowed.
\<close>

inductive run_step_p :: "bool \<Rightarrow> bool \<Rightarrow> bool \<Rightarrow> run \<Rightarrow> run \<Rightarrow> bool" for check cout cerr where
  feed: "feed s = Feeding (c @ rest) \<Longrightarrow> c \<noteq> [] \<Longrightarrow> \<not> fbroken s \<Longrightarrow>
     run_step_p check cout cerr s (s\<lparr>fpipe := fpipe s @ c, feed := Feeding rest\<rparr>)"
| fed: "feed s = Feeding rest \<Longrightarrow> rest = [] \<or> fbroken s \<Longrightarrow> run_step_p check cout cerr s (s\<lparr>feed := Fed\<rparr>)"
| feed_error: "feed s = Feeding rest \<Longrightarrow> is_Exception e \<Longrightarrow> run_step_p check cout cerr s (s\<lparr>feed := Fed, rerrs := rerrs s @ [e]\<rparr>)"
| read_out: "read_step (out s) r \<Longrightarrow> run_step_p check cout cerr s (s\<lparr>out := r\<rparr>)"
| read_err: "read_step (err s) r \<Longrightarrow> run_step_p check cout cerr s (s\<lparr>err := r\<rparr>)"
| out_error: "\<not> rdone (out s) \<Longrightarrow> is_Exception e \<Longrightarrow>
     run_step_p check cout cerr s (s\<lparr>out := (out s)\<lparr>rdone := True\<rparr>, rerrs := rerrs s @ [e]\<rparr>)"
| err_error: "\<not> rdone (err s) \<Longrightarrow> is_Exception e \<Longrightarrow>
     run_step_p check cout cerr s (s\<lparr>err := (err s)\<lparr>rdone := True\<rparr>, rerrs := rerrs s @ [e]\<rparr>)"
| child_out: "write_step (out s) r \<Longrightarrow> run_step_p check cout cerr s (s\<lparr>out := r\<rparr>)"
| child_err: "write_step (err s) r \<Longrightarrow> run_step_p check cout cerr s (s\<lparr>err := r\<rparr>)"
| child_reads: "fpipe s = c @ rest \<Longrightarrow> run_step_p check cout cerr s (s\<lparr>fpipe := rest\<rparr>)"
| child_closes: "run_step_p check cout cerr s (s\<lparr>fbroken := True\<rparr>)"
| child_exits: "rexit s = None \<Longrightarrow> run_step_p check cout cerr s (s\<lparr>rexit := Some c\<rparr>)"
| waited: "rmain s = In_wait \<Longrightarrow> rexit s = Some c \<Longrightarrow> run_step_p check cout cerr s (s\<lparr>rmain := In_join c\<rparr>)"
| joined: "rmain s = In_join c \<Longrightarrow> feed s = Fed \<Longrightarrow> rdone (out s) \<Longrightarrow> rdone (err s) \<Longrightarrow>
     run_step_p check cout cerr s (s\<lparr>rmain := Run_done (run_finish check cout cerr c s)\<rparr>)"

definition run_reach :: "bytes option \<Rightarrow> bool \<Rightarrow> bool \<Rightarrow> bool \<Rightarrow> run \<Rightarrow> bool" where
  "run_reach input check cout cerr = reach (\<lambda>s. s = run_init input cout cerr) (run_step_p check cout cerr)"

section \<open>The invariant\<close>

definition output_ok :: "bool \<Rightarrow> bool \<Rightarrow> child_output \<Rightarrow> bool" where
  "output_ok failed capture r \<longleftrightarrow> written r = concat (chunks r) @ pipe r
     \<and> (capture \<and> rdone r \<and> \<not> failed \<longrightarrow> pipe r = [] \<and> \<not> wopen r) \<and> (\<not> capture \<longrightarrow> rdone r \<and> chunks r = [])"

definition run_inv :: "bool \<Rightarrow> bool \<Rightarrow> bool \<Rightarrow> run \<Rightarrow> bool" where
  "run_inv check cout cerr s \<longleftrightarrow> output_ok (rerrs s \<noteq> []) cout (out s) \<and> output_ok (rerrs s \<noteq> []) cerr (err s) \<and>
     (case rmain s of In_wait \<Rightarrow> True | In_join c \<Rightarrow> rexit s = Some c
      | Run_done r \<Rightarrow> (\<exists>c. rexit s = Some c \<and> r = run_finish check cout cerr c s) \<and> feed s = Fed \<and> rdone (out s) \<and> rdone (err s))"

lemma output_ok_read: "read_step r r' \<Longrightarrow> output_ok failed capture r \<Longrightarrow> output_ok failed capture r'"
  by (cases rule: read_step.cases, assumption) (auto simp: output_ok_def)

lemma output_ok_write: "write_step r r' \<Longrightarrow> output_ok failed capture r \<Longrightarrow> output_ok failed capture r'"
  by (cases rule: write_step.cases, assumption) (auto simp: output_ok_def)

lemma write_frame: "write_step r r' \<Longrightarrow> chunks r' = chunks r \<and> rdone r' = rdone r"
  by (cases rule: write_step.cases, assumption) auto

lemma output_ok_failed: "output_ok failed capture r \<Longrightarrow> output_ok True capture r" "output_ok failed capture r \<Longrightarrow> output_ok True capture (r\<lparr>rdone := True\<rparr>)"
  by (auto simp: output_ok_def)

inductive_cases read_stepE: "read_step r r'"

lemma read_not_done: "read_step r r' \<Longrightarrow> \<not> rdone r"
  by (erule read_stepE) auto

lemma run_inv_step: "run_step_p check cout cerr s t \<Longrightarrow> run_inv check cout cerr s \<Longrightarrow> run_inv check cout cerr t"
proof (induction rule: run_step_p.induct)
  case (read_out s r)
  then show ?case using output_ok_read read_not_done by (auto simp: run_inv_def split: rmain.splits)
next
  case (read_err s r)
  then show ?case using output_ok_read read_not_done by (auto simp: run_inv_def split: rmain.splits)
next
  case (child_out s r)
  then show ?case using output_ok_write write_frame[of "out s" r]
    by (auto simp: run_inv_def run_finish_def captured_def split: rmain.splits)
next
  case (child_err s r)
  then show ?case using output_ok_write write_frame[of "err s" r]
    by (auto simp: run_inv_def run_finish_def captured_def split: rmain.splits)
qed (auto simp: run_inv_def run_finish_def split: rmain.splits intro: output_ok_failed)

interpretation rp: step_system "\<lambda>s. s = run_init input cout cerr" "run_step_p check cout cerr" "run_inv check cout cerr"
  for input check cout cerr
proof
  show "run_inv check cout cerr t" if "run_step_p check cout cerr s t" "run_inv check cout cerr s" for s t
    using that by (rule run_inv_step)
qed (simp add: run_init_def run_inv_def output_new_def output_ok_def)

lemma captured_written: "output_ok False capture r \<Longrightarrow> rdone r \<Longrightarrow> captured capture r = (if capture then Some (written r) else None)"
  by (auto simp: output_ok_def captured_def)

text \<open>
  C34. \<open>run_process\<close> reports what happened. When it is over, the child has exited with the return code in the result; if no
  task failed, an output that was captured is exactly what was written to it, by the child and by whoever else held the
  pipe, in order and to the end; an error is raised exactly for a nonzero code under \<open>check\<close>. The failures of tasks come as one group. And once the child
  has exited, the input is fed and the outputs are at their end, it does get over.
\<close>

theorem run_process_reports:
  assumes "run_reach input check cout cerr s"
  shows "(\<forall>r. rmain s = Run_done r \<longrightarrow> (\<exists>c. rexit s = Some c \<and>
       (if rerrs s \<noteq> [] then r = Task_group (ExceptionGroup ''SpawnExceptionGroup'' (rerrs s))
        else (cout \<longrightarrow> \<not> wopen (out s)) \<and> (cerr \<longrightarrow> \<not> wopen (err s)) \<and>
          r = (if c \<noteq> 0 \<and> check then Called_process_error else Completed_process) c
            (if cout then Some (written (out s)) else None) (if cerr then Some (written (err s)) else None)))) \<and>
    (\<forall>c. rmain s = In_join c \<and> feed s = Fed \<and> rdone (out s) \<and> rdone (err s) \<longrightarrow> (\<exists>r. run_step_p check cout cerr s (s\<lparr>rmain := Run_done r\<rparr>)))"
proof (intro conjI allI impI)
  fix r assume d: "rmain s = Run_done r"
  have inv: "run_inv check cout cerr s" using assms unfolding run_reach_def by (rule rp.reach_inv)
  with d obtain c where c: "rexit s = Some c" "r = run_finish check cout cerr c s" "rdone (out s)" "rdone (err s)"
    unfolding run_inv_def by auto
  have o: "output_ok (rerrs s \<noteq> []) cout (out s)" "output_ok (rerrs s \<noteq> []) cerr (err s)"
    using inv unfolding run_inv_def by blast+
  show "\<exists>c. rexit s = Some c \<and>
       (if rerrs s \<noteq> [] then r = Task_group (ExceptionGroup ''SpawnExceptionGroup'' (rerrs s))
        else (cout \<longrightarrow> \<not> wopen (out s)) \<and> (cerr \<longrightarrow> \<not> wopen (err s)) \<and>
          r = (if c \<noteq> 0 \<and> check then Called_process_error else Completed_process) c
            (if cout then Some (written (out s)) else None) (if cerr then Some (written (err s)) else None))"
  proof (cases "rerrs s = []")
    case True
    then have ok: "output_ok False cout (out s)" "output_ok False cerr (err s)" using o by simp_all
    have "cout \<longrightarrow> \<not> wopen (out s)" "cerr \<longrightarrow> \<not> wopen (err s)" using ok c(3,4) by (simp_all add: output_ok_def)
    then show ?thesis using True c(1,2) captured_written[OF ok(1) c(3)] captured_written[OF ok(2) c(4)]
      by (intro exI[of _ c]) (simp add: run_finish_def Let_def)
  qed (use c in \<open>simp add: run_finish_def\<close>)
next
  fix c assume "rmain s = In_join c \<and> feed s = Fed \<and> rdone (out s) \<and> rdone (err s)"
  then show "\<exists>r. run_step_p check cout cerr s (s\<lparr>rmain := Run_done r\<rparr>)" using run_step_p.joined by blast
qed

theorem run_process_reports_witness:
  "\<exists>s. run_reach None True True False s \<and> rmain s = Run_done (Called_process_error 3 (Some [7]) None) \<and> written (out s) = [7] \<and> rexit s = Some 3"
proof -
  let ?st = "\<lambda>p o' cs d w x m. \<lparr>fpipe = [], fbroken = False, feed = Fed, out = \<lparr>pipe = p, wopen = o', chunks = cs, rdone = d, written = w\<rparr>,
     err = output_new False, rerrs = [], rexit = x, rmain = m\<rparr>"
  let ?R = "run_step_p True True False"
  let ?fin = "?st [] False [[7]] True [7] (Some 3) (Run_done (Called_process_error 3 (Some [7]) None))"
  have r0: "reach (\<lambda>s. s = run_init None True False) ?R (?st [] True [] False [] None In_wait)"
    by (rule reach.start) (simp add: run_init_def output_new_def)
  have r1: "?R (?st [] True [] False [] None In_wait) (?st [7] True [] False [7] None In_wait)"
    using run_step_p.child_out[OF write_step.writes[of "out (?st [] True [] False [] None In_wait)" "[7]"]] by simp
  have r2: "?R (?st [7] True [] False [7] None In_wait) (?st [] True [[7]] False [7] None In_wait)"
    using run_step_p.read_out[OF read_step.chunk[of "out (?st [7] True [] False [7] None In_wait)" "[7]" "[]"]] by simp
  have r3: "?R (?st [] True [[7]] False [7] None In_wait) (?st [] False [[7]] False [7] None In_wait)"
    using run_step_p.child_out[OF write_step.closes[of "out (?st [] True [[7]] False [7] None In_wait)"]] by simp
  have r4: "?R (?st [] False [[7]] False [7] None In_wait) (?st [] False [[7]] True [7] None In_wait)"
    using run_step_p.read_out[OF read_step.eof[of "out (?st [] False [[7]] False [7] None In_wait)"]] by simp
  have r5: "?R (?st [] False [[7]] True [7] None In_wait) (?st [] False [[7]] True [7] (Some 3) In_wait)"
    using run_step_p.child_exits[of "?st [] False [[7]] True [7] None In_wait" True True False 3] by simp
  have r6: "?R (?st [] False [[7]] True [7] (Some 3) In_wait) (?st [] False [[7]] True [7] (Some 3) (In_join 3))"
    using run_step_p.waited[of "?st [] False [[7]] True [7] (Some 3) In_wait" 3 True True False] by simp
  have r7: "?R (?st [] False [[7]] True [7] (Some 3) (In_join 3)) ?fin"
    using run_step_p.joined[of "?st [] False [[7]] True [7] (Some 3) (In_join 3)" 3 True True False]
    by (simp add: output_new_def run_finish_def captured_def)
  note go = reach.next_state
  have r: "run_reach None True True False ?fin"
    unfolding run_reach_def by (rule go[OF go[OF go[OF go[OF go[OF go[OF go[OF r0 r1] r2] r3] r4] r5] r6] r7])
  then show ?thesis using run_process_reports[OF r] by (intro exI[of _ ?fin]) simp
qed

end
