(* ===== verification/Net_Await.thy ===== *)
theory Net_Await
  imports Tls
begin

text \<open>
  The \<open>await\<close> flavour of sockets, streams and TLS: \<open>src/tonio/_colored/_net/_socket.py\<close>, \<open>_streams.py\<close> and \<open>_tls.py\<close> and
  \<open>src/tonio/_colored/_fd.py\<close>. These files do not reuse the coroutines of the \<open>yield\<close> flavour but repeat them; the definitions here are
  written out from them in the same way, over the same interfaces to the kernel, the \<open>ssl\<close> module and the transport, and the theorem
  is that the copies have not drifted apart. What the files inherit (the plain methods of \<open>_Socket\<close>, \<open>_SSLProxy\<close>, the native state cell, the list of
  ignorable errors) is used as it is.
\<close>

section \<open>Sockets: addresses and constructors\<close>

text \<open>The loop of all the methods that wait: \<open>await waiter\<close> when the direction is not ready, else the call.\<close>

definition aw_retry_loop ::
    "(event_id option, 'w) io \<Rightarrow> (event_id \<Rightarrow> (unit, 'w) io) \<Rightarrow> (unit, 'w) io \<Rightarrow> ('r, 'w) io \<Rightarrow> ('r, 'w) io" where
  "aw_retry_loop arm wait clear call = loop (\<lambda>_.
     bnd arm (\<lambda>waiter. case waiter of
         Some e \<Rightarrow> bnd (wait e) (\<lambda>_. ret (Inl ()))
       | None \<Rightarrow> try_else call (\<lambda>_. True)
           (\<lambda>e. if e = InterruptedError then ret (Inl ())
                else if e = BlockingIOError then bnd clear (\<lambda>_. ret (Inl ()))
                else raise e)
           (\<lambda>r. ret (Inr r)))) ()"

definition aw_retry_r :: "'w io_handle \<Rightarrow> ('r, 'w) io \<Rightarrow> ('r, 'w) io" where
  "aw_retry_r h = aw_retry_loop (io_arm_r h) (await h) (io_clear_r h)"

definition aw_retry_w :: "'w io_handle \<Rightarrow> ('r, 'w) io \<Rightarrow> ('r, 'w) io" where
  "aw_retry_w h = aw_retry_loop (io_arm_w h) (await h) (io_clear_w h)"

definition aw_spawn_blocking :: "'w os \<Rightarrow> ('a, 'w) io \<Rightarrow> ('a, 'w) io" where
  "aw_spawn_blocking os m = in_pool (os_pool os) m"

definition aw_from_stdlib_socket :: "'w os \<Rightarrow> sid \<Rightarrow> (sid, 'w) io" where
  "aw_from_stdlib_socket os s = socket_new os s"

definition aw_socket :: "'w os \<Rightarrow> int \<Rightarrow> int \<Rightarrow> int \<Rightarrow> int option \<Rightarrow> (sid, 'w) io" where
  "aw_socket os family type proto fd =
     bnd (m_socket os family type proto fd) (aw_from_stdlib_socket os)"

definition aw_dup :: "'w os \<Rightarrow> sid \<Rightarrow> (sid, 'w) io" where
  "aw_dup os s = bnd (s_dup os s) (socket_new os)"

definition aw_getaddrinfo ::
    "'w os \<Rightarrow> pyval \<Rightarrow> pyval \<Rightarrow> int \<Rightarrow> int \<Rightarrow> int \<Rightarrow> int \<Rightarrow> (pyval list list, 'w) io" where
  "aw_getaddrinfo os host port family type proto flags =
     aw_spawn_blocking os (m_getaddrinfo os host port family type proto flags)"

definition aw_check_address :: "int \<Rightarrow> pyval \<Rightarrow> pyval early" where
  "aw_check_address family address =
     (if family = AF_INET then
        (case address of
           PTuple xs \<Rightarrow> if length xs = 2 then Continue else Fail (ValueError ''address should be a (host, port) tuple'')
         | _ \<Rightarrow> Fail (ValueError ''address should be a (host, port) tuple''))
      else if family = AF_INET6 then
        (case address of
           PTuple xs \<Rightarrow> if 2 \<le> length xs \<and> length xs \<le> 4 then Continue
             else Fail (ValueError ''address should be a (host, port, [flowinfo, [scopeid]]) tuple'')
         | _ \<Rightarrow> Fail (ValueError ''address should be a (host, port, [flowinfo, [scopeid]]) tuple''))
      else if family = AF_UNIX then
        (if is_pathlike address then Return_now (fspath address) else Fail AssertionError)
      else Return_now address)"

definition aw_lookup_host :: "pyval \<Rightarrow> pyval" where
  "aw_lookup_host host =
     (let host = (if host = PStr '''' then PNone else host)
      in if host = PStr ''<broadcast>'' then PStr ''255.255.255.255'' else host)"

definition aw_lookup_flags :: "int \<Rightarrow> bool \<Rightarrow> bool \<Rightarrow> int" where
  "aw_lookup_flags family v6only local =
     (let flags = 0; flags = (if local then flags OR AI_PASSIVE else flags)
      in if family = AF_INET6 \<and> \<not> v6only then flags OR AI_V4MAPPED else flags)"

definition aw_merge_normed :: "int \<Rightarrow> pyval list \<Rightarrow> pyval \<Rightarrow> (pyval, 'w) io" where
  "aw_merge_normed family address normed =
     (if family = AF_INET6 then
        let l = tuple_items normed in
        if length l \<noteq> 4 then raise AssertionError
        else let l = (if 3 \<le> length address then l[2 := address ! 2] else l);
                 l = (if 4 \<le> length address then l[3 := address ! 3] else l)
             in ret (PTuple l)
      else ret normed)"

definition aw_resolve_address ::
    "'w os \<Rightarrow> int \<Rightarrow> int \<Rightarrow> int \<Rightarrow> bool \<Rightarrow> pyval \<Rightarrow> bool \<Rightarrow> (pyval, 'w) io" where
  "aw_resolve_address os type family proto v6only address local =
     (case aw_check_address family address of
        Fail e \<Rightarrow> raise e
      | Return_now a \<Rightarrow> ret a
      | Continue \<Rightarrow>
          let items = tuple_items address; host = items ! 0; port = items ! 1;
              lookup =
                bnd (aw_getaddrinfo os (aw_lookup_host host) port family type proto (aw_lookup_flags family v6only local)) (\<lambda>res.
                  if length res < 1 then raise AssertionError
                  else aw_merge_normed family items (last (hd res)))
          in if is_int port \<and> host \<noteq> PNone
             then try_else (m_inet_pton os family host)
                    (\<lambda>e. is_OSError e \<or> is_TypeError e) (\<lambda>_. lookup) (\<lambda>_. ret address)
             else lookup)"

definition aw_sock_resolve_address :: "'w os \<Rightarrow> sid \<Rightarrow> pyval \<Rightarrow> bool \<Rightarrow> (pyval, 'w) io" where
  "aw_sock_resolve_address os s address local =
     bnd (if s_family os s = AF_INET6
          then bnd (s_getsockopt os s IPPROTO_IPV6 IPV6_V6ONLY None) (\<lambda>v. ret (truthy_int v))
          else ret False) (\<lambda>v6only.
     aw_resolve_address os (s_type os s) (s_family os s) (s_proto os s) v6only address local)"

definition aw_bind :: "'w os \<Rightarrow> sid \<Rightarrow> pyval \<Rightarrow> (unit, 'w) io" where
  "aw_bind os s address = bnd (aw_sock_resolve_address os s address True) (\<lambda>a. aw_spawn_blocking os (s_bind os s a))"

definition aw_accept :: "'w os \<Rightarrow> sid \<Rightarrow> (sid \<times> pyval, 'w) io" where
  "aw_accept os s = bnd (aw_retry_r (os_handle os s) (s_accept os s)) (\<lambda>(conn, address).
     bnd (aw_from_stdlib_socket os conn) (\<lambda>c. ret (c, address)))"

section \<open>Sockets: incoming and outgoing\<close>

definition aw_recv :: "'w os \<Rightarrow> sid \<Rightarrow> int \<Rightarrow> int \<Rightarrow> (bytes, 'w) io" where
  "aw_recv os s bufsize flags = aw_retry_r (os_handle os s) (s_recv os s bufsize flags)"

definition aw_recv_into :: "'w os \<Rightarrow> sid \<Rightarrow> nat \<Rightarrow> int \<Rightarrow> int \<Rightarrow> (int, 'w) io" where
  "aw_recv_into os s buffer nbytes flags = aw_retry_r (os_handle os s) (s_recv_into os s buffer nbytes flags)"

definition aw_recvfrom :: "'w os \<Rightarrow> sid \<Rightarrow> int \<Rightarrow> int \<Rightarrow> (bytes \<times> pyval, 'w) io" where
  "aw_recvfrom os s bufsize flags = aw_retry_r (os_handle os s) (s_recvfrom os s bufsize flags)"

definition aw_recvfrom_into :: "'w os \<Rightarrow> sid \<Rightarrow> nat \<Rightarrow> int \<Rightarrow> int \<Rightarrow> (int \<times> pyval, 'w) io" where
  "aw_recvfrom_into os s buffer nbytes flags =
     aw_retry_r (os_handle os s) (s_recvfrom_into os s buffer nbytes flags)"

definition aw_recvmsg :: "'w os \<Rightarrow> sid \<Rightarrow> int \<Rightarrow> int \<Rightarrow> int \<Rightarrow> (bytes \<times> pyval \<times> int \<times> pyval, 'w) io" where
  "aw_recvmsg os s bufsize ancbufsize flags =
     aw_retry_r (os_handle os s) (s_recvmsg os s bufsize ancbufsize flags)"

definition aw_recvmsg_into ::
    "'w os \<Rightarrow> sid \<Rightarrow> nat list \<Rightarrow> int \<Rightarrow> int \<Rightarrow> (int \<times> pyval \<times> int \<times> pyval, 'w) io" where
  "aw_recvmsg_into os s buffers ancbufsize flags =
     aw_retry_r (os_handle os s) (s_recvmsg_into os s buffers ancbufsize flags)"

definition aw_eager_retry_w :: "'w io_handle \<Rightarrow> ('r, 'w) io \<Rightarrow> ('r, 'w) io" where
  "aw_eager_retry_w h call = try_except call blocked (\<lambda>_. aw_retry_w h call)"

definition aw_send :: "'w os \<Rightarrow> sid \<Rightarrow> bytes \<Rightarrow> int \<Rightarrow> (int, 'w) io" where
  "aw_send os s data flags =
     (if data = [] then ret 0 else aw_eager_retry_w (os_handle os s) (s_send os s data flags))"

definition aw_sendto :: "'w os \<Rightarrow> sid \<Rightarrow> bytes \<Rightarrow> pyval \<Rightarrow> (int option, 'w) io" where
  "aw_sendto os s data address =
     (if data = [] then ret None
      else bnd (aw_sock_resolve_address os s address False) (\<lambda>a.
        bnd (aw_eager_retry_w (os_handle os s) (s_sendto os s data a)) (\<lambda>n. ret (Some n))))"

definition aw_sendmsg :: "'w os \<Rightarrow> sid \<Rightarrow> bytes list \<Rightarrow> pyval \<Rightarrow> int \<Rightarrow> pyval \<Rightarrow> (int, 'w) io" where
  "aw_sendmsg os s buffers ancdata flags address =
     bnd (if address \<noteq> PNone then aw_sock_resolve_address os s address False else ret address) (\<lambda>a.
       aw_eager_retry_w (os_handle os s) (s_sendmsg os s buffers ancdata flags a))"

definition aw_connect :: "'w os \<Rightarrow> sid \<Rightarrow> pyval \<Rightarrow> (unit, 'w) io" where
  "aw_connect os s address = bnd (aw_sock_resolve_address os s address False) (\<lambda>a.
     try_else (s_connect os s a) blocked
       (\<lambda>_. loop (\<lambda>_.
          bnd (io_arm_w (os_handle os s)) (\<lambda>waiter. case waiter of
              Some e \<Rightarrow> bnd (await (os_handle os s) e) (\<lambda>_. ret (Inl ()))
            | None \<Rightarrow> bnd (s_getsockopt os s SOL_SOCKET SO_ERROR None) (\<lambda>err.
                if err \<noteq> PInt 0 then raise (ConnectFailed (case err of PInt n \<Rightarrow> n | _ \<Rightarrow> 0))
                else try_else (s_getpeername os s) is_OSError
                  (\<lambda>_. bnd (io_clear_w (os_handle os s)) (\<lambda>_. ret (Inl ())))
                  (\<lambda>_. ret (Inr ()))))) ())
       ret)"

section \<open>Streams\<close>

definition aw_stream_init :: "'w os \<Rightarrow> sid option \<Rightarrow> (sid, 'w) io" where
  "aw_stream_init os sock = (case sock of
      None \<Rightarrow> raise (TypeError ''SocketStream requires a TonIO socket object'')
    | Some s \<Rightarrow>
        if s_type os s \<noteq> SOCK_STREAM then raise (ValueError ''SocketStream requires a SOCK_STREAM socket'')
        else bnd (suppress is_OSError (setsockopt os s IPPROTO_TCP TCP_NODELAY (PBool True) None)) (\<lambda>_.
             bnd (suppress is_OSError (setsockopt os s IPPROTO_TCP TCP_NOTSENT_LOWAT (PInt (2 ^ 14)) None)) (\<lambda>_.
             ret s)))"

definition aw_stream_send_all :: "'w os \<Rightarrow> sid \<Rightarrow> bytes \<Rightarrow> (unit, 'w) io" where
  "aw_stream_send_all os s data = bnd (s_eof_get os s) (\<lambda>eof.
     if eof then raise (RuntimeError ''can't send data after sending EOF'')
     else if data = [] then ret ()
     else loop (\<lambda>total_sent.
       if total_sent < int (length data)
       then bnd (aw_send os s (drop (nat total_sent) data) 0) (\<lambda>sent. ret (Inl (total_sent + sent)))
       else ret (Inr ())) 0)"

definition aw_stream_send_eof :: "'w os \<Rightarrow> sid \<Rightarrow> (unit, 'w) io" where
  "aw_stream_send_eof os s = bnd (s_eof_get os s) (\<lambda>eof.
     if eof then ret () else shutdown os s SHUT_WR)"

definition aw_stream_receive_some :: "'w os \<Rightarrow> sid \<Rightarrow> int option \<Rightarrow> (bytes, 'w) io" where
  "aw_stream_receive_some os s max_bytes = aw_recv os s (default_max max_bytes) 0"

definition aw_stream_close :: "'w os \<Rightarrow> sid \<Rightarrow> (unit, 'w) io" where
  "aw_stream_close os s = sock_close os s"

definition aw_listener_init :: "'w os \<Rightarrow> sid option \<Rightarrow> (sid, 'w) io" where
  "aw_listener_init os sock = (case sock of
      None \<Rightarrow> raise (TypeError ''SocketStream requires a TonIO socket object'')
    | Some s \<Rightarrow>
        if s_type os s \<noteq> SOCK_STREAM then raise (ValueError ''SocketStream requires a SOCK_STREAM socket'')
        else ret s)"

definition aw_listener_accept :: "'w os \<Rightarrow> sid \<Rightarrow> (sid, 'w) io" where
  "aw_listener_accept os s = loop (\<lambda>_.
     try_else (aw_accept os s) is_OSError
       (\<lambda>e. if \<not> ignorable e then raise e else ret (Inl ()))
       (\<lambda>(sock, _). bnd (aw_stream_init os (Some sock)) (\<lambda>st. ret (Inr st)))) ()"

definition aw_listener_close :: "'w os \<Rightarrow> sid \<Rightarrow> (unit, 'w) io" where
  "aw_listener_close os s = sock_close os s"

definition aw_fdstream_send_all :: "'w fd_os \<Rightarrow> bytes \<Rightarrow> (unit, 'w) io" where
  "aw_fdstream_send_all os data = bnd (fd_is_closed os) (\<lambda>c.
     if c then raise (RuntimeError ''file closed'')
     else bnd (fd_no os) (\<lambda>fd.
       with_lock (lock_w_or_raise os) (lock_w_exit os)
         (if data = [] then ret ()
          else loop (\<lambda>sent.
            if sent < int (length data)
            then bnd (aw_retry_w (fd_handle os)
                   (try_except (fd_write os fd (drop (nat sent) data)) (\<lambda>e. e = BrokenPipeError)
                      (\<lambda>e. raise (ResourceBroken (Some e)))))
                 (\<lambda>n. ret (Inl (sent + n)))
            else ret (Inr ())) 0)))"

definition aw_fdstream_receive_some :: "'w fd_os \<Rightarrow> int option \<Rightarrow> (bytes, 'w) io" where
  "aw_fdstream_receive_some os max_bytes = bnd (fd_is_closed os) (\<lambda>c.
     if c then raise (RuntimeError ''file closed'')
     else bnd (fd_no os) (\<lambda>fd.
       with_lock (lock_r_or_raise os) (lock_r_exit os)
         (aw_retry_r (fd_handle os) (fd_read os fd (default_max max_bytes)))))"

section \<open>TLS\<close>

definition aw_guard_ssl :: "('a, 'w tlsw) io \<Rightarrow> ('a, 'w tlsw) io" where
  "aw_guard_ssl m = try_except m is_ssl_error (\<lambda>e. bnd set_broken (\<lambda>_. raise (ResourceBroken (Some e))))"

definition aw_tls_recv :: "'w tls_os \<Rightarrow> (unit, 'w tlsw) io" where
  "aw_tls_recv os = bnd (read recv_count) (\<lambda>n0.
     bnd lock_recv_enter (\<lambda>_. try_finally
       (bnd (read recv_count) (\<lambda>n.
          if n0 = n then
            bnd (on_inner (t_receive_some os)) (\<lambda>data.
            bnd (if data = [] then on_inner (x_ingress_eof os)
                 else bnd (modify (\<lambda>w. w\<lparr>recv_est_size := max (recv_est_size w) (int (length data))\<rparr>)) (\<lambda>_.
                      on_inner (x_ingress_write os data))) (\<lambda>_.
            modify (\<lambda>w. w\<lparr>recv_count := recv_count w + 1\<rparr>)))
          else ret ()))
       lock_recv_exit))"

definition aw_tls_send :: "'w tls_os \<Rightarrow> bytes \<Rightarrow> (unit, 'w tlsw) io" where
  "aw_tls_send os data = bnd lock_send_enter (\<lambda>_. try_finally
     (try_except
        (bnd (read (\<lambda>w. egress_stack w @ data)) (\<lambda>all.
         bnd (modify (\<lambda>w. w\<lparr>egress_stack := []\<rparr>)) (\<lambda>_.
         on_inner (t_send_all os all))))
        (\<lambda>_. True) (\<lambda>e. bnd set_broken (\<lambda>_. raise e)))
     lock_send_exit)"

definition aw_pump :: "'w tls_os \<Rightarrow> bool \<Rightarrow> bytes \<Rightarrow> (unit, 'w tlsw) io" where
  "aw_pump os want_read to_send =
     (if to_send \<noteq> [] then aw_tls_send os to_send else if want_read then aw_tls_recv os else ret ())"

definition aw_ssl_dance :: "'w tls_os \<Rightarrow> ('a, 'w) io \<Rightarrow> ('a option, 'w tlsw) io" where
  "aw_ssl_dance os fn = loop (\<lambda>_.
     bnd (aw_guard_ssl (ssl_step os fn)) (\<lambda>(r, want_read, to_send).
     bnd (aw_pump os want_read to_send) (\<lambda>_.
     ret (if \<not> want_read then Inr r else Inl ())))) ()"

definition aw_tls_handshake :: "'w tls_os \<Rightarrow> (unit, 'w tlsw) io" where
  "aw_tls_handshake os = bnd handshake_pre (\<lambda>_.
     bnd (loop (\<lambda>done.
       if done then ret (Inr ())
       else bnd (aw_guard_ssl (ssl_step os (x_do_handshake os))) (\<lambda>(_, want_read, to_send).
            bnd (if \<not> want_read \<and> x_server_side os
                 then bnd (on_inner (x_version os)) (\<lambda>v. ret (v = ''TLSv1.3'')) else ret False) (\<lambda>hold.
            bnd (if hold
                 then bnd (modify (\<lambda>w. w\<lparr>egress_stack := egress_stack w @ to_send\<rparr>)) (\<lambda>_. ret [])
                 else ret to_send) (\<lambda>to_send.
            bnd (aw_pump os want_read to_send) (\<lambda>_.
            ret (Inl (\<not> want_read))))))) False) (\<lambda>_.
     handshake_post))"

definition aw_tls_send_all :: "'w tls_os \<Rightarrow> bytes \<Rightarrow> (unit, 'w tlsw) io" where
  "aw_tls_send_all os data = bnd check_ready (\<lambda>_.
     if data = [] then ret ()
     else bnd (aw_ssl_dance os (x_write os data)) (\<lambda>_. ret ()))"

definition aw_tls_receive_some :: "'w tls_os \<Rightarrow> int option \<Rightarrow> (bytes option, 'w tlsw) io" where
  "aw_tls_receive_some os max_bytes = bnd check_ready (\<lambda>_.
     bnd (case max_bytes of
        None \<Rightarrow> bnd (on_inner (x_ingress_pending os)) (\<lambda>p. read (\<lambda>w. max (recv_est_size w) p))
      | Some n \<Rightarrow> ret n) (\<lambda>n.
     try_except (aw_ssl_dance os (x_read os n))
       (\<lambda>e. case e of ResourceBroken _ \<Rightarrow> True | _ \<Rightarrow> False)
       (\<lambda>e. case e of
          ResourceBroken cause \<Rightarrow> if compat_https os \<and> is_eof cause then ret (Some []) else raise e
        | _ \<Rightarrow> raise e)))"

definition aw_tls_close :: "'w tls_os \<Rightarrow> (unit, 'w tlsw) io" where
  "aw_tls_close os = bnd get_state (\<lambda>st.
     if st = 4 then ret ()
     else bnd set_closed (\<lambda>_. bnd get_state (\<lambda>st.
       if st = 3 \<or> compat_https os then on_inner (t_close os)
       else try_finally
         (suppress (\<lambda>e. case e of ResourceBroken _ \<Rightarrow> True | _ \<Rightarrow> False)
           (bnd (aw_guard_ssl (ssl_step os (x_unwrap os))) (\<lambda>(_, _, to_send).
            if to_send \<noteq> [] then aw_tls_send os to_send else ret ())))
         (on_inner (t_close os)))))"

definition aw_tls_exit :: "'w tls_os \<Rightarrow> (unit, 'w tlsw) io" where
  "aw_tls_exit os = bnd get_state (\<lambda>st.
     if st = 4 then ret ()
     else if st = 3 \<or> compat_https os then bnd set_closed (\<lambda>_. on_inner (t_close os))
     else raise (RuntimeError ''TLSStream needs to be manually closed''))"

definition aw_tls_init :: "'w \<Rightarrow> 'w tlsw" where
  "aw_tls_init v = \<lparr>tst = TInit, egress_stack = [], recv_count = 0, recv_est_size = 16384, recv_locked = False, send_locked = False, inner = v\<rparr>"

definition aw_tls_accept :: "('s, 'w) io \<Rightarrow> ('s \<Rightarrow> 'w tls_os) \<Rightarrow> 'w \<Rightarrow> ((exn + 's) \<times> 'w tlsw) option" where
  "aw_tls_accept t_accept os v = (case t_accept v of
      None \<Rightarrow> None
    | Some (Inl e, v') \<Rightarrow> Some (Inl e, aw_tls_init v')
    | Some (Inr s, v') \<Rightarrow> bnd (aw_tls_handshake (os s)) (\<lambda>_. ret s) (aw_tls_init v'))"

definition aw_tls_listener_close :: "'w tls_os \<Rightarrow> (unit, 'w) io" where
  "aw_tls_listener_close os = t_close os"

section \<open>The flavours agree\<close>

lemmas await_defs =
  aw_retry_loop_def aw_retry_r_def aw_retry_w_def aw_spawn_blocking_def aw_from_stdlib_socket_def aw_socket_def aw_dup_def aw_getaddrinfo_def
   aw_check_address_def aw_lookup_host_def aw_lookup_flags_def aw_merge_normed_def aw_resolve_address_def aw_sock_resolve_address_def
   aw_bind_def aw_accept_def aw_recv_def aw_recv_into_def aw_recvfrom_def aw_recvfrom_into_def aw_recvmsg_def aw_recvmsg_into_def
   aw_eager_retry_w_def aw_send_def aw_sendto_def aw_sendmsg_def aw_connect_def aw_stream_init_def aw_stream_send_all_def
   aw_stream_send_eof_def aw_stream_receive_some_def aw_stream_close_def aw_listener_init_def aw_listener_accept_def aw_listener_close_def
   aw_fdstream_send_all_def aw_fdstream_receive_some_def aw_guard_ssl_def aw_tls_recv_def aw_tls_send_def aw_pump_def aw_ssl_dance_def
   aw_tls_handshake_def aw_tls_send_all_def aw_tls_receive_some_def aw_tls_close_def aw_tls_exit_def aw_tls_init_def aw_tls_accept_def
   aw_tls_listener_close_def

lemmas yield_defs =
  retry_loop_def retry_r_def retry_w_def spawn_blocking_def from_stdlib_socket_def socket_def dup_def getaddrinfo_def check_address_def
   lookup_host_def lookup_flags_def merge_normed_def resolve_address_def sock_resolve_address_def bind_def accept_def recv_def recv_into_def
   recvfrom_def recvfrom_into_def recvmsg_def recvmsg_into_def eager_retry_w_def send_def sendto_def sendmsg_def connect_def stream_init_def
   stream_send_all_def stream_send_eof_def stream_receive_some_def stream_close_def listener_init_def listener_accept_def listener_close_def
   fdstream_send_all_def fdstream_receive_some_def guard_ssl_def tls_recv_def tls_send_def pump_def ssl_dance_def tls_handshake_def
   tls_send_all_def tls_receive_some_def tls_close_def tls_exit_def tls_init_def tls_accept_def tls_listener_close_def

lemma await_socket_same:
  "aw_from_stdlib_socket = from_stdlib_socket"
  "aw_socket = socket"
  "aw_dup = dup"
  "aw_getaddrinfo = getaddrinfo"
  "aw_resolve_address = resolve_address"
  "aw_sock_resolve_address = sock_resolve_address"
  "aw_bind = bind"
  "aw_accept = accept"
  "aw_recv = recv"
  "aw_recv_into = recv_into"
  "aw_recvfrom = recvfrom"
  "aw_recvfrom_into = recvfrom_into"
  "aw_recvmsg = recvmsg"
  "aw_recvmsg_into = recvmsg_into"
  "aw_send = send"
  "aw_sendto = sendto"
  "aw_sendmsg = sendmsg"
  "aw_connect = connect"
  by (simp_all only: await_defs[abs_def] yield_defs[abs_def])

lemma await_stream_same:
  "aw_stream_init = stream_init"
  "aw_stream_send_all = stream_send_all"
  "aw_stream_send_eof = stream_send_eof"
  "aw_stream_receive_some = stream_receive_some"
  "aw_stream_close = stream_close"
  "aw_listener_init = listener_init"
  "aw_listener_accept = listener_accept"
  "aw_listener_close = listener_close"
  "aw_fdstream_send_all = fdstream_send_all"
  "aw_fdstream_receive_some = fdstream_receive_some"
  by (simp_all only: await_defs[abs_def] yield_defs[abs_def])

lemma await_tls_same:
  "aw_tls_recv = tls_recv"
  "aw_tls_send = tls_send"
  "aw_ssl_dance = ssl_dance"
  "aw_tls_handshake = tls_handshake"
  "aw_tls_send_all = tls_send_all"
  "aw_tls_receive_some = tls_receive_some"
  "aw_tls_close = tls_close"
  "aw_tls_exit = tls_exit"
  "aw_tls_accept = tls_accept"
  "aw_tls_listener_close = tls_listener_close"
  by (simp_all only: await_defs[abs_def] yield_defs[abs_def])

text \<open>
  The two flavours of networking agree. Every operation of the \<open>await\<close> flavour of sockets, of streams over sockets and descriptors and of TLS streams is the same
  function of the world as the operation of the \<open>yield\<close> flavour: same calls to the kernel, same values, same exceptions.
\<close>

theorem net_flavours_agree:
  "aw_from_stdlib_socket = from_stdlib_socket \<and> aw_socket = socket \<and> aw_dup = dup \<and>
   aw_getaddrinfo = getaddrinfo \<and> aw_resolve_address = resolve_address \<and>
   aw_sock_resolve_address = sock_resolve_address \<and> aw_bind = bind \<and> aw_accept = accept \<and> aw_recv = recv \<and>
   aw_recv_into = recv_into \<and> aw_recvfrom = recvfrom \<and> aw_recvfrom_into = recvfrom_into \<and>
   aw_recvmsg = recvmsg \<and> aw_recvmsg_into = recvmsg_into \<and> aw_send = send \<and> aw_sendto = sendto \<and>
   aw_sendmsg = sendmsg \<and> aw_connect = connect \<and> aw_stream_init = stream_init \<and>
   aw_stream_send_all = stream_send_all \<and> aw_stream_send_eof = stream_send_eof \<and>
   aw_stream_receive_some = stream_receive_some \<and> aw_stream_close = stream_close \<and>
   aw_listener_init = listener_init \<and> aw_listener_accept = listener_accept \<and> aw_listener_close = listener_close \<and>
   aw_fdstream_send_all = fdstream_send_all \<and> aw_fdstream_receive_some = fdstream_receive_some \<and>
   aw_tls_recv = tls_recv \<and> aw_tls_send = tls_send \<and> aw_ssl_dance = ssl_dance \<and>
   aw_tls_handshake = tls_handshake \<and> aw_tls_send_all = tls_send_all \<and> aw_tls_receive_some = tls_receive_some \<and>
   aw_tls_close = tls_close \<and> aw_tls_exit = tls_exit \<and> aw_tls_accept = tls_accept \<and>
   aw_tls_listener_close = tls_listener_close"
  by (intro conjI) (rule await_socket_same await_stream_same await_tls_same)+

end
