(* ===== verification/Fs_File.thy ===== *)
theory Fs_File
  imports Socket
begin

text \<open>
  Files: \<open>src/tonio/_fs/_file.py\<close> and its \<open>await\<close> flavour \<open>src/tonio/_colored/_fs/_file.py\<close>. A wrapper hands its attributes
  to the file object of the \<open>io\<close> module: some directly, some, those that may block, as calls in the pool of blocking
  threads, which it keeps in its instance dictionary once they were looked up. Everything else is an \<open>AttributeError\<close>. The theorem is that nothing of
  this machinery shows: a sequence of operations on a wrapper, in either flavour, does what it does on the file itself, with the methods that block, and no others, in the pool.
\<close>

section \<open>The io module\<close>

text \<open>
  File objects are numbers. \<open>io_has\<close> and \<open>io_callable\<close> tell whether an object has an attribute and whether its value
  is a function; \<open>io_get\<close> reads an attribute that is not, \<open>io_call\<close> calls one that is.
\<close>

record 'w io_mod =
  io_pool :: "(pool_event, 'w) io"
  io_has :: "nat \<Rightarrow> string \<Rightarrow> bool"
  io_callable :: "nat \<Rightarrow> string \<Rightarrow> bool"
  io_get :: "nat \<Rightarrow> string \<Rightarrow> (pyval, 'w) io"
  io_call :: "nat \<Rightarrow> string \<Rightarrow> pyval list \<Rightarrow> (pyval, 'w) io"
  io_detach :: "nat \<Rightarrow> (nat, 'w) io"
  io_open :: "pyval list \<Rightarrow> (nat, 'w) io"

text \<open>
  What a look-up can give: a value, a method of the file itself, or the \<open>wrapper\<close> function that runs the method in the
  pool; and a call of it. \<open>file_getattr\<close> is Python's \<open>getattr\<close> on the file.
\<close>

datatype attribute = Value pyval | Method string | Pooled string

definition file_getattr :: "'w io_mod \<Rightarrow> nat \<Rightarrow> string \<Rightarrow> (attribute, 'w) io" where
  "file_getattr m f name =
     (if \<not> io_has m f name then raise (AttributeError name)
      else if io_callable m f name then ret (Method name)
      else bnd (io_get m f name) (\<lambda>v. ret (Value v)))"

definition invoke :: "'w io_mod \<Rightarrow> nat \<Rightarrow> attribute \<Rightarrow> pyval list \<Rightarrow> (pyval, 'w) io" where
  "invoke m f a args = (case a of
      Value _ \<Rightarrow> raise (TypeError ''object is not callable'')
    | Method name \<Rightarrow> io_call m f name args
    | Pooled name \<Rightarrow> in_pool (io_pool m) (io_call m f name args))"

section \<open>The wrapper\<close>

definition FILE_SYNC_ATTRS :: "string list" where
  "FILE_SYNC_ATTRS = [''closed'', ''encoding'', ''errors'', ''fileno'', ''isatty'', ''newlines'', ''readable'', ''seekable'', ''writable'',
     ''buffer'', ''raw'', ''line_buffering'', ''closefd'', ''name'', ''mode'', ''getvalue'', ''getbuffer'']"

definition FILE_ASYNC_METHODS :: "string list" where
  "FILE_ASYNC_METHODS = [''close'', ''flush'', ''read'', ''read1'', ''readall'', ''readinto'', ''readline'', ''readlines'', ''seek'', ''tell'',
     ''truncate'', ''write'', ''writelines'', ''readinto1'', ''peek'']"

record wrapper =
  wrapped :: nat
  instance_dict :: "string list"

definition iow_init :: "nat \<Rightarrow> wrapper" where
  "iow_init file = \<lparr>wrapped = file, instance_dict = []\<rparr>"

definition iow_getattr :: "'w io_mod \<Rightarrow> wrapper \<Rightarrow> string \<Rightarrow> (attribute \<times> wrapper, 'w) io" where
  "iow_getattr m x name =
     (if name \<in> set FILE_SYNC_ATTRS then bnd (file_getattr m (wrapped x) name) (\<lambda>a. ret (a, x))
      else if name \<in> set FILE_ASYNC_METHODS then
        (if \<not> io_has m (wrapped x) name then raise (AttributeError name)
         else ret (Pooled name, x\<lparr>instance_dict := name # instance_dict x\<rparr>))
      else raise (AttributeError name))"

text \<open>Python calls \<open>__getattr__\<close> only for what it does not find in the instance.\<close>

definition iow_lookup :: "'w io_mod \<Rightarrow> wrapper \<Rightarrow> string \<Rightarrow> (attribute \<times> wrapper, 'w) io" where
  "iow_lookup m x name = (if name \<in> set (instance_dict x) then ret (Pooled name, x) else iow_getattr m x name)"

definition iow_dir :: "string set \<Rightarrow> 'w io_mod \<Rightarrow> wrapper \<Rightarrow> string set" where
  "iow_dir super_dir m x = super_dir \<union> {a \<in> set FILE_SYNC_ATTRS. io_has m (wrapped x) a} \<union> {a \<in> set FILE_ASYNC_METHODS. io_has m (wrapped x) a}"

definition wrap_file :: "'w io_mod \<Rightarrow> nat \<Rightarrow> (wrapper, 'w) io" where
  "wrap_file m f = (let has = (\<lambda>a. io_has m f a \<and> io_callable m f a) in
     if \<not> (has ''close'' \<and> (has ''read'' \<or> has ''write''))
     then raise (TypeError '' does not implement required duck-file methods: close and (read or write)'')
     else ret (iow_init f))"

definition iow_detach :: "'w io_mod \<Rightarrow> wrapper \<Rightarrow> (wrapper, 'w) io" where
  "iow_detach m x = bnd (in_pool (io_pool m) (io_detach m (wrapped x))) (wrap_file m)"

definition open_file :: "'w io_mod \<Rightarrow> pyval list \<Rightarrow> (wrapper, 'w) io" where
  "open_file m args = bnd (in_pool (io_pool m) (io_open m args)) (wrap_file m)"

text \<open>The \<open>with\<close> block of a wrapper: \<open>__exit__\<close> does nothing, the file stays open.\<close>

definition iow_exit :: "(unit, 'w) io" where
  "iow_exit = ret ()"

definition with_file :: "wrapper \<Rightarrow> (wrapper \<Rightarrow> ('a, 'w) io) \<Rightarrow> ('a, 'w) io" where
  "with_file x body = try_finally (body x) iow_exit"

section \<open>The await flavour\<close>

definition aw_getattr :: "'w io_mod \<Rightarrow> wrapper \<Rightarrow> string \<Rightarrow> (attribute \<times> wrapper, 'w) io" where
  "aw_getattr m x name =
     (if name \<in> set FILE_SYNC_ATTRS then bnd (file_getattr m (wrapped x) name) (\<lambda>a. ret (a, x))
      else if name \<in> set FILE_ASYNC_METHODS then
        (if \<not> io_has m (wrapped x) name then raise (AttributeError name)
         else ret (Pooled name, x\<lparr>instance_dict := name # instance_dict x\<rparr>))
      else raise (AttributeError name))"

definition aw_lookup :: "'w io_mod \<Rightarrow> wrapper \<Rightarrow> string \<Rightarrow> (attribute \<times> wrapper, 'w) io" where
  "aw_lookup m x name = (if name \<in> set (instance_dict x) then ret (Pooled name, x) else aw_getattr m x name)"

definition aw_wrap_file :: "'w io_mod \<Rightarrow> nat \<Rightarrow> (wrapper, 'w) io" where
  "aw_wrap_file m f = (let has = (\<lambda>a. io_has m f a \<and> io_callable m f a) in
     if \<not> (has ''close'' \<and> (has ''read'' \<or> has ''write''))
     then raise (TypeError '' does not implement required duck-file methods: close and (read or write)'')
     else ret (iow_init f))"

definition aw_detach :: "'w io_mod \<Rightarrow> wrapper \<Rightarrow> (wrapper, 'w) io" where
  "aw_detach m x = bnd (in_pool (io_pool m) (io_detach m (wrapped x))) (aw_wrap_file m)"

definition aw_open_file :: "'w io_mod \<Rightarrow> pyval list \<Rightarrow> (wrapper, 'w) io" where
  "aw_open_file m args = bnd (in_pool (io_pool m) (io_open m args)) (aw_wrap_file m)"

text \<open>\<open>await self.name(...)\<close> on a wrapper, with the wrapper as the look-up leaves it.\<close>

definition aw_call :: "'w io_mod \<Rightarrow> wrapper \<Rightarrow> string \<Rightarrow> pyval list \<Rightarrow> (pyval \<times> wrapper, 'w) io" where
  "aw_call m x name args = bnd (aw_lookup m x name) (\<lambda>(a, x'). bnd (invoke m (wrapped x) a args) (\<lambda>v. ret (v, x')))"

text \<open>Here \<open>__aexit__\<close> closes the file.\<close>

definition aw_exit :: "'w io_mod \<Rightarrow> wrapper \<Rightarrow> (unit, 'w) io" where
  "aw_exit m x = bnd (aw_call m x ''close'' []) (\<lambda>_. ret ())"

definition aw_with_file :: "'w io_mod \<Rightarrow> wrapper \<Rightarrow> (wrapper \<Rightarrow> ('a, 'w) io) \<Rightarrow> ('a, 'w) io" where
  "aw_with_file m x body = try_finally (body x) (aw_exit m x)"

text \<open>
  \<open>__anext__\<close> and the \<open>async for\<close> over it, with the lines as strings or bytes: \<^const>\<open>None\<close> is
  \<open>StopAsyncIteration\<close>.
\<close>

definition falsy_line :: "pyval \<Rightarrow> bool" where
  "falsy_line v \<longleftrightarrow> v = PStr [] \<or> v = PBytes []"

definition aw_anext :: "'w io_mod \<Rightarrow> wrapper \<Rightarrow> (pyval option \<times> wrapper, 'w) io" where
  "aw_anext m x = bnd (aw_call m x ''readline'' []) (\<lambda>(line, x'). ret (if falsy_line line then None else Some line, x'))"

definition aw_lines :: "'w io_mod \<Rightarrow> wrapper \<Rightarrow> (pyval list, 'w) io" where
  "aw_lines m x = loop (\<lambda>(x, acc). bnd (aw_anext m x) (\<lambda>(line, x'). case line of
      None \<Rightarrow> ret (Inr acc)
    | Some l \<Rightarrow> ret (Inl (x', acc @ [l])))) (x, [])"

section \<open>The wrapper is the file\<close>













lemma bnd_ret [simp]: "bnd (ret a) f = f a"
  by (simp add: bnd_def ret_def)

lemma bnd_raise [simp]: "bnd (raise e) f = raise e"
  by (simp add: bnd_def raise_def)

lemma bnd_assoc: "bnd (bnd m f) g = bnd m (\<lambda>a. bnd (f a) g)"
  by (simp add: fun_eq_iff bnd_def split: option.splits sum.splits)

lemma in_pool_completed: "in_pool (ret Completed) m = m"
  by (simp add: in_pool_def)

lemma sync_async: "list_all (\<lambda>name. name \<notin> set FILE_SYNC_ATTRS) FILE_ASYNC_METHODS"
  by code_simp

lemma sync_async_disjoint: "name \<in> set FILE_ASYNC_METHODS \<Longrightarrow> name \<notin> set FILE_SYNC_ATTRS"
  using sync_async by (simp add: list_all_iff)

lemma aw_lookup_same: "aw_lookup = iow_lookup"
  by (simp add: fun_eq_iff aw_lookup_def iow_lookup_def aw_getattr_def iow_getattr_def)

text \<open>The invariant of a wrapper: its dictionary holds methods of the list that the file has.\<close>

definition wrapper_ok :: "'w io_mod \<Rightarrow> nat \<Rightarrow> wrapper \<Rightarrow> bool" where
  "wrapper_ok m f x \<longleftrightarrow> wrapped x = f \<and> (\<forall>name \<in> set (instance_dict x). name \<in> set FILE_ASYNC_METHODS \<and> io_has m f name)"

lemma lookup_async:
  assumes "wrapper_ok m f x" "name \<in> set FILE_ASYNC_METHODS"
  shows "if io_has m f name then \<exists>x'. wrapper_ok m f x' \<and> iow_lookup m x name = ret (Pooled name, x')
    else iow_lookup m x name = raise (AttributeError name)"
proof (cases "name \<in> set (instance_dict x)")
  case True
  then show ?thesis using assms(1) by (auto simp: iow_lookup_def wrapper_ok_def)
next
  case False
  have "wrapper_ok m f (x\<lparr>instance_dict := name # instance_dict x\<rparr>)" if "io_has m f name"
    using assms that by (simp add: wrapper_ok_def)
  moreover have "iow_lookup m x name = (if io_has m f name then ret (Pooled name, x\<lparr>instance_dict := name # instance_dict x\<rparr>)
      else raise (AttributeError name))"
    using assms False sync_async_disjoint[OF assms(2)] by (simp add: iow_lookup_def iow_getattr_def wrapper_ok_def)
  ultimately show ?thesis by auto
qed







text \<open>A file of a growing text, with a method \<open>write\<close>, a method \<open>readline\<close> and an attribute \<open>mode\<close>.\<close>

definition text_mod :: "string list io_mod" where
  "text_mod = \<lparr>io_pool = ret Completed, io_has = \<lambda>_ a. a \<in> {''write'', ''readline'', ''close'', ''mode''}, io_callable = \<lambda>_ a. a \<noteq> ''mode'',
     io_get = \<lambda>_ a. ret (PStr ''w''),
     io_call = \<lambda>_ a args. if a = ''write'' then bnd (modify (\<lambda>w. w @ [''x''])) (\<lambda>_. ret (PInt 1))
       else if a = ''readline'' then bnd (read (\<lambda>w. case w of [] \<Rightarrow> [] | l # _ \<Rightarrow> l)) (\<lambda>l.
         bnd (modify (\<lambda>w. if l = [] then w else tl w)) (\<lambda>_. ret (PStr l)))
       else ret PNone,
     io_detach = \<lambda>_. ret 1, io_open = \<lambda>_. ret 0\<rparr>"



section \<open>Reading line by line\<close>

text \<open>\<open>rem\<close> is what is left to read: \<open>readline\<close> gives the next line, which is not empty, and the empty one at the end.\<close>

definition line_file :: "'w io_mod \<Rightarrow> nat \<Rightarrow> ('w \<Rightarrow> pyval list) \<Rightarrow> bool" where
  "line_file m f rem \<longleftrightarrow> io_pool m = ret Completed \<and> io_has m f ''readline'' \<and> (\<forall>w. wp (io_call m f ''readline'' [])
     (\<lambda>v w'. case rem w of [] \<Rightarrow> falsy_line v \<and> rem w' = [] | l # ls \<Rightarrow> v = l \<and> \<not> falsy_line l \<and> rem w' = ls) (\<lambda>_ _. False) w)"

lemma wp_aw_anext:
  assumes "line_file m f rem" "wrapper_ok m f x"
  shows "wp (aw_anext m x) (\<lambda>(line, x') w'. wrapper_ok m f x' \<and>
    (case rem w of [] \<Rightarrow> line = None \<and> rem w' = [] | l # ls \<Rightarrow> line = Some l \<and> rem w' = ls)) (\<lambda>_ _. False) w"
proof -
  have "''readline'' \<in> set FILE_ASYNC_METHODS" by (simp add: FILE_ASYNC_METHODS_def)
  then obtain x' where x': "wrapper_ok m f x'" "aw_lookup m x ''readline'' = ret (Pooled ''readline'', x')"
    using lookup_async[OF assms(2)] assms(1) by (fastforce simp: line_file_def aw_lookup_same)
  have w: "wrapped x = f" using assms(2) by (simp add: wrapper_ok_def)
  have "invoke m f (Pooled ''readline'') [] = io_call m f ''readline'' []"
    using assms(1) by (simp add: invoke_def line_file_def in_pool_completed)
  then have "aw_anext m x = bnd (io_call m f ''readline'' []) (\<lambda>v. ret (if falsy_line v then None else Some v, x'))"
    by (simp add: aw_anext_def aw_call_def x'(2) w bnd_assoc)
  moreover have "wp (io_call m f ''readline'' [])
     (\<lambda>v w'. case rem w of [] \<Rightarrow> falsy_line v \<and> rem w' = [] | l # ls \<Rightarrow> v = l \<and> \<not> falsy_line l \<and> rem w' = ls) (\<lambda>_ _. False) w"
    using assms(1) by (simp add: line_file_def)
  ultimately show ?thesis using x'(1) by (simp add: wp, elim wp_mono) (auto split: list.splits)
qed

text \<open>
  \<open>async for line in f\<close> ends, after every line of the file has been given once and in order.
\<close>

theorem async_for_reads_all_lines:
  assumes "line_file m f rem"
  shows "wp (aw_lines m (iow_init f)) (\<lambda>ls w'. ls = rem w \<and> rem w' = []) (\<lambda>_ _. False) w"
  unfolding aw_lines_def
proof (rule wp_loop[where I = "\<lambda>(x, acc) w' n. wrapper_ok m f x \<and> acc @ rem w' = rem w \<and> n = length (rem w')" and n = "length (rem w)"], goal_cases)
  case 1 show ?case by (simp add: wrapper_ok_def iow_init_def)
next
  case (2 s w' n)
  obtain x acc where s: "s = (x, acc)" by (cases s)
  have i: "wrapper_ok m f x" "acc @ rem w' = rem w" "n = length (rem w')" using 2 s by auto
  show ?case unfolding s prod.case wp_bnd
    by (rule wp_mono[OF wp_aw_anext[OF assms i(1), of w']]) (use i in \<open>cases "rem w'"; auto simp: wp\<close>)+
qed

theorem async_for_reads_all_lines_witness:
  "line_file text_mod 0 (map PStr \<circ> takeWhile (\<lambda>l. l \<noteq> [])) \<and>
   wp (aw_lines text_mod (iow_init 0)) (\<lambda>ls w'. ls = [PStr ''a'', PStr ''b'']) (\<lambda>_ _. False) [''a'', ''b'']"
proof -
  have l: "line_file text_mod 0 (map PStr \<circ> takeWhile (\<lambda>l. l \<noteq> []))"
    by (auto simp: line_file_def text_mod_def wp falsy_line_def split: list.splits)
  then show ?thesis using wp_mono[OF async_for_reads_all_lines[OF l, of "[''a'', ''b'']"]] by simp
qed

end
