(* ===== verification/Fs_Path.thy ===== *)
theory Fs_Path
  imports Fs_File
begin

text \<open>
  \<open>Path\<close> of \<open>src/tonio/_fs/_path.py\<close>: the methods of \<open>pathlib.Path\<close> as calls in the pool, with the paths in their
  results turned back into paths of this library. Most methods are made by one of three decorators from a table; the others are
  written out. The theorem is about the types: no method lets a \<open>pathlib.Path\<close> through to the caller, and the two-path methods
  hand \<open>pathlib\<close> concrete paths only.
\<close>

section \<open>Paths and the pathlib module\<close>

text \<open>
  A path is its text and its class: one of this library (\<open>Tonio\<close>, a \<open>PurePath\<close> that is no \<open>pathlib.Path\<close>), another pure path, or a
  concrete \<open>pathlib.Path\<close>. An argument is a path, or any other value, such as a string.
\<close>

datatype path_class = Tonio | Pure | Concrete

datatype path = Path path_class string

datatype path_arg = Arg pyval | Path_arg path

text \<open>What a method of \<open>pathlib.Path\<close> returns, and what a method of this library returns.\<close>

datatype result =
    R_value pyval
  | R_path path
  | R_paths "path list"
  | R_walk "(path \<times> string list \<times> string list) list"
  | R_file wrapper

record 'w pathlib =
  pl_io :: "'w io_mod"
  pl_method :: "string \<Rightarrow> path \<Rightarrow> path_arg list \<Rightarrow> (result, 'w) io"
  pl_open :: "path \<Rightarrow> path_arg list \<Rightarrow> (nat, 'w) io"
  pl_cwd :: "(path, 'w) io"
  pl_home :: "(path, 'w) io"
  pl_from_uri :: "string \<Rightarrow> (path, 'w) io"
  pl_as_uri :: "path \<Rightarrow> (pyval, 'w) io"

text \<open>\<open>self._wrapped_cls(self)\<close> and \<open>self.__class__(p)\<close>; \<open>Path(...)\<close> makes a \<open>PosixPath\<close>, the one concrete class of this library.\<close>

fun wrapped_cls :: "path \<Rightarrow> path" where
  "wrapped_cls (Path _ s) = Path Concrete s"

fun own_cls :: "path \<Rightarrow> path" where
  "own_cls (Path _ s) = Path Tonio s"

definition path_new :: "string \<Rightarrow> path" where
  "path_new s = Path Tonio s"

definition unwrap :: "path_arg \<Rightarrow> path_arg" where
  "unwrap a = (case a of
      Path_arg (Path c s) \<Rightarrow> if c \<noteq> Concrete then Path_arg (Path Concrete s) else a
    | Arg _ \<Rightarrow> a)"

section \<open>The decorators\<close>

definition wraps_async :: "'w pathlib \<Rightarrow> ('a, 'w) io \<Rightarrow> ('a, 'w) io" where
  "wraps_async lib call = in_pool (io_pool (pl_io lib)) call"

definition not_a_path :: "(result, 'w) io" where
  "not_a_path = raise (TypeError ''argument should be a str or an os.PathLike object'')"

definition wrap_method :: "'w pathlib \<Rightarrow> string \<Rightarrow> path \<Rightarrow> path_arg list \<Rightarrow> (result, 'w) io" where
  "wrap_method lib fn self args = wraps_async lib (pl_method lib fn (wrapped_cls self) args)"

definition wrap_method_path :: "'w pathlib \<Rightarrow> string \<Rightarrow> path \<Rightarrow> path_arg list \<Rightarrow> (result, 'w) io" where
  "wrap_method_path lib fn self args = wraps_async lib (bnd (pl_method lib fn (wrapped_cls self) args) (\<lambda>r. case r of
      R_path p \<Rightarrow> ret (R_path (own_cls p)) | _ \<Rightarrow> not_a_path))"

definition wrap_method_path_iterable :: "'w pathlib \<Rightarrow> string \<Rightarrow> path \<Rightarrow> path_arg list \<Rightarrow> (result, 'w) io" where
  "wrap_method_path_iterable lib fn self args = wraps_async lib (bnd (pl_method lib fn (wrapped_cls self) args) (\<lambda>r. case r of
      R_paths ps \<Rightarrow> ret (R_paths (map own_cls ps)) | _ \<Rightarrow> not_a_path))"

datatype decorator = Wrap_method | Wrap_method_path | Wrap_method_path_iterable

text \<open>The methods of the class that are one line each.\<close>

definition path_table :: "(string \<times> decorator) list" where
  "path_table = [
     (''stat'', Wrap_method), (''chmod'', Wrap_method), (''exists'', Wrap_method), (''glob'', Wrap_method_path_iterable),
     (''rglob'', Wrap_method_path_iterable), (''is_dir'', Wrap_method), (''is_file'', Wrap_method), (''is_symlink'', Wrap_method),
     (''is_socket'', Wrap_method), (''is_fifo'', Wrap_method), (''is_block_device'', Wrap_method), (''is_char_device'', Wrap_method),
     (''is_junction'', Wrap_method), (''iterdir'', Wrap_method_path_iterable), (''lchmod'', Wrap_method), (''lstat'', Wrap_method),
     (''mkdir'', Wrap_method), (''owner'', Wrap_method), (''group'', Wrap_method), (''is_mount'', Wrap_method),
     (''readlink'', Wrap_method_path), (''rename'', Wrap_method_path), (''replace'', Wrap_method_path), (''resolve'', Wrap_method_path),
     (''rmdir'', Wrap_method), (''symlink_to'', Wrap_method), (''hardlink_to'', Wrap_method), (''touch'', Wrap_method),
     (''unlink'', Wrap_method), (''absolute'', Wrap_method_path), (''expanduser'', Wrap_method_path), (''read_bytes'', Wrap_method),
     (''read_text'', Wrap_method), (''write_bytes'', Wrap_method), (''write_text'', Wrap_method)]"

definition path_method :: "'w pathlib \<Rightarrow> string \<Rightarrow> path \<Rightarrow> path_arg list \<Rightarrow> (result, 'w) io" where
  "path_method lib name self args = (case map_of path_table name of
      None \<Rightarrow> raise (AttributeError name)
    | Some Wrap_method \<Rightarrow> wrap_method lib name self args
    | Some Wrap_method_path \<Rightarrow> wrap_method_path lib name self args
    | Some Wrap_method_path_iterable \<Rightarrow> wrap_method_path_iterable lib name self args)"

section \<open>The other methods\<close>

definition path_cwd :: "'w pathlib \<Rightarrow> (result, 'w) io" where
  "path_cwd lib = wraps_async lib (bnd (pl_cwd lib) (\<lambda>p. ret (R_path (own_cls p))))"

definition path_home :: "'w pathlib \<Rightarrow> (result, 'w) io" where
  "path_home lib = wraps_async lib (bnd (pl_home lib) (\<lambda>p. ret (R_path (own_cls p))))"

definition path_open :: "'w pathlib \<Rightarrow> path \<Rightarrow> path_arg list \<Rightarrow> (result, 'w) io" where
  "path_open lib self args = wraps_async lib (bnd (pl_open lib (wrapped_cls self) args) (\<lambda>f.
     bnd (wrap_file (pl_io lib) f) (\<lambda>x. ret (R_file x))))"

definition path_samefile :: "'w pathlib \<Rightarrow> path \<Rightarrow> path_arg \<Rightarrow> (result, 'w) io" where
  "path_samefile lib self other = wraps_async lib (pl_method lib ''samefile'' (wrapped_cls self) [unwrap other])"

definition path_copy :: "'w pathlib \<Rightarrow> path \<Rightarrow> path_arg \<Rightarrow> path_arg list \<Rightarrow> (result, 'w) io" where
  "path_copy lib self target kwargs = wraps_async lib (bnd (pl_method lib ''copy'' (wrapped_cls self) (unwrap target # kwargs)) (\<lambda>r. case r of
      R_path p \<Rightarrow> ret (R_path (own_cls p)) | _ \<Rightarrow> not_a_path))"

definition path_copy_into :: "'w pathlib \<Rightarrow> path \<Rightarrow> path_arg \<Rightarrow> path_arg list \<Rightarrow> (result, 'w) io" where
  "path_copy_into lib self target_dir kwargs = wraps_async lib (bnd (pl_method lib ''copy_into'' (wrapped_cls self) (unwrap target_dir # kwargs)) (\<lambda>r. case r of
      R_path p \<Rightarrow> ret (R_path (own_cls p)) | _ \<Rightarrow> not_a_path))"

definition path_move :: "'w pathlib \<Rightarrow> path \<Rightarrow> path_arg \<Rightarrow> (result, 'w) io" where
  "path_move lib self target = wraps_async lib (bnd (pl_method lib ''move'' (wrapped_cls self) [unwrap target]) (\<lambda>r. case r of
      R_path p \<Rightarrow> ret (R_path (own_cls p)) | _ \<Rightarrow> not_a_path))"

definition path_move_into :: "'w pathlib \<Rightarrow> path \<Rightarrow> path_arg \<Rightarrow> (result, 'w) io" where
  "path_move_into lib self target_dir = wraps_async lib (bnd (pl_method lib ''move_into'' (wrapped_cls self) [unwrap target_dir]) (\<lambda>r. case r of
      R_path p \<Rightarrow> ret (R_path (own_cls p)) | _ \<Rightarrow> not_a_path))"

definition path_walk :: "'w pathlib \<Rightarrow> path \<Rightarrow> path_arg list \<Rightarrow> (result, 'w) io" where
  "path_walk lib self args = wraps_async lib (bnd (pl_method lib ''walk'' (wrapped_cls self) args) (\<lambda>r. case r of
      R_walk entries \<Rightarrow> ret (R_walk (map (\<lambda>(dirpath, dirnames, filenames). (own_cls dirpath, dirnames, filenames)) entries)) | _ \<Rightarrow> not_a_path))"

text \<open>The two synchronous ones.\<close>

definition path_from_uri :: "'w pathlib \<Rightarrow> string \<Rightarrow> (result, 'w) io" where
  "path_from_uri lib uri = bnd (pl_from_uri lib uri) (\<lambda>p. ret (R_path (own_cls p)))"

definition path_as_uri :: "'w pathlib \<Rightarrow> path \<Rightarrow> (result, 'w) io" where
  "path_as_uri lib self = bnd (pl_as_uri lib self) (\<lambda>v. ret (R_value v))"

section \<open>Types\<close>

datatype path_call =
    By_name string "path_arg list" | Cwd | Home | Open "path_arg list" | Samefile path_arg | Copy path_arg "path_arg list"
  | Copy_into path_arg "path_arg list" | Move path_arg | Move_into path_arg | Walk "path_arg list" | From_uri string | As_uri

definition run_path :: "'w pathlib \<Rightarrow> path \<Rightarrow> path_call \<Rightarrow> (result, 'w) io" where
  "run_path lib self call = (case call of
      By_name name args \<Rightarrow> path_method lib name self args | Cwd \<Rightarrow> path_cwd lib | Home \<Rightarrow> path_home lib
    | Open args \<Rightarrow> path_open lib self args | Samefile other \<Rightarrow> path_samefile lib self other
    | Copy target kwargs \<Rightarrow> path_copy lib self target kwargs | Copy_into target kwargs \<Rightarrow> path_copy_into lib self target kwargs
    | Move target \<Rightarrow> path_move lib self target | Move_into target \<Rightarrow> path_move_into lib self target
    | Walk args \<Rightarrow> path_walk lib self args | From_uri uri \<Rightarrow> path_from_uri lib uri | As_uri \<Rightarrow> path_as_uri lib self)"

text \<open>
  The documented return types of \<open>pathlib\<close>: a path, an iterable of paths, the entries of a directory tree, or a value without
  paths; and that its functions come back.
\<close>

definition giving_path :: "string list" where
  "giving_path = [''readlink'', ''rename'', ''replace'', ''resolve'', ''absolute'', ''expanduser'', ''copy'', ''copy_into'', ''move'', ''move_into'']"

definition giving_paths :: "string list" where
  "giving_paths = [''glob'', ''rglob'', ''iterdir'']"

definition lib_type :: "string \<Rightarrow> result \<Rightarrow> bool" where
  "lib_type name r \<longleftrightarrow>
     (if name \<in> set giving_path then \<exists>p. r = R_path p
      else if name \<in> set giving_paths then \<exists>ps. r = R_paths ps
      else if name = ''walk'' then \<exists>es. r = R_walk es
      else \<exists>v. r = R_value v)"

definition returns :: "('a, 'w) io \<Rightarrow> ('a \<Rightarrow> bool) \<Rightarrow> bool" where
  "returns m P \<longleftrightarrow> (\<forall>w. wp m (\<lambda>a _. P a) (\<lambda>_ _. True) w)"

definition lib_ok :: "'w pathlib \<Rightarrow> bool" where
  "lib_ok lib \<longleftrightarrow> returns (io_pool (pl_io lib)) (\<lambda>_. True) \<and> (\<forall>name self args. returns (pl_method lib name self args) (lib_type name))
     \<and> (\<forall>self args. returns (pl_open lib self args) (\<lambda>_. True)) \<and> returns (pl_cwd lib) (\<lambda>_. True) \<and> returns (pl_home lib) (\<lambda>_. True)
     \<and> (\<forall>uri. returns (pl_from_uri lib uri) (\<lambda>_. True)) \<and> (\<forall>self. returns (pl_as_uri lib self) (\<lambda>_. True))"

fun own_path :: "path \<Rightarrow> bool" where
  "own_path (Path c _) = (c = Tonio)"

definition own_result :: "result \<Rightarrow> bool" where
  "own_result r \<longleftrightarrow> (case r of R_path p \<Rightarrow> own_path p | R_paths ps \<Rightarrow> list_all own_path ps
     | R_walk es \<Rightarrow> list_all (\<lambda>(p, _, _). own_path p) es | _ \<Rightarrow> True)"

lemma own_cls_own [simp]: "own_path (own_cls p)"
  by (cases p) simp

lemma returns_basic: "P a \<Longrightarrow> returns (ret a) P" "returns (raise e) P"
  by (simp_all add: returns_def wp)

lemma returns_bnd:
  assumes "returns m P" "\<And>a. P a \<Longrightarrow> returns (f a) Q"
  shows "returns (bnd m f) Q"
  unfolding returns_def wp_bnd
proof
  fix w
  have "wp m (\<lambda>a _. P a) (\<lambda>_ _. True) w" using assms(1) by (simp add: returns_def)
  then show "wp m (\<lambda>a. wp (f a) (\<lambda>a _. Q a) (\<lambda>_ _. True)) (\<lambda>_ _. True) w"
    by (rule wp_mono) (use assms(2) in \<open>auto simp: returns_def\<close>)
qed

lemma returns_pool: "returns pool (\<lambda>_. True) \<Longrightarrow> returns m P \<Longrightarrow> returns (in_pool pool m) P"
  unfolding in_pool_def by (erule returns_bnd) (auto split: pool_event.splits intro: returns_basic returns_bnd)

lemma returns_mono: "returns m P \<Longrightarrow> (\<And>a. P a \<Longrightarrow> Q a) \<Longrightarrow> returns m Q"
  using returns_bnd[of m P ret Q] returns_basic(1)[of Q] by (simp add: returns_def wp)

text \<open>A table entry whose \<open>pathlib\<close> method returns a path or paths has the decorator that converts them.\<close>

definition suits :: "decorator \<Rightarrow> string \<Rightarrow> bool" where
  "suits d name = (case d of
     Wrap_method \<Rightarrow> name \<notin> set (giving_path @ giving_paths @ [''walk''])
   | Wrap_method_path \<Rightarrow> name \<in> set giving_path
   | Wrap_method_path_iterable \<Rightarrow> name \<in> set giving_paths \<and> name \<notin> set giving_path)"

lemma table_decorators: "list_all (\<lambda>(name, d). suits d name) path_table"
  by code_simp

lemma table_type:
  assumes "map_of path_table name = Some d" "lib_type name r"
  shows "case d of Wrap_method \<Rightarrow> \<exists>v. r = R_value v | Wrap_method_path \<Rightarrow> \<exists>p. r = R_path p | Wrap_method_path_iterable \<Rightarrow> \<exists>ps. r = R_paths ps"
proof -
  have "(name, d) \<in> set path_table" using assms(1) by (rule map_of_SomeD)
  with table_decorators have "suits d name" by (auto simp: list_all_iff)
  then show ?thesis using assms(2) by (cases d) (auto simp: suits_def lib_type_def split: if_splits)
qed

lemma path_method_typed:
  assumes "lib_ok lib"
  shows "returns (path_method lib name self args) own_result"
proof (cases "map_of path_table name")
  case (Some d)
  have m: "returns (pl_method lib name (wrapped_cls self) args) (lib_type name)" "returns (io_pool (pl_io lib)) (\<lambda>_. True)"
    using assms by (simp_all add: lib_ok_def)
  note t = table_type[OF Some]
  show ?thesis
  proof (cases d)
    case Wrap_method
    then show ?thesis using Some t m unfolding path_method_def wrap_method_def wraps_async_def
      by (auto intro!: returns_pool returns_mono[OF m(1)] simp: own_result_def dest!: t)
  next
    case Wrap_method_path
    then show ?thesis using Some t m unfolding path_method_def wrap_method_path_def wraps_async_def
      by (auto intro!: returns_pool returns_bnd[OF m(1)] returns_basic simp: own_result_def dest!: t)
  next
    case Wrap_method_path_iterable
    then show ?thesis using Some t m unfolding path_method_def wrap_method_path_iterable_def wraps_async_def
      by (auto intro!: returns_pool returns_bnd[OF m(1)] returns_basic simp: own_result_def list_all_iff dest!: t)
  qed
qed (simp add: path_method_def returns_basic)

text \<open>
  C36. The methods of \<open>Path\<close> are closed under the library's own type: whatever is called, with whatever arguments, it comes back, and every path
  in the result, alone, in a list or in the entries of \<open>walk\<close>, is a path of this library and no
  \<open>pathlib.Path\<close>, whose methods would block the event loop.
\<close>

theorem path_results_typed:
  assumes "lib_ok lib"
  shows "wp (run_path lib self call) (\<lambda>r _. own_result r) (\<lambda>_ _. True) w"
proof -
  have l: "returns (io_pool (pl_io lib)) (\<lambda>_. True)" "\<And>name self args. returns (pl_method lib name self args) (lib_type name)"
      "\<And>self args. returns (pl_open lib self args) (\<lambda>_. True)" "returns (pl_cwd lib) (\<lambda>_. True)" "returns (pl_home lib) (\<lambda>_. True)"
      "\<And>uri. returns (pl_from_uri lib uri) (\<lambda>_. True)" "\<And>self. returns (pl_as_uri lib self) (\<lambda>_. True)"
    using assms by (simp_all add: lib_ok_def)
  have f: "returns (wrap_file (pl_io lib) x) (\<lambda>_. True)" for x by (simp add: wrap_file_def Let_def returns_basic)
  have "returns (run_path lib self call) own_result"
  proof (cases call)
    case (By_name name args)
    then show ?thesis using path_method_typed[OF assms] by (simp add: run_path_def)
  next
    case (Open args)
    then show ?thesis unfolding run_path_def path_open_def wraps_async_def
      by (auto intro!: returns_pool[OF l(1)] returns_bnd[OF l(3)] returns_bnd[OF f] returns_basic simp: own_result_def)
  next
    case (Samefile other)
    then show ?thesis unfolding run_path_def path_samefile_def wraps_async_def
      by (auto intro!: returns_pool[OF l(1)] returns_mono[OF l(2)] simp: own_result_def lib_type_def giving_path_def giving_paths_def)
  next
    case (Walk args)
    then show ?thesis unfolding run_path_def path_walk_def wraps_async_def
      by (auto intro!: returns_pool[OF l(1)] returns_bnd[OF l(2)] returns_basic simp: own_result_def lib_type_def list_all_iff giving_path_def giving_paths_def)
  qed (auto simp: run_path_def path_cwd_def path_home_def path_copy_def path_copy_into_def path_move_def path_move_into_def
      path_from_uri_def path_as_uri_def wraps_async_def own_result_def lib_type_def giving_path_def giving_paths_def
      intro!: returns_pool[OF l(1)] returns_bnd[OF l(2)] returns_bnd[OF l(4)] returns_bnd[OF l(5)] returns_bnd[OF l(6)] returns_bnd[OF l(7)] returns_basic)
  then show ?thesis by (simp add: returns_def)
qed

definition demo_lib :: "string list pathlib" where
  "demo_lib = \<lparr>pl_io = text_mod, pl_method = (\<lambda>name self args. ret
       (if name \<in> set giving_path then R_path self else if name \<in> set giving_paths then R_paths [self] else if name = ''walk'' then R_walk [(self, [], [])]
        else R_value PNone)),
     pl_open = \<lambda>_ _. ret 0, pl_cwd = ret (Path Concrete ''/''), pl_home = ret (Path Concrete ''/''), pl_from_uri = \<lambda>_. ret (Path Concrete ''/''),
     pl_as_uri = \<lambda>_. ret PNone\<rparr>"

theorem path_results_typed_witness:
  "lib_ok demo_lib \<and> returned (run_path demo_lib (path_new ''a'') (By_name ''iterdir'' []) []) = Some (R_paths [Path Tonio ''a'']) \<and>
   wp (run_path demo_lib (path_new ''a'') (By_name ''iterdir'' [])) (\<lambda>r _. own_result r) (\<lambda>_ _. True) []"
proof -
  have ok: "lib_ok demo_lib" by (auto simp: lib_ok_def demo_lib_def text_mod_def lib_type_def intro: returns_basic)
  have "returned (run_path demo_lib (path_new ''a'') (By_name ''iterdir'' []) []) = Some (R_paths [Path Tonio ''a''])"
    by code_simp
  then show ?thesis using ok path_results_typed[OF ok, of "path_new ''a''"] by simp
qed

end
