(* ===== verification/Fs_Path_Await.thy ===== *)
theory Fs_Path_Await
  imports Fs_Path
begin

text \<open>
  \<open>Path\<close> of \<open>src/tonio/_colored/_fs/_path.py\<close>, the \<open>await\<close> flavour: the table and every method of that file, written out again from
  it. The theorem is that the two files agree: any use of a path gives the same in both flavours. The \<open>pathlib\<close> module, the
  classes of paths and the results are those of \<open>Fs_Path\<close>.
\<close>

section \<open>Arguments\<close>

definition aw_unwrap :: "path_arg \<Rightarrow> path_arg" where
  "aw_unwrap a = (case a of
      Path_arg (Path c s) \<Rightarrow> if c \<noteq> Concrete then Path_arg (Path Concrete s) else a
    | Arg _ \<Rightarrow> a)"

section \<open>The decorators\<close>

definition aw_wraps_async :: "'w pathlib \<Rightarrow> ('a, 'w) io \<Rightarrow> ('a, 'w) io" where
  "aw_wraps_async lib call = in_pool (io_pool (pl_io lib)) call"

definition aw_wrap_method :: "'w pathlib \<Rightarrow> string \<Rightarrow> path \<Rightarrow> path_arg list \<Rightarrow> (result, 'w) io" where
  "aw_wrap_method lib fn self args = aw_wraps_async lib (pl_method lib fn (wrapped_cls self) args)"

definition aw_wrap_method_path :: "'w pathlib \<Rightarrow> string \<Rightarrow> path \<Rightarrow> path_arg list \<Rightarrow> (result, 'w) io" where
  "aw_wrap_method_path lib fn self args = aw_wraps_async lib (bnd (pl_method lib fn (wrapped_cls self) args) (\<lambda>r. case r of
      R_path p \<Rightarrow> ret (R_path (own_cls p)) | _ \<Rightarrow> not_a_path))"

definition aw_wrap_method_path_iterable :: "'w pathlib \<Rightarrow> string \<Rightarrow> path \<Rightarrow> path_arg list \<Rightarrow> (result, 'w) io" where
  "aw_wrap_method_path_iterable lib fn self args = aw_wraps_async lib (bnd (pl_method lib fn (wrapped_cls self) args) (\<lambda>r. case r of
      R_paths ps \<Rightarrow> ret (R_paths (map own_cls ps)) | _ \<Rightarrow> not_a_path))"

text \<open>The methods of the class that are one line each.\<close>

definition aw_path_table :: "(string \<times> decorator) list" where
  "aw_path_table = [
     (''stat'', Wrap_method), (''chmod'', Wrap_method), (''exists'', Wrap_method), (''glob'', Wrap_method_path_iterable),
     (''rglob'', Wrap_method_path_iterable), (''is_dir'', Wrap_method), (''is_file'', Wrap_method), (''is_symlink'', Wrap_method),
     (''is_socket'', Wrap_method), (''is_fifo'', Wrap_method), (''is_block_device'', Wrap_method), (''is_char_device'', Wrap_method),
     (''is_junction'', Wrap_method), (''iterdir'', Wrap_method_path_iterable), (''lchmod'', Wrap_method), (''lstat'', Wrap_method),
     (''mkdir'', Wrap_method), (''owner'', Wrap_method), (''group'', Wrap_method), (''is_mount'', Wrap_method),
     (''readlink'', Wrap_method_path), (''rename'', Wrap_method_path), (''replace'', Wrap_method_path), (''resolve'', Wrap_method_path),
     (''rmdir'', Wrap_method), (''symlink_to'', Wrap_method), (''hardlink_to'', Wrap_method), (''touch'', Wrap_method),
     (''unlink'', Wrap_method), (''absolute'', Wrap_method_path), (''expanduser'', Wrap_method_path), (''read_bytes'', Wrap_method),
     (''read_text'', Wrap_method), (''write_bytes'', Wrap_method), (''write_text'', Wrap_method)]"

definition aw_path_method :: "'w pathlib \<Rightarrow> string \<Rightarrow> path \<Rightarrow> path_arg list \<Rightarrow> (result, 'w) io" where
  "aw_path_method lib name self args = (case map_of aw_path_table name of
      None \<Rightarrow> raise (AttributeError name)
    | Some Wrap_method \<Rightarrow> aw_wrap_method lib name self args
    | Some Wrap_method_path \<Rightarrow> aw_wrap_method_path lib name self args
    | Some Wrap_method_path_iterable \<Rightarrow> aw_wrap_method_path_iterable lib name self args)"

section \<open>The other methods\<close>

definition aw_path_cwd :: "'w pathlib \<Rightarrow> (result, 'w) io" where
  "aw_path_cwd lib = aw_wraps_async lib (bnd (pl_cwd lib) (\<lambda>p. ret (R_path (own_cls p))))"

definition aw_path_home :: "'w pathlib \<Rightarrow> (result, 'w) io" where
  "aw_path_home lib = aw_wraps_async lib (bnd (pl_home lib) (\<lambda>p. ret (R_path (own_cls p))))"

definition aw_path_open :: "'w pathlib \<Rightarrow> path \<Rightarrow> path_arg list \<Rightarrow> (result, 'w) io" where
  "aw_path_open lib self args = aw_wraps_async lib (bnd (pl_open lib (wrapped_cls self) args) (\<lambda>f.
     bnd (aw_wrap_file (pl_io lib) f) (\<lambda>x. ret (R_file x))))"

definition aw_path_samefile :: "'w pathlib \<Rightarrow> path \<Rightarrow> path_arg \<Rightarrow> (result, 'w) io" where
  "aw_path_samefile lib self other = aw_wraps_async lib (pl_method lib ''samefile'' (wrapped_cls self) [aw_unwrap other])"

definition aw_path_copy :: "'w pathlib \<Rightarrow> path \<Rightarrow> path_arg \<Rightarrow> path_arg list \<Rightarrow> (result, 'w) io" where
  "aw_path_copy lib self target kwargs = aw_wraps_async lib (bnd (pl_method lib ''copy'' (wrapped_cls self) (aw_unwrap target # kwargs)) (\<lambda>r. case r of
      R_path p \<Rightarrow> ret (R_path (own_cls p)) | _ \<Rightarrow> not_a_path))"

definition aw_path_copy_into :: "'w pathlib \<Rightarrow> path \<Rightarrow> path_arg \<Rightarrow> path_arg list \<Rightarrow> (result, 'w) io" where
  "aw_path_copy_into lib self target_dir kwargs = aw_wraps_async lib (bnd (pl_method lib ''copy_into'' (wrapped_cls self) (aw_unwrap target_dir # kwargs)) (\<lambda>r. case r of
      R_path p \<Rightarrow> ret (R_path (own_cls p)) | _ \<Rightarrow> not_a_path))"

definition aw_path_move :: "'w pathlib \<Rightarrow> path \<Rightarrow> path_arg \<Rightarrow> (result, 'w) io" where
  "aw_path_move lib self target = aw_wraps_async lib (bnd (pl_method lib ''move'' (wrapped_cls self) [aw_unwrap target]) (\<lambda>r. case r of
      R_path p \<Rightarrow> ret (R_path (own_cls p)) | _ \<Rightarrow> not_a_path))"

definition aw_path_move_into :: "'w pathlib \<Rightarrow> path \<Rightarrow> path_arg \<Rightarrow> (result, 'w) io" where
  "aw_path_move_into lib self target_dir = aw_wraps_async lib (bnd (pl_method lib ''move_into'' (wrapped_cls self) [aw_unwrap target_dir]) (\<lambda>r. case r of
      R_path p \<Rightarrow> ret (R_path (own_cls p)) | _ \<Rightarrow> not_a_path))"

definition aw_path_walk :: "'w pathlib \<Rightarrow> path \<Rightarrow> path_arg list \<Rightarrow> (result, 'w) io" where
  "aw_path_walk lib self args = aw_wraps_async lib (bnd (pl_method lib ''walk'' (wrapped_cls self) args) (\<lambda>r. case r of
      R_walk entries \<Rightarrow> ret (R_walk (map (\<lambda>(dirpath, dirnames, filenames). (own_cls dirpath, dirnames, filenames)) entries)) | _ \<Rightarrow> not_a_path))"

text \<open>The two synchronous ones.\<close>

definition aw_path_from_uri :: "'w pathlib \<Rightarrow> string \<Rightarrow> (result, 'w) io" where
  "aw_path_from_uri lib uri = bnd (pl_from_uri lib uri) (\<lambda>p. ret (R_path (own_cls p)))"

definition aw_path_as_uri :: "'w pathlib \<Rightarrow> path \<Rightarrow> (result, 'w) io" where
  "aw_path_as_uri lib self = bnd (pl_as_uri lib self) (\<lambda>v. ret (R_value v))"

section \<open>The two flavours agree\<close>

definition aw_run_path :: "'w pathlib \<Rightarrow> path \<Rightarrow> path_call \<Rightarrow> (result, 'w) io" where
  "aw_run_path lib self call = (case call of
      By_name name args \<Rightarrow> aw_path_method lib name self args | Cwd \<Rightarrow> aw_path_cwd lib | Home \<Rightarrow> aw_path_home lib
    | Open args \<Rightarrow> aw_path_open lib self args | Samefile other \<Rightarrow> aw_path_samefile lib self other
    | Copy target kwargs \<Rightarrow> aw_path_copy lib self target kwargs | Copy_into target kwargs \<Rightarrow> aw_path_copy_into lib self target kwargs
    | Move target \<Rightarrow> aw_path_move lib self target | Move_into target \<Rightarrow> aw_path_move_into lib self target
    | Walk args \<Rightarrow> aw_path_walk lib self args | From_uri uri \<Rightarrow> aw_path_from_uri lib uri | As_uri \<Rightarrow> aw_path_as_uri lib self)"

lemma aw_path_table_same: "aw_path_table = path_table"
  by (simp add: aw_path_table_def path_table_def)

lemma aw_unwrap_same: "aw_unwrap = unwrap"
  by (simp add: fun_eq_iff aw_unwrap_def unwrap_def)

lemma aw_wraps_async_same: "aw_wraps_async lib m = wraps_async lib m"
  by (simp add: aw_wraps_async_def wraps_async_def)

lemma aw_wrap_file_same: "aw_wrap_file = wrap_file"
  by (simp add: fun_eq_iff aw_wrap_file_def wrap_file_def)

lemma aw_path_method_same: "aw_path_method lib name self args = path_method lib name self args"
  by (simp add: aw_path_method_def path_method_def aw_path_table_same aw_wrap_method_def wrap_method_def aw_wrap_method_path_def
      wrap_method_path_def aw_wrap_method_path_iterable_def wrap_method_path_iterable_def aw_wraps_async_same split: option.split decorator.split)

lemmas await_path_defs = aw_path_cwd_def path_cwd_def aw_path_home_def path_home_def aw_path_open_def path_open_def
  aw_path_samefile_def path_samefile_def aw_path_copy_def path_copy_def aw_path_copy_into_def path_copy_into_def
  aw_path_move_def path_move_def aw_path_move_into_def path_move_into_def aw_path_walk_def path_walk_def
  aw_path_from_uri_def path_from_uri_def aw_path_as_uri_def path_as_uri_def

text \<open>A session: a sequence of calls, on the path at hand or on one of the paths that earlier calls gave; the results in order.\<close>

fun own_paths :: "result \<Rightarrow> path list" where
  "own_paths (R_path p) = [p]"
| "own_paths (R_paths ps) = ps"
| "own_paths (R_walk es) = map fst es"
| "own_paths _ = []"

primrec path_session :: "(path \<Rightarrow> path_call \<Rightarrow> (result, 'w) io) \<Rightarrow> (nat \<times> path_call) list \<Rightarrow> path list \<Rightarrow> (result list, 'w) io" where
  "path_session run [] ps = ret []"
| "path_session run (c # cs) ps = (if fst c < length ps
     then bnd (run (ps ! fst c) (snd c)) (\<lambda>r. bnd (path_session run cs (ps @ own_paths r)) (\<lambda>rs. ret (r # rs)))
     else raise (TypeError ''no such path''))"

text \<open>
  The two flavours of \<open>Path\<close> agree: any sequence of calls on paths, each on a path given before, returns the same results,
  raises the same exceptions and leaves the same world, whether it is run with \<open>yield\<close> or with \<open>await\<close>.
\<close>

theorem path_flavours_agree:
  "path_session (aw_run_path lib) cs ps = path_session (run_path lib) cs ps"
proof -
  have "aw_run_path lib self call = run_path lib self call" for self call
    by (cases call) (simp_all add: aw_run_path_def run_path_def await_path_defs aw_path_method_same aw_wraps_async_same aw_unwrap_same aw_wrap_file_same)
  then have "aw_run_path lib = run_path lib" by blast
  then show ?thesis by (rule arg_cong[where f = "\<lambda>run. path_session run cs ps"])
qed

end
