(* ===== verification/Scope.thy ===== *)
theory Scope
  imports Prelude Py_Errors
begin

text \<open>
  Scopes: the native \<open>PyGenScope\<close> of \<open>src/src/scope.rs\<close> and the class \<open>Scope\<close> of \<open>src/tonio/_scope.py\<close>. A scope keeps, for
  every child spawned in it, a checkpoint to abort it with and an event its wrapper sets at the end; \<open>yield scope()\<close> takes
  the children, aborts the unfinished ones if the scope was cancelled, and waits for the events. Any task can spawn into a
  scope, also a child of it on another thread. The theorem is the contract of structured concurrency, and where it ends.
\<close>

section \<open>The native scope\<close>

text \<open>Children are numbers; \<open>stack\<close> are those not yet taken by \<open>_exit\<close>, \<open>taken\<close> is the content of \<open>waiter\<close>.\<close>

record scope =
  stack :: "nat list"
  taken :: "nat list option"
  consumed :: u8
  cancelled :: bool

definition scope_new :: scope where
  "scope_new = \<lparr>stack = [], taken = None, consumed = 0, cancelled = False\<rparr>"

definition scope_incr :: "u8 \<Rightarrow> scope \<Rightarrow> bool \<times> scope" where
  "scope_incr from sc = (case cas from (from + 1) (consumed sc) of Some c \<Rightarrow> (True, sc\<lparr>consumed := c\<rparr>) | None \<Rightarrow> (False, sc))"

text \<open>\<open>_track\<close>: the check of \<open>consumed\<close>, and the push, for which it takes the lock of the stack.\<close>

definition track_allowed :: "scope \<Rightarrow> bool" where
  "track_allowed sc \<longleftrightarrow> \<not> consumed sc > 1"

definition track_push :: "nat \<Rightarrow> scope \<Rightarrow> scope" where
  "track_push i sc = sc\<lparr>stack := stack sc @ [i]\<rparr>"

definition scope_cancel :: "scope \<Rightarrow> bool \<times> scope" where
  "scope_cancel sc = (case cas False True (cancelled sc) of Some c \<Rightarrow> (True, sc\<lparr>cancelled := c\<rparr>) | None \<Rightarrow> (False, sc))"

text \<open>
  \<open>_exit\<close>, with the flags of the children's events and checkpoints: the events to wait for, the flags after the loop over
  the children.
\<close>

definition exit_loop :: "bool \<Rightarrow> nat list \<Rightarrow> (nat \<Rightarrow> bool) \<times> (nat \<Rightarrow> bool) \<Rightarrow> (nat \<Rightarrow> bool) \<times> (nat \<Rightarrow> bool)" where
  "exit_loop c is fl = fold (\<lambda>i (ev, ab). if c \<and> \<not> ev i then (ev(i := True), ab(i := True)) else (ev, ab)) is fl"

definition scope_exit_native :: "scope \<Rightarrow> (nat \<Rightarrow> bool) \<times> (nat \<Rightarrow> bool) \<Rightarrow> exn + (scope \<times> (nat \<Rightarrow> bool) \<times> (nat \<Rightarrow> bool))" where
  "scope_exit_native sc fl = (case taken sc of
      Some _ \<Rightarrow> Inl (RuntimeError ''Scope already consumed'')
    | None \<Rightarrow> Inr (sc\<lparr>stack := [], taken := Some (stack sc)\<rparr>, exit_loop (cancelled sc) (stack sc) fl))"

section \<open>The Python class\<close>

definition scope_enter :: "scope \<Rightarrow> exn + scope" where
  "scope_enter sc = (case scope_incr 0 sc of
      (True, sc') \<Rightarrow> Inr sc' | (False, _) \<Rightarrow> Inl (RuntimeError ''Cannot enter the same scope multiple times.''))"

definition scope_leave :: "scope \<Rightarrow> scope" where
  "scope_leave sc = (case scope_incr 1 sc of (_, sc') \<Rightarrow> sc')"

text \<open>
  A child: not there; between the check and the push of \<open>_track\<close>; in the runtime; ended, by itself or unwound by
  \<open>CancelledError\<close>, with its event not yet set; gone; or refused, when \<open>spawn\<close> came too late. The owner: before the block, in it, behind it, waiting for the children,
  resumed, or out with an exception.
\<close>

datatype child = Absent | Tracking | Alive | Ending | Gone | Refused

datatype owner = Before | Inside | Behind | Joining "nat list" | Resumed "nat list" | Failed exn

record scope_sys =
  scp :: scope
  ev :: "nat \<Rightarrow> bool"
  ab :: "nat \<Rightarrow> bool"
  child :: "nat \<Rightarrow> child"
  owner :: owner

inductive scope_step :: "scope_sys \<Rightarrow> scope_sys \<Rightarrow> bool" where
  enter: "owner s = Before \<Longrightarrow> scope_enter (scp s) = Inr sc \<Longrightarrow> scope_step s (s\<lparr>scp := sc, owner := Inside\<rparr>)"
| enter_twice: "owner s = Before \<Longrightarrow> scope_enter (scp s) = Inl e \<Longrightarrow> scope_step s (s\<lparr>owner := Failed e\<rparr>)"
| leave: "owner s = Inside \<Longrightarrow> scope_step s (s\<lparr>scp := scope_leave (scp s), owner := Behind\<rparr>)"
| exit: "owner s = Inside \<or> owner s = Behind \<Longrightarrow> scope_exit_native (scp s) (ev s, ab s) = Inr (sc, ev', ab') \<Longrightarrow>
     scope_step s (s\<lparr>scp := sc, ev := ev', ab := ab', owner := Joining (the (taken sc))\<rparr>)"
| resume: "owner s = Joining is \<Longrightarrow> (\<forall>i \<in> set is. ev s i) \<Longrightarrow> scope_step s (s\<lparr>owner := Resumed is\<rparr>)"
| spawn: "child s i = Absent \<Longrightarrow> owner s \<noteq> Before \<Longrightarrow> scope_step s (s\<lparr>child := (child s)(i := if track_allowed (scp s) then Tracking else Refused)\<rparr>)"
| push: "child s i = Tracking \<Longrightarrow> scope_step s (s\<lparr>scp := track_push i (scp s), child := (child s)(i := Alive)\<rparr>)"
| ends: "child s i = Alive \<Longrightarrow> scope_step s (s\<lparr>child := (child s)(i := Ending)\<rparr>)"
| sets: "child s i = Ending \<Longrightarrow> scope_step s (s\<lparr>ev := (ev s)(i := True), child := (child s)(i := Gone)\<rparr>)"
| cancel: "scope_cancel (scp s) = (b, sc) \<Longrightarrow> scope_step s (s\<lparr>scp := sc\<rparr>)"

definition scope_start :: "scope_sys \<Rightarrow> bool" where
  "scope_start s \<longleftrightarrow> scp s = scope_new \<and> owner s = Before \<and> (\<forall>i. \<not> ev s i \<and> \<not> ab s i \<and> child s i = Absent)"

definition scope_reach :: "scope_sys \<Rightarrow> bool" where
  "scope_reach = reach scope_start scope_step"

section \<open>The invariant\<close>

lemma exit_loop_eq: "exit_loop c is (e, a) = ((\<lambda>i. e i \<or> c \<and> i \<in> set is), (\<lambda>i. a i \<or> c \<and> i \<in> set is \<and> \<not> e i))"
proof (induction "is" arbitrary: e a)
  case (Cons i "is")
  then show ?case by (auto simp: exit_loop_def fun_eq_iff)
qed (simp add: exit_loop_def)

definition joined :: "owner \<Rightarrow> nat list" where
  "joined w = (case w of Joining is \<Rightarrow> is | Resumed is \<Rightarrow> is | _ \<Rightarrow> [])"

definition child_ok :: "scope \<Rightarrow> nat list \<Rightarrow> bool \<Rightarrow> bool \<Rightarrow> nat \<Rightarrow> child \<Rightarrow> bool" where
  "child_ok sc is e a i c \<longleftrightarrow> (c = Gone \<longrightarrow> e) \<and> (e \<longrightarrow> c = Gone \<or> a) \<and> (a \<longrightarrow> cancelled sc)
     \<and> (i \<in> set (stack sc) \<union> set is \<longleftrightarrow> c = Alive \<or> c = Ending \<or> c = Gone)"

definition scope_inv :: "scope_sys \<Rightarrow> bool" where
  "scope_inv s \<longleftrightarrow> (\<forall>i. child_ok (scp s) (joined (owner s)) (ev s i) (ab s i) i (child s i))
     \<and> taken (scp s) = (case owner s of Joining is \<Rightarrow> Some is | Resumed is \<Rightarrow> Some is | _ \<Rightarrow> None)
     \<and> (case owner s of Resumed is \<Rightarrow> \<forall>i \<in> set is. ev s i | _ \<Rightarrow> True)"

lemma scope_frames:
  "scope_incr n sc = (b, sc') \<Longrightarrow> stack sc' = stack sc \<and> taken sc' = taken sc \<and> cancelled sc' = cancelled sc"
  "scope_enter sc = Inr sc' \<Longrightarrow> stack sc' = stack sc \<and> taken sc' = taken sc \<and> cancelled sc' = cancelled sc"
  "stack (scope_leave sc) = stack sc \<and> taken (scope_leave sc) = taken sc \<and> cancelled (scope_leave sc) = cancelled sc"
  "scope_cancel sc = (b, sc') \<Longrightarrow> stack sc' = stack sc \<and> taken sc' = taken sc \<and> cancelled sc'"
  by (auto simp: scope_incr_def scope_enter_def scope_leave_def scope_cancel_def cas_def split: option.splits prod.splits if_splits bool.splits)

lemma scope_inv_owner:
  assumes "scope_inv s" "stack sc = stack (scp s)" "taken sc = taken (scp s)" "cancelled (scp s) \<Longrightarrow> cancelled sc" "joined w = joined (owner s)"
    and "taken (scp s) = (case w of Joining is \<Rightarrow> Some is | Resumed is \<Rightarrow> Some is | _ \<Rightarrow> None)"
    and "\<And>is. w = Resumed is \<Longrightarrow> \<forall>i \<in> set is. ev s i"
  shows "scope_inv (s\<lparr>scp := sc, owner := w\<rparr>)"
  using assms by (auto simp: scope_inv_def child_ok_def split: owner.splits)

lemma scope_inv_child:
  assumes "scope_inv s" "child_ok sc (joined (owner s)) e (ab s i) i c" "taken sc = taken (scp s)" "cancelled sc = cancelled (scp s)"
    and "set (stack sc) - {i} = set (stack (scp s)) - {i}" "ev s i \<Longrightarrow> e"
  shows "scope_inv (s\<lparr>scp := sc, ev := (ev s)(i := e), child := (child s)(i := c)\<rparr>)" (is "scope_inv ?t")
proof -
  have "child_ok sc (joined (owner s)) (ev ?t j) (ab s j) j (child ?t j)" for j
  proof (cases "j = i")
    case False
    then have "j \<in> set (stack sc) \<longleftrightarrow> j \<in> set (stack (scp s))" using assms(5) by blast
    moreover have "child_ok (scp s) (joined (owner s)) (ev s j) (ab s j) j (child s j)" using assms(1) by (simp add: scope_inv_def)
    ultimately show ?thesis using False assms(4) by (simp add: child_ok_def)
  qed (use assms(2) in simp)
  then show ?thesis using assms(1,3,6) by (auto simp: scope_inv_def split: owner.splits)
qed

lemma scope_inv_exit:
  assumes "scope_inv s" "scope_exit_native (scp s) (ev s, ab s) = Inr (sc, ev', ab')"
  shows "scope_inv (s\<lparr>scp := sc, ev := ev', ab := ab', owner := Joining (the (taken sc))\<rparr>)"
proof -
  have n: "taken (scp s) = None" and sc: "sc = (scp s)\<lparr>stack := [], taken := Some (stack (scp s))\<rparr>"
    and fl: "ev' = (\<lambda>i. ev s i \<or> cancelled (scp s) \<and> i \<in> set (stack (scp s)))"
      "ab' = (\<lambda>i. ab s i \<or> cancelled (scp s) \<and> i \<in> set (stack (scp s)) \<and> \<not> ev s i)"
    using assms(2) by (auto simp: scope_exit_native_def exit_loop_eq split: option.splits)
  have "child_ok (scp s) [] (ev s i) (ab s i) i (child s i)" for i using assms(1) n by (auto simp: scope_inv_def joined_def split: owner.splits)
  then show ?thesis using n unfolding scope_inv_def sc fl by (auto simp: child_ok_def joined_def)
qed

lemma scope_inv_at: "scope_inv s \<Longrightarrow> child_ok (scp s) (joined (owner s)) (ev s i) (ab s i) i (child s i)"
  by (simp add: scope_inv_def)

lemma scope_inv_step:
  assumes "scope_step s t" "scope_inv s"
  shows "scope_inv t"
proof -
  have tk: "taken (scp s) = (case owner s of Joining is \<Rightarrow> Some is | Resumed is \<Rightarrow> Some is | _ \<Rightarrow> None)"
    using assms(2) by (simp add: scope_inv_def)
  show ?thesis using assms(1)
  proof cases
    case (enter sc)
    then show ?thesis using scope_frames(2)[OF enter(3)] by (auto simp: joined_def tk intro!: scope_inv_owner[OF assms(2)])
  next
    case (enter_twice e)
    then show ?thesis using scope_inv_owner[OF assms(2), of "scp s" "Failed e"] by (auto simp: joined_def tk)
  next
    case leave
    then show ?thesis using scope_frames(3) by (auto simp: joined_def tk intro!: scope_inv_owner[OF assms(2)])
  next
    case (exit sc ev' ab')
    then show ?thesis using scope_inv_exit[OF assms(2) exit(3)] by simp
  next
    case (resume "is")
    then show ?thesis using scope_inv_owner[OF assms(2), of "scp s" "Resumed is"] by (auto simp: joined_def tk)
  next
    case (spawn i)
    then show ?thesis using scope_inv_child[OF assms(2), of "scp s" "ev s i" i] scope_inv_at[OF assms(2), of i] by (auto simp: child_ok_def)
  next
    case (push i)
    then show ?thesis using scope_inv_child[OF assms(2), of "track_push i (scp s)" "ev s i" i Alive] scope_inv_at[OF assms(2), of i]
      by (auto simp: child_ok_def track_push_def)
  next
    case (ends i)
    then show ?thesis using scope_inv_child[OF assms(2), of "scp s" "ev s i" i Ending] scope_inv_at[OF assms(2), of i] by (auto simp: child_ok_def)
  next
    case (sets i)
    then show ?thesis using scope_inv_child[OF assms(2), of "scp s" True i Gone] scope_inv_at[OF assms(2), of i] by (auto simp: child_ok_def)
  next
    case (cancel b sc)
    then show ?thesis using scope_inv_owner[OF assms(2), of sc "owner s"] scope_frames(4)[OF cancel(2)] assms(2)
      by (auto simp: scope_inv_def split: owner.splits)
  qed
qed

interpretation sy: step_system scope_start scope_step scope_inv
proof
  show "scope_inv s" if "scope_start s" for s
    using that by (auto simp: scope_start_def scope_inv_def child_ok_def scope_new_def joined_def)
qed (rule scope_inv_step)

text \<open>
  C8. The contract of a scope. When \<open>yield scope()\<close> resumes in a scope that was not cancelled, every child it waited for is gone,
  its \<open>finally\<close> clause included; in a cancelled scope each of them is gone or has been aborted. A child that is still
  running then was aborted, or it was pushed after the children had been taken. A second \<open>yield scope()\<close>
  is refused.
\<close>

theorem scope_contract:
  assumes "scope_reach s" "owner s = Resumed is"
  shows "(\<forall>i \<in> set is. child s i = Gone \<or> cancelled (scp s) \<and> ab s i) \<and>
    (\<forall>i. child s i = Alive \<or> child s i = Ending \<longrightarrow> ab s i \<or> i \<in> set (stack (scp s))) \<and>
    scope_exit_native (scp s) fl = Inl (RuntimeError ''Scope already consumed'')"
proof -
  have inv: "scope_inv s" using sy.reach_inv assms(1) by (simp add: scope_reach_def)
  have "\<forall>i \<in> set is. ev s i" and t: "taken (scp s) = Some is" using inv assms(2) by (simp_all add: scope_inv_def)
  then have "\<forall>i \<in> set is. child s i = Gone \<or> cancelled (scp s) \<and> ab s i"
    using scope_inv_at[OF inv] by (auto simp: child_ok_def)
  moreover have "child s i = Alive \<or> child s i = Ending \<Longrightarrow> ab s i \<or> i \<in> set (stack (scp s))" for i
    using scope_inv_at[OF inv, of i] \<open>\<forall>i \<in> set is. ev s i\<close> assms(2) by (auto simp: child_ok_def joined_def)
  ultimately show ?thesis by (auto simp: scope_exit_native_def t)
qed

section \<open>Concrete runs\<close>

text \<open>A scope with at most the one child 0.\<close>

definition one :: "nat list \<Rightarrow> nat list option \<Rightarrow> u8 \<Rightarrow> bool \<Rightarrow> bool \<Rightarrow> bool \<Rightarrow> child \<Rightarrow> owner \<Rightarrow> scope_sys" where
  "one st tk n c e a k w = \<lparr>scp = \<lparr>stack = st, taken = tk, consumed = n, cancelled = c\<rparr>, ev = (\<lambda>_. False)(0 := e),
     ab = (\<lambda>_. False)(0 := a), child = (\<lambda>_. Absent)(0 := k), owner = w\<rparr>"

lemma one_start: "scope_reach (one [] None 0 False False False Absent Before)"
  unfolding scope_reach_def by (rule reach.start) (auto simp: one_def scope_start_def scope_new_def)

lemma one_step: "scope_reach s \<Longrightarrow> scope_step s t \<Longrightarrow> t = u \<Longrightarrow> scope_reach u"
  by (auto simp: scope_reach_def intro: reach.next_state)

lemma one_enter: "scope_reach (one st tk 0 c e a k Before) \<Longrightarrow> scope_reach (one st tk 1 c e a k Inside)"
  by (erule one_step, rule scope_step.enter[where sc = "\<lparr>stack = st, taken = tk, consumed = 1, cancelled = c\<rparr>"])
     (simp_all add: one_def scope_enter_def scope_incr_def cas_def)

lemma one_spawn: "scope_reach (one st tk 1 c e a Absent Inside) \<Longrightarrow> scope_reach (one st tk 1 c e a Tracking Inside)"
  by (erule one_step, rule scope_step.spawn[where i = 0]) (simp_all add: one_def track_allowed_def)

lemma one_push: "scope_reach (one st tk n c e a Tracking w) \<Longrightarrow> scope_reach (one (st @ [0]) tk n c e a Alive w)"
  by (erule one_step, rule scope_step.push[where i = 0]) (simp_all add: one_def track_push_def)

lemma one_ends: "scope_reach (one st tk n c e a Alive w) \<Longrightarrow> scope_reach (one st tk n c e a Ending w)"
  by (erule one_step, rule scope_step.ends[where i = 0]) (simp_all add: one_def)

lemma one_sets: "scope_reach (one st tk n c e a Ending w) \<Longrightarrow> scope_reach (one st tk n c True a Gone w)"
  by (erule one_step, rule scope_step.sets[where i = 0]) (simp_all add: one_def)

lemma one_leave: "scope_reach (one st tk 1 c e a k Inside) \<Longrightarrow> scope_reach (one st tk 2 c e a k Behind)"
  by (erule one_step, rule scope_step.leave) (simp_all add: one_def scope_leave_def scope_incr_def cas_def)

lemma one_cancel: "scope_reach (one st tk n False e a k w) \<Longrightarrow> scope_reach (one st tk n True e a k w)"
  by (erule one_step, rule scope_step.cancel[where b = True and sc = "\<lparr>stack = st, taken = tk, consumed = n, cancelled = True\<rparr>"])
     (simp_all add: one_def scope_cancel_def cas_def)

lemma one_exit:
  assumes "scope_reach (one st None 2 c e a k Behind)" "set st \<subseteq> {0}"
  shows "scope_reach (one [] (Some st) 2 c (e \<or> c \<and> st \<noteq> []) (a \<or> c \<and> st \<noteq> [] \<and> \<not> e) k (Joining st))"
proof (rule one_step[OF assms(1) scope_step.exit])
  have "0 \<in> set st \<longleftrightarrow> st \<noteq> []" using assms(2) by (cases st) auto
  then have "exit_loop c st ((\<lambda>_. False)(0 := e), (\<lambda>_. False)(0 := a))
      = ((\<lambda>_. False)(0 := e \<or> c \<and> st \<noteq> []), (\<lambda>_. False)(0 := a \<or> c \<and> st \<noteq> [] \<and> \<not> e))"
    using assms(2) by (auto simp: exit_loop_eq fun_eq_iff)
  then show "scope_exit_native (scp (one st None 2 c e a k Behind)) (ev (one st None 2 c e a k Behind), ab (one st None 2 c e a k Behind))
      = Inr (\<lparr>stack = [], taken = Some st, consumed = 2, cancelled = c\<rparr>, (\<lambda>_. False)(0 := e \<or> c \<and> st \<noteq> []), (\<lambda>_. False)(0 := a \<or> c \<and> st \<noteq> [] \<and> \<not> e))"
    by (simp add: one_def scope_exit_native_def)
qed (simp_all add: one_def)

lemma one_resume:
  assumes "scope_reach (one st tk n c e a k (Joining js))" "\<forall>i \<in> set js. i = 0 \<and> e"
  shows "scope_reach (one st tk n c e a k (Resumed js))"
  using assms(2) by (intro one_step[OF assms(1) scope_step.resume[of _ js]]) (auto simp: one_def)

theorem scope_contract_witness:
  "\<exists>s. scope_reach s \<and> owner s = Resumed [0] \<and> \<not> cancelled (scp s) \<and> child s 0 = Gone"
proof -
  have "scope_reach (one [0] None 2 False True False Gone Behind)"
    using one_leave[OF one_sets[OF one_ends[OF one_push[OF one_spawn[OF one_enter[OF one_start]]]]]] by simp
  from one_exit[OF this] have r: "scope_reach (one [] (Some [0]) 2 False True False Gone (Resumed [0]))" using one_resume by simp
  show ?thesis using r scope_contract[OF r, of "[0]"] by (intro exI[of _ "one [] (Some [0]) 2 False True False Gone (Resumed [0])"]) (simp add: one_def)
qed

text \<open>
  \<open>yield scope()\<close> does not always wait for the children to end. In a cancelled scope \<open>_exit\<close> sets the events of the children
  itself, so the owner goes on while an aborted child is still running; and a child spawned from another task while
  the owner leaves the block passes the check of \<open>_track\<close> before it and is pushed after the children were taken: nobody waits for it, although
  the scope was never cancelled.
\<close>

theorem scope_leaves_children_running:
  "(\<exists>s. scope_reach s \<and> owner s = Resumed [0] \<and> child s 0 = Alive \<and> cancelled (scp s)) \<and>
   (\<exists>s. scope_reach s \<and> owner s = Resumed [] \<and> child s 0 = Alive \<and> \<not> cancelled (scp s))"
proof
  have "scope_reach (one [0] None 2 True False False Alive Behind)"
    using one_leave[OF one_cancel[OF one_push[OF one_spawn[OF one_enter[OF one_start]]]]] by simp
  from one_exit[OF this] have "scope_reach (one [] (Some [0]) 2 True True True Alive (Resumed [0]))" using one_resume by simp
  then show "\<exists>s. scope_reach s \<and> owner s = Resumed [0] \<and> child s 0 = Alive \<and> cancelled (scp s)"
    by (intro exI[of _ "one [] (Some [0]) 2 True True True Alive (Resumed [0])"]) (simp add: one_def)
  have "scope_reach (one [] None 2 False False False Tracking Behind)"
    using one_leave[OF one_spawn[OF one_enter[OF one_start]]] by simp
  from one_exit[OF this] have "scope_reach (one [] (Some []) 2 False False False Tracking (Resumed []))" using one_resume by simp
  then have "scope_reach (one [0] (Some []) 2 False False False Alive (Resumed []))" using one_push by fastforce
  then show "\<exists>s. scope_reach s \<and> owner s = Resumed [] \<and> child s 0 = Alive \<and> \<not> cancelled (scp s)"
    by (intro exI[of _ "one [0] (Some []) 2 False False False Alive (Resumed [])"]) (simp add: one_def)
qed

end
