(* ===== verification/Race.thy ===== *)
theory Race
  imports Scope
begin

text \<open>
  \<open>select\<close> and \<open>block_on\<close> of \<open>src/tonio/_ctl.py\<close> and \<open>timeout\<close> of \<open>src/tonio/_time.py\<close>: a coroutine runs in a wrapper that
  leaves its outcome in a \<open>Result\<close> of one slot and raises a flag, which the caller waits for. The slot holds
  \<open>(False, value)\<close> or \<open>(True, exception)\<close>, here the outcome itself, or Python's \<open>None\<close> as long as nothing was stored. In \<open>select\<close> several children race for the
  slot, in a scope that is cancelled when the first flag is up; in \<open>timeout\<close> the child races with a timer.
\<close>

section \<open>Outcomes and the slot\<close>

text \<open>What \<open>except Exception\<close> and the \<open>try\<close> clause store; other exceptions leave the slot alone.\<close>

definition storable :: "exn + 'v \<Rightarrow> bool" where
  "storable out = (case out of Inl e \<Rightarrow> is_Exception e | Inr _ \<Rightarrow> True)"

definition store_outcome :: "exn + 'v \<Rightarrow> (exn + 'v) option \<Rightarrow> (exn + 'v) option" where
  "store_outcome out slot = (if storable out then Some out else slot)"

text \<open>\<open>is_err, ret = res.fetch()\<close>: an empty slot cannot be unpacked.\<close>

definition unpack_error :: exn where
  "unpack_error = TypeError ''cannot unpack non-iterable NoneType object''"

text \<open>
  A wrapped coroutine: not spawned; running; ended; past the clauses that store; past the \<open>finally\<close> clause that raises the flag; past the one
  of the scope's own wrapper.
\<close>

datatype 'v racer = R_absent | R_run | R_ended "exn + 'v" | R_stored "exn + 'v" | R_flagged "exn + 'v" | R_gone "exn + 'v"

definition settled :: "'v racer \<Rightarrow> exn + 'v \<Rightarrow> bool" where
  "settled k out \<longleftrightarrow> k = R_stored out \<or> k = R_flagged out \<or> k = R_gone out"

section \<open>select\<close>

text \<open>
  The caller: spawning in the scope's block; waiting for the sentinel; past \<open>scope.cancel()\<close> and the block; past \<open>res.fetch()\<close>; in
  \<open>yield scope()\<close>; out.
\<close>

datatype 'v sel = Sel_spawn nat | Sel_wait | Sel_left | Sel_fetched "exn + 'v" | Sel_join "exn + 'v" | Sel_out "exn + 'v"

record 'v race =
  racer :: "nat \<Rightarrow> 'v racer"
  slot :: "(exn + 'v) option"
  sentinel :: bool
  sscope :: scope
  sev :: "nat \<Rightarrow> bool"
  sab :: "nat \<Rightarrow> bool"

record 'v select_sys = "'v race" +
  sel :: "'v sel"

definition select_init :: "'v select_sys" where
  "select_init = \<lparr>racer = (\<lambda>_. R_absent), slot = None, sentinel = False, sscope = scope_new\<lparr>consumed := 1\<rparr>, sev = (\<lambda>_. False), sab = (\<lambda>_. False),
     sel = Sel_spawn 0\<rparr>"

inductive select_step :: "nat \<Rightarrow> 'v select_sys \<Rightarrow> 'v select_sys \<Rightarrow> bool" for n where
  spawns: "sel s = Sel_spawn k \<Longrightarrow> k < n \<Longrightarrow>
     select_step n s (s\<lparr>racer := (racer s)(k := R_run), sscope := track_push k (sscope s), sel := Sel_spawn (Suc k)\<rparr>)"
| spawned: "sel s = Sel_spawn n \<Longrightarrow> select_step n s (s\<lparr>sel := Sel_wait\<rparr>)"
| woken: "sel s = Sel_wait \<Longrightarrow> sentinel s \<Longrightarrow>
     select_step n s (s\<lparr>sscope := scope_leave (snd (scope_cancel (sscope s))), sel := Sel_left\<rparr>)"
| fetch: "sel s = Sel_left \<Longrightarrow>
     select_step n s (s\<lparr>sel := (case slot s of None \<Rightarrow> Sel_out (Inl unpack_error) | Some out \<Rightarrow> Sel_fetched out)\<rparr>)"
| exits: "sel s = Sel_fetched out \<Longrightarrow> scope_exit_native (sscope s) (sev s, sab s) = Inr (sc, e, a) \<Longrightarrow>
     select_step n s (s\<lparr>sscope := sc, sev := e, sab := a, sel := Sel_join out\<rparr>)"
| joins: "sel s = Sel_join out \<Longrightarrow> (\<forall>i \<in> set (the (taken (sscope s))). sev s i) \<Longrightarrow> select_step n s (s\<lparr>sel := Sel_out out\<rparr>)"
| ends: "racer s i = R_run \<Longrightarrow> select_step n s (s\<lparr>racer := (racer s)(i := R_ended out)\<rparr>)"
| stores: "racer s i = R_ended out \<Longrightarrow> select_step n s (s\<lparr>racer := (racer s)(i := R_stored out), slot := store_outcome out (slot s)\<rparr>)"
| flags: "racer s i = R_stored out \<Longrightarrow> select_step n s (s\<lparr>racer := (racer s)(i := R_flagged out), sentinel := True\<rparr>)"
| leaves: "racer s i = R_flagged out \<Longrightarrow> select_step n s (s\<lparr>racer := (racer s)(i := R_gone out), sev := (sev s)(i := True)\<rparr>)"

definition select_reach :: "nat \<Rightarrow> 'v select_sys \<Rightarrow> bool" where
  "select_reach n = reach (\<lambda>s. s = select_init) (select_step n)"

section \<open>block\_on and timeout\<close>

text \<open>
  One child. \<open>timed\<close> tells \<open>timeout\<close> from \<open>block_on\<close>: there the wait ends when the timer fires, and a child that is not done is unwound. The
  caller: waiting; past the wait, about to look at the flag; out with the outcome, or, timed out, with \<open>(None, False)\<close>.
\<close>

datatype 'v shot_main = Shot_wait | Shot_look | Shot_out "exn + 'v" | Timed_out

record 'v shot =
  kid :: "'v racer"
  cell :: "(exn + 'v) option"
  flag :: bool
  unwound :: bool
  shot :: "'v shot_main"

definition shot_init :: "'v shot" where
  "shot_init = \<lparr>kid = R_run, cell = None, flag = False, unwound = False, shot = Shot_wait\<rparr>"

definition shot_look :: "bool \<Rightarrow> 'v shot \<Rightarrow> 'v shot" where
  "shot_look timed s =
     (if timed \<and> \<not> flag s then s\<lparr>unwound := True, shot := Timed_out\<rparr>
      else s\<lparr>shot := (case cell s of None \<Rightarrow> Shot_out (Inl unpack_error) | Some out \<Rightarrow> Shot_out out)\<rparr>)"

inductive shot_step :: "bool \<Rightarrow> 'v shot \<Rightarrow> 'v shot \<Rightarrow> bool" for timed where
  woken: "shot s = Shot_wait \<Longrightarrow> flag s \<Longrightarrow> shot_step timed s (s\<lparr>shot := Shot_look\<rparr>)"
| timer: "shot s = Shot_wait \<Longrightarrow> timed \<Longrightarrow> shot_step timed s (s\<lparr>shot := Shot_look\<rparr>)"
| looks: "shot s = Shot_look \<Longrightarrow> shot_step timed s (shot_look timed s)"
| ends: "kid s = R_run \<Longrightarrow> shot_step timed s (s\<lparr>kid := R_ended out\<rparr>)"
| stores: "kid s = R_ended out \<Longrightarrow> shot_step timed s (s\<lparr>kid := R_stored out, cell := store_outcome out (cell s)\<rparr>)"
| flags: "kid s = R_stored out \<Longrightarrow> shot_step timed s (s\<lparr>kid := R_flagged out, flag := True\<rparr>)"

definition timeout_step :: "'v shot \<Rightarrow> 'v shot \<Rightarrow> bool" where
  "timeout_step = shot_step True"

definition block_on_step :: "'v shot \<Rightarrow> 'v shot \<Rightarrow> bool" where
  "block_on_step = shot_step False"

definition shot_reach :: "bool \<Rightarrow> 'v shot \<Rightarrow> bool" where
  "shot_reach timed = reach (\<lambda>s. s = shot_init) (if timed then timeout_step else block_on_step)"

lemma shot_reach_alt: "shot_reach timed = reach (\<lambda>s. s = shot_init) (shot_step timed)"
  by (simp add: shot_reach_def timeout_step_def block_on_step_def)

text \<open>What a coroutine at this point has left in a slot of its own.\<close>

definition left_by :: "'v racer \<Rightarrow> (exn + 'v) option" where
  "left_by k = (case k of R_stored out \<Rightarrow> store_outcome out None | R_flagged out \<Rightarrow> store_outcome out None
     | R_gone out \<Rightarrow> store_outcome out None | _ \<Rightarrow> None)"

definition shot_inv :: "'v shot \<Rightarrow> bool" where
  "shot_inv s \<longleftrightarrow> cell s = left_by (kid s) \<and> (flag s \<longleftrightarrow> (\<exists>out. kid s = R_flagged out)) \<and> (\<forall>out. kid s \<noteq> R_gone out)
     \<and> (unwound s \<longleftrightarrow> shot s = Timed_out)"

definition shot_out_ok :: "bool \<Rightarrow> 'v shot \<Rightarrow> bool" where
  "shot_out_ok timed s \<longleftrightarrow> (case shot s of
     Shot_look \<Rightarrow> timed \<or> flag s
   | Shot_out r \<Rightarrow> \<exists>out. kid s = R_flagged out \<and> r = (if storable out then out else Inl unpack_error)
   | Timed_out \<Rightarrow> timed
   | _ \<Rightarrow> True)"

lemma settled_simps [simp]:
  "settled (R_stored a) b \<longleftrightarrow> a = b" "settled (R_flagged a) b \<longleftrightarrow> a = b" "settled (R_gone a) b \<longleftrightarrow> a = b"
  "\<not> settled R_absent b" "\<not> settled R_run b" "\<not> settled (R_ended a) b"
  by (auto simp: settled_def)

lemma shot_step_inv:
  assumes "shot_step timed s t" "shot_inv s \<and> shot_out_ok timed s"
  shows "shot_inv t \<and> shot_out_ok timed t"
  using assms(1)
proof cases
  case looks
  then show ?thesis
  proof (cases "timed \<and> \<not> flag s")
    case True
    then show ?thesis using assms(2) looks by (simp add: shot_look_def shot_inv_def shot_out_ok_def)
  next
    case False
    then obtain out where "kid s = R_flagged out" using assms(2) looks by (auto simp: shot_inv_def shot_out_ok_def)
    then show ?thesis using False assms(2) looks
      by (simp add: shot_look_def shot_inv_def shot_out_ok_def left_by_def store_outcome_def)
  qed
qed (use assms(2) in \<open>auto simp: shot_inv_def shot_out_ok_def left_by_def store_outcome_def split: shot_main.splits\<close>)

interpretation sh: step_system "\<lambda>s. s = shot_init" "shot_step timed" "\<lambda>s. shot_inv s \<and> shot_out_ok timed s" for timed
proof
  show "shot_inv s \<and> shot_out_ok timed s" if "s = shot_init" for s :: "'a shot"
    using that by (simp add: shot_init_def shot_inv_def shot_out_ok_def left_by_def)
qed (rule shot_step_inv)

text \<open>
  C28. \<open>timeout\<close> and \<open>block_on\<close> report the outcome of their coroutine. What they raise or return is what the coroutine raised or
  returned, and only after it has ended; an exception that is no \<open>Exception\<close> (a \<open>CancelledError\<close> of its own, say) becomes a
  \<open>TypeError\<close>. \<open>block_on\<close> never gives up; \<open>timeout\<close> gives up only by unwinding the coroutine. A caller that waits for a coroutine that has ended
  goes on.
\<close>

theorem timeout_outcome:
  assumes "shot_reach timed s"
  shows "(\<forall>r. shot s = Shot_out r \<longrightarrow> (\<exists>out. kid s = R_flagged out \<and> r = (if storable out then out else Inl unpack_error))) \<and>
    (shot s = Timed_out \<longrightarrow> timed \<and> unwound s) \<and> (unwound s \<longrightarrow> shot s = Timed_out) \<and>
    (shot s = Shot_wait \<and> (\<exists>out. kid s = R_flagged out) \<longrightarrow> shot_step timed s (s\<lparr>shot := Shot_look\<rparr>))"
proof -
  have "shot_inv s \<and> shot_out_ok timed s" using sh.reach_inv assms by (auto simp: shot_reach_alt)
  then have i: "shot_inv s" "shot_out_ok timed s" by blast+
  have "\<exists>out. kid s = R_flagged out \<and> r = (if storable out then out else Inl unpack_error)" if "shot s = Shot_out r" for r
    using i(2) that by (simp add: shot_out_ok_def)
  moreover have "shot s = Timed_out \<longrightarrow> timed" using i(2) by (auto simp: shot_out_ok_def)
  moreover have "unwound s \<longleftrightarrow> shot s = Timed_out" "(\<exists>out. kid s = R_flagged out) \<Longrightarrow> flag s" using i(1) by (auto simp: shot_inv_def)
  ultimately show ?thesis using shot_step.woken[of s timed] by blast
qed

theorem timeout_outcome_witness:
  "\<exists>s :: nat shot. shot_reach True s \<and> shot s = Shot_out (Inr 7) \<and> kid s = R_flagged (Inr 7)"
proof -
  let ?st = "\<lambda>k c f m. \<lparr>kid = k, cell = c, flag = f, unwound = False, shot = m\<rparr> :: nat shot" and ?o = "Inr 7 :: exn + nat"
  have r0: "reach (\<lambda>s. s = shot_init) (shot_step True) (?st R_run None False Shot_wait)" by (rule reach.start) (simp add: shot_init_def)
  have r1: "shot_step True (?st R_run None False Shot_wait) (?st (R_ended ?o) None False Shot_wait)"
    using shot_step.ends[of "?st R_run None False Shot_wait" True ?o] by simp
  have r2: "shot_step True (?st (R_ended ?o) None False Shot_wait) (?st (R_stored ?o) (Some ?o) False Shot_wait)"
    using shot_step.stores[of "?st (R_ended ?o) None False Shot_wait" ?o True] by (simp add: store_outcome_def storable_def)
  have r3: "shot_step True (?st (R_stored ?o) (Some ?o) False Shot_wait) (?st (R_flagged ?o) (Some ?o) True Shot_wait)"
    using shot_step.flags[of "?st (R_stored ?o) (Some ?o) False Shot_wait" ?o True] by simp
  have r4: "shot_step True (?st (R_flagged ?o) (Some ?o) True Shot_wait) (?st (R_flagged ?o) (Some ?o) True Shot_look)"
    using shot_step.woken[of "?st (R_flagged ?o) (Some ?o) True Shot_wait" True] by simp
  have r5: "shot_step True (?st (R_flagged ?o) (Some ?o) True Shot_look) (?st (R_flagged ?o) (Some ?o) True (Shot_out ?o))"
    using shot_step.looks[of "?st (R_flagged ?o) (Some ?o) True Shot_look" True] by (simp add: shot_look_def)
  note go = reach.next_state
  have r: "shot_reach True (?st (R_flagged ?o) (Some ?o) True (Shot_out ?o))"
    unfolding shot_reach_alt by (rule go[OF go[OF go[OF go[OF go[OF r0 r1] r2] r3] r4] r5])
  show ?thesis using r timeout_outcome[OF r] by (intro exI[of _ "?st (R_flagged ?o) (Some ?o) True (Shot_out ?o)"]) simp
qed

section \<open>The invariant of select\<close>

definition won :: "nat \<Rightarrow> (nat \<Rightarrow> 'v racer) \<Rightarrow> exn + 'v \<Rightarrow> bool" where
  "won n rc out \<longleftrightarrow> storable out \<and> (\<exists>i<n. settled (rc i) out)"

definition raised_base :: "nat \<Rightarrow> (nat \<Rightarrow> 'v racer) \<Rightarrow> bool" where
  "raised_base n rc \<longleftrightarrow> (\<exists>i<n. \<exists>e. settled (rc i) (Inl e) \<and> \<not> is_Exception e)"

definition over :: "'v racer \<Rightarrow> bool \<Rightarrow> bool" where
  "over k a \<longleftrightarrow> a \<or> (\<exists>out. k = R_gone out)"

definition flagged :: "'v racer \<Rightarrow> bool" where
  "flagged k \<longleftrightarrow> (\<exists>out. k = R_flagged out \<or> k = R_gone out)"

definition racers_ok :: "nat \<Rightarrow> ('v, 'z) race_scheme \<Rightarrow> bool" where
  "racers_ok n s \<longleftrightarrow> (\<forall>i. racer s i \<noteq> R_absent \<longrightarrow> i < n)
     \<and> (case slot s of None \<Rightarrow> (\<forall>i out. settled (racer s i) out \<longrightarrow> \<not> storable out) | Some out \<Rightarrow> won n (racer s) out)
     \<and> (sentinel s \<longleftrightarrow> (\<exists>i<n. flagged (racer s i)))
     \<and> (\<forall>i. sev s i \<longrightarrow> over (racer s i) (sab s i))"

definition sel_ok :: "nat \<Rightarrow> 'v select_sys \<Rightarrow> bool" where
  "sel_ok n s \<longleftrightarrow> (case sel s of
     Sel_spawn k \<Rightarrow> k \<le> n \<and> stack (sscope s) = [0..<k] \<and> taken (sscope s) = None \<and> (\<forall>i\<ge>k. racer s i = R_absent)
   | Sel_wait \<Rightarrow> stack (sscope s) = [0..<n] \<and> taken (sscope s) = None
   | Sel_left \<Rightarrow> stack (sscope s) = [0..<n] \<and> taken (sscope s) = None \<and> cancelled (sscope s) \<and> sentinel s
   | Sel_fetched out \<Rightarrow> stack (sscope s) = [0..<n] \<and> taken (sscope s) = None \<and> cancelled (sscope s) \<and> won n (racer s) out
   | Sel_join out \<Rightarrow> taken (sscope s) = Some [0..<n] \<and> (\<forall>i<n. sev s i) \<and> won n (racer s) out
   | Sel_out out \<Rightarrow> won n (racer s) out \<and> (\<forall>i<n. over (racer s i) (sab s i)) \<or> out = Inl unpack_error \<and> raised_base n (racer s))"

lemma won_upd: "won n rc out \<Longrightarrow> (\<And>out. settled (rc i) out \<Longrightarrow> settled k out) \<Longrightarrow> won n (rc(i := k)) out"
  unfolding won_def by (metis fun_upd_apply)

lemma raised_base_upd: "raised_base n rc \<Longrightarrow> (\<And>out. settled (rc i) out \<Longrightarrow> settled k out) \<Longrightarrow> raised_base n (rc(i := k))"
  unfolding raised_base_def by (metis fun_upd_apply)

text \<open>A step of a child keeps what the caller relies on: nothing that was settled is undone, no event is taken back.\<close>

lemma sel_ok_racer:
  assumes "sel_ok n s" "racer t = (racer s)(i := k)" "racer s i \<noteq> R_absent" "\<And>out. settled (racer s i) out \<Longrightarrow> settled k out"
    and "over (racer s i) (sab s i) \<Longrightarrow> over k (sab s i)" "sel t = sel s" "sscope t = sscope s" "sab t = sab s"
    and "\<And>j. sev s j \<Longrightarrow> sev t j" "sentinel s \<Longrightarrow> sentinel t" "k \<noteq> R_absent"
  shows "sel_ok n t"
proof -
  have w: "won n (racer s) out \<Longrightarrow> won n (racer t) out" "raised_base n (racer s) \<Longrightarrow> raised_base n (racer t)" for out
    using won_upd[of n "racer s" out i k] raised_base_upd[of n "racer s" i k] assms(2,4) by auto
  have o: "over (racer s j) (sab s j) \<Longrightarrow> over (racer t j) (sab t j)" for j using assms(2,5,8) by auto
  show ?thesis using assms w o unfolding sel_ok_def by (auto split: sel.splits)
qed

text \<open>What a step of a child has to keep of the slot, the sentinel and the events.\<close>

definition slot_ok :: "nat \<Rightarrow> (nat \<Rightarrow> 'v racer) \<Rightarrow> (exn + 'v) option \<Rightarrow> bool" where
  "slot_ok n rc sl \<longleftrightarrow> (case sl of None \<Rightarrow> (\<forall>i out. settled (rc i) out \<longrightarrow> \<not> storable out) | Some out \<Rightarrow> won n rc out)"

lemma slot_ok_keep:
  assumes "slot_ok n rc sl" "\<And>out. settled k out \<longleftrightarrow> settled (rc i) out"
  shows "slot_ok n (rc(i := k)) sl"
proof (cases sl)
  case None
  then show ?thesis using assms by (simp add: slot_ok_def)
next
  case (Some out)
  then show ?thesis using assms won_upd[of n rc out i k] by (simp add: slot_ok_def)
qed

lemma slot_ok_store:
  assumes "slot_ok n rc sl" "rc i = R_ended out" "i < n"
  shows "slot_ok n (rc(i := R_stored out)) (store_outcome out sl)"
proof (cases "storable out")
  case True
  then have "won n (rc(i := R_stored out)) out" using assms(3) by (auto simp: won_def)
  then show ?thesis using True by (simp add: slot_ok_def store_outcome_def)
next
  case False
  have "won n rc o2 \<Longrightarrow> won n (rc(i := R_stored out)) o2" for o2 using won_upd[of n rc o2 i "R_stored out"] assms(2) by simp
  then show ?thesis using False assms(1) by (simp add: slot_ok_def store_outcome_def split: option.splits)
qed

lemma flagged_simps [simp]:
  "flagged (R_flagged a)" "flagged (R_gone a)" "\<not> flagged R_absent" "\<not> flagged R_run" "\<not> flagged (R_ended a)" "\<not> flagged (R_stored a)"
  by (auto simp: flagged_def)

lemma over_simps [simp]:
  "over k True" "over (R_gone a) b" "over R_run b \<longleftrightarrow> b" "over R_absent b \<longleftrightarrow> b" "over (R_ended a) b \<longleftrightarrow> b"
  "over (R_stored a) b \<longleftrightarrow> b" "over (R_flagged a) b \<longleftrightarrow> b"
  by (auto simp: over_def)

lemma racers_ok_alt: "racers_ok n s \<longleftrightarrow> (\<forall>i. racer s i \<noteq> R_absent \<longrightarrow> i < n) \<and> slot_ok n (racer s) (slot s)
    \<and> (sentinel s \<longleftrightarrow> (\<exists>i<n. flagged (racer s i))) \<and> (\<forall>i. sev s i \<longrightarrow> over (racer s i) (sab s i))"
  by (simp add: racers_ok_def slot_ok_def)

lemma racers_ok_racer:
  assumes "racers_ok n s" "racer s i \<noteq> R_absent \<or> i < n" "racer t = (racer s)(i := k)" "slot_ok n (racer t) (slot t)"
    and "sentinel t \<longleftrightarrow> sentinel s \<or> flagged k" "flagged (racer s i) \<Longrightarrow> flagged k" "sab t = sab s"
    and "\<And>j. j \<noteq> i \<Longrightarrow> sev t j = sev s j" "sev t i \<Longrightarrow> over k (sab s i)"
  shows "racers_ok n t"
proof -
  have i: "i < n" using assms(1,2) by (auto simp: racers_ok_def)
  then have "(\<exists>j<n. flagged (racer t j)) \<longleftrightarrow> flagged k \<or> (\<exists>j<n. flagged (racer s j))"
    using assms(3,6) by (metis fun_upd_apply)
  moreover have "sev t j \<Longrightarrow> over (racer t j) (sab t j)" for j using assms(1,3,7,8,9) by (cases "j = i") (auto simp: racers_ok_def)
  ultimately show ?thesis using assms(1,3,4,5) i by (auto simp: racers_ok_alt)
qed

lemma select_flag_won:
  assumes "racers_ok n s" "sentinel s" "slot s = None"
  shows "raised_base n (racer s)"
proof -
  obtain i where i: "i < n" "flagged (racer s i)" using assms by (auto simp: racers_ok_def)
  then obtain out where "settled (racer s i) out" by (auto simp: flagged_def settled_def)
  moreover from this have "\<not> storable out" using assms(1,3) by (auto simp: racers_ok_def)
  ultimately show ?thesis using i by (cases out) (auto simp: raised_base_def storable_def)
qed

lemma racers_ok_caller:
  assumes "racers_ok n s" "racer t = racer s" "slot t = slot s" "sentinel t = sentinel s"
    and "\<And>i. sev t i \<Longrightarrow> over (racer s i) (sab t i)"
  shows "racers_ok n t"
  using assms by (simp add: racers_ok_alt)

lemma racers_ok_events: "racers_ok n s \<Longrightarrow> sev s i \<Longrightarrow> over (racer s i) (sab s i)"
  by (simp add: racers_ok_alt)

lemma sel_ok_fetch:
  assumes "racers_ok n s" "sel_ok n s" "sel s = Sel_left"
  shows "sel_ok n (s\<lparr>sel := (case slot s of None \<Rightarrow> Sel_out (Inl unpack_error) | Some out \<Rightarrow> Sel_fetched out)\<rparr>)"
proof (cases "slot s")
  case None
  then show ?thesis using assms select_flag_won[of n s] by (simp add: sel_ok_def)
next
  case (Some out)
  then show ?thesis using assms by (simp add: sel_ok_def racers_ok_alt slot_ok_def)
qed

lemma select_exits:
  assumes "racers_ok n s" "sel_ok n s" "sel s = Sel_fetched out" "scope_exit_native (sscope s) (sev s, sab s) = Inr (sc, e, a)"
  shows "racers_ok n (s\<lparr>sscope := sc, sev := e, sab := a, sel := Sel_join out\<rparr>) \<and>
    sel_ok n (s\<lparr>sscope := sc, sev := e, sab := a, sel := Sel_join out\<rparr>)"
proof -
  have sc: "stack (sscope s) = [0..<n]" "taken (sscope s) = None" "cancelled (sscope s)" "won n (racer s) out"
    using assms(2,3) by (simp_all add: sel_ok_def)
  then have e: "sc = (sscope s)\<lparr>stack := [], taken := Some [0..<n]\<rparr>" "e = (\<lambda>i. sev s i \<or> i < n)" "a = (\<lambda>i. sab s i \<or> i < n \<and> \<not> sev s i)"
    using assms(4) by (auto simp: scope_exit_native_def exit_loop_eq)
  have "over (racer s i) (a i)" if "e i" for i
    using racers_ok_events[OF assms(1), of i] that by (auto simp: e(2,3) over_def)
  then have "racers_ok n (s\<lparr>sscope := sc, sev := e, sab := a, sel := Sel_join out\<rparr>)" by (intro racers_ok_caller[OF assms(1)]) simp_all
  then show ?thesis using sc by (simp add: sel_ok_def e)
qed

lemma scope_close_frame:
  "stack (scope_leave (snd (scope_cancel sc))) = stack sc \<and> taken (scope_leave (snd (scope_cancel sc))) = taken sc
     \<and> cancelled (scope_leave (snd (scope_cancel sc)))"
  using scope_frames(4)[of sc "fst (scope_cancel sc)" "snd (scope_cancel sc)"] scope_frames(3)[of "snd (scope_cancel sc)"] by simp

lemma select_step_inv:
  assumes "select_step n s t" "racers_ok n s \<and> sel_ok n s"
  shows "racers_ok n t \<and> sel_ok n t"
proof -
  have rk: "racers_ok n s" and so: "sel_ok n s" and sl: "slot_ok n (racer s) (slot s)" using assms(2) by (auto simp: racers_ok_alt)
  have lt: "racer s i \<noteq> R_absent \<Longrightarrow> i < n" for i using rk by (auto simp: racers_ok_def)
  show ?thesis using assms(1)
  proof cases
    case (spawns k)
    have k: "racer s k = R_absent" using so spawns by (simp add: sel_ok_def)
    have "racers_ok n t" by (rule racers_ok_racer[OF rk, of k _ R_run])
      (use spawns rk k slot_ok_keep[OF sl, of R_run k] racers_ok_events[OF rk, of k] in simp_all)
    then show ?thesis using spawns so by (simp add: sel_ok_def track_push_def)
  next
    case spawned
    then show ?thesis using so racers_ok_caller[OF rk, of t] racers_ok_events[OF rk] by (simp add: sel_ok_def)
  next
    case woken
    then show ?thesis using so racers_ok_caller[OF rk, of t] racers_ok_events[OF rk] scope_close_frame[of "sscope s"]
      by (simp add: sel_ok_def)
  next
    case fetch
    then show ?thesis using racers_ok_caller[OF rk, of t] racers_ok_events[OF rk] sel_ok_fetch[OF rk so] by simp
  next
    case (exits out sc e a)
    then show ?thesis using select_exits[OF rk so exits(2,3)] by simp
  next
    case (joins out)
    then show ?thesis using so racers_ok_caller[OF rk, of t] racers_ok_events[OF rk] by (simp add: sel_ok_def)
  next
    case (ends i out)
    have "racers_ok n t" by (rule racers_ok_racer[OF rk, of i _ "R_ended out"])
      (use ends rk slot_ok_keep[OF sl, of "R_ended out" i] racers_ok_events[OF rk, of i] in simp_all)
    moreover have "sel_ok n t" by (rule sel_ok_racer[OF so, of _ i "R_ended out"]) (use ends in auto)
    ultimately show ?thesis ..
  next
    case (stores i out)
    have "racers_ok n t" by (rule racers_ok_racer[OF rk, of i _ "R_stored out"])
      (use stores rk slot_ok_store[OF sl, of i out] lt[of i] racers_ok_events[OF rk, of i] in simp_all)
    moreover have "sel_ok n t" by (rule sel_ok_racer[OF so, of _ i "R_stored out"]) (use stores in auto)
    ultimately show ?thesis ..
  next
    case (flags i out)
    have "racers_ok n t" by (rule racers_ok_racer[OF rk, of i _ "R_flagged out"])
      (use flags rk slot_ok_keep[OF sl, of "R_flagged out" i] racers_ok_events[OF rk, of i] in simp_all)
    moreover have "sel_ok n t" by (rule sel_ok_racer[OF so, of _ i "R_flagged out"]) (use flags in auto)
    ultimately show ?thesis ..
  next
    case (leaves i out)
    have sn: "sentinel s" using rk lt[of i] leaves flagged_simps(1)[of out] by (metis racers_ok_def racer.simps)
    have "racers_ok n t" by (rule racers_ok_racer[OF rk, of i _ "R_gone out"])
      (use leaves rk sn slot_ok_keep[OF sl, of "R_gone out" i] racers_ok_events[OF rk, of i] in simp_all)
    moreover have "sel_ok n t" by (rule sel_ok_racer[OF so, of _ i "R_gone out"]) (use leaves in auto)
    ultimately show ?thesis ..
  qed
qed

interpretation se: step_system "\<lambda>s. s = select_init" "select_step n" "\<lambda>s. racers_ok n s \<and> sel_ok n s" for n
proof
  show "racers_ok n s \<and> sel_ok n s" if "s = select_init" for s :: "'a select_sys"
    using that by (simp add: select_init_def racers_ok_def sel_ok_def scope_new_def)
qed (rule select_step_inv)

text \<open>
  C15. \<open>select\<close> gives the outcome of a child that has ended. What it returns or raises is what one of its children returned or
  raised, and then every child has ended or been aborted; only when a child ended with an exception that is no
  \<open>Exception\<close> it can raise the \<open>TypeError\<close> of an empty slot instead, and then it leaves without cleaning up the scope.
  A caller that waits goes on once a child has raised the sentinel, so without children it waits for ever.
\<close>

theorem select_first:
  assumes "select_reach n s"
  shows "(\<forall>r. sel s = Sel_out r \<longrightarrow>
      storable r \<and> (\<exists>i<n. settled (racer s i) r) \<and> (\<forall>i<n. over (racer s i) (sab s i)) \<or>
      r = Inl unpack_error \<and> (\<exists>i<n. \<exists>e. settled (racer s i) (Inl e) \<and> \<not> is_Exception e)) \<and>
    (sel s = Sel_wait \<and> (\<exists>i<n. flagged (racer s i)) \<longrightarrow> (\<exists>t. select_step n s t \<and> sel t = Sel_left)) \<and>
    (n = 0 \<longrightarrow> (\<forall>r. sel s \<noteq> Sel_out r))"
proof -
  have "racers_ok n s \<and> sel_ok n s" using se.reach_inv assms by (auto simp: select_reach_def)
  then have rk: "racers_ok n s" and so: "sel_ok n s" by blast+
  have "won n (racer s) r \<and> (\<forall>i<n. over (racer s i) (sab s i)) \<or> r = Inl unpack_error \<and> raised_base n (racer s)" if "sel s = Sel_out r" for r
    using so that by (simp add: sel_ok_def)
  then have out: "storable r \<and> (\<exists>i<n. settled (racer s i) r) \<and> (\<forall>i<n. over (racer s i) (sab s i)) \<or>
      r = Inl unpack_error \<and> (\<exists>i<n. \<exists>e. settled (racer s i) (Inl e) \<and> \<not> is_Exception e)" if "sel s = Sel_out r" for r
    using that by (simp add: won_def raised_base_def)
  have "\<exists>t. select_step n s t \<and> sel t = Sel_left" if "sel s = Sel_wait" "\<exists>i<n. flagged (racer s i)"
    using select_step.woken[of s n] rk that by (force simp: racers_ok_def)
  then show ?thesis using out by blast
qed

text \<open>A run with one child that returns 7.\<close>

definition duel :: "nat racer \<Rightarrow> (exn + nat) option \<Rightarrow> bool \<Rightarrow> scope \<Rightarrow> bool \<Rightarrow> nat sel \<Rightarrow> nat select_sys" where
  "duel k sl sn sc e m = \<lparr>racer = (\<lambda>_. R_absent)(0 := k), slot = sl, sentinel = sn, sscope = sc, sev = (\<lambda>_. False)(0 := e), sab = (\<lambda>_. False),
     sel = m\<rparr>"

lemma duel_reach: "select_reach n s \<Longrightarrow> select_step n s t \<Longrightarrow> t = u \<Longrightarrow> select_reach n u"
  by (auto simp: select_reach_def intro: reach.next_state)

lemma duel_child:
  assumes "select_reach (Suc 0) (duel R_run None False sc False Sel_wait)"
  shows "select_reach (Suc 0) (duel (R_gone (Inr 7)) (Some (Inr 7)) True sc True Sel_wait)"
proof -
  have "select_reach (Suc 0) (duel (R_ended (Inr 7)) None False sc False Sel_wait)"
    by (rule duel_reach[OF assms select_step.ends[of _ 0 _ "Inr 7"]]) (simp_all add: duel_def)
  then have "select_reach (Suc 0) (duel (R_stored (Inr 7)) (Some (Inr 7)) False sc False Sel_wait)"
    by (rule duel_reach[OF _ select_step.stores[of _ 0 "Inr 7"]]) (simp_all add: duel_def store_outcome_def storable_def)
  then have "select_reach (Suc 0) (duel (R_flagged (Inr 7)) (Some (Inr 7)) True sc False Sel_wait)"
    by (rule duel_reach[OF _ select_step.flags[of _ 0 "Inr 7"]]) (simp_all add: duel_def)
  then show ?thesis by (rule duel_reach[OF _ select_step.leaves[of _ 0 "Inr 7"]]) (simp_all add: duel_def)
qed

theorem select_first_witness:
  "\<exists>s :: nat select_sys. select_reach 1 s \<and> sel s = Sel_out (Inr 7) \<and> settled (racer s 0) (Inr 7) \<and> over (racer s 0) (sab s 0)"
proof -
  let ?sc = "\<lambda>st tk n c. \<lparr>stack = st, taken = tk, consumed = n, cancelled = c\<rparr>" and ?g = "R_gone (Inr 7)" and ?o = "Inr 7 :: exn + nat"
  have "select_reach (Suc 0) (duel R_absent None False (?sc [] None 1 False) False (Sel_spawn 0))"
    unfolding select_reach_def by (rule reach.start) (auto simp: select_init_def duel_def scope_new_def)
  then have "select_reach (Suc 0) (duel R_run None False (?sc [0] None 1 False) False (Sel_spawn 1))"
    by (rule duel_reach[OF _ select_step.spawns[of _ 0]]) (simp_all add: duel_def track_push_def)
  then have "select_reach (Suc 0) (duel R_run None False (?sc [0] None 1 False) False Sel_wait)"
    by (rule duel_reach[OF _ select_step.spawned]) (simp_all add: duel_def)
  then have "select_reach (Suc 0) (duel ?g (Some ?o) True (?sc [0] None 1 False) True Sel_wait)" by (rule duel_child)
  then have "select_reach (Suc 0) (duel ?g (Some ?o) True (?sc [0] None 2 True) True Sel_left)"
    by (rule duel_reach[OF _ select_step.woken]) (simp_all add: duel_def scope_cancel_def scope_leave_def scope_incr_def cas_def)
  then have "select_reach (Suc 0) (duel ?g (Some ?o) True (?sc [0] None 2 True) True (Sel_fetched ?o))"
    by (rule duel_reach[OF _ select_step.fetch]) (simp_all add: duel_def)
  then have "select_reach (Suc 0) (duel ?g (Some ?o) True (?sc [] (Some [0]) 2 True) True (Sel_join ?o))"
    by (rule duel_reach[OF _ select_step.exits[of _ ?o "?sc [] (Some [0]) 2 True" "(\<lambda>_. False)(0 := True)" "\<lambda>_. False"]])
       (simp_all add: duel_def scope_exit_native_def exit_loop_def)
  then have r: "select_reach (Suc 0) (duel ?g (Some ?o) True (?sc [] (Some [0]) 2 True) True (Sel_out ?o))"
    by (rule duel_reach[OF _ select_step.joins[of _ ?o]]) (simp_all add: duel_def)
  show ?thesis using r select_first[OF r] by (intro exI[of _ "duel ?g (Some ?o) True (?sc [] (Some [0]) 2 True) True (Sel_out ?o)"]) (simp add: duel_def)
qed

end
