(* ===== verification/Runtime.thy ===== *)
theory Runtime
  imports Socket
begin

text \<open>
  The Python layer of the runtime: \<open>src/tonio/_runtime.py\<close>, the signal functions of \<open>src/tonio/_signals.py\<close> and the decorator of
  \<open>src/tonio/_deco.py\<close>. A run sets up a socket pair, makes its writing end the wake-up descriptor of Python's signal
  module, installs a dummy handler for every configured signal, runs the native event loop, and undoes all of it. The event loop
  itself is a parameter; what is modelled of the native \<open>_run\<close> is that it takes over the two descriptors and closes
  them. The theorems say what of the process' signal state a run leaves behind, and what a call of \<open>run_until_complete\<close> returns.
\<close>

section \<open>The signal module and the process\<close>

datatype sig_handler = SIG_DFL | Default_int_handler | Noop | Handler nat

record rt_world =
  stopping :: bool
  sig_listening :: bool
  sig_wfd :: "int option"
  ssock_r :: "int option"
  ssock_w :: "int option"
  sigset :: "nat list"
  wakeup_fd :: int
  handlers :: "nat \<Rightarrow> sig_handler"
  open_fds :: "int set"
  closes :: "int list"

text \<open>
  What a run depends on: whether the caller is the main thread; the signals the platform has and those that can be caught; the
  socket module; the event loop. \<open>closes\<close> in the world records every descriptor a close was called for, \<open>wakeup_fd\<close> is \<open>-1\<close> when none is set.
\<close>

record rt_env =
  main_thread :: bool
  valid_signals :: "int list"
  catchable :: "nat \<Rightarrow> bool"
  socketpair :: "(int \<times> int, rt_world) io"
  setblocking :: "int \<Rightarrow> (unit, rt_world) io"
  event_loop :: "(unit, rt_world) io"

definition close_fd :: "int \<Rightarrow> (unit, rt_world) io" where
  "close_fd fd = modify (\<lambda>w. w\<lparr>open_fds := open_fds w - {fd}, closes := fd # closes w\<rparr>)"

definition set_wakeup_fd :: "rt_env \<Rightarrow> int \<Rightarrow> (int, rt_world) io" where
  "set_wakeup_fd env fd =
     (if \<not> main_thread env then raise (ValueError ''set_wakeup_fd only works in main thread of the main interpreter'')
      else bnd (read open_fds) (\<lambda>fds. if 0 \<le> fd \<and> fd \<notin> fds then raise (OSError 9)
      else bnd (read wakeup_fd) (\<lambda>old. bnd (modify (\<lambda>w. w\<lparr>wakeup_fd := (if 0 \<le> fd then fd else -1)\<rparr>)) (\<lambda>_. ret old))))"

definition signal_signal :: "rt_env \<Rightarrow> nat \<Rightarrow> sig_handler \<Rightarrow> (unit, rt_world) io" where
  "signal_signal env sig h =
     (if \<not> main_thread env then raise (ValueError ''signal only works in main thread of the main interpreter'')
      else if \<not> catchable env sig then raise (OSError 22)
      else modify (\<lambda>w. w\<lparr>handlers := (handlers w)(sig := h)\<rparr>))"

definition siginterrupt :: "rt_env \<Rightarrow> nat \<Rightarrow> (unit, rt_world) io" where
  "siginterrupt env sig = (if catchable env sig then ret () else raise (OSError 22))"

section \<open>Signals\<close>

definition check_sig :: "rt_env \<Rightarrow> pyval \<Rightarrow> (unit, 'w) io" where
  "check_sig env sig = (case sig of
      PInt n \<Rightarrow> if n \<in> set (valid_signals env) then ret () else raise (ValueError ''invalid signal number'')
    | PBool b \<Rightarrow> if (if b then 1 else 0) \<in> set (valid_signals env) then ret () else raise (ValueError ''invalid signal number'')
    | _ \<Rightarrow> raise (TypeError ''sig must be an int''))"

definition set_sig_wfd :: "rt_env \<Rightarrow> int \<Rightarrow> (int, rt_world) io" where
  "set_sig_wfd env fd = set_wakeup_fd env fd"

definition not_caught :: "exn \<Rightarrow> (unit, 'w) io" where
  "not_caught e = (if os_errno e = Some 22 then raise (RuntimeError ''signum cannot be caught'') else raise e)"

definition sig_add :: "rt_env \<Rightarrow> nat \<Rightarrow> (unit, rt_world) io" where
  "sig_add env sig =
     (if \<not> main_thread env then raise (ValueError ''Signals can only be handled from the main thread'')
      else bnd (check_sig env (PInt (int sig))) (\<lambda>_.
        try_except (bnd (signal_signal env sig Noop) (\<lambda>_. siginterrupt env sig)) is_OSError not_caught))"

definition default_handler :: "nat \<Rightarrow> sig_handler" where
  "default_handler sig = (if sig = 2 then Default_int_handler else SIG_DFL)"

definition sig_rem :: "rt_env \<Rightarrow> nat \<Rightarrow> (unit, rt_world) io" where
  "sig_rem env sig =
     (if \<not> main_thread env then raise (ValueError ''Signals can only be handled from the main thread'')
      else try_except (signal_signal env sig (default_handler sig)) is_OSError not_caught)"

text \<open>\<open>_signal_receiver\<close>: the arguments are checked before the receiver is made.\<close>

definition signal_receiver_args :: "rt_env \<Rightarrow> pyval list \<Rightarrow> (pyval list, 'w) io" where
  "signal_receiver_args env sigs = bnd (for_each sigs (check_sig env)) (\<lambda>_. ret sigs)"

section \<open>A run\<close>

definition ssock_start :: "rt_env \<Rightarrow> (unit, rt_world) io" where
  "ssock_start env = bnd (read ssock_w) (\<lambda>s. if s \<noteq> None then raise (RuntimeError ''self-socket has been already setup'')
     else bnd (socketpair env) (\<lambda>(r, x).
       bnd (modify (\<lambda>w. w\<lparr>ssock_r := Some r, ssock_w := Some x\<rparr>)) (\<lambda>_.
       try_except (bnd (setblocking env r) (\<lambda>_. setblocking env x)) is_Exception (\<lambda>e.
         bnd (modify (\<lambda>w. w\<lparr>ssock_w := None\<rparr>)) (\<lambda>_. bnd (close_fd x) (\<lambda>_.
         bnd (modify (\<lambda>w. w\<lparr>ssock_r := None\<rparr>)) (\<lambda>_. bnd (close_fd r) (\<lambda>_. raise e))))))))"

definition close_opt :: "int option \<Rightarrow> (unit, rt_world) io" where
  "close_opt fd = (case fd of None \<Rightarrow> ret () | Some n \<Rightarrow> close_fd n)"

text \<open>Dropping the two Python sockets closes their descriptors, or tries to.\<close>

definition ssock_stop :: "(unit, rt_world) io" where
  "ssock_stop = bnd (read (\<lambda>w. (ssock_r w, ssock_w w))) (\<lambda>(r, x).
     if x = None then raise (RuntimeError ''self-socket has not been setup'')
     else bnd (modify (\<lambda>w. w\<lparr>ssock_w := None\<rparr>)) (\<lambda>_. bnd (close_opt x) (\<lambda>_.
       bnd (modify (\<lambda>w. w\<lparr>ssock_r := None\<rparr>)) (\<lambda>_. close_opt r))))"

definition sig_reg :: "rt_env \<Rightarrow> (unit, rt_world) io" where
  "sig_reg env = try_else
     (bnd (read ssock_w) (\<lambda>s. case s of None \<Rightarrow> raise (AttributeError ''fileno'') | Some fd \<Rightarrow>
       bnd (set_sig_wfd env fd) (\<lambda>old. bnd (modify (\<lambda>w. w\<lparr>sig_wfd := Some old\<rparr>)) (\<lambda>_.
       bnd (read sigset) (\<lambda>sigs. for_each sigs (sig_add env))))))
     is_Exception
     (\<lambda>e. bnd (read sigset) (\<lambda>sigs. if sigs \<noteq> [] then raise e else ret ()))
     (\<lambda>_. modify (\<lambda>w. w\<lparr>sig_listening := True\<rparr>))"

definition sig_dereg :: "rt_env \<Rightarrow> (unit, rt_world) io" where
  "sig_dereg env = bnd (read sig_listening) (\<lambda>l. if \<not> l then ret ()
     else bnd (modify (\<lambda>w. w\<lparr>sig_listening := False\<rparr>)) (\<lambda>_.
       bnd (read sigset) (\<lambda>sigs. bnd (for_each sigs (\<lambda>sig. try_except (sig_rem env sig) is_Exception (\<lambda>_. ret ()))) (\<lambda>_.
       bnd (read sig_wfd) (\<lambda>old. case old of
          None \<Rightarrow> raise (TypeError ''not supported between instances of NoneType and int'')
        | Some fd \<Rightarrow> bnd (set_sig_wfd env fd) (\<lambda>_. ret ()))))))"

definition run_forever_pre :: "rt_env \<Rightarrow> (unit, rt_world) io" where
  "run_forever_pre env = bnd (ssock_start env) (\<lambda>_. sig_reg env)"

definition run_forever_post :: "rt_env \<Rightarrow> (unit, rt_world) io" where
  "run_forever_post env = bnd (sig_dereg env) (\<lambda>_. bnd ssock_stop (\<lambda>_. modify (\<lambda>w. w\<lparr>stopping := False\<rparr>)))"

text \<open>
  The native \<open>_run\<close>, as far as the descriptors go: \<open>init_sig_socket\<close> makes Rust sockets of the descriptors of the two Python
  sockets, which own them, and they are closed when the state of the loop is dropped.
\<close>

definition native_run :: "rt_env \<Rightarrow> (unit, rt_world) io" where
  "native_run env = bnd (read (\<lambda>w. (ssock_r w, ssock_w w))) (\<lambda>(r, x). case (r, x) of
      (Some fr, Some fw) \<Rightarrow> try_finally (event_loop env) (bnd (close_fd fr) (\<lambda>_. close_fd fw))
    | _ \<Rightarrow> raise (AttributeError ''fileno''))"

definition run_forever :: "rt_env \<Rightarrow> (unit, rt_world) io" where
  "run_forever env = try_finally (bnd (run_forever_pre env) (\<lambda>_. native_run env)) (run_forever_post env)"

definition stop :: "(unit, rt_world) io" where
  "stop = modify (\<lambda>w. w\<lparr>stopping := True\<rparr>)"

section \<open>What a run leaves behind\<close>

definition frame :: "rt_world \<Rightarrow> int option \<times> int option \<times> nat list \<times> bool \<times> int option \<times> int \<times> (nat \<Rightarrow> sig_handler)" where
  "frame w = (ssock_r w, ssock_w w, sigset w, sig_listening w, sig_wfd w, wakeup_fd w, handlers w)"

text \<open>
  What a run relies on: the event loop comes back and leaves the signal state to the runtime, and nobody closes the wake-up descriptor \<open>old\<close> that was set
  before, if there was one; \<open>socketpair\<close> gives two new open descriptors or raises.
\<close>

definition stays_open :: "int \<Rightarrow> rt_world \<Rightarrow> rt_world \<Rightarrow> bool" where
  "stays_open old w w' \<longleftrightarrow> (0 \<le> old \<and> old \<in> open_fds w \<longrightarrow> old \<in> open_fds w')"

definition env_ok :: "int \<Rightarrow> rt_env \<Rightarrow> bool" where
  "env_ok old env \<longleftrightarrow> (\<forall>w. wp (event_loop env) (\<lambda>_ w'. frame w' = frame w \<and> stays_open old w w') (\<lambda>_ w'. frame w' = frame w \<and> stays_open old w w') w) \<and>
     (\<forall>fd w. wp (setblocking env fd)
       (\<lambda>_ w'. frame w' = frame w \<and> open_fds w' = open_fds w) (\<lambda>e w'. is_Exception e \<and> frame w' = frame w) w) \<and>
     (\<forall>w. wp (socketpair env) (\<lambda>(r, x) w'. frame w' = frame w \<and> 0 \<le> x \<and> r \<notin> open_fds w \<and> x \<notin> open_fds w \<and> open_fds w' = open_fds w \<union> {r, x})
        (\<lambda>e w'. frame w' = frame w) w)"

definition sigs_ok :: "rt_env \<Rightarrow> nat list \<Rightarrow> bool" where
  "sigs_ok env sigs \<longleftrightarrow> main_thread env \<and> (\<forall>s \<in> set sigs. int s \<in> set (valid_signals env) \<and> catchable env s)"

definition with_handlers :: "nat list \<Rightarrow> (nat \<Rightarrow> sig_handler) \<Rightarrow> rt_world \<Rightarrow> rt_world" where
  "with_handlers sigs h w = w\<lparr>handlers := (\<lambda>s. if s \<in> set sigs then h s else handlers w s)\<rparr>"

lemmas io_step = bnd_def ret_def raise_def read_def modify_def try_else_def try_except_def try_finally_def

lemma with_handlers_Cons:
  "with_handlers sigs h (w\<lparr>handlers := (handlers w)(s := h s)\<rparr>) = with_handlers (s # sigs) h w"
  by (simp add: with_handlers_def fun_eq_iff)

lemma sig_adds: "sigs_ok env sigs \<Longrightarrow> for_each sigs (sig_add env) w = Some (Inr (), with_handlers sigs (\<lambda>_. Noop) w)"
proof (induction sigs arbitrary: w)
  case Nil
  show ?case by (simp add: ret_def with_handlers_def)
next
  case (Cons s sigs)
  have "sig_add env s w = Some (Inr (), w\<lparr>handlers := (handlers w)(s := Noop)\<rparr>)"
    using Cons.prems by (simp add: sigs_ok_def sig_add_def check_sig_def signal_signal_def siginterrupt_def io_step)
  moreover have "sigs_ok env sigs" using Cons.prems by (simp add: sigs_ok_def)
  ultimately show ?case using Cons.IH with_handlers_Cons[of sigs "\<lambda>_. Noop" w s] by (simp add: bnd_def)
qed

lemma sig_rems:
  "sigs_ok env sigs \<Longrightarrow> for_each sigs (\<lambda>sig. try_except (sig_rem env sig) is_Exception (\<lambda>_. ret ())) w
     = Some (Inr (), with_handlers sigs default_handler w)"
proof (induction sigs arbitrary: w)
  case Nil
  show ?case by (simp add: ret_def with_handlers_def)
next
  case (Cons s sigs)
  have "try_except (sig_rem env s) is_Exception (\<lambda>_. ret ()) w = Some (Inr (), w\<lparr>handlers := (handlers w)(s := default_handler s)\<rparr>)"
    using Cons.prems by (simp add: sigs_ok_def sig_rem_def signal_signal_def io_step)
  moreover have "sigs_ok env sigs" using Cons.prems by (simp add: sigs_ok_def)
  ultimately show ?case using Cons.IH with_handlers_Cons[of sigs default_handler w s] by (simp add: bnd_def)
qed

lemma sig_reg_ok:
  assumes "sigs_ok env (sigset w)" "ssock_w w = Some fd" "0 \<le> fd" "fd \<in> open_fds w"
  shows "sig_reg env w = Some (Inr (),
    (with_handlers (sigset w) (\<lambda>_. Noop) (w\<lparr>wakeup_fd := fd, sig_wfd := Some (wakeup_fd w)\<rparr>))\<lparr>sig_listening := True\<rparr>)"
proof -
  have "main_thread env" using assms(1) by (simp add: sigs_ok_def)
  then show ?thesis using assms sig_adds[OF assms(1)] by (simp add: sig_reg_def set_sig_wfd_def set_wakeup_fd_def io_step)
qed

lemma post_ok:
  assumes "sigs_ok env (sigset w)" "sig_listening w" "sig_wfd w = Some fd" "fd = -1 \<or> 0 \<le> fd \<and> fd \<in> open_fds w" "ssock_w w = Some x"
  shows "\<exists>w'. run_forever_post env w = Some (Inr (), w') \<and> frame w' = (None, None, sigset w, False, Some fd, fd,
    (\<lambda>s. if s \<in> set (sigset w) then default_handler s else handlers w s)) \<and> \<not> stopping w'"
proof -
  have m: "main_thread env" using assms(1) by (simp add: sigs_ok_def)
  have "sigs_ok env (sigset (w\<lparr>sig_listening := False\<rparr>))" using assms(1) by simp
  then show ?thesis using assms m sig_rems[of env "sigset w"]
    by (cases "ssock_r w") (auto simp: run_forever_post_def sig_dereg_def set_sig_wfd_def set_wakeup_fd_def ssock_stop_def close_opt_def
        close_fd_def with_handlers_def frame_def io_step)
qed

text \<open>The state during a run and after one, from the world \<open>w\<close> it began in.\<close>

definition running :: "rt_world \<Rightarrow> rt_world \<Rightarrow> bool" where
  "running w w' \<longleftrightarrow> (\<exists>r x. (0 \<le> wakeup_fd w \<longrightarrow> wakeup_fd w \<in> open_fds w' - {r, x}) \<and> frame w' = (Some r, Some x, sigset w, True, Some (wakeup_fd w), x,
     (\<lambda>s. if s \<in> set (sigset w) then Noop else handlers w s)))"

definition restored :: "rt_world \<Rightarrow> rt_world \<Rightarrow> bool" where
  "restored w w' \<longleftrightarrow> ssock_r w' = None \<and> ssock_w w' = None \<and> sigset w' = sigset w \<and> \<not> sig_listening w' \<and> wakeup_fd w' = wakeup_fd w
     \<and> (\<forall>s. s \<notin> set (sigset w) \<longrightarrow> handlers w' s = handlers w s)"

definition idle_rt :: "rt_world \<Rightarrow> bool" where
  "idle_rt w \<longleftrightarrow> ssock_r w = None \<and> ssock_w w = None \<and> \<not> sig_listening w \<and> (wakeup_fd w = -1 \<or> 0 \<le> wakeup_fd w \<and> wakeup_fd w \<in> open_fds w)"

lemma sig_reg_running:
  assumes "frame w1 = (Some r, Some x, sigset w, False, sig_wfd w, wakeup_fd w, handlers w)" "sigs_ok env (sigset w)" "0 \<le> x" "x \<in> open_fds w1"
    and "0 \<le> wakeup_fd w \<longrightarrow> wakeup_fd w \<in> open_fds w1 - {r, x}"
  shows "wp (sig_reg env) (\<lambda>_. running w) E w1"
proof -
  have f: "ssock_r w1 = Some r" "ssock_w w1 = Some x" "sigset w1 = sigset w" "wakeup_fd w1 = wakeup_fd w" "handlers w1 = handlers w"
    using assms(1) by (simp_all add: frame_def)
  have "sigs_ok env (sigset w1)" using assms(2) f by simp
  from sig_reg_ok[OF this f(2) assms(3,4)] show ?thesis
    using assms(5) by (simp add: wp_def running_def frame_def with_handlers_def f fun_eq_iff)
qed

lemma wp_setblocking_both:
  assumes "env_ok old env" "frame w1 = f" and k: "\<And>w2. frame w2 = f \<Longrightarrow> open_fds w2 = open_fds w1 \<Longrightarrow> Q () w2"
    and h: "\<And>e w2. is_Exception e \<Longrightarrow> frame w2 = f \<Longrightarrow> E e w2"
  shows "wp (bnd (setblocking env r) (\<lambda>_. setblocking env x)) Q E w1"
proof -
  have sb: "wp (setblocking env fd) (\<lambda>_ w'. frame w' = frame w \<and> open_fds w' = open_fds w) (\<lambda>e w'. is_Exception e \<and> frame w' = frame w) w" for fd w
    using assms(1) by (simp add: env_ok_def)
  show ?thesis unfolding wp_bnd
  proof (rule wp_mono[OF sb[of r w1]])
    fix a w'
    assume "frame w' = frame w1 \<and> open_fds w' = open_fds w1"
    then show "wp (setblocking env x) Q E w'" using assms(2) by (intro wp_mono[OF sb[of x w']]) (auto intro: k h)
  qed (use assms(2) h in auto)
qed

lemma pre_running:
  assumes "env_ok (wakeup_fd w) env" "idle_rt w" "sigs_ok env (sigset w)"
  shows "wp (run_forever_pre env) (\<lambda>_. running w) (\<lambda>_ w'. frame w' = frame w) w"
proof -
  have sp: "wp (socketpair env) (\<lambda>(r, x) w'. frame w' = frame w \<and> 0 \<le> x \<and> r \<notin> open_fds w \<and> x \<notin> open_fds w \<and> open_fds w' = open_fds w \<union> {r, x}) (\<lambda>_ w'. frame w' = frame w) w"
    using assms(1) by (auto simp: env_ok_def)
  have i: "ssock_r w = None" "ssock_w w = None" "\<not> sig_listening w" using assms(2) by (simp_all add: idle_rt_def)
  have go: "wp (bnd (setblocking env r) (\<lambda>_. setblocking env x)) (\<lambda>_. wp (sig_reg env) (\<lambda>_. running w) (\<lambda>_ w'. frame w' = frame w))
      (\<lambda>e. if is_Exception e then wp (bnd (modify (\<lambda>w. w\<lparr>ssock_w := None\<rparr>)) (\<lambda>_. bnd (close_fd x) (\<lambda>_.
         bnd (modify (\<lambda>w. w\<lparr>ssock_r := None\<rparr>)) (\<lambda>_. bnd (close_fd r) (\<lambda>_. raise e)))))
         (\<lambda>_. wp (sig_reg env) (\<lambda>_. running w) (\<lambda>_ w'. frame w' = frame w)) (\<lambda>_ w'. frame w' = frame w)
       else (\<lambda>w'. frame w' = frame w)) (w1\<lparr>ssock_r := Some r, ssock_w := Some x\<rparr>)"
    if "frame w1 = frame w" "0 \<le> x" "r \<notin> open_fds w" "x \<notin> open_fds w" "open_fds w1 = open_fds w \<union> {r, x}" for r x w1
    by (rule wp_setblocking_both[OF assms(1), where f = "(Some r, Some x, sigset w, False, sig_wfd w, wakeup_fd w, handlers w)"])
       (use that i assms(2,3) in \<open>auto simp: wp close_fd_def frame_def idle_rt_def intro!: sig_reg_running\<close>)
  show ?thesis
  proof -
    have "wp (socketpair env) (\<lambda>(r, x). wp (bnd (modify (\<lambda>w. w\<lparr>ssock_r := Some r, ssock_w := Some x\<rparr>)) (\<lambda>_.
       try_except (bnd (setblocking env r) (\<lambda>_. setblocking env x)) is_Exception (\<lambda>e.
         bnd (modify (\<lambda>w. w\<lparr>ssock_w := None\<rparr>)) (\<lambda>_. bnd (close_fd x) (\<lambda>_.
         bnd (modify (\<lambda>w. w\<lparr>ssock_r := None\<rparr>)) (\<lambda>_. bnd (close_fd r) (\<lambda>_. raise e))))))) 
       (\<lambda>_. wp (sig_reg env) (\<lambda>_. running w) (\<lambda>_ w'. frame w' = frame w)) (\<lambda>_ w'. frame w' = frame w)) (\<lambda>_ w'. frame w' = frame w) w"
      by (rule wp_mono[OF sp]) (use go in \<open>auto simp: wp_bnd[of "modify _"] wp_modify wp_try_except\<close>)
    then show ?thesis using i(2) by (simp add: run_forever_pre_def ssock_start_def wp_bnd wp_read case_prod_unfold)
  qed
qed

lemma native_run_running:
  assumes "env_ok (wakeup_fd w) env" "running w w1"
  shows "wp (native_run env) (\<lambda>_. running w) (\<lambda>_. running w) w1"
proof -
  have k: "wp (event_loop env) (\<lambda>_ w2. frame w2 = frame w1 \<and> stays_open (wakeup_fd w) w1 w2) (\<lambda>_ w2. frame w2 = frame w1 \<and> stays_open (wakeup_fd w) w1 w2) w1"
    using assms(1) by (auto simp: env_ok_def)
  obtain r x where rx: "ssock_r w1 = Some r" "ssock_w w1 = Some x" using assms(2) by (auto simp: running_def frame_def)
  have "running w (w2\<lparr>open_fds := open_fds w2 - {r} - {x}, closes := cs\<rparr>)" if "frame w2 = frame w1 \<and> stays_open (wakeup_fd w) w1 w2" for w2 cs
    using that assms(2) rx by (auto simp: running_def frame_def stays_open_def)
  then show ?thesis by (simp add: native_run_def wp rx close_fd_def) (rule wp_mono[OF k]; simp)
qed

lemma post_restores:
  assumes "idle_rt w" "sigs_ok env (sigset w)" "running w w1"
  shows "wp (run_forever_post env) (\<lambda>_ w'. restored w w' \<and> \<not> stopping w' \<and> (\<forall>s \<in> set (sigset w). handlers w' s = default_handler s)) (\<lambda>_ _. False) w1"
proof -
  obtain r x where f: "frame w1 = (Some r, Some x, sigset w, True, Some (wakeup_fd w), x, (\<lambda>s. if s \<in> set (sigset w) then Noop else handlers w s))"
    using assms(3) by (auto simp: running_def)
  then have g: "sig_listening w1" "sig_wfd w1 = Some (wakeup_fd w)" "ssock_w w1 = Some x" "sigset w1 = sigset w"
      "handlers w1 = (\<lambda>s. if s \<in> set (sigset w) then Noop else handlers w s)"
    by (simp_all add: frame_def)
  have o: "wakeup_fd w = -1 \<or> 0 \<le> wakeup_fd w \<and> wakeup_fd w \<in> open_fds w1" using assms(1,3) by (auto simp: idle_rt_def running_def)
  obtain w' where "run_forever_post env w1 = Some (Inr (), w')" "\<not> stopping w'" and f': "frame w' = (None, None, sigset w1, False, Some (wakeup_fd w), wakeup_fd w,
      (\<lambda>s. if s \<in> set (sigset w1) then default_handler s else handlers w1 s))"
    using post_ok[OF _ g(1,2) o g(3), of env] assms(2) g(4) by auto
  moreover have "restored w w' \<and> (\<forall>s \<in> set (sigset w). handlers w' s = default_handler s)"
    using f' g by (simp add: restored_def frame_def)
  ultimately show ?thesis by (simp add: wp_def)
qed

lemma post_not_started:
  assumes "frame w1 = frame w" "idle_rt w"
  shows "run_forever_post env w1 = Some (Inl (RuntimeError ''self-socket has not been setup''), w1)"
  using assms by (simp add: run_forever_post_def sig_dereg_def ssock_stop_def idle_rt_def frame_def io_step)

text \<open>
  C17. A run from the main thread whose configured signals can all be caught gives the process back its signal state. However the event loop ends, the run ends with the wake-up descriptor
  as it was, be it none or one that was set before and that nobody closed meanwhile, no self-socket, nothing registered, the handlers of other signals untouched and the runtime ready for another run; the
  configured signals are at Python's defaults, whatever handlers they had before. A run that cannot make its
  socket pair changes nothing, but hides the cause behind a \<open>RuntimeError\<close> of its own clean-up. What happens with a signal that cannot be caught is \<open>failed_start_keeps_signals\<close> below.
\<close>

theorem run_forever_restores:
  assumes "env_ok (wakeup_fd w) env" "sigs_ok env (sigset w)" "idle_rt w"
  shows "wp (run_forever env)
    (\<lambda>_ w'. restored w w' \<and> \<not> stopping w' \<and> (\<forall>s \<in> set (sigset w). handlers w' s = default_handler s))
    (\<lambda>e w'. restored w w' \<and> (\<not> stopping w' \<and> (\<forall>s \<in> set (sigset w). handlers w' s = default_handler s) \<or>
       e = RuntimeError ''self-socket has not been setup'' \<and> handlers w' = handlers w)) w"
proof -
  have started: "wp (bnd (run_forever_pre env) (\<lambda>_. native_run env)) (\<lambda>_. running w) (\<lambda>_ w'. running w w' \<or> frame w' = frame w) w"
    unfolding wp_bnd by (rule wp_mono[OF pre_running[OF assms(1,3,2)]]) (auto intro: wp_mono[OF native_run_running[OF assms(1)]])
  have same: "restored w w1 \<and> handlers w1 = handlers w" if "frame w1 = frame w" for w1
    using that assms(3) by (simp add: restored_def idle_rt_def frame_def)
  note rs = post_restores[OF assms(3,2)]
  show ?thesis unfolding run_forever_def wp_try_finally
  proof (rule wp_mono[OF started])
    fix a w1
    assume r: "running w w1"
    show "wp (run_forever_post env) (\<lambda>_ w'. restored w w' \<and> \<not> stopping w' \<and> (\<forall>s \<in> set (sigset w). handlers w' s = default_handler s))
        (\<lambda>e w'. restored w w' \<and> (\<not> stopping w' \<and> (\<forall>s \<in> set (sigset w). handlers w' s = default_handler s) \<or>
           e = RuntimeError ''self-socket has not been setup'' \<and> handlers w' = handlers w)) w1"
      by (rule wp_mono[OF rs[OF r]]) blast+
  next
    fix e w1
    assume r: "running w w1 \<or> frame w1 = frame w"
    show "wp (run_forever_post env) (\<lambda>_ w'. restored w w' \<and> (\<not> stopping w' \<and> (\<forall>s \<in> set (sigset w). handlers w' s = default_handler s) \<or>
           e = RuntimeError ''self-socket has not been setup'' \<and> handlers w' = handlers w))
        (\<lambda>e w'. restored w w' \<and> (\<not> stopping w' \<and> (\<forall>s \<in> set (sigset w). handlers w' s = default_handler s) \<or>
           e = RuntimeError ''self-socket has not been setup'' \<and> handlers w' = handlers w)) w1"
    proof (cases "running w w1")
      case True
      show ?thesis by (rule wp_mono[OF rs[OF True]]) blast+
    next
      case False
      with r have f: "frame w1 = frame w" by blast
      show ?thesis using same[OF f] post_not_started[OF f assms(3)] by (simp add: wp_def)
    qed
  qed
qed

section \<open>Concrete runs\<close>

definition demo_env :: "int list \<Rightarrow> rt_env" where
  "demo_env sigs = \<lparr>main_thread = True, valid_signals = sigs, catchable = (\<lambda>s. s \<noteq> 9), 
     socketpair = bnd (read open_fds) (\<lambda>fds. if 5 \<in> fds \<or> 6 \<in> fds then raise (OSError 24) else bnd (modify (\<lambda>w. w\<lparr>open_fds := open_fds w \<union> {5, 6}\<rparr>)) (\<lambda>_. ret (5, 6))), setblocking = (\<lambda>_. ret ()), event_loop = ret ()\<rparr>"

definition demo_world :: "nat list \<Rightarrow> rt_world" where
  "demo_world sigs = \<lparr>stopping = False, sig_listening = False, sig_wfd = None, ssock_r = None, ssock_w = None, sigset = sigs, wakeup_fd = -1,
     handlers = (\<lambda>_. Handler 1), open_fds = {0, 1, 2}, closes = []\<rparr>"

lemma demo_env_ok: "env_ok old (demo_env sigs)"
  by (auto simp: env_ok_def demo_env_def wp frame_def stays_open_def)

theorem run_forever_restores_witness:
  "env_ok 2 (demo_env [1, 9]) \<and> wp (run_forever (demo_env [1, 9])) (\<lambda>_ w'. wakeup_fd w' = 2 \<and> handlers w' 1 = SIG_DFL \<and> handlers w' 2 = Handler 1)
     (\<lambda>_ _. False) ((demo_world [1])\<lparr>wakeup_fd := 2\<rparr>)"
proof -
  let ?w = "(demo_world [1])\<lparr>wakeup_fd := 2\<rparr>"
  have "sigs_ok (demo_env [1, 9]) (sigset ?w)" "idle_rt ?w"
    by (simp_all add: sigs_ok_def demo_env_def demo_world_def idle_rt_def)
  note r = run_forever_restores[OF demo_env_ok this]
  have "\<exists>w'. run_forever (demo_env [1, 9]) ?w = Some (Inr (), w')"
    by (simp add: run_forever_def run_forever_pre_def ssock_start_def sig_reg_def sig_add_def native_run_def run_forever_post_def sig_dereg_def
        ssock_stop_def sig_rem_def close_opt_def close_fd_def set_sig_wfd_def set_wakeup_fd_def signal_signal_def siginterrupt_def check_sig_def
        demo_env_def demo_world_def io_step)
  then show ?thesis using r demo_env_ok
    by (auto simp: wp_def restored_def demo_world_def default_handler_def)
qed

text \<open>
  A run that cannot install one of its handlers does not undo the others. With a signal that cannot be caught among the configured
  ones \<open>run_forever\<close> raises, but the wake-up descriptor stays at the writing end of the self-socket, which is
  closed, and the signals before it keep the dummy handler, so that they are ignored from then on.
\<close>

lemma failed_start_keeps_signals:
  "\<exists>w'. run_forever (demo_env [1, 9]) (demo_world [1, 9]) = Some (Inl (RuntimeError ''signum cannot be caught''), w') \<and>
     wakeup_fd w' = 6 \<and> 6 \<notin> open_fds w' \<and> handlers w' 1 = Noop \<and> \<not> sig_listening w'"
  by (simp add: run_forever_def run_forever_pre_def ssock_start_def sig_reg_def sig_add_def native_run_def run_forever_post_def sig_dereg_def
      ssock_stop_def sig_rem_def close_opt_def close_fd_def set_sig_wfd_def set_wakeup_fd_def signal_signal_def siginterrupt_def check_sig_def
      not_caught_def is_OSError_def is_Exception_def demo_env_def demo_world_def io_step)

text \<open>Every run closes both ends of the self-socket twice, once from Rust and once when the Python sockets are dropped.\<close>

lemma run_closes_twice:
  "\<exists>w'. run_forever (demo_env []) (demo_world []) = Some (Inr (), w') \<and> closes w' = [5, 6, 6, 5]"
  by (simp add: run_forever_def run_forever_pre_def ssock_start_def sig_reg_def native_run_def run_forever_post_def sig_dereg_def
      ssock_stop_def close_opt_def close_fd_def set_sig_wfd_def set_wakeup_fd_def demo_env_def demo_world_def io_step)

end
