(* ===== verification/Run_Main.thy ===== *)
theory Run_Main
  imports Runtime
begin

text \<open>
  \<open>run_until_complete\<close> of \<open>src/tonio/_runtime.py\<close> in its two flavours, the functions \<open>new\<close> and \<open>run\<close>, and the decorator \<open>main\<close> of
  \<open>src/tonio/_deco.py\<close>. Two coroutines run beside the main thread, which sits in the event loop: the runner, which awaits the coroutine and
  stores what became of it, and the watcher, which stops the loop. The two flavours differ in the function that spawns
  the coroutines only, and share the step relation.
\<close>

section \<open>Running a coroutine\<close>

text \<open>
  The runner: in the coroutine; past it; past \<open>is_exc = True\<close>; past the \<open>store\<close>; done. The watcher: waiting, past the wait, done. The main thread: in
  the event loop; out of it; returned or raised, with Python's \<open>None\<close> as \<^const>\<open>None\<close>.
\<close>

datatype 'v runner = Run_coro | Run_ended "exn + 'v" | Run_marked exn | Run_stored "exn + 'v" | Run_done "exn + 'v"

datatype watcher = Watch | Watch_woken | Watch_done

datatype 'v rt_main = In_loop | Out_loop | Main_out "exn + 'v option"

record 'v ruc =
  runner :: "'v runner"
  is_exc :: bool
  ruc_res :: "(exn + 'v) option"
  ruc_done :: bool
  watcher :: watcher
  ruc_stopping :: bool
  interrupted :: bool
  run_raised :: "exn option"
  rt_main :: "'v rt_main"

definition ruc_init :: "'v ruc" where
  "ruc_init = \<lparr>runner = Run_coro, is_exc = False, ruc_res = None, ruc_done = False, watcher = Watch, ruc_stopping = False, interrupted = False,
     run_raised = None, rt_main = In_loop\<rparr>"

text \<open>
  The last lines: \<open>ret\<close>, the content of the slot, is raised or returned. The slot holds a value (\<^const>\<open>Inr\<close>) or the exception the second clause stored;
  raising what is no exception is a \<open>TypeError\<close>.
\<close>

definition ruc_return :: "bool \<Rightarrow> (exn + 'v) option \<Rightarrow> exn + 'v option" where
  "ruc_return exc r = (case r of
      None \<Rightarrow> if exc then Inl (TypeError ''exceptions must derive from BaseException'') else Inr None
    | Some (Inl e) \<Rightarrow> if exc then Inl e else Inr None
    | Some (Inr v) \<Rightarrow> if exc then Inl (TypeError ''exceptions must derive from BaseException'') else Inr (Some v))"

text \<open>
  The event loop ends when \<open>stopping\<close> is set, or when a signal without a handler of the runtime interrupts the poll. Anybody who has the runtime can call its \<open>stop\<close>. The loop waits for its threads, each of which first
  ends the slice of the coroutine it runs; so afterwards the runner is still waiting for the coroutine or done. \<open>run_forever\<close> raises at any time up to its end: the set-up or a signal that cannot be caught, an error of the poll,
  a Python handler that raises, or the clean-up (theory \<open>Runtime\<close>); the exception leaves \<open>run_until_complete\<close> at once.
\<close>

inductive ruc_step :: "'v ruc \<Rightarrow> 'v ruc \<Rightarrow> bool" where
  ends: "runner s = Run_coro \<Longrightarrow> ruc_step s (s\<lparr>runner := Run_ended out\<rparr>)"
| stores: "runner s = Run_ended (Inr v) \<Longrightarrow> ruc_step s (s\<lparr>runner := Run_stored (Inr v), ruc_res := Some (Inr v)\<rparr>)"
| marks: "runner s = Run_ended (Inl e) \<Longrightarrow> ruc_step s (s\<lparr>runner := Run_marked e, is_exc := True\<rparr>)"
| stores_exc: "runner s = Run_marked e \<Longrightarrow> ruc_step s (s\<lparr>runner := Run_stored (Inl e), ruc_res := Some (Inl e)\<rparr>)"
| sets: "runner s = Run_stored out \<Longrightarrow> ruc_step s (s\<lparr>runner := Run_done out, ruc_done := True\<rparr>)"
| wakes: "watcher s = Watch \<Longrightarrow> ruc_done s \<Longrightarrow> ruc_step s (s\<lparr>watcher := Watch_woken\<rparr>)"
| stops: "watcher s = Watch_woken \<Longrightarrow> ruc_step s (s\<lparr>watcher := Watch_done, ruc_stopping := True\<rparr>)"
| breaks: "rt_main s = In_loop \<Longrightarrow> ruc_stopping s \<Longrightarrow> ruc_step s (s\<lparr>rt_main := Out_loop\<rparr>)"
| interrupts: "rt_main s = In_loop \<Longrightarrow> ruc_step s (s\<lparr>rt_main := Out_loop, interrupted := True\<rparr>)"
| stopped: "ruc_step s (s\<lparr>ruc_stopping := True, interrupted := True\<rparr>)"
| run_raises: "rt_main s = In_loop \<or> rt_main s = Out_loop \<Longrightarrow> ruc_step s (s\<lparr>rt_main := Main_out (Inl e), run_raised := Some e\<rparr>)"
| fetches: "rt_main s = Out_loop \<Longrightarrow> runner s = Run_coro \<or> (\<exists>out. runner s = Run_done out) \<Longrightarrow>
     ruc_step s (s\<lparr>rt_main := Main_out (ruc_return (is_exc s) (ruc_res s))\<rparr>)"

definition ruc_reach :: "'v ruc \<Rightarrow> bool" where
  "ruc_reach = reach (\<lambda>s. s = ruc_init) ruc_step"

definition outcome :: "exn + 'v \<Rightarrow> exn + 'v option" where
  "outcome out = (case out of Inl e \<Rightarrow> Inl e | Inr v \<Rightarrow> Inr (Some v))"

definition runner_inv :: "'v ruc \<Rightarrow> bool" where
  "runner_inv s \<longleftrightarrow> (case runner s of
      Run_coro \<Rightarrow> \<not> is_exc s \<and> ruc_res s = None \<and> \<not> ruc_done s
    | Run_ended _ \<Rightarrow> \<not> is_exc s \<and> ruc_res s = None \<and> \<not> ruc_done s
    | Run_marked _ \<Rightarrow> is_exc s \<and> ruc_res s = None \<and> \<not> ruc_done s
    | Run_stored out \<Rightarrow> is_exc s = (\<exists>e. out = Inl e) \<and> ruc_res s = Some out \<and> \<not> ruc_done s
    | Run_done out \<Rightarrow> is_exc s = (\<exists>e. out = Inl e) \<and> ruc_res s = Some out \<and> ruc_done s)"

definition main_inv :: "'v ruc \<Rightarrow> bool" where
  "main_inv s \<longleftrightarrow> (watcher s \<noteq> Watch \<longrightarrow> ruc_done s) \<and> (watcher s = Watch_done \<longrightarrow> ruc_stopping s) \<and> (ruc_stopping s \<longrightarrow> watcher s = Watch_done \<or> interrupted s) \<and>
     (case rt_main s of
        In_loop \<Rightarrow> run_raised s = None
      | Out_loop \<Rightarrow> run_raised s = None \<and> (interrupted s \<or> ruc_done s)
      | Main_out r \<Rightarrow> (case run_raised s of Some e \<Rightarrow> r = Inl e
          | None \<Rightarrow> (\<exists>out. runner s = Run_done out \<and> r = outcome out) \<or> interrupted s \<and> r = Inr None))"

lemma ruc_return_done: "ruc_return (\<exists>e. out = Inl e) (Some out) = outcome out"
  by (cases out) (simp_all add: ruc_return_def outcome_def)

lemma ruc_step_inv:
  assumes "ruc_step s t" "runner_inv s \<and> main_inv s"
  shows "runner_inv t \<and> main_inv t"
  using assms(1)
proof cases
  case fetches
  show ?thesis
  proof (cases "runner s = Run_coro")
    case True
    then have "interrupted s" "ruc_return (is_exc s) (ruc_res s) = Inr None"
      using assms(2) fetches by (auto simp: runner_inv_def main_inv_def ruc_return_def)
    then show ?thesis using fetches assms(2) by (auto simp: runner_inv_def main_inv_def split: runner.splits)
  next
    case False
    then obtain out where o: "runner s = Run_done out" using fetches by blast
    then have "ruc_return (is_exc s) (ruc_res s) = outcome out" using assms(2) ruc_return_done[of out] by (simp add: runner_inv_def)
    then show ?thesis using fetches assms(2) o by (auto simp: runner_inv_def main_inv_def)
  qed
qed (use assms(2) in \<open>auto simp: runner_inv_def main_inv_def split: rt_main.splits runner.splits option.splits\<close>)

interpretation ru: step_system "\<lambda>s. s = ruc_init" ruc_step "\<lambda>s. runner_inv s \<and> main_inv s"
proof
  show "runner_inv s \<and> main_inv s" if "s = ruc_init" for s :: "'a ruc"
    using that by (simp add: ruc_init_def runner_inv_def main_inv_def)
qed (rule ruc_step_inv)

text \<open>When the runner is done, the watcher and the main thread can go on to the end.\<close>

lemma ruc_can_finish:
  assumes "runner_inv s" "main_inv s" "runner s = Run_done out" "rt_main s = In_loop"
  shows "\<exists>t. ruc_step\<^sup>*\<^sup>* s t \<and> run_raised t = None \<and> rt_main t = Main_out (outcome out)"
proof -
  have n: "run_raised s = None" using assms(2,4) by (simp add: main_inv_def)
  have d: "ruc_done s" "ruc_return (is_exc s) (ruc_res s) = outcome out"
    using assms(1,3) ruc_return_done[of out] by (auto simp: runner_inv_def)
  have "\<exists>t. ruc_step\<^sup>*\<^sup>* s t \<and> watcher t = Watch_done \<and> ruc_stopping t \<and> runner t = runner s \<and> is_exc t = is_exc s \<and> ruc_res t = ruc_res s
      \<and> rt_main t = In_loop \<and> run_raised t = None"
  proof (cases "watcher s")
    case Watch
    have "ruc_step s (s\<lparr>watcher := Watch_woken\<rparr>)" using Watch d(1) by (rule ruc_step.wakes)
    moreover have "ruc_step (s\<lparr>watcher := Watch_woken\<rparr>) (s\<lparr>watcher := Watch_done, ruc_stopping := True\<rparr>)"
      using ruc_step.stops[of "s\<lparr>watcher := Watch_woken\<rparr>"] by simp
    ultimately show ?thesis using assms(4) n by (intro exI[of _ "s\<lparr>watcher := Watch_done, ruc_stopping := True\<rparr>"]) (simp add: converse_rtranclp_into_rtranclp)
  next
    case Watch_woken
    from ruc_step.stops[OF this] show ?thesis using assms(4) n
      by (intro exI[of _ "s\<lparr>watcher := Watch_done, ruc_stopping := True\<rparr>"]) (simp add: r_into_rtranclp)
  next
    case Watch_done
    then show ?thesis using assms(2,4) n by (intro exI[of _ s]) (simp add: main_inv_def)
  qed
  then obtain t where t: "ruc_step\<^sup>*\<^sup>* s t" "ruc_stopping t" "runner t = runner s" "is_exc t = is_exc s" "ruc_res t = ruc_res s" "rt_main t = In_loop" "run_raised t = None"
    by blast
  let ?u = "t\<lparr>rt_main := Out_loop\<rparr>" and ?v = "t\<lparr>rt_main := Main_out (outcome out)\<rparr>"
  have "ruc_step t ?u" using t(6,2) by (rule ruc_step.breaks)
  moreover have "ruc_step ?u ?v" using ruc_step.fetches[of ?u] t assms(3) d(2) by simp
  ultimately have "ruc_step\<^sup>*\<^sup>* t ?v" by (simp add: converse_rtranclp_into_rtranclp)
  then show ?thesis using t(1,7) by (intro exI[of _ ?v]) (simp add: rtranclp_trans)
qed

text \<open>
  C18. What \<open>run_until_complete\<close> gives. When \<open>run_forever\<close> raises, it raises that exception. Otherwise what it returns or raises, of whatever class, is what the coroutine returned or raised, and
  only after it has ended; a run that a signal interrupts or somebody else stops may return \<open>None\<close> instead, with the
  coroutine unfinished. Once the coroutine is done the call can always go on to its end with the outcome.
\<close>

theorem run_until_complete_outcome:
  assumes "ruc_reach s"
  shows "(\<forall>r. rt_main s = Main_out r \<longrightarrow> (case run_raised s of Some e \<Rightarrow> r = Inl e
        | None \<Rightarrow> (\<exists>out. runner s = Run_done out \<and> r = outcome out) \<or> interrupted s \<and> r = Inr None)) \<and>
    (\<forall>out. runner s = Run_done out \<and> rt_main s = In_loop \<longrightarrow> (\<exists>t. ruc_step\<^sup>*\<^sup>* s t \<and> run_raised t = None \<and> rt_main t = Main_out (outcome out)))"
proof -
  have i: "runner_inv s" "main_inv s" using ru.reach_inv[of s] assms by (auto simp: ruc_reach_def)
  have "case run_raised s of Some e \<Rightarrow> r = Inl e | None \<Rightarrow> (\<exists>out. runner s = Run_done out \<and> r = outcome out) \<or> interrupted s \<and> r = Inr None"
    if "rt_main s = Main_out r" for r
    using i(2) that by (simp add: main_inv_def)
  then show ?thesis using ruc_can_finish[OF i] by blast
qed

theorem run_until_complete_outcome_witness:
  "\<exists>s :: nat ruc. ruc_reach s \<and> runner s = Run_done (Inl KeyboardInterrupt) \<and>
     (\<exists>t. ruc_step\<^sup>*\<^sup>* s t \<and> rt_main t = Main_out (Inl KeyboardInterrupt))"
proof -
  let ?a = "ruc_init :: nat ruc" and ?e = "Inl KeyboardInterrupt :: exn + nat"
  let ?b = "?a\<lparr>runner := Run_ended ?e\<rparr>" and ?c = "?a\<lparr>runner := Run_marked KeyboardInterrupt, is_exc := True\<rparr>"
    and ?d = "?a\<lparr>runner := Run_stored ?e, is_exc := True, ruc_res := Some ?e\<rparr>" and ?f = "?a\<lparr>runner := Run_done ?e, is_exc := True, ruc_res := Some ?e, ruc_done := True\<rparr>"
  have st: "ruc_step ?a ?b" "ruc_step ?b ?c" "ruc_step ?c ?d" "ruc_step ?d ?f"
    using ruc_step.ends[of ?a ?e] ruc_step.marks[of ?b KeyboardInterrupt] ruc_step.stores_exc[of ?c KeyboardInterrupt] ruc_step.sets[of ?d ?e]
    by (simp_all add: ruc_init_def)
  have r0: "reach (\<lambda>s. s = ruc_init) ruc_step ?a" by (rule reach.start) simp
  note go = reach.next_state
  have r: "ruc_reach ?f" unfolding ruc_reach_def by (rule go[OF go[OF go[OF go[OF r0 st(1)] st(2)] st(3)] st(4)])
  have "runner ?f = Run_done ?e" "rt_main ?f = In_loop" by (simp_all add: ruc_init_def)
  then have "\<exists>t. ruc_step\<^sup>*\<^sup>* ?f t \<and> rt_main t = Main_out (outcome ?e)" using run_until_complete_outcome[OF r] by blast
  then show ?thesis using r by (intro exI[of _ ?f]) (simp add: outcome_def)
qed

section \<open>new, run and main\<close>

record options =
  use_context :: bool
  signals :: "nat list option"
  threads :: "nat option"
  blocking_threadpool_size :: int
  blocking_threadpool_idle_ttl :: int

definition default_options :: options where
  "default_options = \<lparr>use_context = False, signals = None, threads = None, blocking_threadpool_size = 128, blocking_threadpool_idle_ttl = 30\<rparr>"

text \<open>The arguments \<open>new\<close> passes to the native constructor; \<open>cpus\<close> is \<open>multiprocessing.cpu_count()\<close>.\<close>

record rt_args =
  a_threads :: nat
  a_blocking :: int
  a_timeout :: int
  a_context :: bool
  a_signals :: "nat list"

definition new_runtime :: "nat \<Rightarrow> options \<Rightarrow> rt_args" where
  "new_runtime cpus opts = \<lparr>
     a_threads = (case threads opts of None \<Rightarrow> cpus | Some n \<Rightarrow> if n = 0 then cpus else n),
     a_blocking = blocking_threadpool_size opts,
     a_timeout = blocking_threadpool_idle_ttl opts,
     a_context = use_context opts,
     a_signals = (case signals opts of None \<Rightarrow> [] | Some sigs \<Rightarrow> sigs)\<rparr>"

text \<open>\<open>run(coro, ...)\<close>: the runtime it makes and the coroutine it runs on it.\<close>

definition run_call :: "nat \<Rightarrow> 'c \<Rightarrow> options \<Rightarrow> rt_args \<times> 'c" where
  "run_call cpus coro opts = (new_runtime cpus opts, coro)"

text \<open>\<open>main(...)\<close>: a decorator with the options, or, given a function, the wrapped function itself.\<close>

datatype 'c main_result = Decorator "'c \<Rightarrow> rt_args \<times> 'c" | Wrapper "rt_args \<times> 'c"

definition main_deco :: "nat \<Rightarrow> 'c list \<Rightarrow> options \<Rightarrow> exn + 'c main_result" where
  "main_deco cpus coros opts = (case coros of
      [] \<Rightarrow> Inr (Decorator (\<lambda>coro. run_call cpus coro opts))
    | [coro] \<Rightarrow> Inr (Wrapper (run_call cpus coro default_options))
    | _ \<Rightarrow> Inl (SyntaxError ''Invalid argument for `main`''))"

text \<open>A runtime always has a thread, and given a function \<open>main\<close> drops the options.\<close>

lemma new_runtime_has_threads: "0 < cpus \<Longrightarrow> 0 < a_threads (new_runtime cpus opts)"
  by (simp add: new_runtime_def split: option.split)

lemma main_drops_options: "main_deco cpus [coro] opts = main_deco cpus [coro] default_options"
  by (simp add: main_deco_def)

end
