(* ===== verification/Intervals.thy ===== *)
theory Intervals
  imports Complex_Main
begin

text \<open>
  Time: \<open>Interval\<close>, \<open>interval\<close>, \<open>time\<close> and \<open>sleep\<close> of \<open>src/tonio/_time.py\<close> (and of \<open>src/tonio/_colored/_time.py\<close>, which inherits
  \<open>_poll\<close>), the conversion of timeouts to microseconds in \<open>src/tonio/_events.py\<close> and \<open>src/tonio/_io.py\<close>. The clock of the runtime and the deadlines
  are whole microseconds, Python's unbounded integers. A product such as \<open>timeout * 1_000_000\<close> is an argument here, the exact value of the
  Python number, so that the rounding of floating-point multiplication does not matter.
\<close>

section \<open>Timeouts in microseconds\<close>

text \<open>Python's \<open>round\<close>: to the nearest integer, to the even one of two.\<close>

definition py_round :: "rat \<Rightarrow> int" where
  "py_round x = (let f = \<lfloor>x\<rfloor>; d = x - of_int f in
     if d < 1 / 2 then f else if d > 1 / 2 then f + 1 else if even f then f else f + 1)"

definition to_micros :: "rat \<Rightarrow> int" where
  "to_micros product = py_round (max 0 product)"

text \<open>\<open>Event.wait\<close>, \<open>ScheduledIO.arm_r\<close> and \<open>ScheduledIO.arm_w\<close>: the timeout handed to the native waiter.\<close>

definition event_wait :: "rat option \<Rightarrow> int option" where
  "event_wait timeout = (case timeout of None \<Rightarrow> None | Some product \<Rightarrow> Some (to_micros product))"

definition arm_r_timeout :: "rat option \<Rightarrow> int option" where
  "arm_r_timeout timeout = (case timeout of None \<Rightarrow> None | Some product \<Rightarrow> Some (to_micros product))"

definition arm_w_timeout :: "rat option \<Rightarrow> int option" where
  "arm_w_timeout timeout = (case timeout of None \<Rightarrow> None | Some product \<Rightarrow> Some (to_micros product))"

definition sleep_timeout :: "rat \<Rightarrow> int option" where
  "sleep_timeout product = event_wait (Some product)"

lemma py_round_close: "\<bar>of_int (py_round x) - x\<bar> \<le> 1 / 2"
proof -
  have "of_int \<lfloor>x\<rfloor> \<le> x" "x < of_int \<lfloor>x\<rfloor> + 1" by linarith+
  then show ?thesis by (auto simp: py_round_def Let_def)
qed

lemma to_micros_nonneg: "0 \<le> to_micros product"
proof -
  have "0 \<le> \<lfloor>max 0 product\<rfloor>" by simp
  then show ?thesis by (simp add: to_micros_def py_round_def Let_def)
qed

lemma sleep_timeout_close:
  assumes "0 \<le> product"
  shows "\<exists>n. sleep_timeout product = Some n \<and> 0 \<le> n \<and> \<bar>of_int n - product\<bar> \<le> 1 / 2"
  using py_round_close[of "max 0 product"] to_micros_nonneg[of product] assms
  by (simp add: sleep_timeout_def event_wait_def to_micros_def)

section \<open>Intervals\<close>

record interval =
  deadline :: int
  len :: int

definition interval_poll :: "int \<Rightarrow> interval \<Rightarrow> int \<times> interval" where
  "interval_poll now i =
     (if deadline i \<le> now then (0, i\<lparr>deadline := now + len i\<rparr>)
      else (deadline i - now, i\<lparr>deadline := deadline i + len i\<rparr>))"

text \<open>
  \<open>interval(period, at)\<close>: \<open>at\<close> is \<^const>\<open>None\<close> also for a zero, and then the current time is taken; the arguments are the products.
\<close>

definition interval_new :: "rat \<Rightarrow> rat option \<Rightarrow> rat \<Rightarrow> interval" where
  "interval_new period start time =
     \<lparr>deadline = py_round (case start of None \<Rightarrow> time | Some a \<Rightarrow> if a = 0 then time else a), len = py_round (max 0 period)\<rparr>"

text \<open>The times the ticks of an interval are due at, when \<open>tick\<close> is called at the times \<open>nows\<close>.\<close>

fun ticks :: "interval \<Rightarrow> int list \<Rightarrow> int list" where
  "ticks i [] = []"
| "ticks i (now # nows) = (case interval_poll now i of (delay, i') \<Rightarrow> (now + delay) # ticks i' nows)"

text \<open>The \<open>await\<close> flavour inherits \<open>_poll\<close>; \<open>Event.wait\<close> returns the waiter instead of yielding it, and \<open>sleep\<close>, \<open>interval\<close> and \<open>tick\<close> are on top.\<close>

definition aw_event_wait :: "rat option \<Rightarrow> int option" where
  "aw_event_wait timeout = (case timeout of None \<Rightarrow> None | Some product \<Rightarrow> Some (to_micros product))"

definition aw_sleep_timeout :: "rat \<Rightarrow> int option" where
  "aw_sleep_timeout product = aw_event_wait (Some product)"

definition aw_interval_new :: "rat \<Rightarrow> rat option \<Rightarrow> rat \<Rightarrow> interval" where
  "aw_interval_new period start time =
     \<lparr>deadline = py_round (case start of None \<Rightarrow> time | Some a \<Rightarrow> if a = 0 then time else a), len = py_round (max 0 period)\<rparr>"

fun aw_ticks :: "interval \<Rightarrow> int list \<Rightarrow> int list" where
  "aw_ticks i [] = []"
| "aw_ticks i (now # nows) = (case interval_poll now i of (delay, i') \<Rightarrow> (now + delay) # aw_ticks i' nows)"

lemma aw_ticks_same: "aw_ticks i nows = ticks i nows"
  by (induction nows arbitrary: i) (simp_all split: prod.splits)

lemma aw_time_same: "aw_event_wait = event_wait" "aw_sleep_timeout = sleep_timeout" "aw_interval_new = interval_new" "aw_ticks = ticks"
  by (intro ext, simp add: aw_event_wait_def event_wait_def aw_sleep_timeout_def sleep_timeout_def aw_interval_new_def interval_new_def aw_ticks_same)+

lemma poll_due:
  "interval_poll now i = (max now (deadline i) - now, i\<lparr>deadline := max now (deadline i) + len i\<rparr>)"
  by (cases i) (auto simp: interval_poll_def)

lemma interval_len_nonneg: "0 \<le> len (interval_new period start time)"
  using to_micros_nonneg[of period] by (simp add: interval_new_def to_micros_def)

lemma ticks_Cons [simp]: "ticks i (now # nows) = max now (deadline i) # ticks (i\<lparr>deadline := max now (deadline i) + len i\<rparr>) nows"
  by (simp add: poll_due)

declare ticks.simps(2) [simp del]

lemma ticks_spaced:
  "(\<forall>k. Suc k < length nows \<longrightarrow> ticks i nows ! k + len i \<le> ticks i nows ! Suc k)"
proof (induction nows arbitrary: i)
  case (Cons now nows)
  show ?case
  proof (intro allI impI)
    fix k
    assume "Suc k < length (now # nows)"
    then show "ticks i (now # nows) ! k + len i \<le> ticks i (now # nows) ! Suc k"
    proof (cases k)
      case 0
      then show ?thesis using \<open>Suc k < _\<close> by (cases nows) auto
    next
      case (Suc j)
      then show ?thesis using \<open>Suc k < _\<close> Cons.IH[of "i\<lparr>deadline := max now (deadline i) + len i\<rparr>"] by simp
    qed
  qed
qed simp

lemma ticks_regular:
  assumes "\<And>k. k < length nows \<Longrightarrow> nows ! k \<le> deadline i + int k * len i" "k < length nows"
  shows "ticks i nows ! k = deadline i + int k * len i"
  using assms
proof (induction nows arbitrary: i k)
  case (Cons now nows)
  have now: "now \<le> deadline i" using Cons.prems(1)[of 0] by simp
  show ?case
  proof (cases k)
    case (Suc j)
    have "ticks (i\<lparr>deadline := deadline i + len i\<rparr>) nows ! j = (deadline i + len i) + int j * len i"
    proof -
      have "nows ! n \<le> (deadline i + len i) + int n * len i" if "n < length nows" for n
        using Cons.prems(1)[of "Suc n"] that by (simp add: algebra_simps)
      then show ?thesis using Cons.IH[of "i\<lparr>deadline := deadline i + len i\<rparr>" j] Suc Cons.prems(2) by simp
    qed
    then show ?thesis using now Suc by (simp add: algebra_simps max_absorb2)
  qed (use now in simp)
qed simp

text \<open>
  C38. The ticks of an interval. However late \<open>tick\<close> is called, no tick is due before its call, and two ticks in a row are at
  least a period apart: missed ticks are not made up for in a burst. As long as every call comes in time the ticks are
  due exactly at the start plus the multiples of the period, without drift.
\<close>

theorem interval_ticks:
  assumes "i = interval_new period start time"
  shows "length (ticks i nows) = length nows \<and> 0 \<le> len i \<and>
    (\<forall>k. k < length nows \<longrightarrow> nows ! k \<le> ticks i nows ! k) \<and>
    (\<forall>k. Suc k < length nows \<longrightarrow> ticks i nows ! k + len i \<le> ticks i nows ! Suc k) \<and>
    ((\<forall>k < length nows. nows ! k \<le> deadline i + int k * len i) \<longrightarrow> (\<forall>k < length nows. ticks i nows ! k = deadline i + int k * len i))"
proof -
  have "length (ticks i nows) = length nows" for i nows by (induction nows arbitrary: i) simp_all
  moreover have "k < length nows \<Longrightarrow> nows ! k \<le> ticks i nows ! k" for k i
  proof (induction nows arbitrary: i k)
    case (Cons now nows)
    then show ?case by (cases k) simp_all
  qed simp
  ultimately show ?thesis using ticks_spaced[of nows i] ticks_regular[of nows i] interval_len_nonneg[of period start time] assms by blast
qed

theorem interval_ticks_witness:
  "ticks (interval_new 1000 (Some 5000) 4000) [4500, 5500, 9000] = [5000, 6000, 9000] \<and> length (ticks (interval_new 1000 (Some 5000) 4000) [4500, 5500, 9000]) = 3 \<and>
   ticks (interval_new 1000 (Some 5000) 4000) [4500, 5500, 9000] ! 1 + 1000 \<le> ticks (interval_new 1000 (Some 5000) 4000) [4500, 5500, 9000] ! 2"
proof -
  have i: "interval_new 1000 (Some 5000) 4000 = \<lparr>deadline = 5000, len = 1000\<rparr>" by (simp add: interval_new_def py_round_def)
  show ?thesis using interval_ticks[OF refl, of 1000 "Some 5000" 4000 "[4500, 5500, 9000]"] by (simp add: i)
qed

end
