(* ===== verification/Channel.thy ===== *)
theory Channel
  imports Prelude Py_Errors
begin

text \<open>
  Channels: the native \<open>Channel\<close> of \<open>src/src/sync.rs\<close> with the classes \<open>ChannelSender\<close> and \<open>ChannelReceiver\<close> of \<open>src/tonio/_sync.py\<close>, any number of
  senders and receivers on any number of threads. A step of the relation is one access to a shared cell, or one section under
  the lock of the queue. \<open>UnboundedChannel\<close> is the same code without the counter and the events of the senders; its
  senders never wait, as with a size no counter reaches.
\<close>

section \<open>The sections under the lock\<close>

datatype 'm pulled = Got 'm "nat option" "('m \<times> nat option) list" | Closed | Empty

definition try_pull :: "('m \<times> nat option) list \<Rightarrow> bool \<Rightarrow> 'm pulled" where
  "try_pull q closed = (case q of
      (message, want_pull) # q' \<Rightarrow> Got message want_pull q'
    | [] \<Rightarrow> if closed then Closed else Empty)"

definition push_lock :: "'m \<Rightarrow> nat option \<Rightarrow> ('m \<times> nat option) list \<Rightarrow> nat list \<Rightarrow> ('m \<times> nat option) list \<times> nat option \<times> nat list" where
  "push_lock message want_pull q ws = (q @ [(message, want_pull)], (case ws of [] \<Rightarrow> (None, []) | e # ws' \<Rightarrow> (Some e, ws')))"

definition want_pull :: "nat \<Rightarrow> nat \<Rightarrow> nat \<Rightarrow> nat option" where
  "want_pull cap len fresh = (if len \<ge> cap then Some fresh else None)"

definition set_opt :: "nat option \<Rightarrow> (nat \<Rightarrow> bool) \<Rightarrow> nat \<Rightarrow> bool" where
  "set_opt e f = (case e of None \<Rightarrow> f | Some k \<Rightarrow> f(k := True))"

section \<open>The system\<close>

text \<open>
  A sender: not sending; past the check of \<open>closed\<close>; past the counter; past the queue, with a receiver to wake; waiting; back.
  A receiver: not receiving; at the fast path; at the slow path; holding a message, with the counter and then the
  sender's event still to do; waiting; back. Whoever closes: not yet; past the flag; with the waiters; done.
\<close>

datatype 'm sender = S_start | S_open 'm | S_counted 'm "nat option" | S_queued "nat option" "nat option" | S_wait nat | S_done "exn + unit"

datatype 'm receiver = R_start | R_fast | R_slow | R_got 'm "nat option" | R_dec 'm "nat option" | R_wait nat | R_done "exn + 'm"

datatype closer = C_open | C_flag | C_take "nat list" | C_done

text \<open>What the abstract queue sees: the points at which an operation takes effect.\<close>

datatype 'm op = Enq nat 'm | Deq nat 'm | Shut | No_recv nat | No_send nat

record 'm chan =
  queue :: "('m \<times> nat option) list"
  waiters :: "nat list"
  len :: nat
  closed :: bool
  evs :: "nat \<Rightarrow> bool"
  fresh :: nat
  sender :: "nat \<Rightarrow> 'm sender"
  receiver :: "nat \<Rightarrow> 'm receiver"
  closer :: closer
  ops :: "'m op list"
  returned :: "nat \<Rightarrow> 'm list"

definition chan_init :: "'m chan" where
  "chan_init = \<lparr>queue = [], waiters = [], len = 0, closed = False, evs = (\<lambda>_. False), fresh = 0, sender = (\<lambda>_. S_start), receiver = (\<lambda>_. R_start),
     closer = C_open, ops = [], returned = (\<lambda>_. [])\<rparr>"

inductive chan_step :: "nat \<Rightarrow> nat \<Rightarrow> nat \<Rightarrow> 'm chan \<Rightarrow> 'm chan \<Rightarrow> bool" for cap n r where
  send: "i < n \<Longrightarrow> sender s i = S_start \<or> sender s i = S_done out \<Longrightarrow> \<not> closed s \<Longrightarrow> chan_step cap n r s (s\<lparr>sender := (sender s)(i := S_open m)\<rparr>)"
| refused: "i < n \<Longrightarrow> sender s i = S_start \<or> sender s i = S_done out \<Longrightarrow> closed s \<Longrightarrow>
     chan_step cap n r s (s\<lparr>sender := (sender s)(i := S_done (Inl BrokenPipeError)), ops := No_send i # ops s\<rparr>)"
| counts: "i < n \<Longrightarrow> sender s i = S_open m \<Longrightarrow>
     chan_step cap n r s (s\<lparr>sender := (sender s)(i := S_counted m (want_pull cap (len s) (fresh s))), len := Suc (len s), fresh := Suc (fresh s)\<rparr>)"
| pushes: "i < n \<Longrightarrow> sender s i = S_counted m want \<Longrightarrow> push_lock m want (queue s) (waiters s) = (q, wake, ws) \<Longrightarrow>
     chan_step cap n r s (s\<lparr>sender := (sender s)(i := S_queued want wake), queue := q, waiters := ws, ops := Enq i m # ops s\<rparr>)"
| wakes: "i < n \<Longrightarrow> sender s i = S_queued want wake \<Longrightarrow>
     chan_step cap n r s (s\<lparr>sender := (sender s)(i := (case want of None \<Rightarrow> S_done (Inr ()) | Some e \<Rightarrow> S_wait e)), evs := set_opt wake (evs s)\<rparr>)"
| resumes: "i < n \<Longrightarrow> sender s i = S_wait e \<Longrightarrow> evs s e \<Longrightarrow> chan_step cap n r s (s\<lparr>sender := (sender s)(i := S_done (Inr ()))\<rparr>)"
| send_cancelled: "i < n \<Longrightarrow> sender s i = S_wait e \<Longrightarrow> chan_step cap n r s (s\<lparr>sender := (sender s)(i := S_done (Inl CancelledError))\<rparr>)"
| receive: "j < r \<Longrightarrow> receiver s j = R_start \<or> receiver s j = R_done res \<Longrightarrow> chan_step cap n r s (s\<lparr>receiver := (receiver s)(j := R_fast)\<rparr>)"
| gets: "j < r \<Longrightarrow> receiver s j = R_fast \<or> receiver s j = R_slow \<Longrightarrow> try_pull (queue s) (closed s) = Got m want q \<Longrightarrow>
     chan_step cap n r s (s\<lparr>receiver := (receiver s)(j := R_got m want), queue := q, ops := Deq j m # ops s\<rparr>)"
| no_more: "j < r \<Longrightarrow> receiver s j = R_fast \<or> receiver s j = R_slow \<Longrightarrow> try_pull (queue s) (closed s) = Closed \<Longrightarrow>
     chan_step cap n r s (s\<lparr>receiver := (receiver s)(j := R_done (Inl BrokenPipeError)), ops := No_recv j # ops s\<rparr>)"
| slow: "j < r \<Longrightarrow> receiver s j = R_fast \<Longrightarrow> try_pull (queue s) (closed s) = Empty \<Longrightarrow> chan_step cap n r s (s\<lparr>receiver := (receiver s)(j := R_slow)\<rparr>)"
| parks: "j < r \<Longrightarrow> receiver s j = R_slow \<Longrightarrow> try_pull (queue s) (closed s) = Empty \<Longrightarrow>
     chan_step cap n r s (s\<lparr>receiver := (receiver s)(j := R_wait (fresh s)), waiters := waiters s @ [fresh s], fresh := Suc (fresh s)\<rparr>)"
| decs: "j < r \<Longrightarrow> receiver s j = R_got m want \<Longrightarrow> chan_step cap n r s (s\<lparr>receiver := (receiver s)(j := R_dec m want), len := len s - 1\<rparr>)"
| returns: "j < r \<Longrightarrow> receiver s j = R_dec m want \<Longrightarrow>
     chan_step cap n r s (s\<lparr>receiver := (receiver s)(j := R_done (Inr m)), evs := set_opt want (evs s), returned := (returned s)(j := returned s j @ [m])\<rparr>)"
| woken: "j < r \<Longrightarrow> receiver s j = R_wait e \<Longrightarrow> evs s e \<Longrightarrow> chan_step cap n r s (s\<lparr>receiver := (receiver s)(j := R_fast)\<rparr>)"
| receive_cancelled: "j < r \<Longrightarrow> receiver s j = R_wait e \<Longrightarrow> chan_step cap n r s (s\<lparr>receiver := (receiver s)(j := R_done (Inl CancelledError))\<rparr>)"
| closes: "closer s = C_open \<Longrightarrow> chan_step cap n r s (s\<lparr>closed := True, closer := C_flag, ops := Shut # ops s\<rparr>)"
| takes: "closer s = C_flag \<Longrightarrow> chan_step cap n r s (s\<lparr>waiters := [], closer := C_take (waiters s)\<rparr>)"
| drains: "closer s = C_take ws \<Longrightarrow> chan_step cap n r s (s\<lparr>evs := (\<lambda>e. evs s e \<or> e \<in> set ws), closer := C_done\<rparr>)"

definition chan_reach :: "nat \<Rightarrow> nat \<Rightarrow> nat \<Rightarrow> 'm chan \<Rightarrow> bool" where
  "chan_reach cap n r = reach (\<lambda>s. s = chan_init) (chan_step cap n r)"

section \<open>The abstract queue\<close>

text \<open>
  A queue with a flag. A receive is turned away only when the queue is empty and closed, a send only when it is closed; a send that was let in
  may still be added after the closing. The operations are newest first.
\<close>

definition fifo_apply :: "'m op \<Rightarrow> 'm list \<times> bool \<Rightarrow> ('m list \<times> bool) option" where
  "fifo_apply x st = (case (x, st) of
      (Enq i m, (q, c)) \<Rightarrow> Some (q @ [m], c)
    | (Deq j m, (q, c)) \<Rightarrow> (case q of [] \<Rightarrow> None | m' # q' \<Rightarrow> if m' = m then Some (q', c) else None)
    | (Shut, (q, c)) \<Rightarrow> if c then None else Some (q, True)
    | (No_recv j, (q, c)) \<Rightarrow> if q = [] \<and> c then Some (q, c) else None
    | (No_send i, (q, c)) \<Rightarrow> if c then Some (q, c) else None)"

primrec fifo_run :: "'m op list \<Rightarrow> ('m list \<times> bool) option" where
  "fifo_run [] = Some ([], False)"
| "fifo_run (x # xs) = (case fifo_run xs of None \<Rightarrow> None | Some st \<Rightarrow> fifo_apply x st)"

text \<open>The messages receiver \<open>j\<close> took, oldest first.\<close>

primrec deqs :: "nat \<Rightarrow> 'm op list \<Rightarrow> 'm list" where
  "deqs j [] = []"
| "deqs j (x # xs) = deqs j xs @ (case x of Deq k m \<Rightarrow> if k = j then [m] else [] | _ \<Rightarrow> [])"

definition in_hand :: "'m receiver \<Rightarrow> 'm list" where
  "in_hand k = (case k of R_got m _ \<Rightarrow> [m] | R_dec m _ \<Rightarrow> [m] | _ \<Rightarrow> [])"

definition fifo_inv :: "'m chan \<Rightarrow> bool" where
  "fifo_inv s \<longleftrightarrow> fifo_run (ops s) = Some (map fst (queue s), closed s) \<and> (closed s \<longleftrightarrow> closer s \<noteq> C_open)
     \<and> (\<forall>j. deqs j (ops s) = returned s j @ in_hand (receiver s j))"

lemma try_pull_simps:
  "try_pull q c = Got m w q' \<longleftrightarrow> q = (m, w) # q'" "try_pull q c = Closed \<longleftrightarrow> q = [] \<and> c" "try_pull q c = Empty \<longleftrightarrow> q = [] \<and> \<not> c"
  by (auto simp: try_pull_def split: list.splits)

lemma fifo_inv_step:
  assumes "chan_step cap n r s t" "fifo_inv s"
  shows "fifo_inv t"
  using assms(1)
proof cases
  case (receive j res)
  then show ?thesis using assms(2) by (auto simp: fifo_inv_def in_hand_def)
qed (use assms(2) in \<open>auto simp: fifo_inv_def fifo_apply_def push_lock_def try_pull_simps in_hand_def\<close>)

section \<open>Who is waiting for what\<close>

text \<open>
  The event of a sender is set, or its message is still in the queue, or a receiver that took it has yet to set the event; the event of a receiver is
  set, or registered, or on its way to be set by a sender or by whoever closes.
\<close>

definition holds :: "nat \<Rightarrow> 'm receiver \<Rightarrow> bool" where
  "holds e k \<longleftrightarrow> (case k of R_got _ w \<Rightarrow> w = Some e | R_dec _ w \<Rightarrow> w = Some e | _ \<Rightarrow> False)"

definition to_wake :: "nat \<Rightarrow> 'm sender \<Rightarrow> bool" where
  "to_wake e k \<longleftrightarrow> (case k of S_queued _ w \<Rightarrow> w = Some e | _ \<Rightarrow> False)"

definition to_take :: "nat \<Rightarrow> closer \<Rightarrow> bool" where
  "to_take e c \<longleftrightarrow> (case c of C_take ws \<Rightarrow> e \<in> set ws | _ \<Rightarrow> False)"

definition pull_pending :: "'m chan \<Rightarrow> nat \<Rightarrow> bool" where
  "pull_pending s e \<longleftrightarrow> evs s e \<or> Some e \<in> set (map snd (queue s)) \<or> (\<exists>j. holds e (receiver s j))"

definition push_pending :: "'m chan \<Rightarrow> nat \<Rightarrow> bool" where
  "push_pending s e \<longleftrightarrow> evs s e \<or> e \<in> set (waiters s) \<or> (\<exists>i. to_wake e (sender s i)) \<or> to_take e (closer s)"

definition wait_inv :: "'m chan \<Rightarrow> bool" where
  "wait_inv s \<longleftrightarrow> (\<forall>i e. sender s i = S_wait e \<or> (\<exists>wake. sender s i = S_queued (Some e) wake) \<longrightarrow> pull_pending s e)
     \<and> (\<forall>j e. receiver s j = R_wait e \<longrightarrow> push_pending s e) \<and> (closer s \<noteq> C_open \<longleftrightarrow> closed s)
     \<and> (closer s = C_done \<or> (\<exists>ws. closer s = C_take ws) \<longrightarrow> waiters s = [])"

lemma set_opt_eq: "set_opt e f k \<longleftrightarrow> f k \<or> e = Some k"
  by (auto simp: set_opt_def split: option.splits)

lemma holds_simps [simp]:
  "holds e (R_got m w) \<longleftrightarrow> w = Some e" "holds e (R_dec m w) \<longleftrightarrow> w = Some e" "\<not> holds e R_start" "\<not> holds e R_fast" "\<not> holds e R_slow"
  "\<not> holds e (R_wait k)" "\<not> holds e (R_done res)"
  by (simp_all add: holds_def)

lemma to_wake_simps [simp]:
  "to_wake e (S_queued w v) \<longleftrightarrow> v = Some e" "\<not> to_wake e S_start" "\<not> to_wake e (S_open m)" "\<not> to_wake e (S_counted m w)" "\<not> to_wake e (S_wait k)"
  "\<not> to_wake e (S_done res)"
  by (simp_all add: to_wake_def)

lemma to_take_simps [simp]: "to_take e (C_take ws) \<longleftrightarrow> e \<in> set ws" "\<not> to_take e C_open" "\<not> to_take e C_flag" "\<not> to_take e C_done"
  by (simp_all add: to_take_def)

lemma pull_pending_I:
  "evs s e \<Longrightarrow> pull_pending s e" "Some e \<in> snd ` set (queue s) \<Longrightarrow> pull_pending s e" "holds e (receiver s j) \<Longrightarrow> pull_pending s e"
  by (auto simp: pull_pending_def)

text \<open>A step keeps it: a receiver that goes on with the message in hand still holds the event, or has set it.\<close>

lemma pull_pending_keep:
  assumes "pull_pending s e" "\<And>k. evs s k \<Longrightarrow> evs t k" "receiver t = (receiver s)(j := k)"
    and "Some e \<in> snd ` set (queue s) \<Longrightarrow> pull_pending t e" "holds e (receiver s j) \<Longrightarrow> pull_pending t e"
  shows "pull_pending t e"
proof -
  consider "evs s e" | "Some e \<in> snd ` set (queue s)" | i where "holds e (receiver s i)" using assms(1) unfolding pull_pending_def by auto
  then show ?thesis
  proof cases
    case 3
    show ?thesis
    proof (cases "i = j")
      case True
      then show ?thesis using 3 assms(5) by blast
    next
      case False
      then have "holds e (receiver t i)" using 3 assms(3) by simp
      then show ?thesis by (rule pull_pending_I(3))
    qed
  qed (use assms(2,4) pull_pending_I(1) in blast)+
qed

lemma pull_pending_idle:
  assumes "pull_pending s e" "evs t = evs s" "queue t = queue s" "receiver t = (receiver s)(j := k)" "\<not> holds e (receiver s j)"
  shows "pull_pending t e"
proof (rule pull_pending_keep[OF assms(1), of t j k])
  show "pull_pending t e" if "Some e \<in> snd ` set (queue s)" using that assms(3) by (intro pull_pending_I(2)) simp
qed (use assms in auto)

lemma pull_pending_same:
  assumes "pull_pending s e" "\<And>k. evs s k \<Longrightarrow> evs t k" "snd ` set (queue s) \<subseteq> snd ` set (queue t)" "receiver t = receiver s"
  shows "pull_pending t e"
proof -
  have "Some e \<in> snd ` set (queue s) \<Longrightarrow> Some e \<in> snd ` set (queue t)" using assms(3) by blast
  then show ?thesis using assms(1,2,4) unfolding pull_pending_def set_map by presburger
qed

lemma pull_pending_mono:
  assumes "chan_step cap n r s t" "pull_pending s e"
  shows "pull_pending t e"
  using assms(1)
proof cases
  case (gets j m want q)
  have q: "queue s = (m, want) # q" using gets(4) by (simp add: try_pull_simps)
  show ?thesis
  proof (rule pull_pending_keep[OF assms(2), of t j "R_got m want"])
    assume "Some e \<in> snd ` set (queue s)"
    then consider "want = Some e" | "Some e \<in> snd ` set q" using q by auto
    then show "pull_pending t e"
    proof cases
      case 1
      then show ?thesis by (intro pull_pending_I(3)[of e t j]) (simp add: gets(1))
    qed (intro pull_pending_I(2), simp add: gets(1))
  qed (use gets in auto)
next
  case (decs j m want)
  show ?thesis
  proof (rule pull_pending_keep[OF assms(2), of t j "R_dec m want"])
    show "pull_pending t e" if "holds e (receiver s j)" using that by (intro pull_pending_I(3)[of e t j]) (simp add: decs(1,3))
  qed (simp_all add: decs(1), intro pull_pending_I(2), simp)
next
  case (returns j m want)
  show ?thesis
  proof (rule pull_pending_keep[OF assms(2), of t j "R_done (Inr m)"])
    show "pull_pending t e" if "holds e (receiver s j)" using that by (intro pull_pending_I(1)) (simp add: returns(1,3) set_opt_eq)
  qed (simp_all add: returns(1) set_opt_eq, intro pull_pending_I(2), simp)
next
  case (receive j res)
  then show ?thesis by (intro pull_pending_idle[OF assms(2), of t j R_fast]) auto
next
  case (no_more j)
  then show ?thesis by (intro pull_pending_idle[OF assms(2), of t j "R_done (Inl BrokenPipeError)"]) auto
next
  case (slow j)
  then show ?thesis by (intro pull_pending_idle[OF assms(2), of t j R_slow]) auto
next
  case (parks j)
  then show ?thesis by (intro pull_pending_idle[OF assms(2), of t j "R_wait (fresh s)"]) auto
next
  case (woken j k)
  then show ?thesis by (intro pull_pending_idle[OF assms(2), of t j R_fast]) auto
next
  case (receive_cancelled j k)
  then show ?thesis by (intro pull_pending_idle[OF assms(2), of t j "R_done (Inl CancelledError)"]) auto
qed (auto intro!: pull_pending_same[OF assms(2)] simp: push_lock_def set_opt_eq)

lemma push_pending_I:
  "evs s e \<Longrightarrow> push_pending s e" "e \<in> set (waiters s) \<Longrightarrow> push_pending s e" "to_wake e (sender s i) \<Longrightarrow> push_pending s e"
  "to_take e (closer s) \<Longrightarrow> push_pending s e"
  by (auto simp: push_pending_def)

lemma push_pending_keep:
  assumes "push_pending s e" "\<And>k. evs s k \<Longrightarrow> evs t k" "sender t = (sender s)(i := k)"
    and "e \<in> set (waiters s) \<Longrightarrow> push_pending t e" "to_wake e (sender s i) \<Longrightarrow> push_pending t e" "to_take e (closer s) \<Longrightarrow> push_pending t e"
  shows "push_pending t e"
proof -
  consider "evs s e" | "e \<in> set (waiters s)" | "to_take e (closer s)" | l where "to_wake e (sender s l)"
    using assms(1) unfolding push_pending_def by auto
  then show ?thesis
  proof cases
    case 4
    show ?thesis
    proof (cases "l = i")
      case True
      then show ?thesis using 4 assms(5) by blast
    next
      case False
      then have "to_wake e (sender t l)" using 4 assms(3) by simp
      then show ?thesis by (rule push_pending_I(3))
    qed
  qed (use assms(2,4,6) push_pending_I(1) in blast)+
qed

lemma push_pending_idle:
  assumes "push_pending s e" "evs t = evs s" "waiters t = waiters s" "closer t = closer s" "sender t = (sender s)(i := k)" "\<not> to_wake e (sender s i)"
  shows "push_pending t e"
proof (rule push_pending_keep[OF assms(1), of t i k])
  show "push_pending t e" if "e \<in> set (waiters s)" using that assms(3) by (intro push_pending_I(2)) simp
  show "push_pending t e" if "to_take e (closer s)" using that assms(4) by (intro push_pending_I(4)) simp
qed (use assms in auto)

lemma push_pending_same:
  assumes "push_pending s e" "\<And>k. evs s k \<Longrightarrow> evs t k" "set (waiters s) \<subseteq> set (waiters t)" "closer t = closer s" "sender t = sender s"
  shows "push_pending t e"
proof -
  have "e \<in> set (waiters s) \<Longrightarrow> e \<in> set (waiters t)" using assms(3) by blast
  then show ?thesis using assms(1,2,4,5) unfolding push_pending_def by presburger
qed

lemma push_pending_mono:
  assumes "chan_step cap n r s t" "push_pending s e"
  shows "push_pending t e"
  using assms(1)
proof cases
  case (pushes i m want q wake ws)
  show ?thesis
  proof (rule push_pending_keep[OF assms(2), of t i "S_queued want wake"])
    assume "e \<in> set (waiters s)"
    then consider "wake = Some e" | "e \<in> set ws" using pushes(4) by (cases "waiters s") (auto simp: push_lock_def)
    then show "push_pending t e"
    proof cases
      case 1
      then show ?thesis by (intro push_pending_I(3)[of e t i]) (simp add: pushes(1))
    qed (intro push_pending_I(2), simp add: pushes(1))
  next
    show "push_pending t e" if "to_take e (closer s)" using that by (intro push_pending_I(4)) (simp add: pushes(1))
  qed (use pushes in auto)
next
  case (wakes i want wake)
  show ?thesis
  proof (rule push_pending_keep[OF assms(2), of t i "sender t i"])
    show "push_pending t e" if "to_wake e (sender s i)" using that by (intro push_pending_I(1)) (simp add: wakes(1,3) set_opt_eq)
    show "push_pending t e" if "to_take e (closer s)" using that by (intro push_pending_I(4)) (simp add: wakes(1))
  qed (simp_all add: wakes(1) set_opt_eq, intro push_pending_I(2), simp)
next
  case (send i out m)
  then show ?thesis by (intro push_pending_idle[OF assms(2), of t i "S_open m"]) auto
next
  case (refused i out)
  then show ?thesis by (intro push_pending_idle[OF assms(2), of t i "S_done (Inl BrokenPipeError)"]) auto
next
  case (counts i m)
  then show ?thesis by (intro push_pending_idle[OF assms(2), of t i "sender t i"]) auto
next
  case (resumes i k)
  then show ?thesis by (intro push_pending_idle[OF assms(2), of t i "S_done (Inr ())"]) auto
next
  case (send_cancelled i k)
  then show ?thesis by (intro push_pending_idle[OF assms(2), of t i "S_done (Inl CancelledError)"]) auto
next
  case closes
  then show ?thesis using assms(2) by (simp add: push_pending_def)
next
  case takes
  then show ?thesis using assms(2) by (auto simp: push_pending_def)
next
  case (drains ws)
  then show ?thesis using assms(2) by (auto simp: push_pending_def)
qed (auto intro!: push_pending_same[OF assms(2)] simp: set_opt_eq)

lemma wait_inv_step:
  assumes "chan_step cap n r s t" "wait_inv s"
  shows "wait_inv t"
proof -
  have s: "sender s i = S_wait e \<Longrightarrow> pull_pending t e" "sender s i = S_queued (Some e) wake \<Longrightarrow> pull_pending t e" for i e wake
    using assms(2) pull_pending_mono[OF assms(1)] unfolding wait_inv_def by blast+
  have r: "receiver s j = R_wait e \<Longrightarrow> push_pending t e" for j e
    using assms(2) push_pending_mono[OF assms(1)] unfolding wait_inv_def by blast
  have "pull_pending t e" if "sender t i = S_wait e \<or> (\<exists>wake. sender t i = S_queued (Some e) wake)" for i e
    using assms(1) that
  proof cases
    case (pushes k m want q wake ws)
    show ?thesis
    proof (cases "i = k")
      case True
      then have "Some e \<in> snd ` set (queue t)" using that pushes by (auto simp: push_lock_def)
      then show ?thesis by (rule pull_pending_I(2))
    qed (use that pushes s in auto)
  next
    case (wakes k want wake)
    show ?thesis using that wakes s by (cases "i = k") (auto split: option.splits)
  qed (use s that in \<open>auto split: if_splits\<close>)
  moreover have "push_pending t e" if "receiver t j = R_wait e" for j e
    using assms(1) that
  proof cases
    case (parks k)
    show ?thesis
    proof (cases "j = k")
      case True
      then have "e \<in> set (waiters t)" using that parks by auto
      then show ?thesis by (rule push_pending_I(2))
    qed (use that parks r in auto)
  qed (use r that in \<open>auto split: if_splits\<close>)
  moreover have "(closer t \<noteq> C_open \<longleftrightarrow> closed t) \<and> (closer t = C_done \<or> (\<exists>ws. closer t = C_take ws) \<longrightarrow> waiters t = [])"
    using assms(1)
  proof cases
    case (pushes i m want q wake ws)
    then show ?thesis using assms(2) by (auto simp: wait_inv_def push_lock_def)
  qed (use assms(2) in \<open>auto simp: wait_inv_def try_pull_simps\<close>)
  ultimately show ?thesis unfolding wait_inv_def by blast
qed

section \<open>The counter\<close>

text \<open>Messages that are counted but not in the queue: with a sender on its way in, or a receiver on its way out; and those among them whose sender does not wait.\<close>

definition cnt_s :: "'m sender \<Rightarrow> nat" where
  "cnt_s k = (case k of S_counted _ _ \<Rightarrow> 1 | _ \<Rightarrow> 0)"

definition cnt_r :: "'m receiver \<Rightarrow> nat" where
  "cnt_r k = (case k of R_got _ _ \<Rightarrow> 1 | _ \<Rightarrow> 0)"

definition free_s :: "'m sender \<Rightarrow> nat" where
  "free_s k = (case k of S_counted _ None \<Rightarrow> 1 | _ \<Rightarrow> 0)"

definition free_r :: "'m receiver \<Rightarrow> nat" where
  "free_r k = (case k of R_got _ None \<Rightarrow> 1 | _ \<Rightarrow> 0)"

definition free_q :: "('m \<times> nat option) list \<Rightarrow> nat" where
  "free_q q = length (filter (\<lambda>x. snd x = None) q)"

definition free_all :: "nat \<Rightarrow> nat \<Rightarrow> 'm chan \<Rightarrow> nat" where
  "free_all n r s = free_q (queue s) + (\<Sum>i<n. free_s (sender s i)) + (\<Sum>j<r. free_r (receiver s j))"

definition count_inv :: "nat \<Rightarrow> nat \<Rightarrow> nat \<Rightarrow> 'm chan \<Rightarrow> bool" where
  "count_inv cap n r s \<longleftrightarrow> len s = length (queue s) + (\<Sum>i<n. cnt_s (sender s i)) + (\<Sum>j<r. cnt_r (receiver s j)) \<and> free_all n r s \<le> cap"

lemmas counter_defs = cnt_s_def cnt_r_def free_s_def free_r_def free_q_def

lemma free_le_len:
  assumes "count_inv cap n r s"
  shows "free_all n r s \<le> len s"
proof -
  have "free_q (queue s) \<le> length (queue s)" by (simp add: free_q_def)
  moreover have "(\<Sum>i<n. free_s (sender s i)) \<le> (\<Sum>i<n. cnt_s (sender s i))"
    by (rule sum_mono) (simp add: counter_defs split: sender.split option.split)
  moreover have "(\<Sum>j<r. free_r (receiver s j)) \<le> (\<Sum>j<r. cnt_r (receiver s j))"
    by (rule sum_mono) (simp add: counter_defs split: receiver.split option.split)
  ultimately show ?thesis using assms by (simp add: count_inv_def free_all_def)
qed

lemma count_inv_sender:
  assumes "count_inv cap n r s" "i < n" "sender t = (sender s)(i := k)" "cnt_s k = cnt_s (sender s i)" "free_s k = free_s (sender s i)"
    and "receiver t = receiver s" "queue t = queue s" "len t = len s"
  shows "count_inv cap n r t"
  using assms sum_fun_upd[of i n cnt_s "sender s" k] sum_fun_upd[of i n free_s "sender s" k] by (simp add: count_inv_def free_all_def)

lemma count_inv_receiver:
  assumes "count_inv cap n r s" "j < r" "receiver t = (receiver s)(j := k)" "cnt_r k = cnt_r (receiver s j)" "free_r k = free_r (receiver s j)"
    and "sender t = sender s" "queue t = queue s" "len t = len s"
  shows "count_inv cap n r t"
  using assms sum_fun_upd[of j r cnt_r "receiver s" k] sum_fun_upd[of j r free_r "receiver s" k] by (simp add: count_inv_def free_all_def)

lemma count_inv_counts:
  assumes "count_inv cap n r s" "i < n" "sender s i = S_open m"
    and "t = s\<lparr>sender := (sender s)(i := S_counted m (want_pull cap (len s) (fresh s))), len := Suc (len s), fresh := Suc (fresh s)\<rparr>"
  shows "count_inv cap n r t"
  using assms free_le_len[OF assms(1)] sum_fun_upd[of i n cnt_s "sender s"] sum_fun_upd[of i n free_s "sender s"]
  by (cases "len s \<ge> cap") (simp add: count_inv_def free_all_def want_pull_def, simp add: counter_defs)+

lemma count_inv_step:
  assumes "chan_step cap n r s t" "count_inv cap n r s"
  shows "count_inv cap n r t"
proof -
  have l: "len s = length (queue s) + (\<Sum>i<n. cnt_s (sender s i)) + (\<Sum>j<r. cnt_r (receiver s j))" and f: "free_all n r s \<le> cap"
    using assms(2) by (simp_all add: count_inv_def)
  note su = sum_fun_upd[of _ n cnt_s "sender s"] sum_fun_upd[of _ n free_s "sender s"]
  note ru = sum_fun_upd[of _ r cnt_r "receiver s"] sum_fun_upd[of _ r free_r "receiver s"]
  note [simp] = counter_defs
  show ?thesis using assms(1)
  proof cases
    case (counts i m)
    then show ?thesis using count_inv_counts[OF assms(2)] by blast
  next
    case (pushes i m want q wake ws)
    then show ?thesis using l f su[of i "S_queued want wake"]
      by (auto simp: count_inv_def free_all_def push_lock_def simp del: counter_defs) (auto split: option.splits)
  next
    case (gets j m want q)
    then show ?thesis using l f ru[of j "R_got m want"]
      by (auto simp: count_inv_def free_all_def try_pull_simps simp del: counter_defs) (auto split: option.splits)
  next
    case (decs j m want)
    then show ?thesis using l f ru[of j "R_dec m want"]
      by (auto simp: count_inv_def free_all_def simp del: counter_defs) (auto split: option.splits)
  next
    case (wakes i want wake)
    then show ?thesis by (intro count_inv_sender[OF assms(2), of i t "sender t i"]) (auto split: option.splits)
  next
    case (send i out m)
    then show ?thesis by (intro count_inv_sender[OF assms(2), of i t "S_open m"]) auto
  next
    case (refused i out)
    then show ?thesis by (intro count_inv_sender[OF assms(2), of i t "S_done (Inl BrokenPipeError)"]) auto
  next
    case (resumes i e)
    then show ?thesis by (intro count_inv_sender[OF assms(2), of i t "S_done (Inr ())"]) auto
  next
    case (send_cancelled i e)
    then show ?thesis by (intro count_inv_sender[OF assms(2), of i t "S_done (Inl CancelledError)"]) auto
  next
    case (no_more j)
    then show ?thesis by (intro count_inv_receiver[OF assms(2), of j t "R_done (Inl BrokenPipeError)"]) auto
  next
    case (parks j)
    then show ?thesis by (intro count_inv_receiver[OF assms(2), of j t "R_wait (fresh s)"]) auto
  next
    case (returns j m want)
    then show ?thesis by (intro count_inv_receiver[OF assms(2), of j t "R_done (Inr m)"]) auto
  next
    case (receive j res)
    then show ?thesis by (intro count_inv_receiver[OF assms(2), of j t R_fast]) auto
  next
    case (slow j)
    then show ?thesis by (intro count_inv_receiver[OF assms(2), of j t R_slow]) auto
  next
    case (woken j e)
    then show ?thesis by (intro count_inv_receiver[OF assms(2), of j t R_fast]) auto
  next
    case (receive_cancelled j e)
    then show ?thesis by (intro count_inv_receiver[OF assms(2), of j t "R_done (Inl CancelledError)"]) auto
  qed (use assms(2) in \<open>simp_all add: count_inv_def free_all_def del: counter_defs\<close>)
qed

definition chan_inv :: "nat \<Rightarrow> nat \<Rightarrow> nat \<Rightarrow> 'm chan \<Rightarrow> bool" where
  "chan_inv cap n r s \<longleftrightarrow> fifo_inv s \<and> wait_inv s \<and> count_inv cap n r s"

interpretation ch: step_system "\<lambda>s. s = chan_init" "chan_step cap n r" "chan_inv cap n r" for cap n r
proof
  show "chan_inv cap n r s" if "s = chan_init" for s :: "'a chan"
    using that by (simp add: chan_inv_def chan_init_def fifo_inv_def wait_inv_def count_inv_def free_all_def counter_defs in_hand_def)
qed (auto simp: chan_inv_def intro: fifo_inv_step wait_inv_step count_inv_step)

lemma chan_reach_inv: "chan_reach cap n r s \<Longrightarrow> fifo_inv s \<and> wait_inv s \<and> count_inv cap n r s"
  using ch.reach_inv[of cap n r s] by (auto simp: chan_reach_def chan_inv_def)

section \<open>Theorems\<close>

text \<open>
  C3. A channel implements a FIFO queue. In every interleaving of any number of senders, receivers and a closing, the operations taken at their
  points of effect are a legal history of the abstract queue, which ends in the content and the flag of the channel; and what a receiver has
  returned, with the message it may have in hand, is what it dequeued in that history. So every message is given to one
  receiver, in the order of the sends, and a receive fails only when the channel is closed and empty.
\<close>

theorem channel_refines_fifo:
  assumes "chan_reach cap n r s"
  shows "fifo_run (ops s) = Some (map fst (queue s), closed s) \<and> (\<forall>j. deqs j (ops s) = returned s j @ in_hand (receiver s j))"
  using chan_reach_inv[OF assms] by (simp add: fifo_inv_def)

text \<open>
  C29. The bound of a channel. At any moment at most \<open>size\<close> of the messages in the channel, counting those on their way in and out, come from
  senders that do not wait; a sender that waits has its message in the queue, or in the hands of a receiver that is about to wake it, or its event is set.
\<close>

theorem channel_backpressure:
  assumes "chan_reach cap n r s"
  shows "free_q (queue s) + (\<Sum>i<n. free_s (sender s i)) + (\<Sum>j<r. free_r (receiver s j)) \<le> cap \<and>
    (\<forall>i e. sender s i = S_wait e \<longrightarrow> evs s e \<or> Some e \<in> snd ` set (queue s) \<or> (\<exists>j. holds e (receiver s j)))"
  using chan_reach_inv[OF assms] by (simp add: count_inv_def free_all_def wait_inv_def pull_pending_def)

text \<open>
  No receiver is forgotten: the event of one that waits is set, or registered with the channel, or a sender or whoever closes the channel is about to set
  it. Once the closing is done nothing is registered any more, so every receiver still waiting has been or is being woken.
\<close>

theorem channel_wakes_receivers:
  assumes "chan_reach cap n r s" "receiver s j = R_wait e"
  shows "(evs s e \<or> e \<in> set (waiters s) \<or> (\<exists>i. to_wake e (sender s i)) \<or> to_take e (closer s)) \<and>
    (closer s = C_done \<longrightarrow> evs s e \<or> (\<exists>i. to_wake e (sender s i)))"
proof -
  have i: "wait_inv s" using chan_reach_inv[OF assms(1)] by blast
  then have "push_pending s e" "closer s = C_done \<Longrightarrow> waiters s = []" using assms(2) unfolding wait_inv_def by blast+
  then show ?thesis by (auto simp: push_pending_def)
qed

section \<open>Concrete runs\<close>

lemma chan_go: "chan_reach cap n r s \<Longrightarrow> chan_step cap n r s t \<Longrightarrow> chan_reach cap n r t"
  by (auto simp: chan_reach_def intro: reach.next_state)

lemma chan_go_eq: "chan_reach cap n r s \<Longrightarrow> chan_step cap n r s t \<Longrightarrow> t = u \<Longrightarrow> chan_reach cap n r u"
  using chan_go by blast

lemma chan_start: "chan_reach cap n r chan_init"
  unfolding chan_reach_def by (rule reach.start) simp

lemma chan_sends:
  assumes "chan_reach cap n r s" "i < n" "sender s i = S_start" "\<not> closed s" "push_lock m (want_pull cap (len s) (fresh s)) (queue s) (waiters s) = (q, wake, ws)"
    and "want_pull cap (len s) (fresh s) = want"
  shows "chan_reach cap n r (s\<lparr>queue := q, waiters := ws, len := Suc (len s), evs := set_opt wake (evs s), fresh := Suc (fresh s),
      sender := (sender s)(i := (case want of None \<Rightarrow> S_done (Inr ()) | Some e \<Rightarrow> S_wait e)), ops := Enq i m # ops s\<rparr>)"
proof -
  have "chan_reach cap n r (s\<lparr>sender := (sender s)(i := S_open m)\<rparr>)"
    by (rule chan_go[OF assms(1) chan_step.send[of i n s "Inr ()"]]) (use assms in auto)
  from chan_go[OF this chan_step.counts[of i n _ m]] assms(2,6)
  have "chan_reach cap n r (s\<lparr>sender := (sender s)(i := S_counted m want), len := Suc (len s), fresh := Suc (fresh s)\<rparr>)" by simp
  from chan_go[OF this chan_step.pushes[of i n _ m want q wake ws]] assms(2,5,6)
  have "chan_reach cap n r (s\<lparr>len := Suc (len s), fresh := Suc (fresh s), sender := (sender s)(i := S_queued want wake), queue := q, waiters := ws, ops := Enq i m # ops s\<rparr>)"
    by simp
  then show ?thesis
    by (rule chan_go_eq[OF _ chan_step.wakes[of i n _ want wake]]) (use assms(2) in \<open>auto intro: chan.equality\<close>)
qed

lemma chan_parks:
  assumes "chan_reach cap n r s" "j < r" "receiver s j = R_start" "\<not> closed s" "queue s = []"
  shows "chan_reach cap n r (s\<lparr>receiver := (receiver s)(j := R_wait (fresh s)), waiters := waiters s @ [fresh s], fresh := Suc (fresh s)\<rparr>)"
proof -
  have "chan_reach cap n r (s\<lparr>receiver := (receiver s)(j := R_fast)\<rparr>)"
    by (rule chan_go[OF assms(1) chan_step.receive[of j r s "Inl CancelledError"]]) (use assms in auto)
  from chan_go[OF this chan_step.slow[of j r]] assms have "chan_reach cap n r (s\<lparr>receiver := (receiver s)(j := R_slow)\<rparr>)"
    by (simp add: try_pull_simps)
  from chan_go[OF this chan_step.parks[of j r]] assms show ?thesis by (simp add: try_pull_simps)
qed

text \<open>One message waits in the queue for a receiver that never comes.\<close>

definition demo_queued :: "nat chan" where
  "demo_queued = chan_init\<lparr>queue := [(7, Some 0)], len := 1, fresh := 1, sender := (\<lambda>_. S_start)(0 := S_wait 0), ops := [Enq 0 7]\<rparr>"

lemma demo_queued_reach: "chan_reach 0 1 1 demo_queued"
  using chan_sends[OF chan_start, of 0 1 7 0 "[(7, Some 0)]" None "[]" "Some 0" 1]
  by (simp add: demo_queued_def chan_init_def push_lock_def want_pull_def set_opt_def)

theorem channel_refines_fifo_witness:
  "\<exists>s :: nat chan. chan_reach 0 1 1 s \<and> queue s = [(7, Some 0)] \<and> fifo_run (ops s) = Some ([7], False) \<and> deqs 0 (ops s) = []"
  using channel_refines_fifo[OF demo_queued_reach] demo_queued_reach
  by (intro exI[of _ demo_queued]) (simp add: demo_queued_def chan_init_def in_hand_def)

theorem channel_backpressure_witness:
  "\<exists>s :: nat chan. chan_reach 0 1 1 s \<and> sender s 0 = S_wait 0 \<and> free_q (queue s) = 0 \<and> Some 0 \<in> snd ` set (queue s)"
  using channel_backpressure[OF demo_queued_reach] demo_queued_reach
  by (intro exI[of _ demo_queued]) (simp add: demo_queued_def chan_init_def)

definition demo_parked :: "nat chan" where
  "demo_parked = chan_init\<lparr>receiver := (\<lambda>_. R_start)(0 := R_wait 0), waiters := [0], fresh := 1\<rparr>"

lemma demo_parked_reach: "chan_reach 1 1 2 demo_parked"
  using chan_parks[OF chan_start, of 0 2 1 1] by (simp add: demo_parked_def chan_init_def)

theorem channel_wakes_receivers_witness:
  "\<exists>s :: nat chan. chan_reach 1 1 2 s \<and> receiver s 0 = R_wait 0 \<and> 0 \<in> set (waiters s)"
  using channel_wakes_receivers[OF demo_parked_reach, of 0 0] demo_parked_reach
  by (intro exI[of _ demo_parked]) (simp add: demo_parked_def chan_init_def to_take_def)

text \<open>
  Two ways to wait in vain. A receiver that is cancelled leaves its event registered: the next send spends its wake-up on it, and another receiver
  stays asleep although a message is in the queue and nobody is left to wake it. And closing a channel does not
  wake the senders that wait for their messages to be taken.
\<close>

theorem channel_waits_in_vain:
  "(\<exists>s :: nat chan. chan_reach 1 1 2 s \<and> queue s = [(7, None)] \<and> receiver s 0 = R_done (Inl CancelledError) \<and> receiver s 1 = R_wait 1 \<and> \<not> evs s 1
      \<and> sender s 0 = S_done (Inr ())) \<and>
   (\<exists>s :: nat chan. chan_reach 0 1 1 s \<and> closer s = C_done \<and> sender s 0 = S_wait 0 \<and> \<not> evs s 0)"
proof
  have "chan_reach 1 1 2 (demo_parked\<lparr>receiver := (\<lambda>_. R_start)(0 := R_wait 0, 1 := R_wait 1), waiters := [0, 1], fresh := 2\<rparr>)"
    using chan_parks[OF demo_parked_reach, of 1] by (simp add: demo_parked_def chan_init_def numeral_2_eq_2)
  from chan_go[OF this chan_step.receive_cancelled[of 0 2 _ 0]]
  have "chan_reach 1 1 2 (demo_parked\<lparr>receiver := (\<lambda>_. R_start)(0 := R_done (Inl CancelledError), 1 := R_wait 1), waiters := [0, 1], fresh := 2\<rparr>)"
    by (simp add: fun_upd_twist demo_parked_def chan_init_def)
  from chan_sends[OF this, of 0 7 "[(7, None)]" "Some 0" "[1]" None]
  show "\<exists>s :: nat chan. chan_reach 1 1 2 s \<and> queue s = [(7, None)] \<and> receiver s 0 = R_done (Inl CancelledError) \<and> receiver s 1 = R_wait 1 \<and> \<not> evs s 1
      \<and> sender s 0 = S_done (Inr ())"
    by (rule_tac exI) (auto simp: demo_parked_def chan_init_def push_lock_def want_pull_def set_opt_def)
  have "chan_reach 0 1 1 (demo_queued\<lparr>closed := True, closer := C_flag, ops := [Shut, Enq 0 7]\<rparr>)"
    using chan_go[OF demo_queued_reach chan_step.closes] by (simp add: demo_queued_def chan_init_def)
  from chan_go[OF this chan_step.takes]
  have "chan_reach 0 1 1 (demo_queued\<lparr>closed := True, closer := C_take [], ops := [Shut, Enq 0 7]\<rparr>)" by (simp add: demo_queued_def chan_init_def)
  from chan_go[OF this chan_step.drains[of _ "[]"]]
  have "chan_reach 0 1 1 (demo_queued\<lparr>closed := True, closer := C_done, ops := [Shut, Enq 0 7]\<rparr>)" by (simp add: demo_queued_def chan_init_def)
  then show "\<exists>s :: nat chan. chan_reach 0 1 1 s \<and> closer s = C_done \<and> sender s 0 = S_wait 0 \<and> \<not> evs s 0"
    by (intro exI[of _ "demo_queued\<lparr>closed := True, closer := C_done, ops := [Shut, Enq 0 7]\<rparr>"]) (simp add: demo_queued_def chan_init_def)
qed

end
