(* ===== verification/Hilvl_Await.thy ===== *)
theory Hilvl_Await
  imports Hilvl Net_Await
begin

text \<open>
  \<open>src/tonio/_colored/_net/_hilvl.py\<close>: listeners, Unix sockets and serving loops of the \<open>await\<close> flavour, on the sockets, streams and TLS streams of \<open>Net_Await\<close>. The module
  imports \<open>_close_on_error\<close>, \<open>_unix_check_path\<close>, \<open>_unix_bind\<close> and the list of errors worth a retry from the \<open>yield\<close> flavour and repeats the rest; the definitions
  follow its text. Its \<open>open_tcp_stream\<close> is in \<open>Eyeballs_Await\<close>.
\<close>

section \<open>Unix sockets\<close>

definition aw_open_unix_socket :: "'w os \<Rightarrow> pyval \<Rightarrow> (sid, 'w) io" where
  "aw_open_unix_socket os filename =
     bnd (aw_socket os AF_UNIX SOCK_STREAM 0 None) (\<lambda>s.
     bnd (close_on_error (sock_close os s)
            (if is_pathlike filename then aw_connect os s (fspath filename)
             else raise (TypeError ''expected str, bytes or os.PathLike object''))) (\<lambda>_.
     aw_stream_init os (Some s)))"

definition aw_clamp_backlog :: "int option \<Rightarrow> int" where
  "aw_clamp_backlog backlog = min (case backlog of None \<Rightarrow> 65535 | Some n \<Rightarrow> if n = 0 then 65535 else n) 65535"

definition aw_open_unix_listener :: "'w os \<Rightarrow> 'w hi \<Rightarrow> pyval \<Rightarrow> int option \<Rightarrow> int option \<Rightarrow> (sid, 'w) io" where
  "aw_open_unix_listener os hi path mode backlog =
     bnd (unix_check_path path mode) (\<lambda>p.
     bnd (aw_socket os AF_UNIX SOCK_STREAM 0 None) (\<lambda>s.
     close_on_error (sock_close os s)
       (bnd (aw_spawn_blocking os (unix_bind os hi s p mode)) (\<lambda>_.
        bnd (listen os s (Some (aw_clamp_backlog backlog))) (\<lambda>_.
        aw_listener_init os (Some s))))))"

section \<open>TCP listeners\<close>

text \<open>The inner \<open>try\<close> of the loop over the addresses.\<close>

definition aw_setup_listener :: "'w os \<Rightarrow> int \<Rightarrow> int \<Rightarrow> sid \<Rightarrow> pyval \<Rightarrow> (sid, 'w) io" where
  "aw_setup_listener os backlog family s sockaddr =
     close_on_error (sock_close os s)
       (bnd (setsockopt os s SOL_SOCKET SO_REUSEADDR (PInt 1) None) (\<lambda>_.
        bnd (if family = AF_INET6 then setsockopt os s IPPROTO_IPV6 IPV6_V6ONLY (PInt 1) None else ret ()) (\<lambda>_.
        bnd (aw_bind os s sockaddr) (\<lambda>_.
        bnd (listen os s (Some backlog)) (\<lambda>_.
        aw_listener_init os (Some s))))))"

definition aw_add_listener ::
    "'w os \<Rightarrow> int \<Rightarrow> pyval list \<Rightarrow> sid list \<times> exn list \<Rightarrow> (sid list \<times> exn list, 'w) io" where
  "aw_add_listener os backlog entry acc = (case acc of (listeners, unsupported) \<Rightarrow>
     (case gai_fields entry of
        None \<Rightarrow> raise (ValueError ''not enough values to unpack'')
      | Some (family, type, proto, sockaddr) \<Rightarrow>
          try_else (aw_socket os family type proto None) is_OSError
            (\<lambda>e. if os_errno e = Some EAFNOSUPPORT then ret (listeners, unsupported @ [e]) else raise e)
            (\<lambda>s. bnd (aw_setup_listener os backlog family s sockaddr) (\<lambda>l. ret (listeners @ [l], unsupported)))))"

text \<open>The loop, each turn of it under the outer \<open>except\<close>.\<close>

fun aw_close_listeners :: "'w os \<Rightarrow> sid list \<Rightarrow> (unit, 'w) io" where
  "aw_close_listeners os [] = ret ()"
| "aw_close_listeners os (l # ls) = bnd (aw_listener_close os l) (\<lambda>_. aw_close_listeners os ls)"

fun aw_add_listeners ::
    "'w os \<Rightarrow> int \<Rightarrow> pyval list list \<Rightarrow> sid list \<times> exn list \<Rightarrow> (sid list \<times> exn list, 'w) io" where
  "aw_add_listeners os backlog [] acc = ret acc"
| "aw_add_listeners os backlog (a # as) acc =
     try_else (aw_add_listener os backlog a acc) (\<lambda>_. True)
       (\<lambda>e. bnd (aw_close_listeners os (fst acc)) (\<lambda>_. raise e))
       (aw_add_listeners os backlog as)"

definition aw_open_tcp_listeners :: "'w os \<Rightarrow> pyval \<Rightarrow> pyval \<Rightarrow> int option \<Rightarrow> (sid list, 'w) io" where
  "aw_open_tcp_listeners os port host backlog =
     (if \<not> is_int port then raise (TypeError ''port must be an int'')
      else bnd (aw_getaddrinfo os host port 0 SOCK_STREAM 0 AI_PASSIVE) (\<lambda>addresses.
           bnd (aw_add_listeners os (aw_clamp_backlog backlog) addresses ([], [])) (\<lambda>(listeners, unsupported).
           if unsupported \<noteq> [] \<and> listeners = [] then raise (OSError EAFNOSUPPORT)
           else ret listeners)))"

section \<open>Serving\<close>

text \<open>\<open>_listener_handler\<close>: accept, and start a task on the stream without tracking it.\<close>

definition aw_serve_turn :: "'w hi \<Rightarrow> ('s, 'w) io \<Rightarrow> ('s \<Rightarrow> (unit, 'w) io) \<Rightarrow> unit \<Rightarrow> (unit + unit, 'w) io" where
  "aw_serve_turn hi laccept start = (\<lambda>_. try_else laccept is_OSError
     (\<lambda>e. if (case os_errno e of Some n \<Rightarrow> n \<in> set accept_retry_errnos | None \<Rightarrow> False)
          then bnd (h_sleep hi) (\<lambda>_. ret (Inl ()))
          else raise e)
     (\<lambda>stream. bnd (start stream) (\<lambda>_. ret (Inl ()))))"

definition aw_listener_handler ::
    "'w hi \<Rightarrow> ('s, 'w) io \<Rightarrow> (unit, 'w) io \<Rightarrow> ('s \<Rightarrow> (unit, 'w) io) \<Rightarrow> (unit, 'w) io" where
  "aw_listener_handler hi laccept lclose start = with_stream lclose (loop (aw_serve_turn hi laccept start) ())"

text \<open>\<open>serve_listeners\<close>: one task per listener, joined by \<open>spawn.without_results\<close>.\<close>

definition aw_serve_listeners ::
    "'w hi \<Rightarrow> ('s \<Rightarrow> (unit, 'w) io) \<Rightarrow> (('s, 'w) io \<times> (unit, 'w) io) list \<Rightarrow> (unit, 'w) io list" where
  "aw_serve_listeners hi start listeners = map (\<lambda>(acc, cl). aw_listener_handler hi acc cl start) listeners"

text \<open>A socket listener as \<open>serve_listeners\<close> uses it.\<close>

definition aw_socket_listener :: "'w os \<Rightarrow> sid \<Rightarrow> (sid, 'w) io \<times> (unit, 'w) io" where
  "aw_socket_listener os l = (aw_listener_accept os l, aw_listener_close os l)"

text \<open>\<open>join\<close> stands for \<open>await spawn.without_results(*tasks)\<close>.\<close>

definition aw_serve_tcp ::
    "'w os \<Rightarrow> 'w hi \<Rightarrow> ((unit, 'w) io list \<Rightarrow> (unit, 'w) io) \<Rightarrow> (sid \<Rightarrow> (unit, 'w) io) \<Rightarrow>
     pyval \<Rightarrow> pyval \<Rightarrow> int option \<Rightarrow> (unit, 'w) io" where
  "aw_serve_tcp os hi join start port host backlog =
     bnd (aw_open_tcp_listeners os port host backlog) (\<lambda>ls.
     join (aw_serve_listeners hi start (map (aw_socket_listener os) ls)))"

definition aw_serve_unix ::
    "'w os \<Rightarrow> 'w hi \<Rightarrow> ((unit, 'w) io list \<Rightarrow> (unit, 'w) io) \<Rightarrow> (sid \<Rightarrow> (unit, 'w) io) \<Rightarrow>
     pyval \<Rightarrow> int option \<Rightarrow> int option \<Rightarrow> (unit, 'w) io" where
  "aw_serve_unix os hi join start path mode backlog =
     bnd (aw_open_unix_listener os hi path mode backlog) (\<lambda>l.
     join (aw_serve_listeners hi start [aw_socket_listener os l]))"

section \<open>TLS on top\<close>

text \<open>\<open>tcp\<close> is the call of \<open>open_tcp_stream\<close>, \<open>ctx\<close> makes the SSL object of a stream.\<close>

definition aw_open_tls_over_tcp_stream :: "('s, 'w) io \<Rightarrow> ('s \<Rightarrow> 'w tls_os) \<Rightarrow> 'w \<Rightarrow> ((exn + 's) \<times> 'w tlsw) option" where
  "aw_open_tls_over_tcp_stream tcp ctx v = (case tcp v of
      None \<Rightarrow> None
    | Some (Inl e, v') \<Rightarrow> Some (Inl e, aw_tls_init v')
    | Some (Inr s, v') \<Rightarrow> bnd (aw_tls_handshake (ctx s)) (\<lambda>_. ret s) (aw_tls_init v'))"

text \<open>A TLS listener as \<open>serve_listeners\<close> uses it.\<close>

definition aw_tls_listener :: "'w os \<Rightarrow> (sid \<Rightarrow> 'w tls_os) \<Rightarrow> sid \<Rightarrow> (sid, 'w) io \<times> (unit, 'w) io" where
  "aw_tls_listener os ctx l =
     (\<lambda>v. case aw_tls_accept (aw_listener_accept os l) ctx v of None \<Rightarrow> None | Some (r, w) \<Rightarrow> Some (r, inner w),
      aw_listener_close os l)"

definition aw_open_tls_over_tcp_listeners ::
    "'w os \<Rightarrow> (sid \<Rightarrow> 'w tls_os) \<Rightarrow> pyval \<Rightarrow> pyval \<Rightarrow> int option \<Rightarrow> (((sid, 'w) io \<times> (unit, 'w) io) list, 'w) io" where
  "aw_open_tls_over_tcp_listeners os ctx port host backlog =
     bnd (aw_open_tcp_listeners os port host backlog) (\<lambda>ls. ret (map (aw_tls_listener os ctx) ls))"

definition aw_serve_tls_over_tcp ::
    "'w os \<Rightarrow> 'w hi \<Rightarrow> (sid \<Rightarrow> 'w tls_os) \<Rightarrow> ((unit, 'w) io list \<Rightarrow> (unit, 'w) io) \<Rightarrow> (sid \<Rightarrow> (unit, 'w) io) \<Rightarrow>
     pyval \<Rightarrow> pyval \<Rightarrow> int option \<Rightarrow> (unit, 'w) io" where
  "aw_serve_tls_over_tcp os hi ctx join start port host backlog =
     bnd (aw_open_tls_over_tcp_listeners os ctx port host backlog) (\<lambda>ls. join (aw_serve_listeners hi start ls))"

section \<open>The flavours agree\<close>

lemmas await_same = await_socket_same await_stream_same await_tls_same

lemma aw_tls_init_same: "aw_tls_init = tls_init"
  by (simp only: aw_tls_init_def[abs_def] tls_init_def[abs_def])

lemma aw_spawn_blocking_same: "aw_spawn_blocking = spawn_blocking"
  by (simp only: aw_spawn_blocking_def[abs_def] spawn_blocking_def[abs_def])

lemma aw_unix_same: "aw_open_unix_socket = open_unix_socket" "aw_open_unix_listener = open_unix_listener"
  by (simp_all only: aw_open_unix_socket_def[abs_def] open_unix_socket_def[abs_def] aw_open_unix_listener_def[abs_def] open_unix_listener_def[abs_def]
      aw_clamp_backlog_def[abs_def] clamp_backlog_def[abs_def] await_same aw_spawn_blocking_same)

lemma aw_add_listener_same: "aw_add_listener = add_listener"
  by (simp only: aw_add_listener_def[abs_def] add_listener_def[abs_def] aw_setup_listener_def[abs_def] setup_listener_def[abs_def] await_same)

lemma aw_close_listeners_same: "aw_close_listeners os ls = close_listeners os ls"
  by (induction ls) (simp_all add: await_same)

lemma aw_add_listeners_same: "aw_add_listeners os backlog as acc = add_listeners os backlog as acc"
proof (induction as arbitrary: acc)
  case (Cons a as)
  then have "aw_add_listeners os backlog as = add_listeners os backlog as" by (rule ext)
  then show ?case by (simp add: aw_close_listeners_same aw_add_listener_same)
qed simp

lemma aw_tcp_listeners_same: "aw_open_tcp_listeners = open_tcp_listeners"
  by (intro ext) (simp add: aw_open_tcp_listeners_def open_tcp_listeners_def aw_add_listeners_same await_same aw_clamp_backlog_def clamp_backlog_def)

lemma aw_serve_listeners_same: "aw_serve_listeners = serve_listeners"
  by (simp only: aw_serve_listeners_def[abs_def] serve_listeners_def[abs_def] aw_listener_handler_def[abs_def] listener_handler_def[abs_def]
      aw_serve_turn_def[abs_def] serve_turn_def[abs_def])

lemma aw_socket_listener_same: "aw_socket_listener = socket_listener"
  by (simp only: aw_socket_listener_def[abs_def] socket_listener_def[abs_def] await_same)

lemma aw_tls_listener_same: "aw_tls_listener = tls_listener"
  by (simp only: aw_tls_listener_def[abs_def] tls_listener_def[abs_def] await_same)

lemma aw_serve_same: "aw_serve_tcp = serve_tcp" "aw_serve_unix = serve_unix" "aw_serve_tls_over_tcp = serve_tls_over_tcp"
  by (simp_all only: aw_serve_tcp_def[abs_def] serve_tcp_def[abs_def] aw_serve_unix_def[abs_def] serve_unix_def[abs_def]
      aw_serve_tls_over_tcp_def[abs_def] serve_tls_over_tcp_def[abs_def] aw_open_tls_over_tcp_listeners_def[abs_def] open_tls_over_tcp_listeners_def[abs_def]
      aw_tcp_listeners_same aw_serve_listeners_same aw_socket_listener_same aw_tls_listener_same aw_unix_same)

lemma aw_open_tls_same:
  "aw_open_tls_over_tcp_stream = open_tls_over_tcp_stream" "aw_open_tls_over_tcp_listeners = open_tls_over_tcp_listeners"
  by (simp_all only: aw_open_tls_over_tcp_stream_def[abs_def] open_tls_over_tcp_stream_def[abs_def] aw_open_tls_over_tcp_listeners_def[abs_def]
      open_tls_over_tcp_listeners_def[abs_def] aw_tcp_listeners_same aw_tls_listener_same await_same aw_tls_init_same)

lemmas hilvl_await_same =
  aw_unix_same aw_tcp_listeners_same aw_serve_listeners_same aw_serve_same aw_open_tls_same

end
