(* ===== verification/Eyeballs_Await.thy ===== *)
theory Eyeballs_Await
  imports Happy_Eyeballs
begin

text \<open>
  \<open>open_tcp_stream\<close> of \<open>src/tonio/_colored/_net/_hilvl.py\<close>. The attempts are those of the \<open>yield\<close> flavour; the function itself enters and leaves its scope with \<open>async with\<close>:
  \<open>__aexit__\<close> (\<open>src/tonio/_colored/_scope.py\<close>) counts the scope as left, gives way to other tasks with \<open>yield_now\<close>, and only then takes the children and waits for them. The machine
  has one more state for this, and refines the machine of \<open>Happy_Eyeballs\<close>.
\<close>

section \<open>The machine\<close>

text \<open>\<open>leaving\<close>: the function is in \<open>yield_now\<close> of \<open>__aexit__\<close>.\<close>

record aw_he = he +
  leaving :: bool

definition aw_he_init :: "aw_he \<Rightarrow> bool" where
  "aw_he_init s \<longleftrightarrow> he_init (he.truncate s) \<and> \<not> leaving s"

text \<open>\<open>_exit\<close> of the native scope, and the wait for the children it took.\<close>

definition aw_scope_exit :: "nat \<Rightarrow> aw_he \<Rightarrow> aw_he" where
  "aw_scope_exit n s = s\<lparr>mpc := Joining,
     event := (\<lambda>i. event s i \<or> cancelled s \<and> i < n), aborted := (\<lambda>i. cancelled s \<and> i < n \<and> \<not> event s i), leaving := False\<rparr>"

inductive aw_he_step :: "nat \<Rightarrow> aw_he \<Rightarrow> aw_he \<Rightarrow> bool" for n :: nat where
  spawn: "mpc s = Spawning \<Longrightarrow> \<not> leaving s \<Longrightarrow> spawned s < n \<Longrightarrow>
     aw_he_step n s (s\<lparr>mpc := Delaying, spawned := Suc (spawned s), att := (att s)(spawned s := Born)\<rparr>)"
| delayed: "mpc s = Delaying \<Longrightarrow> aw_he_step n s (s\<lparr>mpc := Spawning\<rparr>)"
| aexit: "mpc s = Spawning \<Longrightarrow> \<not> leaving s \<Longrightarrow> spawned s = n \<Longrightarrow> aw_he_step n s (s\<lparr>leaving := True\<rparr>)"
| yielded: "mpc s = Spawning \<Longrightarrow> leaving s \<Longrightarrow> aw_he_step n s (aw_scope_exit n s)"
| joined: "mpc s = Joining \<Longrightarrow> (\<forall>i<n. event s i) \<Longrightarrow> aw_he_step n s (s\<lparr>mpc := Checking\<rparr>)"
| lost: "mpc s = Checking \<Longrightarrow> winner s = None \<Longrightarrow>
     aw_he_step n s (s\<lparr>mpc := if errs s = n then Raised else Assertion_failed,
       live_socks := live_socks s - open_sockets s, open_sockets := {}\<rparr>)"
| won: "mpc s = Checking \<Longrightarrow> winner s = Some x \<Longrightarrow> aw_he_step n s (s\<lparr>mpc := Streaming x\<rparr>)"
| leave: "mpc s = Streaming x \<Longrightarrow> winner s = Some y \<Longrightarrow>
     aw_he_step n s (s\<lparr>mpc := Returned x, live_socks := live_socks s - (open_sockets s - {y}), open_sockets := {y}\<rparr>)"
| socket_ok: "att s i = Born \<Longrightarrow> aw_he_step n s
     (s\<lparr>att := (att s)(i := Connecting (next_sock s)), next_sock := Suc (next_sock s),
        open_sockets := insert (next_sock s) (open_sockets s), live_socks := insert (next_sock s) (live_socks s)\<rparr>)"
| connect_ok: "att s i = Connecting x \<Longrightarrow> x \<in> live_socks s \<Longrightarrow> aw_he_step n s
     (s\<lparr>att := (att s)(i := Connected x), connected := insert x (connected s)\<rparr>)"
| fail: "att s i = Born \<or> att s i = Connecting x \<Longrightarrow> aw_he_step n s
     (s\<lparr>att := (att s)(i := Failed), errs := Suc (errs s), event := (event s)(i := True)\<rparr>)"
| crash: "att s i = Born \<or> att s i = Connecting x \<Longrightarrow> aw_he_step n s (s\<lparr>att := (att s)(i := Crashed), event := (event s)(i := True)\<rparr>)"
| declare_winner: "att s i = Connected x \<Longrightarrow> aw_he_step n s (s\<lparr>att := (att s)(i := Declared x), winner := Some x\<rparr>)"
| cancel: "att s i = Declared x \<Longrightarrow> aw_he_step n s
     (s\<lparr>att := (att s)(i := Finished), cancelled := True, event := (event s)(i := True)\<rparr>)"
| unwind: "att s i = Born \<or> att s i = Connecting x \<Longrightarrow> aborted s i \<Longrightarrow> aw_he_step n s
     (s\<lparr>att := (att s)(i := Unwound), event := (event s)(i := True)\<rparr>)"

definition aw_he_reach :: "nat \<Rightarrow> aw_he \<Rightarrow> bool" where
  "aw_he_reach n = reach aw_he_init (aw_he_step n)"

section \<open>Refinement\<close>

text \<open>The abstraction forgets \<open>leaving\<close>; giving way to other tasks is a step that changes nothing. A function that leaves its block has spawned all attempts.\<close>

definition all_spawned :: "nat \<Rightarrow> aw_he \<Rightarrow> bool" where
  "all_spawned n s \<longleftrightarrow> (leaving s \<longrightarrow> mpc s = Spawning \<and> spawned s = n)"

lemma all_spawned_step: "aw_he_step n s t \<Longrightarrow> all_spawned n s \<Longrightarrow> all_spawned n t"
  by (induction rule: aw_he_step.induct) (auto simp: all_spawned_def aw_scope_exit_def)

lemmas he_view = he.truncate_def he.defs

lemma aw_he_step_refines:
  assumes "aw_he_step n s t" "all_spawned n s"
  shows "he_step n (he.truncate s) (he.truncate t) \<or> he.truncate t = he.truncate s"
  using assms
proof (induction rule: aw_he_step.induct)
  case (spawn s)
  then show ?case using he_step.spawn[of "he.truncate s" n] by (simp add: he_view)
next
  case (delayed s)
  then show ?case using he_step.delayed[of "he.truncate s" n] by (simp add: he_view)
next
  case (yielded s)
  then show ?case using he_step.scope_exit[of "he.truncate s" n] by (simp add: he_view all_spawned_def scope_exit_def aw_scope_exit_def)
next
  case (joined s)
  then show ?case using he_step.joined[of "he.truncate s" n] by (simp add: he_view)
next
  case (lost s)
  then show ?case using he_step.lost[of "he.truncate s" n] by (simp add: he_view)
next
  case (won s x)
  then show ?case using he_step.won[of "he.truncate s" x n] by (simp add: he_view)
next
  case (leave s x y)
  then show ?case using he_step.leave[of "he.truncate s" x y n] by (simp add: he_view)
next
  case (socket_ok s i)
  then show ?case using he_step.socket_ok[of "he.truncate s" i n] by (simp add: he_view)
next
  case (connect_ok s i x)
  then show ?case using he_step.connect_ok[of "he.truncate s" i x n] by (simp add: he_view)
next
  case (fail s i x)
  then show ?case using he_step.fail[of "he.truncate s" i x n] by (simp add: he_view)
next
  case (crash s i x)
  then show ?case using he_step.crash[of "he.truncate s" i x n] by (simp add: he_view)
next
  case (declare_winner s i x)
  then show ?case using he_step.declare_winner[of "he.truncate s" i x n] by (simp add: he_view)
next
  case (cancel s i x)
  then show ?case using he_step.cancel[of "he.truncate s" i x n] by (simp add: he_view)
next
  case (unwind s i x)
  then show ?case using he_step.unwind[of "he.truncate s" i x n] by (simp add: he_view)
qed (simp add: he_view)

interpretation awhe: step_system aw_he_init "aw_he_step n" "\<lambda>s. all_spawned n s \<and> he_reach n (he.truncate s)" for n
proof
  show "all_spawned n s \<and> he_reach n (he.truncate s)" if "aw_he_init s" for s
    using that by (auto simp: aw_he_init_def all_spawned_def he_reach_def intro: reach.start)
next
  show "all_spawned n t \<and> he_reach n (he.truncate t)" if "aw_he_step n s t" "all_spawned n s \<and> he_reach n (he.truncate s)" for s t
    using aw_he_step_refines[OF that(1)] all_spawned_step[OF that(1)] that(2) he_next by auto
qed

text \<open>
  C24. The \<open>await\<close> flavour of \<open>open_tcp_stream\<close> refines the \<open>yield\<close> flavour: what a reachable state shows, apart from the moment in which the function gives way, is a reachable state of that
  machine. So it returns a stream over a connected socket only, open unless a second attempt connected too, raises its \<open>OSError\<close> only when the attempt of every target failed with one, and fails its assertion only
  when some attempt was ended by an exception of another class, both without a socket left open; and the step it takes more is always enabled, so that it does not get stuck there.
\<close>

theorem aw_open_tcp_stream_refines:
  assumes "aw_he_reach n s"
  shows "he_reach n (he.truncate s) \<and> (\<forall>x. mpc s = Returned x \<longrightarrow> x \<in> connected s \<and> (x \<in> live_socks s \<or> (\<exists>y \<in> connected s. y \<noteq> x))) \<and>
    (mpc s = Raised \<longrightarrow> {i. att s i = Failed} = {..<n} \<and> live_socks s = {}) \<and> (mpc s = Assertion_failed \<longrightarrow> (\<exists>i<n. att s i = Crashed) \<and> live_socks s = {}) \<and>
    (leaving s \<longrightarrow> aw_he_step n s (aw_scope_exit n s))"
proof -
  have inv: "all_spawned n s" "he_reach n (he.truncate s)" using awhe.reach_inv assms by (simp_all add: aw_he_reach_def)
  have ok: "main_ok n (he.truncate s)" using eyeballs.reach_inv inv(2) by (simp add: he_reach_def he_inv_def)
  have "{i. att s i = Failed} = {..<n}" if "mpc s = Raised"
    using ok that by (auto simp: main_ok_def ended_all_def he_view split: if_splits)
  moreover have "leaving s \<longrightarrow> aw_he_step n s (aw_scope_exit n s)" using inv(1) aw_he_step.yielded by (simp add: all_spawned_def)
  ultimately show ?thesis using inv(2) ok by (auto simp: main_ok_def ended_all_def he_view)
qed

text \<open>A target that connects, up to the moment in which the function gives way.\<close>

lemma aw_he_next: "aw_he_reach n s \<Longrightarrow> aw_he_step n s t \<Longrightarrow> aw_he_reach n t"
  unfolding aw_he_reach_def by (rule reach.next_state)

theorem aw_open_tcp_stream_refines_witness:
  "\<exists>s. aw_he_reach 1 s \<and> he_reach 1 (he.truncate s) \<and> leaving s \<and> winner s = Some 0 \<and> aw_he_step 1 s (aw_scope_exit 1 s)"
proof -
  let ?s = "he.extend he_start \<lparr>leaving = False\<rparr>"
  let ?a = "?s\<lparr>mpc := Delaying, spawned := 1, att := (\<lambda>_. Unborn)(0 := Born)\<rparr>"
  let ?b = "?a\<lparr>att := (\<lambda>_. Unborn)(0 := Connecting 0), next_sock := 1, open_sockets := {0}, live_socks := {0}\<rparr>"
  let ?c = "?b\<lparr>att := (\<lambda>_. Unborn)(0 := Connected 0), connected := {0}\<rparr>"
  let ?d = "?c\<lparr>att := (\<lambda>_. Unborn)(0 := Declared 0), winner := Some 0\<rparr>"
  let ?e = "?d\<lparr>mpc := Spawning\<rparr>" and ?f = "?d\<lparr>mpc := Spawning, leaving := True\<rparr>"
  have "aw_he_reach 1 ?s" unfolding aw_he_reach_def by (rule reach.start) (simp add: aw_he_init_def he_init_def he_start_def he_view)
  moreover have st: "aw_he_step 1 ?s ?a" "aw_he_step 1 ?a ?b" "aw_he_step 1 ?b ?c" "aw_he_step 1 ?c ?d" "aw_he_step 1 ?d ?e" "aw_he_step 1 ?e ?f"
    using aw_he_step.spawn[of ?s 1] aw_he_step.socket_ok[of ?a 0 1] aw_he_step.connect_ok[of ?b 0 0 1] aw_he_step.declare_winner[of ?c 0 0 1]
      aw_he_step.delayed[of ?d 1] aw_he_step.aexit[of ?e 1]
    by (simp_all add: he_start_def he_view)
  ultimately have r: "aw_he_reach 1 ?f" using aw_he_next[OF aw_he_next[OF aw_he_next[OF aw_he_next[OF aw_he_next[OF aw_he_next[OF _ st(1)] st(2)] st(3)] st(4)] st(5)] st(6)] by simp
  show ?thesis using r aw_open_tcp_stream_refines[OF r] by (intro exI[of _ ?f]) (simp add: he_start_def he_view)
qed

end
