(* ===== verification/Subprocess_Await.thy ===== *)
theory Subprocess_Await
  imports Run_Process
begin

text \<open>
  \<open>src/tonio/_colored/_subprocess.py\<close>: the \<open>await\<close> flavour of subprocesses. Its \<open>Process\<close> inherits the plain methods and has a constructor and a \<open>wait\<close> of its own, with the lock and
  the streams of its flavour; \<open>open_process\<close> and \<open>run_process\<close> are written again. The definitions follow that text over the same interface to the operating system, and are
  proved equal to those of the \<open>yield\<close> flavour.
\<close>

section \<open>Process\<close>

definition aw_process_init :: "'w proc_os \<Rightarrow> nat \<Rightarrow> nat option \<Rightarrow> nat option \<Rightarrow> nat option \<Rightarrow> (process, 'w) io" where
  "aw_process_init os popen sin sout serr =
     bnd (open_proc_fd (po_proc_fd os) (po_pid os popen)) (\<lambda>pidfd.
     bnd (po_set_pidfd os popen pidfd) (\<lambda>_.
     ret \<lparr>p_proc = popen, p_stdin = sin, p_stdout = sout, p_stderr = serr,
          p_stdio = (case (sin, sout) of (Some i, Some j) \<Rightarrow> Some (i, j) | _ \<Rightarrow> None)\<rparr>))"

definition aw_proc_wait :: "'w proc_os \<Rightarrow> nat \<Rightarrow> (int option, 'w) io" where
  "aw_proc_wait os popen = bnd (with_lock (po_lock os popen) (po_unlock os popen)
     (bnd (proc_poll os popen) (\<lambda>r.
        if r = None
        then bnd (po_pidfd os popen) (\<lambda>fd. case fd of
               None \<Rightarrow> raise (AttributeError ''_io_arm_r'')
             | Some f \<Rightarrow>
                 bnd (po_pidfd_arm_r os f) (\<lambda>waiter.
                 bnd (case waiter of None \<Rightarrow> ret () | Some e \<Rightarrow> po_await os e) (\<lambda>_.
                 bnd (po_wait os popen) (\<lambda>_.
                 close_pidfd os popen))))
        else ret ()))) (\<lambda>_. po_returncode os popen)"

section \<open>Opening a process\<close>

definition aw_pipe_to_child_stdin :: "'w proc_os \<Rightarrow> (nat \<times> int, 'w) io" where
  "aw_pipe_to_child_stdin os = bnd (po_pipe os) (\<lambda>(rfd, wfd). bnd (po_fdstream os wfd) (\<lambda>s. ret (s, rfd)))"

definition aw_pipe_from_child_output :: "'w proc_os \<Rightarrow> (nat \<times> int, 'w) io" where
  "aw_pipe_from_child_output os = bnd (po_pipe os) (\<lambda>(rfd, wfd). bnd (po_fdstream os rfd) (\<lambda>s. ret (s, wfd)))"

definition aw_check_options :: "pyval \<Rightarrow> options \<Rightarrow> exn option" where
  "aw_check_options command opts =
     (case find (opt_truthy opts) [''universal_newlines'', ''text'', ''encoding'', ''errors'', ''bufsize''] of
        Some key \<Rightarrow> Some (TypeError (''tonio.Process only supports communicating over unbuffered byte streams; the '' @
          [CHR 0x27] @ key @ [CHR 0x27] @ '' option is not supported''))
      | None \<Rightarrow>
      if is_text command \<and> \<not> opt_truthy opts ''shell''
      then Some (TypeError ''command must be a sequence (not a string or bytes) if shell=False on UNIX systems'')
      else if \<not> is_text command \<and> opt_truthy opts ''shell''
      then Some (TypeError ''command must be a string or bytes (not a sequence) if shell=True on UNIX systems'')
      else None)"

definition aw_pipe_end ::
    "'w proc_os \<Rightarrow> (nat \<times> int, 'w) io \<Rightarrow> bool \<Rightarrow> pyval \<Rightarrow> (nat option \<times> pyval \<times> (unit, 'w) io list \<times> (unit, 'w) io list, 'w) io" where
  "aw_pipe_end os mk wanted v =
     (if wanted then bnd mk (\<lambda>(s, fd). ret (Some s, PInt fd, [po_close os fd], [po_stream_close os s]))
      else ret (None, v, [], []))"

definition aw_open_process ::
    "'w proc_os \<Rightarrow> pyval \<Rightarrow> pyval \<Rightarrow> pyval \<Rightarrow> pyval \<Rightarrow> options \<Rightarrow> (process, 'w) io" where
  "aw_open_process os command sin sout serr opts = (case aw_check_options command opts of
      Some e \<Rightarrow> raise e
    | None \<Rightarrow>
        bnd (stage [] [] (aw_pipe_end os (aw_pipe_to_child_stdin os) (sin = PInt PIPE) sin) (\<lambda>(wstdin, sin, a1, f1).
             stage a1 f1 (aw_pipe_end os (aw_pipe_from_child_output os) (sout = PInt PIPE) sout) (\<lambda>(wstdout, sout, a2, f2).
             stage (a2 @ a1) (f2 @ f1)
               (if serr = PInt STDOUT then ret (None, if sout \<noteq> PNone then sout else serr, [], [])
                else aw_pipe_end os (aw_pipe_from_child_output os) (serr = PInt PIPE) serr) (\<lambda>(wstderr, serr, a3, f3).
             stage (a3 @ a2 @ a1) (f3 @ f2 @ f1) (in_pool (po_pool os) (po_popen os command sin sout serr opts)) (\<lambda>popen.
             leave_block (a3 @ a2 @ a1) [] (ret (popen, wstdin, wstdout, wstderr)))))))
          (\<lambda>(popen, wstdin, wstdout, wstderr). aw_process_init os popen wstdin wstdout wstderr))"

section \<open>run\_process\<close>

text \<open>The options; then the tasks \<open>read_output\<close> and \<open>feed_input\<close>, the wait and the join as steps, with the child as in \<open>Run_Process\<close>.\<close>

definition aw_run_options :: "pyval \<Rightarrow> bool \<Rightarrow> bool \<Rightarrow> options \<Rightarrow> exn + (bytes option \<times> options)" where
  "aw_run_options sin capture_stdout capture_stderr opts =
     (case sin of PStr _ \<Rightarrow> Inl (ValueError ''process stdin must be bytes, not str'')
      | _ \<Rightarrow>
        let (input, opts) = (case sin of PBytes b \<Rightarrow> (Some b, opts(''stdin'' \<mapsto> PInt PIPE)) | _ \<Rightarrow> (None, opts(''stdin'' \<mapsto> sin)))
        in if capture_stdout \<and> opts ''stdout'' \<noteq> None then Inl (ValueError ''can't specify both stdout and capture_stdout'')
           else let opts = (if capture_stdout then opts(''stdout'' \<mapsto> PInt PIPE) else opts)
           in if capture_stderr \<and> opts ''stderr'' \<noteq> None then Inl (ValueError ''can't specify both stderr and capture_stderr'')
              else Inr (input, if capture_stderr then opts(''stderr'' \<mapsto> PInt PIPE) else opts))"

inductive aw_read_step :: "child_output \<Rightarrow> child_output \<Rightarrow> bool" where
  chunk: "\<not> rdone r \<Longrightarrow> pipe r = c @ rest \<Longrightarrow> c \<noteq> [] \<Longrightarrow> aw_read_step r (r\<lparr>chunks := chunks r @ [c], pipe := rest\<rparr>)"
| eof: "\<not> rdone r \<Longrightarrow> pipe r = [] \<Longrightarrow> \<not> wopen r \<Longrightarrow> aw_read_step r (r\<lparr>rdone := True\<rparr>)"

definition aw_captured :: "bool \<Rightarrow> child_output \<Rightarrow> bytes option" where
  "aw_captured capture r = (if capture then Some (concat (chunks r)) else None)"

definition aw_run_finish :: "bool \<Rightarrow> bool \<Rightarrow> bool \<Rightarrow> int \<Rightarrow> run \<Rightarrow> run_result" where
  "aw_run_finish check cout cerr c s = (if rerrs s \<noteq> [] then Task_group (ExceptionGroup ''SpawnExceptionGroup'' (rerrs s))
     else let stdout = aw_captured cout (out s); stderr = aw_captured cerr (err s)
          in if c \<noteq> 0 \<and> check then Called_process_error c stdout stderr else Completed_process c stdout stderr)"

inductive aw_run_step_p :: "bool \<Rightarrow> bool \<Rightarrow> bool \<Rightarrow> run \<Rightarrow> run \<Rightarrow> bool" for check cout cerr where
  feed: "feed s = Feeding (c @ rest) \<Longrightarrow> c \<noteq> [] \<Longrightarrow> \<not> fbroken s \<Longrightarrow>
     aw_run_step_p check cout cerr s (s\<lparr>fpipe := fpipe s @ c, feed := Feeding rest\<rparr>)"
| fed: "feed s = Feeding rest \<Longrightarrow> rest = [] \<or> fbroken s \<Longrightarrow> aw_run_step_p check cout cerr s (s\<lparr>feed := Fed\<rparr>)"
| feed_error: "feed s = Feeding rest \<Longrightarrow> is_Exception e \<Longrightarrow> aw_run_step_p check cout cerr s (s\<lparr>feed := Fed, rerrs := rerrs s @ [e]\<rparr>)"
| read_out: "aw_read_step (out s) r \<Longrightarrow> aw_run_step_p check cout cerr s (s\<lparr>out := r\<rparr>)"
| read_err: "aw_read_step (err s) r \<Longrightarrow> aw_run_step_p check cout cerr s (s\<lparr>err := r\<rparr>)"
| out_error: "\<not> rdone (out s) \<Longrightarrow> is_Exception e \<Longrightarrow>
     aw_run_step_p check cout cerr s (s\<lparr>out := (out s)\<lparr>rdone := True\<rparr>, rerrs := rerrs s @ [e]\<rparr>)"
| err_error: "\<not> rdone (err s) \<Longrightarrow> is_Exception e \<Longrightarrow>
     aw_run_step_p check cout cerr s (s\<lparr>err := (err s)\<lparr>rdone := True\<rparr>, rerrs := rerrs s @ [e]\<rparr>)"
| child_out: "write_step (out s) r \<Longrightarrow> aw_run_step_p check cout cerr s (s\<lparr>out := r\<rparr>)"
| child_err: "write_step (err s) r \<Longrightarrow> aw_run_step_p check cout cerr s (s\<lparr>err := r\<rparr>)"
| child_reads: "fpipe s = c @ rest \<Longrightarrow> aw_run_step_p check cout cerr s (s\<lparr>fpipe := rest\<rparr>)"
| child_closes: "aw_run_step_p check cout cerr s (s\<lparr>fbroken := True\<rparr>)"
| child_exits: "rexit s = None \<Longrightarrow> aw_run_step_p check cout cerr s (s\<lparr>rexit := Some c\<rparr>)"
| waited: "rmain s = In_wait \<Longrightarrow> rexit s = Some c \<Longrightarrow> aw_run_step_p check cout cerr s (s\<lparr>rmain := In_join c\<rparr>)"
| joined: "rmain s = In_join c \<Longrightarrow> feed s = Fed \<Longrightarrow> rdone (out s) \<Longrightarrow> rdone (err s) \<Longrightarrow>
     aw_run_step_p check cout cerr s (s\<lparr>rmain := Run_done (aw_run_finish check cout cerr c s)\<rparr>)"

definition aw_run_reach :: "bytes option \<Rightarrow> bool \<Rightarrow> bool \<Rightarrow> bool \<Rightarrow> run \<Rightarrow> bool" where
  "aw_run_reach input check cout cerr = reach (\<lambda>s. s = run_init input cout cerr) (aw_run_step_p check cout cerr)"

section \<open>The flavours agree\<close>

lemma aw_process_same: "aw_process_init = process_init" "aw_proc_wait = proc_wait"
  by (simp_all only: aw_process_init_def[abs_def] process_init_def[abs_def] aw_proc_wait_def[abs_def] proc_wait_def[abs_def])

lemma aw_open_process_same: "aw_open_process = open_process"
  by (simp only: aw_open_process_def[abs_def] open_process_def[abs_def] aw_check_options_def[abs_def] check_options_def[abs_def] aw_process_same
      aw_pipe_end_def[abs_def] pipe_end_def[abs_def] aw_pipe_to_child_stdin_def[abs_def] pipe_to_child_stdin_def[abs_def]
      aw_pipe_from_child_output_def[abs_def] pipe_from_child_output_def[abs_def])

lemma aw_run_options_same: "aw_run_options = run_options"
  by (simp only: aw_run_options_def[abs_def] run_options_def[abs_def])

lemma aw_read_step_same: "aw_read_step r r' \<longleftrightarrow> read_step r r'"
  by (simp add: aw_read_step.simps read_step.simps)

lemma aw_run_finish_same: "aw_run_finish = run_finish"
  by (simp only: aw_run_finish_def[abs_def] run_finish_def[abs_def] aw_captured_def[abs_def] captured_def[abs_def])

lemma aw_run_step_same: "aw_run_step_p check cout cerr = run_step_p check cout cerr"
  by (intro ext) (simp only: aw_run_step_p.simps run_step_p.simps aw_read_step_same aw_run_finish_same)

lemma aw_run_reach_same: "aw_run_reach = run_reach"
  by (intro ext) (simp add: aw_run_reach_def run_reach_def aw_run_step_same)

lemmas subprocess_await_same = aw_process_same aw_open_process_same aw_run_options_same aw_run_reach_same

end
