(* ===== verification/Race_Await.thy ===== *)
theory Race_Await
  imports Race
begin

text \<open>
  Scopes, \<open>select\<close>, \<open>timeout\<close> and \<open>block_on\<close> of the \<open>await\<close> flavour: \<open>src/tonio/_colored/_scope.py\<close>, \<open>_ctl.py\<close> and \<open>_time.py\<close>. The native scope is the same
  (\<open>PyAsyncGenScope\<close> repeats \<open>PyGenScope\<close>), but it is used as an asynchronous context manager: leaving the block counts the scope as left, gives way to other tasks and then takes and
  joins the children, always, and also when the block raised. \<open>select\<close> fetches the result inside the block, before it cancels the scope, so that its behaviour
  differs from the \<open>yield\<close> flavour when there is no result.
\<close>

section \<open>Scopes\<close>

text \<open>The owner is \<open>Behind\<close> while it is in \<open>yield_now\<close> of \<open>__aexit__\<close>; from there it cannot but take the children.\<close>

inductive aw_scope_step :: "scope_sys \<Rightarrow> scope_sys \<Rightarrow> bool" where
  aenter: "owner s = Before \<Longrightarrow> scope_enter (scp s) = Inr sc \<Longrightarrow> aw_scope_step s (s\<lparr>scp := sc, owner := Inside\<rparr>)"
| aenter_twice: "owner s = Before \<Longrightarrow> scope_enter (scp s) = Inl e \<Longrightarrow> aw_scope_step s (s\<lparr>owner := Failed e\<rparr>)"
| aexit: "owner s = Inside \<Longrightarrow> aw_scope_step s (s\<lparr>scp := scope_leave (scp s), owner := Behind\<rparr>)"
| yielded: "owner s = Behind \<Longrightarrow> scope_exit_native (scp s) (ev s, ab s) = Inr (sc, ev', ab') \<Longrightarrow>
     aw_scope_step s (s\<lparr>scp := sc, ev := ev', ab := ab', owner := Joining (the (taken sc))\<rparr>)"
| resume: "owner s = Joining is \<Longrightarrow> (\<forall>i \<in> set is. ev s i) \<Longrightarrow> aw_scope_step s (s\<lparr>owner := Resumed is\<rparr>)"
| spawn: "child s i = Absent \<Longrightarrow> owner s \<noteq> Before \<Longrightarrow> aw_scope_step s (s\<lparr>child := (child s)(i := if track_allowed (scp s) then Tracking else Refused)\<rparr>)"
| push: "child s i = Tracking \<Longrightarrow> aw_scope_step s (s\<lparr>scp := track_push i (scp s), child := (child s)(i := Alive)\<rparr>)"
| ends: "child s i = Alive \<Longrightarrow> aw_scope_step s (s\<lparr>child := (child s)(i := Ending)\<rparr>)"
| sets: "child s i = Ending \<Longrightarrow> aw_scope_step s (s\<lparr>ev := (ev s)(i := True), child := (child s)(i := Gone)\<rparr>)"
| cancel: "scope_cancel (scp s) = (b, sc) \<Longrightarrow> aw_scope_step s (s\<lparr>scp := sc\<rparr>)"

definition aw_scope_reach :: "scope_sys \<Rightarrow> bool" where
  "aw_scope_reach = reach scope_start aw_scope_step"

lemma aw_scope_step_refines: "aw_scope_step s t \<Longrightarrow> scope_step s t"
  by (induction rule: aw_scope_step.induct) (auto intro: scope_step.intros split del: if_split)

lemma aw_scope_reach_refines: "aw_scope_reach s \<Longrightarrow> scope_reach s"
  unfolding aw_scope_reach_def scope_reach_def by (erule reach_mono) (rule aw_scope_step_refines)

text \<open>
  Inside the block the scope counts 1, behind it 2; a task that comes to spawn behind the block is refused.
\<close>

definition block_inv :: "scope_sys \<Rightarrow> bool" where
  "block_inv s \<longleftrightarrow> consumed (scp s) = (case owner s of Before \<Rightarrow> 0 | Inside \<Rightarrow> 1 | Failed _ \<Rightarrow> consumed (scp s) | _ \<Rightarrow> 2)"

lemma consumed_frames [simp]:
  "consumed (track_push i sc) = consumed sc" "scope_cancel sc = (b, sc') \<Longrightarrow> consumed sc' = consumed sc"
  "scope_exit_native sc fl = Inr (sc', fl') \<Longrightarrow> consumed sc' = consumed sc"
  by (auto simp: track_push_def scope_cancel_def scope_exit_native_def split: option.splits)

lemma block_inv_step: "aw_scope_step s t \<Longrightarrow> block_inv s \<Longrightarrow> block_inv t"
proof (induction rule: aw_scope_step.induct)
  case (cancel s b sc)
  then show ?case using consumed_frames(2)[OF cancel(1)] by (auto simp: block_inv_def split: owner.splits)
qed (auto simp: block_inv_def scope_enter_def scope_leave_def scope_incr_def cas_def split: owner.splits prod.splits bool.splits option.splits if_splits)

interpretation aws: step_system scope_start aw_scope_step "\<lambda>s. scope_inv s \<and> block_inv s"
proof
  show "scope_inv s \<and> block_inv s" if "scope_start s" for s
    using sy.invar_init[OF that] that by (simp add: block_inv_def scope_start_def scope_new_def)
qed (auto intro: scope_inv_step block_inv_step aw_scope_step_refines)

lemma aw_scope_contract:
  assumes "aw_scope_reach s"
  shows "(owner s = Behind \<longrightarrow> (\<exists>t is. aw_scope_step s t \<and> owner t = Joining is \<and> set is = {i. child s i \<in> {Alive, Ending, Gone}})) \<and>
    (owner s \<noteq> Before \<and> owner s \<noteq> Inside \<and> (\<forall>e. owner s \<noteq> Failed e) \<and> child s i = Absent \<longrightarrow> aw_scope_step s (s\<lparr>child := (child s)(i := Refused)\<rparr>))"
proof (intro conjI impI)
  have inv: "scope_inv s" "block_inv s" using aws.reach_inv assms by (auto simp: aw_scope_reach_def)
  show "\<exists>t is. aw_scope_step s t \<and> owner t = Joining is \<and> set is = {i. child s i \<in> {Alive, Ending, Gone}}" if "owner s = Behind"
  proof -
    have n: "taken (scp s) = None" using inv(1) that by (simp add: scope_inv_def)
    obtain sc e a where x: "scope_exit_native (scp s) (ev s, ab s) = Inr (sc, e, a)" "taken sc = Some (stack (scp s))"
      using n by (auto simp: scope_exit_native_def exit_loop_eq)
    have "set (stack (scp s)) = {i. child s i \<in> {Alive, Ending, Gone}}"
      using scope_inv_at[OF inv(1)] that by (auto simp: child_ok_def joined_def)
    then show ?thesis using aw_scope_step.yielded[OF that x(1)] x(2) by force
  qed
  show "aw_scope_step s (s\<lparr>child := (child s)(i := Refused)\<rparr>)"
    if "owner s \<noteq> Before \<and> owner s \<noteq> Inside \<and> (\<forall>e. owner s \<noteq> Failed e) \<and> child s i = Absent"
  proof -
    have "consumed (scp s) = 2" using inv(2) that by (auto simp: block_inv_def split: owner.splits)
    then show ?thesis using aw_scope_step.spawn[of s i] that by (simp add: track_allowed_def)
  qed
qed

section \<open>select\<close>

text \<open>
  The caller: spawning in the block; waiting for the sentinel; past it, about to fetch; with a result, about to cancel the scope; leaving the block with this outcome; in \<open>yield_now\<close>
  of \<open>__aexit__\<close>; joining; out. A slot that cannot be unpacked raises in the block, which is left with the scope not cancelled.
\<close>

datatype 'v aw_sel = AS_spawn nat | AS_wait | AS_fetch | AS_cancel "exn + 'v" | AS_leave "exn + 'v" | AS_yield "exn + 'v" | AS_join "exn + 'v" | AS_out "exn + 'v"

record 'v aw_select_sys = "'v race" +
  asel :: "'v aw_sel"

definition aw_select_init :: "'v aw_select_sys" where
  "aw_select_init = \<lparr>racer = (\<lambda>_. R_absent), slot = None, sentinel = False, sscope = scope_new\<lparr>consumed := 1\<rparr>, sev = (\<lambda>_. False), sab = (\<lambda>_. False),
     asel = AS_spawn 0\<rparr>"

inductive aw_select_step :: "nat \<Rightarrow> 'v aw_select_sys \<Rightarrow> 'v aw_select_sys \<Rightarrow> bool" for n where
  spawns: "asel s = AS_spawn k \<Longrightarrow> k < n \<Longrightarrow>
     aw_select_step n s (s\<lparr>racer := (racer s)(k := R_run), sscope := track_push k (sscope s), asel := AS_spawn (Suc k)\<rparr>)"
| spawned: "asel s = AS_spawn n \<Longrightarrow> aw_select_step n s (s\<lparr>asel := AS_wait\<rparr>)"
| woken: "asel s = AS_wait \<Longrightarrow> sentinel s \<Longrightarrow> aw_select_step n s (s\<lparr>asel := AS_fetch\<rparr>)"
| fetch: "asel s = AS_fetch \<Longrightarrow>
     aw_select_step n s (s\<lparr>asel := (case slot s of None \<Rightarrow> AS_leave (Inl unpack_error) | Some out \<Rightarrow> AS_cancel out)\<rparr>)"
| cancels: "asel s = AS_cancel out \<Longrightarrow> aw_select_step n s (s\<lparr>sscope := snd (scope_cancel (sscope s)), asel := AS_leave out\<rparr>)"
| aexit: "asel s = AS_leave out \<Longrightarrow> aw_select_step n s (s\<lparr>sscope := scope_leave (sscope s), asel := AS_yield out\<rparr>)"
| yielded: "asel s = AS_yield out \<Longrightarrow> scope_exit_native (sscope s) (sev s, sab s) = Inr (sc, e, a) \<Longrightarrow>
     aw_select_step n s (s\<lparr>sscope := sc, sev := e, sab := a, asel := AS_join out\<rparr>)"
| joins: "asel s = AS_join out \<Longrightarrow> (\<forall>i \<in> set (the (taken (sscope s))). sev s i) \<Longrightarrow> aw_select_step n s (s\<lparr>asel := AS_out out\<rparr>)"
| ends: "racer s i = R_run \<Longrightarrow> aw_select_step n s (s\<lparr>racer := (racer s)(i := R_ended out)\<rparr>)"
| stores: "racer s i = R_ended out \<Longrightarrow> aw_select_step n s (s\<lparr>racer := (racer s)(i := R_stored out), slot := store_outcome out (slot s)\<rparr>)"
| flags: "racer s i = R_stored out \<Longrightarrow> aw_select_step n s (s\<lparr>racer := (racer s)(i := R_flagged out), sentinel := True\<rparr>)"
| leaves: "racer s i = R_flagged out \<Longrightarrow> aw_select_step n s (s\<lparr>racer := (racer s)(i := R_gone out), sev := (sev s)(i := True)\<rparr>)"

definition aw_select_reach :: "nat \<Rightarrow> 'v aw_select_sys \<Rightarrow> bool" where
  "aw_select_reach n = reach (\<lambda>s. s = aw_select_init) (aw_select_step n)"

text \<open>
  What the outcome on the way out rests on: with the scope cancelled, a child that left it; with the scope not cancelled, no child has been aborted, and one of them raised something that is not
  stored.
\<close>

definition aw_outcome :: "nat \<Rightarrow> 'v aw_select_sys \<Rightarrow> exn + 'v \<Rightarrow> bool" where
  "aw_outcome n s out \<longleftrightarrow> (if cancelled (sscope s) then won n (racer s) out
     else (\<forall>i. \<not> sab s i) \<and> out = Inl unpack_error \<and> raised_base n (racer s))"

definition asel_ok :: "nat \<Rightarrow> 'v aw_select_sys \<Rightarrow> bool" where
  "asel_ok n s \<longleftrightarrow> (case asel s of
     AS_spawn k \<Rightarrow> k \<le> n \<and> stack (sscope s) = [0..<k] \<and> taken (sscope s) = None \<and> \<not> cancelled (sscope s) \<and> (\<forall>i. \<not> sab s i) \<and> (\<forall>i\<ge>k. racer s i = R_absent)
   | AS_wait \<Rightarrow> stack (sscope s) = [0..<n] \<and> taken (sscope s) = None \<and> \<not> cancelled (sscope s) \<and> (\<forall>i. \<not> sab s i)
   | AS_fetch \<Rightarrow> stack (sscope s) = [0..<n] \<and> taken (sscope s) = None \<and> \<not> cancelled (sscope s) \<and> (\<forall>i. \<not> sab s i) \<and> sentinel s
   | AS_cancel out \<Rightarrow> stack (sscope s) = [0..<n] \<and> taken (sscope s) = None \<and> won n (racer s) out
   | AS_leave out \<Rightarrow> stack (sscope s) = [0..<n] \<and> taken (sscope s) = None \<and> aw_outcome n s out
   | AS_yield out \<Rightarrow> stack (sscope s) = [0..<n] \<and> taken (sscope s) = None \<and> aw_outcome n s out
   | AS_join out \<Rightarrow> taken (sscope s) = Some [0..<n] \<and> aw_outcome n s out
   | AS_out out \<Rightarrow> taken (sscope s) = Some [0..<n] \<and> aw_outcome n s out \<and> (\<forall>i<n. over (racer s i) (sab s i)))"

text \<open>A step of a child keeps it.\<close>

lemma asel_ok_racer:
  assumes "asel_ok n s" "racer t = (racer s)(i := k)" "racer s i \<noteq> R_absent" "\<And>out. settled (racer s i) out \<Longrightarrow> settled k out"
    and "over (racer s i) (sab s i) \<Longrightarrow> over k (sab s i)" "asel t = asel s" "sscope t = sscope s" "sab t = sab s"
    and "sentinel s \<Longrightarrow> sentinel t" "k \<noteq> R_absent"
  shows "asel_ok n t"
proof -
  have w: "won n (racer s) out \<Longrightarrow> won n (racer t) out" "raised_base n (racer s) \<Longrightarrow> raised_base n (racer t)" for out
    using won_upd[of n "racer s" out i k] raised_base_upd[of n "racer s" i k] assms(2,4) by auto
  then have r: "aw_outcome n s out \<Longrightarrow> aw_outcome n t out" for out using assms(7,8) by (auto simp: aw_outcome_def split: if_splits)
  have o: "over (racer s j) (sab s j) \<Longrightarrow> over (racer t j) (sab t j)" for j using assms(2,5,8) by auto
  show ?thesis using assms w(1) r o unfolding asel_ok_def by (auto split: aw_sel.splits)
qed

lemma aw_fetch_ok:
  assumes "racers_ok n s" "asel_ok n s" "asel s = AS_fetch"
  shows "asel_ok n (s\<lparr>asel := (case slot s of None \<Rightarrow> AS_leave (Inl unpack_error) | Some out \<Rightarrow> AS_cancel out)\<rparr>)"
proof (cases "slot s")
  case None
  then show ?thesis using assms select_flag_won[of n s] by (simp add: asel_ok_def aw_outcome_def)
next
  case (Some out)
  then show ?thesis using assms by (simp add: asel_ok_def racers_ok_alt slot_ok_def)
qed

lemma aw_yielded_ok:
  assumes "racers_ok n s" "asel_ok n s" "asel s = AS_yield out" "scope_exit_native (sscope s) (sev s, sab s) = Inr (sc, e, a)"
  shows "racers_ok n (s\<lparr>sscope := sc, sev := e, sab := a, asel := AS_join out\<rparr>) \<and> asel_ok n (s\<lparr>sscope := sc, sev := e, sab := a, asel := AS_join out\<rparr>)"
proof -
  have sc: "stack (sscope s) = [0..<n]" "taken (sscope s) = None" "aw_outcome n s out" using assms(2,3) by (simp_all add: asel_ok_def)
  then have e: "sc = (sscope s)\<lparr>stack := [], taken := Some [0..<n]\<rparr>" "e = (\<lambda>i. sev s i \<or> cancelled (sscope s) \<and> i < n)"
      "a = (\<lambda>i. sab s i \<or> cancelled (sscope s) \<and> i < n \<and> \<not> sev s i)"
    using assms(4) by (auto simp: scope_exit_native_def exit_loop_eq)
  have "over (racer s i) (a i)" if "e i" for i
    using racers_ok_events[OF assms(1), of i] that by (auto simp: e(2,3) over_def)
  then have "racers_ok n (s\<lparr>sscope := sc, sev := e, sab := a, asel := AS_join out\<rparr>)" by (intro racers_ok_caller[OF assms(1)]) simp_all
  then show ?thesis using sc by (simp add: asel_ok_def aw_outcome_def e)
qed

lemma aw_joins_ok:
  assumes "racers_ok n s" "asel_ok n s" "asel s = AS_join out" "\<forall>i \<in> set (the (taken (sscope s))). sev s i"
  shows "asel_ok n (s\<lparr>asel := AS_out out\<rparr>)"
proof -
  have "over (racer s i) (sab s i)" if "i < n" for i using assms that racers_ok_events[OF assms(1), of i] by (simp add: asel_ok_def)
  then show ?thesis using assms(2,3) by (simp add: asel_ok_def aw_outcome_def)
qed

lemma scope_cancel_frame: "stack (snd (scope_cancel sc)) = stack sc" "taken (snd (scope_cancel sc)) = taken sc" "cancelled (snd (scope_cancel sc))"
  using scope_frames(4)[of sc "fst (scope_cancel sc)" "snd (scope_cancel sc)"] by simp_all

lemma aw_select_step_inv:
  assumes "aw_select_step n s t" "racers_ok n s \<and> asel_ok n s"
  shows "racers_ok n t \<and> asel_ok n t"
proof -
  have rk: "racers_ok n s" and so: "asel_ok n s" and sl: "slot_ok n (racer s) (slot s)" using assms(2) by (auto simp: racers_ok_alt)
  have lt: "racer s i \<noteq> R_absent \<Longrightarrow> i < n" for i using rk by (auto simp: racers_ok_def)
  note same = racers_ok_caller[OF rk, of t] racers_ok_events[OF rk]
  show ?thesis using assms(1)
  proof cases
    case (spawns k)
    have k: "racer s k = R_absent" using so spawns by (simp add: asel_ok_def)
    have "racers_ok n t" by (rule racers_ok_racer[OF rk, of k _ R_run])
      (use spawns rk k slot_ok_keep[OF sl, of R_run k] racers_ok_events[OF rk, of k] in simp_all)
    then show ?thesis using spawns so by (simp add: asel_ok_def track_push_def)
  next
    case fetch
    then show ?thesis using same aw_fetch_ok[OF rk so] by simp
  next
    case (cancels out)
    then show ?thesis using so same scope_cancel_frame[of "sscope s"] by (simp add: asel_ok_def aw_outcome_def)
  next
    case (aexit out)
    then show ?thesis using so same scope_frames(3)[of "sscope s"] by (simp add: asel_ok_def aw_outcome_def)
  next
    case (yielded out sc e a)
    then show ?thesis using aw_yielded_ok[OF rk so yielded(2,3)] by simp
  next
    case (joins out)
    then show ?thesis using same aw_joins_ok[OF rk so joins(2,3)] by simp
  next
    case (ends i out)
    have "racers_ok n t" by (rule racers_ok_racer[OF rk, of i _ "R_ended out"])
      (use ends rk slot_ok_keep[OF sl, of "R_ended out" i] racers_ok_events[OF rk, of i] in simp_all)
    moreover have "asel_ok n t" by (rule asel_ok_racer[OF so, of _ i "R_ended out"]) (use ends in auto)
    ultimately show ?thesis ..
  next
    case (stores i out)
    have "racers_ok n t" by (rule racers_ok_racer[OF rk, of i _ "R_stored out"])
      (use stores rk slot_ok_store[OF sl, of i out] lt[of i] racers_ok_events[OF rk, of i] in simp_all)
    moreover have "asel_ok n t" by (rule asel_ok_racer[OF so, of _ i "R_stored out"]) (use stores in auto)
    ultimately show ?thesis ..
  next
    case (flags i out)
    have "racers_ok n t" by (rule racers_ok_racer[OF rk, of i _ "R_flagged out"])
      (use flags rk slot_ok_keep[OF sl, of "R_flagged out" i] racers_ok_events[OF rk, of i] in simp_all)
    moreover have "asel_ok n t" by (rule asel_ok_racer[OF so, of _ i "R_flagged out"]) (use flags in auto)
    ultimately show ?thesis ..
  next
    case (leaves i out)
    have sn: "sentinel s" using rk lt[of i] leaves flagged_simps(1)[of out] by (metis racers_ok_def racer.simps)
    have "racers_ok n t" by (rule racers_ok_racer[OF rk, of i _ "R_gone out"])
      (use leaves rk sn slot_ok_keep[OF sl, of "R_gone out" i] racers_ok_events[OF rk, of i] in simp_all)
    moreover have "asel_ok n t" by (rule asel_ok_racer[OF so, of _ i "R_gone out"]) (use leaves in auto)
    ultimately show ?thesis ..
  qed (use so same in \<open>simp_all add: asel_ok_def\<close>)
qed

interpretation ase: step_system "\<lambda>s. s = aw_select_init" "aw_select_step n" "\<lambda>s. racers_ok n s \<and> asel_ok n s" for n
proof
  show "racers_ok n s \<and> asel_ok n s" if "s = aw_select_init" for s :: "'a aw_select_sys"
    using that by (simp add: aw_select_init_def racers_ok_def asel_ok_def scope_new_def)
qed (rule aw_select_step_inv)

text \<open>
  C16. \<open>select\<close> of the \<open>await\<close> flavour. What it returns or raises is what one of its children returned or raised, and then every child has ended or been aborted. When the
  slot was empty, because a child ended with an exception that is no \<open>Exception\<close>, it raises the \<open>TypeError\<close> of the unpacking only after every child has ended by itself: nothing is
  aborted, where the \<open>yield\<close> flavour leaves at once. Once it is past the sentinel it gets to the join without waiting for anybody.
\<close>

theorem aw_select_first:
  assumes "aw_select_reach n s"
  shows "(\<forall>r. asel s = AS_out r \<longrightarrow>
      storable r \<and> (\<exists>i<n. settled (racer s i) r) \<and> (\<forall>i<n. over (racer s i) (sab s i)) \<or>
      r = Inl unpack_error \<and> (\<exists>i<n. \<exists>e. settled (racer s i) (Inl e) \<and> \<not> is_Exception e) \<and> (\<forall>i<n. \<exists>out. racer s i = R_gone out)) \<and>
    (\<forall>r. asel s = AS_yield r \<longrightarrow> (\<exists>t. aw_select_step n s t \<and> asel t = AS_join r))"
proof -
  have ok: "asel_ok n s" using ase.reach_inv assms by (auto simp: aw_select_reach_def)
  have "storable r \<and> (\<exists>i<n. settled (racer s i) r) \<and> (\<forall>i<n. over (racer s i) (sab s i)) \<or>
      r = Inl unpack_error \<and> (\<exists>i<n. \<exists>e. settled (racer s i) (Inl e) \<and> \<not> is_Exception e) \<and> (\<forall>i<n. \<exists>out. racer s i = R_gone out)" if "asel s = AS_out r" for r
  proof (cases "cancelled (sscope s)")
    case True
    then show ?thesis using ok that by (simp add: asel_ok_def aw_outcome_def won_def)
  next
    case False
    then show ?thesis using ok that by (intro disjI2) (auto simp: asel_ok_def aw_outcome_def raised_base_def over_def)
  qed
  moreover have "\<exists>t. aw_select_step n s t \<and> asel t = AS_join r" if "asel s = AS_yield r" for r
  proof -
    have "taken (sscope s) = None" using ok that by (simp add: asel_ok_def)
    then obtain sc e a where "scope_exit_native (sscope s) (sev s, sab s) = Inr (sc, e, a)" by (auto simp: scope_exit_native_def exit_loop_eq)
    from aw_select_step.yielded[OF that this] show ?thesis by (intro exI conjI) (assumption, simp)
  qed
  ultimately show ?thesis by blast
qed

text \<open>A run with one child that ends with \<open>CancelledError\<close>.\<close>

definition lone :: "nat racer \<Rightarrow> bool \<Rightarrow> scope \<Rightarrow> bool \<Rightarrow> nat aw_sel \<Rightarrow> nat aw_select_sys" where
  "lone k sn sc e m = \<lparr>racer = (\<lambda>_. R_absent)(0 := k), slot = None, sentinel = sn, sscope = sc, sev = (\<lambda>_. False)(0 := e), sab = (\<lambda>_. False), asel = m\<rparr>"

lemma lone_reach: "aw_select_reach n s \<Longrightarrow> aw_select_step n s t \<Longrightarrow> t = u \<Longrightarrow> aw_select_reach n u"
  by (auto simp: aw_select_reach_def intro: reach.next_state)

lemma lone_child:
  assumes "aw_select_reach (Suc 0) (lone R_run False sc False AS_wait)"
  shows "aw_select_reach (Suc 0) (lone (R_gone (Inl CancelledError)) True sc True AS_wait)"
proof -
  let ?o = "Inl CancelledError :: exn + nat"
  have "aw_select_reach (Suc 0) (lone (R_ended ?o) False sc False AS_wait)"
    by (rule lone_reach[OF assms aw_select_step.ends[of _ 0 _ ?o]]) (simp_all add: lone_def)
  then have "aw_select_reach (Suc 0) (lone (R_stored ?o) False sc False AS_wait)"
    by (rule lone_reach[OF _ aw_select_step.stores[of _ 0 ?o]]) (simp_all add: lone_def store_outcome_def storable_def is_Exception_def)
  then have "aw_select_reach (Suc 0) (lone (R_flagged ?o) True sc False AS_wait)"
    by (rule lone_reach[OF _ aw_select_step.flags[of _ 0 ?o]]) (simp_all add: lone_def)
  then show ?thesis by (rule lone_reach[OF _ aw_select_step.leaves[of _ 0 ?o]]) (simp_all add: lone_def)
qed

theorem aw_select_first_witness:
  "\<exists>s :: nat aw_select_sys. aw_select_reach 1 s \<and> asel s = AS_out (Inl unpack_error) \<and> racer s 0 = R_gone (Inl CancelledError) \<and> \<not> cancelled (sscope s)"
proof -
  let ?sc = "\<lambda>st tk n. \<lparr>stack = st, taken = tk, consumed = n, cancelled = False\<rparr>" and ?g = "R_gone (Inl CancelledError)" and ?u = "Inl unpack_error :: exn + nat"
  have "aw_select_reach (Suc 0) (lone R_absent False (?sc [] None 1) False (AS_spawn 0))"
    unfolding aw_select_reach_def by (rule reach.start) (auto simp: aw_select_init_def lone_def scope_new_def)
  then have "aw_select_reach (Suc 0) (lone R_run False (?sc [0] None 1) False (AS_spawn 1))"
    by (rule lone_reach[OF _ aw_select_step.spawns[of _ 0]]) (simp_all add: lone_def track_push_def)
  then have "aw_select_reach (Suc 0) (lone R_run False (?sc [0] None 1) False AS_wait)"
    by (rule lone_reach[OF _ aw_select_step.spawned]) (simp_all add: lone_def)
  then have "aw_select_reach (Suc 0) (lone ?g True (?sc [0] None 1) True AS_wait)" by (rule lone_child)
  then have "aw_select_reach (Suc 0) (lone ?g True (?sc [0] None 1) True AS_fetch)"
    by (rule lone_reach[OF _ aw_select_step.woken]) (simp_all add: lone_def)
  then have "aw_select_reach (Suc 0) (lone ?g True (?sc [0] None 1) True (AS_leave ?u))"
    by (rule lone_reach[OF _ aw_select_step.fetch]) (simp_all add: lone_def)
  then have "aw_select_reach (Suc 0) (lone ?g True (?sc [0] None 2) True (AS_yield ?u))"
    by (rule lone_reach[OF _ aw_select_step.aexit]) (simp_all add: lone_def scope_leave_def scope_incr_def cas_def)
  then have "aw_select_reach (Suc 0) (lone ?g True (?sc [] (Some [0]) 2) True (AS_join ?u))"
    by (rule lone_reach[OF _ aw_select_step.yielded[of _ ?u "?sc [] (Some [0]) 2" "(\<lambda>_. False)(0 := True)" "\<lambda>_. False"]])
       (simp_all add: lone_def scope_exit_native_def exit_loop_def)
  then have r: "aw_select_reach (Suc 0) (lone ?g True (?sc [] (Some [0]) 2) True (AS_out ?u))"
    by (rule lone_reach[OF _ aw_select_step.joins[of _ ?u]]) (simp_all add: lone_def)
  show ?thesis using r aw_select_first[OF r] by (intro exI[of _ "lone ?g True (?sc [] (Some [0]) 2) True (AS_out ?u)"]) (simp add: lone_def)
qed

section \<open>block\_on and timeout\<close>

text \<open>
  As in the \<open>yield\<close> flavour, with \<open>checkpoint.abort()\<close> where that has \<open>checkpoint.unwind()\<close>: \<open>abort_pyasyncgen\<close> instead of \<open>abort_pygen\<close>. The field
  \<open>unwound\<close> records that call. What it makes of the child is not decided here: the steps of the child are left to it, also after the call, and a child that an abort abandons takes none of them (\<open>Handles\<close>).
\<close>

definition aw_shot_look :: "bool \<Rightarrow> 'v shot \<Rightarrow> 'v shot" where
  "aw_shot_look timed s =
     (if timed \<and> \<not> flag s then s\<lparr>unwound := True, shot := Timed_out\<rparr>
      else s\<lparr>shot := (case cell s of None \<Rightarrow> Shot_out (Inl unpack_error) | Some out \<Rightarrow> Shot_out out)\<rparr>)"

inductive aw_shot_step :: "bool \<Rightarrow> 'v shot \<Rightarrow> 'v shot \<Rightarrow> bool" for timed where
  woken: "shot s = Shot_wait \<Longrightarrow> flag s \<Longrightarrow> aw_shot_step timed s (s\<lparr>shot := Shot_look\<rparr>)"
| timer: "shot s = Shot_wait \<Longrightarrow> timed \<Longrightarrow> aw_shot_step timed s (s\<lparr>shot := Shot_look\<rparr>)"
| looks: "shot s = Shot_look \<Longrightarrow> aw_shot_step timed s (aw_shot_look timed s)"
| ends: "kid s = R_run \<Longrightarrow> aw_shot_step timed s (s\<lparr>kid := R_ended out\<rparr>)"
| stores: "kid s = R_ended out \<Longrightarrow> aw_shot_step timed s (s\<lparr>kid := R_stored out, cell := store_outcome out (cell s)\<rparr>)"
| flags: "kid s = R_stored out \<Longrightarrow> aw_shot_step timed s (s\<lparr>kid := R_flagged out, flag := True\<rparr>)"

definition aw_timeout_step :: "'v shot \<Rightarrow> 'v shot \<Rightarrow> bool" where
  "aw_timeout_step = aw_shot_step True"

definition aw_block_on_step :: "'v shot \<Rightarrow> 'v shot \<Rightarrow> bool" where
  "aw_block_on_step = aw_shot_step False"

lemma aw_shot_step_same: "aw_shot_step = shot_step"
  by (intro ext) (simp only: aw_shot_step.simps shot_step.simps aw_shot_look_def shot_look_def)

lemma aw_timeout_same: "aw_timeout_step = timeout_step" "aw_block_on_step = block_on_step"
  by (simp_all only: aw_timeout_step_def timeout_step_def aw_block_on_step_def block_on_step_def aw_shot_step_same)

end
