(* ===== verification/Sync_Await.thy ===== *)
theory Sync_Await
  imports Lock_Sem Spawn
begin

text \<open>
  The \<open>await\<close> flavour of locks, semaphores and barriers (\<open>src/tonio/_colored/_sync.py\<close>) and of \<open>spawn\<close> (\<open>src/tonio/_colored/_ctl.py\<close>). A lock is an asynchronous context
  manager itself, without a context object: \<open>__aenter__\<close> acquires, \<open>__aexit__\<close> releases. \<open>spawn\<close> returns an object whose \<open>__await__\<close> does the join. The native objects are shared with
  the \<open>yield\<close> flavour; the step relations are written out from the \<open>await\<close> coroutines and shown to be the same.
\<close>

section \<open>Locks and semaphores\<close>

text \<open>
  \<open>__aenter__\<close> and \<open>__aexit__\<close>, whose text is the same in both classes, over the native operations; \<open>attempt\<close> is the \<open>or_raise\<close> they inherit.
\<close>

inductive aw_permit_step ::
    "('p \<Rightarrow> 'p option) \<Rightarrow> ('p \<Rightarrow> 'p option) \<Rightarrow> (event_id \<Rightarrow> 'p \<Rightarrow> bool \<times> 'p) \<Rightarrow>
     ((event_id \<Rightarrow> bool) \<Rightarrow> 'p \<Rightarrow> (event_id \<Rightarrow> bool) \<times> 'p) \<Rightarrow> ('p \<Rightarrow> bool) \<Rightarrow> 'p psys \<Rightarrow> 'p psys \<Rightarrow> bool"
  for fast :: "'p \<Rightarrow> 'p option" and attempt :: "'p \<Rightarrow> 'p option" and slow :: "event_id \<Rightarrow> 'p \<Rightarrow> bool \<times> 'p"
    and rel :: "(event_id \<Rightarrow> bool) \<Rightarrow> 'p \<Rightarrow> (event_id \<Rightarrow> bool) \<times> 'p" and room :: "'p \<Rightarrow> bool" where
  try_ok: "pcs s i = Idle \<Longrightarrow> room (prov s) \<Longrightarrow> attempt (prov s) = Some p \<Longrightarrow>
     aw_permit_step fast attempt slow rel room s (s\<lparr>prov := p, pcs := (pcs s)(i := Holding)\<rparr>)"
| acquired: "pcs s i = Idle \<Longrightarrow> fast (prov s) = Some p \<Longrightarrow>
     aw_permit_step fast attempt slow rel room s (s\<lparr>prov := p, pcs := (pcs s)(i := Holding)\<rparr>)"
| contended: "pcs s i = Idle \<Longrightarrow> fast (prov s) = None \<Longrightarrow>
     aw_permit_step fast attempt slow rel room s (s\<lparr>pcs := (pcs s)(i := Slow)\<rparr>)"
| acquired_slow: "pcs s i = Slow \<Longrightarrow> room (prov s) \<Longrightarrow> slow (fresh s) (prov s) = (True, p) \<Longrightarrow>
     aw_permit_step fast attempt slow rel room s (s\<lparr>prov := p, pcs := (pcs s)(i := Holding)\<rparr>)"
| awaits: "pcs s i = Slow \<Longrightarrow> room (prov s) \<Longrightarrow> slow (fresh s) (prov s) = (False, p) \<Longrightarrow>
     aw_permit_step fast attempt slow rel room s
       (s\<lparr>prov := p, flags := (flags s)(fresh s := False), fresh := Suc (fresh s), pcs := (pcs s)(i := pc.Waiting (fresh s))\<rparr>)"
| awakes: "pcs s i = pc.Waiting e \<Longrightarrow> flags s e \<Longrightarrow>
     aw_permit_step fast attempt slow rel room s (s\<lparr>pcs := (pcs s)(i := Holding)\<rparr>)"
| cancelled: "pcs s i = pc.Waiting e \<Longrightarrow>
     aw_permit_step fast attempt slow rel room s (s\<lparr>pcs := (pcs s)(i := Cancelling e)\<rparr>)"
| withdrawn: "pcs s i = Cancelling e \<Longrightarrow> flag_set e (flags s) = (True, f) \<Longrightarrow>
     aw_permit_step fast attempt slow rel room s (s\<lparr>flags := f, pcs := (pcs s)(i := Idle)\<rparr>)"
| too_late: "pcs s i = Cancelling e \<Longrightarrow> flag_set e (flags s) = (False, f) \<Longrightarrow>
     aw_permit_step fast attempt slow rel room s (s\<lparr>flags := f, pcs := (pcs s)(i := Giving_back)\<rparr>)"
| aexit: "pcs s i = Holding \<or> pcs s i = Giving_back \<Longrightarrow> rel (flags s) (prov s) = (f, p) \<Longrightarrow>
     aw_permit_step fast attempt slow rel room s (s\<lparr>prov := p, flags := f, pcs := (pcs s)(i := Idle)\<rparr>)"

definition aw_lock_step :: "lock psys \<Rightarrow> lock psys \<Rightarrow> bool" where
  "aw_lock_step = aw_permit_step lock_acquire_fast (\<lambda>l. case lock_or_raise l of Inr (_, l') \<Rightarrow> Some l' | Inl _ \<Rightarrow> None)
     lock_acquire_slow lock_release (\<lambda>_. True)"

definition aw_sem_step :: "semaphore psys \<Rightarrow> semaphore psys \<Rightarrow> bool" where
  "aw_sem_step = aw_permit_step (\<lambda>_. None) (\<lambda>s. case sem_or_raise s of Inr (_, s') \<Rightarrow> Some s' | Inl _ \<Rightarrow> None)
     sem_acquire sem_release sem_room"

lemma aw_permit_step_same: "aw_permit_step = permit_step"
  by (intro ext) (simp only: aw_permit_step.simps permit_step.simps)

lemma aw_lock_step_same: "aw_lock_step = lock_step"
proof -
  have "lock_ctx_exit = lock_release" by (intro ext) (simp only: lock_ctx_exit_def)
  then show ?thesis by (simp only: aw_lock_step_def lock_step_def aw_permit_step_same)
qed

lemma aw_sem_step_same: "aw_sem_step = sem_step"
proof -
  have "sem_ctx_exit = sem_release" by (intro ext) (simp only: sem_ctx_exit_def)
  then show ?thesis by (simp only: aw_sem_step_def sem_step_def aw_permit_step_same)
qed

section \<open>Barriers\<close>

inductive aw_barrier_step :: "bsys \<Rightarrow> bsys \<Rightarrow> bool" where
  acks: "bpcs s i = Outside \<Longrightarrow> barrier.count (bar s) \<noteq> - 1 \<Longrightarrow> barrier_ack (bar s) = (c, b) \<Longrightarrow>
     aw_barrier_step s (s\<lparr>bar := b, bpcs := (bpcs s)(i := Parked c)\<rparr>)"
| awakes: "bpcs s i = Parked c \<Longrightarrow> bflag (bar s) \<Longrightarrow> aw_barrier_step s (s\<lparr>bpcs := (bpcs s)(i := Passed c)\<rparr>)"

lemma aw_barrier_step_same: "aw_barrier_step = barrier_step"
  by (intro ext) (simp only: aw_barrier_step.simps barrier_step.simps)

section \<open>spawn\<close>

text \<open>
  \<open>_SpawnJoinCollect._wait\<close> (\<open>keep\<close>) and \<open>_SpawnJoin._wait\<close> after the barrier; \<open>wrapper\<close> of \<open>__call__\<close> and of \<open>without_results\<close>; the steps of the caller and the children.
\<close>

definition aw_join_result :: "bool \<Rightarrow> 'v group \<Rightarrow> exn + 'v fetched option" where
  "aw_join_result keep s = (if serrs s \<noteq> [] then Inl (ExceptionGroup ''SpawnExceptionGroup'' (serrs s))
     else Inr (if keep then Some (result_fetch (sres s)) else None))"

definition aw_record_outcome :: "bool \<Rightarrow> nat \<Rightarrow> 'v outcome \<Rightarrow> 'v group \<Rightarrow> 'v group option" where
  "aw_record_outcome keep i out s = (case out of
     Inr v \<Rightarrow> if keep then map_option (\<lambda>r. s\<lparr>sres := r\<rparr>) (result_store v i (sres s)) else Some s
   | Inl e \<Rightarrow> Some (if is_Exception e then s\<lparr>serrs := serrs s @ [e]\<rparr> else s))"

inductive aw_spawn_step :: "bool \<Rightarrow> nat \<Rightarrow> 'v group \<Rightarrow> 'v group \<Rightarrow> bool" for keep n where
  spawn_one: "smain s = Spawning k \<Longrightarrow> k < n \<Longrightarrow>
     aw_spawn_step keep n s (s\<lparr>kids := (kids s)(k := Run), smain := Spawning (Suc k)\<rparr>)"
| spawned: "smain s = Spawning n \<Longrightarrow> aw_spawn_step keep n s (s\<lparr>smain := Started\<rparr>)"
| ends: "kids s i = Run \<Longrightarrow> aw_spawn_step keep n s (s\<lparr>kids := (kids s)(i := Ended out)\<rparr>)"
| records: "kids s i = Ended out \<Longrightarrow> aw_record_outcome keep i out s = Some t \<Longrightarrow>
     aw_spawn_step keep n s (t\<lparr>kids := (kids s)(i := Recorded out)\<rparr>)"
| acks: "kids s i = Recorded out \<Longrightarrow> barrier_ack (sbar s) = (c, b) \<Longrightarrow>
     aw_spawn_step keep n s (s\<lparr>sbar := b, kids := (kids s)(i := Acked out)\<rparr>)"
| awaits: "smain s = Started \<Longrightarrow> barrier_ack (sbar s) = (c, b) \<Longrightarrow> aw_spawn_step keep n s (s\<lparr>sbar := b, smain := spc.Waiting\<rparr>)"
| joins: "smain s = spc.Waiting \<Longrightarrow> bflag (sbar s) \<Longrightarrow> aw_spawn_step keep n s (s\<lparr>smain := Joined (aw_join_result keep s)\<rparr>)"

text \<open>\<open>map\<close> and \<open>map_blocking\<close>.\<close>

definition aw_map_join :: "nat \<Rightarrow> exn + 'v fetched option \<Rightarrow> exn + 'v option list option" where
  "aw_map_join n r = (case r of Inl e \<Rightarrow> Inl e
     | Inr f \<Rightarrow> Inr (Option.bind f (\<lambda>v. case v of One x \<Rightarrow> if n = 1 then Some [x] else None | Many xs \<Rightarrow> if n = 1 then None else Some xs)))"

lemma aw_spawn_step_same: "aw_spawn_step keep n = spawn_step keep n"
  by (intro ext) (simp only: aw_spawn_step.simps spawn_step.simps aw_record_outcome_def record_outcome_def aw_join_result_def join_result_def)

lemma map_value_fun: "map_value n = (\<lambda>v. case v of One x \<Rightarrow> if n = 1 then Some [x] else None | Many xs \<Rightarrow> if n = 1 then None else Some xs)"
  by (rule ext) (simp only: map_value_def)

lemma aw_map_join_same: "aw_map_join = map_join"
  by (intro ext) (simp only: aw_map_join_def map_join_def map_value_fun)

lemmas sync_await_same = aw_lock_step_same aw_sem_step_same aw_barrier_step_same aw_spawn_step_same aw_map_join_same

end
