(* ===== verification/Completed.thy ===== *)
theory Completed
  imports Prelude Py_Errors
begin

text \<open>
  \<open>as_completed\<close> of \<open>src/tonio/_ctl.py\<close> and \<open>src/tonio/_colored/_ctl.py\<close>: the coroutines run in parallel, each in a wrapper that takes the next free place when its coroutine has
  returned, stores the value there and sets the event of the place; the generator hands out one loader per place, which waits for the event and fetches the value. The
  \<open>yield\<close> flavour hands the loaders to its caller, who may have several of them waiting; the \<open>await\<close> flavour is an asynchronous generator that runs one loader after the other.
\<close>

section \<open>The system\<close>

text \<open>
  A wrapper: in its coroutine; back with a value; with a place taken off \<open>glues\<close>; with the value stored; done, the event set; or ended by an exception of the coroutine, which it does not
  catch. A loader: not made; waiting; back with what \<open>fetch\<close> gave, where \<^const>\<open>None\<close> is the content of an untouched \<open>Result\<close>.
\<close>

datatype 'v cwrapper = W_run | W_back 'v | W_placed nat 'v | W_stored nat 'v | W_done nat 'v | W_raised exn

datatype 'v loader = L_unmade | L_wait | L_loaded "'v option"

text \<open>\<open>order\<close> records the wrappers in the order in which they took their places; the code does not keep it.\<close>

record 'v completed =
  glues :: "nat list"
  cells :: "nat \<Rightarrow> 'v option"
  evt :: "nat \<Rightarrow> bool"
  wrappers :: "nat \<Rightarrow> 'v cwrapper"
  made :: nat
  loaders :: "nat \<Rightarrow> 'v loader"
  order :: "nat list"

definition completed_init :: "nat \<Rightarrow> 'v completed" where
  "completed_init n = \<lparr>glues = rev [0..<n], cells = (\<lambda>_. None), evt = (\<lambda>_. False), wrappers = (\<lambda>_. W_run), made = 0, loaders = (\<lambda>_. L_unmade), order = []\<rparr>"

text \<open>\<open>glues.pop()\<close>: the last element, and the list without it; \<open>IndexError\<close> when it is empty.\<close>

definition pop_last :: "'a list \<Rightarrow> ('a \<times> 'a list) option" where
  "pop_last xs = (if xs = [] then None else Some (last xs, butlast xs))"

inductive completed_step :: "nat \<Rightarrow> 'v completed \<Rightarrow> 'v completed \<Rightarrow> bool" for n where
  returns: "i < n \<Longrightarrow> wrappers s i = W_run \<Longrightarrow> completed_step n s (s\<lparr>wrappers := (wrappers s)(i := W_back v)\<rparr>)"
| raises: "i < n \<Longrightarrow> wrappers s i = W_run \<Longrightarrow> completed_step n s (s\<lparr>wrappers := (wrappers s)(i := W_raised e)\<rparr>)"
| pops: "i < n \<Longrightarrow> wrappers s i = W_back v \<Longrightarrow> pop_last (glues s) = Some (k, g) \<Longrightarrow>
     completed_step n s (s\<lparr>glues := g, wrappers := (wrappers s)(i := W_placed k v), order := order s @ [i]\<rparr>)"
| no_place: "i < n \<Longrightarrow> wrappers s i = W_back v \<Longrightarrow> pop_last (glues s) = None \<Longrightarrow>
     completed_step n s (s\<lparr>wrappers := (wrappers s)(i := W_raised (IndexError ''pop from empty list''))\<rparr>)"
| stores: "i < n \<Longrightarrow> wrappers s i = W_placed k v \<Longrightarrow> completed_step n s (s\<lparr>cells := (cells s)(k := Some v), wrappers := (wrappers s)(i := W_stored k v)\<rparr>)"
| sets: "i < n \<Longrightarrow> wrappers s i = W_stored k v \<Longrightarrow> completed_step n s (s\<lparr>evt := (evt s)(k := True), wrappers := (wrappers s)(i := W_done k v)\<rparr>)"
| makes: "made s < n \<Longrightarrow> completed_step n s (s\<lparr>loaders := (loaders s)(made s := L_wait), made := Suc (made s)\<rparr>)"
| loads: "loaders s k = L_wait \<Longrightarrow> evt s k \<Longrightarrow> completed_step n s (s\<lparr>loaders := (loaders s)(k := L_loaded (cells s k))\<rparr>)"

definition completed_reach :: "nat \<Rightarrow> 'v completed \<Rightarrow> bool" where
  "completed_reach n = reach (\<lambda>s. s = completed_init n) (completed_step n)"

text \<open>The \<open>await\<close> flavour: a loader is made only when the one before it is back.\<close>

inductive aw_completed_step :: "nat \<Rightarrow> 'v completed \<Rightarrow> 'v completed \<Rightarrow> bool" for n where
  returns: "i < n \<Longrightarrow> wrappers s i = W_run \<Longrightarrow> aw_completed_step n s (s\<lparr>wrappers := (wrappers s)(i := W_back v)\<rparr>)"
| raises: "i < n \<Longrightarrow> wrappers s i = W_run \<Longrightarrow> aw_completed_step n s (s\<lparr>wrappers := (wrappers s)(i := W_raised e)\<rparr>)"
| pops: "i < n \<Longrightarrow> wrappers s i = W_back v \<Longrightarrow> pop_last (glues s) = Some (k, g) \<Longrightarrow>
     aw_completed_step n s (s\<lparr>glues := g, wrappers := (wrappers s)(i := W_placed k v), order := order s @ [i]\<rparr>)"
| no_place: "i < n \<Longrightarrow> wrappers s i = W_back v \<Longrightarrow> pop_last (glues s) = None \<Longrightarrow>
     aw_completed_step n s (s\<lparr>wrappers := (wrappers s)(i := W_raised (IndexError ''pop from empty list''))\<rparr>)"
| stores: "i < n \<Longrightarrow> wrappers s i = W_placed k v \<Longrightarrow> aw_completed_step n s (s\<lparr>cells := (cells s)(k := Some v), wrappers := (wrappers s)(i := W_stored k v)\<rparr>)"
| sets: "i < n \<Longrightarrow> wrappers s i = W_stored k v \<Longrightarrow> aw_completed_step n s (s\<lparr>evt := (evt s)(k := True), wrappers := (wrappers s)(i := W_done k v)\<rparr>)"
| makes: "made s < n \<Longrightarrow> made s = 0 \<or> (\<exists>v. loaders s (made s - 1) = L_loaded v) \<Longrightarrow>
     aw_completed_step n s (s\<lparr>loaders := (loaders s)(made s := L_wait), made := Suc (made s)\<rparr>)"
| loads: "loaders s k = L_wait \<Longrightarrow> evt s k \<Longrightarrow> aw_completed_step n s (s\<lparr>loaders := (loaders s)(k := L_loaded (cells s k))\<rparr>)"

definition aw_completed_reach :: "nat \<Rightarrow> 'v completed \<Rightarrow> bool" where
  "aw_completed_reach n = reach (\<lambda>s. s = completed_init n) (aw_completed_step n)"

lemma aw_completed_refines: "aw_completed_reach n s \<Longrightarrow> completed_reach n s"
  unfolding aw_completed_reach_def completed_reach_def
  by (erule reach_mono) (erule aw_completed_step.cases; auto intro: completed_step.intros)

section \<open>The invariant\<close>

text \<open>The place a wrapper has taken.\<close>

definition place :: "'v cwrapper \<Rightarrow> nat option" where
  "place w = (case w of W_placed k _ \<Rightarrow> Some k | W_stored k _ \<Rightarrow> Some k | W_done k _ \<Rightarrow> Some k | _ \<Rightarrow> None)"

definition places_ok :: "nat \<Rightarrow> 'v completed \<Rightarrow> bool" where
  "places_ok n s \<longleftrightarrow> glues s = rev [length (order s)..<n] \<and> distinct (order s) \<and> set (order s) \<subseteq> {..<n}
     \<and> (\<forall>i. i \<in> set (order s) \<longleftrightarrow> place (wrappers s i) \<noteq> None)
     \<and> (\<forall>i k. place (wrappers s i) = Some k \<longrightarrow> k < length (order s) \<and> order s ! k = i)"

definition cells_ok :: "'v completed \<Rightarrow> bool" where
  "cells_ok s \<longleftrightarrow> (\<forall>i k v. wrappers s i = W_stored k v \<or> wrappers s i = W_done k v \<longrightarrow> cells s k = Some v)
     \<and> (\<forall>k. evt s k \<longleftrightarrow> (\<exists>i v. wrappers s i = W_done k v))"

definition loaders_ok :: "nat \<Rightarrow> 'v completed \<Rightarrow> bool" where
  "loaders_ok n s \<longleftrightarrow> made s \<le> n \<and> (\<forall>k. loaders s k = L_unmade \<longleftrightarrow> made s \<le> k)
     \<and> (\<forall>k x. loaders s k = L_loaded x \<longrightarrow> (\<exists>i v. x = Some v \<and> wrappers s i = W_done k v))"

lemma pop_last_rev_upt: "pop_last (rev [m..<n]) = (if m < n then Some (m, rev [Suc m..<n]) else None)"
  by (auto simp: pop_last_def upt_rec last_rev butlast_append)

lemma place_simps [simp]:
  "place W_run = None" "place (W_back v) = None" "place (W_raised e) = None"
  "place (W_placed k v) = Some k" "place (W_stored k v) = Some k" "place (W_done k v) = Some k"
  by (simp_all add: place_def)

lemma places_ok_upd:
  assumes "places_ok n s" "place w = place (wrappers s i)"
  shows "places_ok n (s\<lparr>wrappers := (wrappers s)(i := w)\<rparr>)"
  using assms by (auto simp: places_ok_def)

lemma places_ok_other:
  assumes "places_ok n s" "glues t = glues s" "wrappers t = wrappers s" "order t = order s"
  shows "places_ok n t"
  using assms by (simp add: places_ok_def)

text \<open>A wrapper that has a value and no place finds one: the wrappers that have a place are fewer than \<open>n\<close>.\<close>

lemma places_left:
  assumes "places_ok n s" "i < n" "place (wrappers s i) = None"
  shows "length (order s) < n"
proof -
  have "set (order s) \<subseteq> {..<n} - {i}" using assms by (auto simp: places_ok_def)
  then have "card (set (order s)) \<le> card ({..<n} - {i})" by (intro card_mono) simp_all
  also have "\<dots> < n" using assms(2) by (cases n) auto
  finally show ?thesis using assms(1) by (simp add: places_ok_def distinct_card)
qed

lemma places_ok_pop:
  assumes "places_ok n s" "i < n" "wrappers s i = W_back v" "pop_last (glues s) = Some (k, g)"
  shows "places_ok n (s\<lparr>glues := g, wrappers := (wrappers s)(i := W_placed k v), order := order s @ [i]\<rparr>)" (is "places_ok n ?t")
    and "k = length (order s)"
proof -
  have "length (order s) < n" using places_left[OF assms(1,2)] assms(3) by simp
  then have kg: "k = length (order s)" "g = rev [Suc k..<n]" using assms(1,4) by (auto simp: places_ok_def pop_last_rev_upt)
  have i: "i \<notin> set (order s)" using assms(1,3) by (simp add: places_ok_def)
  have "place (wrappers ?t j) = Some m \<Longrightarrow> m < length (order ?t) \<and> order ?t ! m = j" for j m
    using assms(1) kg(1) by (cases "j = i") (auto simp: places_ok_def nth_append less_Suc_eq)
  then show "places_ok n ?t" using assms(1,2) kg i by (auto simp: places_ok_def)
  show "k = length (order s)" by (rule kg)
qed

lemma place_unique: "places_ok n s \<Longrightarrow> place (wrappers s i) = Some k \<Longrightarrow> place (wrappers s j) = Some k \<Longrightarrow> i = j"
  unfolding places_ok_def by metis

text \<open>Steps that neither store nor set keep the cells; no step undoes a wrapper that is done.\<close>

lemma done_upd:
  assumes "\<And>k v. f i \<noteq> W_done k v"
  shows "(\<exists>j v. (f(i := w)) j = W_done k v) \<longleftrightarrow> (\<exists>j v. f j = W_done k v) \<or> (\<exists>v. w = W_done k v)"
  using assms by (metis fun_upd_apply)

lemma cells_ok_upd:
  assumes "cells_ok s" "\<And>k v. w \<noteq> W_stored k v \<and> w \<noteq> W_done k v" "\<And>k v. wrappers s i \<noteq> W_stored k v \<and> wrappers s i \<noteq> W_done k v"
    "cells t = cells s" "evt t = evt s" "wrappers t = (wrappers s)(i := w)"
  shows "cells_ok t"
  using assms(1,2,3) done_upd[of "wrappers s" i w] unfolding cells_ok_def assms(4-6) by auto

lemma loaders_ok_upd:
  assumes "loaders_ok n s" "\<And>k v. wrappers s i \<noteq> W_done k v" "loaders t = loaders s" "made t = made s" "wrappers t = (wrappers s)(i := w)"
  shows "loaders_ok n t"
  using assms by (auto simp: loaders_ok_def) (metis fun_upd_other)

lemma cells_ok_store:
  assumes "cells_ok s" "places_ok n s" "wrappers s i = W_placed k v"
  shows "cells_ok (s\<lparr>cells := (cells s)(k := Some v), wrappers := (wrappers s)(i := W_stored k v)\<rparr>)"
proof -
  have "j = i" if "place (wrappers s j) = Some k" for j using place_unique[OF assms(2) that, of i] assms(3) by simp
  then have "wrappers s j \<noteq> W_stored k u \<and> wrappers s j \<noteq> W_done k u" if "j \<noteq> i" for j u using that by fastforce
  then show ?thesis using assms(1,3) done_upd[of "wrappers s" i "W_stored k v"] unfolding cells_ok_def by (auto split: if_splits)
qed

lemma cells_ok_set:
  assumes "cells_ok s" "wrappers s i = W_stored k v"
  shows "cells_ok (s\<lparr>evt := (evt s)(k := True), wrappers := (wrappers s)(i := W_done k v)\<rparr>)"
  using assms done_upd[of "wrappers s" i "W_done k v"] unfolding cells_ok_def by auto

definition completed_inv :: "nat \<Rightarrow> 'v completed \<Rightarrow> bool" where
  "completed_inv n s \<longleftrightarrow> places_ok n s \<and> cells_ok s \<and> loaders_ok n s"

lemma completed_inv_step:
  assumes "completed_step n s t" "completed_inv n s"
  shows "completed_inv n t"
proof -
  have p: "places_ok n s" and c: "cells_ok s" and l: "loaders_ok n s" using assms(2) by (simp_all add: completed_inv_def)
  show ?thesis unfolding completed_inv_def using assms(1)
  proof cases
    case (returns i v)
    then show "places_ok n t \<and> cells_ok t \<and> loaders_ok n t"
      using places_ok_upd[OF p, of "W_back v" i] cells_ok_upd[OF c, of "W_back v" i t] loaders_ok_upd[OF l, of i t] by simp
  next
    case (raises i e)
    then show "places_ok n t \<and> cells_ok t \<and> loaders_ok n t"
      using places_ok_upd[OF p, of "W_raised e" i] cells_ok_upd[OF c, of "W_raised e" i t] loaders_ok_upd[OF l, of i t] by simp
  next
    case (pops i v k g)
    then show "places_ok n t \<and> cells_ok t \<and> loaders_ok n t"
      using places_ok_pop(1)[OF p pops(2-4)] cells_ok_upd[OF c, of "W_placed k v" i t] loaders_ok_upd[OF l, of i t] by simp
  next
    case (no_place i v)
    have "length (order s) < n" using places_left[OF p no_place(2)] no_place(3) by simp
    then have False using no_place(4) p by (simp add: places_ok_def pop_last_rev_upt)
    then show "places_ok n t \<and> cells_ok t \<and> loaders_ok n t" ..
  next
    case (stores i k v)
    have "places_ok n t" using stores places_ok_other[OF places_ok_upd[OF p, of "W_stored k v" i], of t] by simp
    then show "places_ok n t \<and> cells_ok t \<and> loaders_ok n t" using stores cells_ok_store[OF c p stores(3)] loaders_ok_upd[OF l, of i t] by simp
  next
    case (sets i k v)
    have "places_ok n t" using sets places_ok_other[OF places_ok_upd[OF p, of "W_done k v" i], of t] by simp
    then show "places_ok n t \<and> cells_ok t \<and> loaders_ok n t" using sets cells_ok_set[OF c sets(3)] loaders_ok_upd[OF l, of i t] by simp
  next
    case makes
    then show "places_ok n t \<and> cells_ok t \<and> loaders_ok n t" using places_ok_other[OF p, of t] c l by (auto simp: cells_ok_def loaders_ok_def)
  next
    case (loads k)
    then obtain i v where "wrappers s i = W_done k v" "cells s k = Some v" using c by (auto simp: cells_ok_def)
    then show "places_ok n t \<and> cells_ok t \<and> loaders_ok n t" using loads places_ok_other[OF p, of t] c l
      by (auto simp: cells_ok_def loaders_ok_def) (metis loader.distinct(1))
  qed
qed

interpretation ac: step_system "\<lambda>s. s = completed_init n" "completed_step n" "completed_inv n" for n
proof
  show "completed_inv n s" if "s = completed_init n" for s :: "'a completed"
    using that by (simp add: completed_init_def completed_inv_def places_ok_def cells_ok_def loaders_ok_def)
qed (rule completed_inv_step)

section \<open>Properties\<close>

lemma done_at_order:
  assumes "places_ok n s" "wrappers s i = W_done k v"
  shows "k < length (order s)" "order s ! k = i"
proof -
  have "place (wrappers s i) = Some k" using assms(2) by simp
  then show "k < length (order s)" "order s ! k = i" using assms(1) by (auto simp: places_ok_def)
qed

lemma all_done_events:
  assumes "places_ok n s" "cells_ok s" "\<forall>i<n. \<exists>k v. wrappers s i = W_done k v" "k < n"
  shows "evt s k"
proof -
  have "i \<in> set (order s)" if "i < n" for i using assms(1,3) that by (fastforce simp: places_ok_def)
  then have "set (order s) = {..<n}" using assms(1) by (auto simp: places_ok_def)
  then have len: "length (order s) = n" using assms(1) distinct_card[of "order s"] by (simp add: places_ok_def)
  then have "order s ! k < n" using assms(1,4) nth_mem[of k "order s"] by (auto simp: places_ok_def)
  then obtain m v where m: "wrappers s (order s ! k) = W_done m v" using assms(3) by blast
  have "m = k" using done_at_order[OF assms(1) m] assms(1,4) len by (simp add: places_ok_def nth_eq_iff_index_eq)
  then show ?thesis using m assms(2) by (auto simp: cells_ok_def)
qed

text \<open>
  C31. \<open>as_completed\<close> gives the values in the order of completion. The loader of place \<open>k\<close> is back only when some wrapper is done there, and then with the value of exactly that
  coroutine, the one that was \<open>k\<close>-th to take a place; no coroutine has two places, so that no value is lost or given twice; a wrapper with a value always finds a place; and
  when all coroutines have returned, every loader that waits gets its value.
\<close>

theorem as_completed_order:
  assumes "completed_reach n s"
  shows "(\<forall>k x. loaders s k = L_loaded x \<longrightarrow> k < length (order s) \<and> (\<exists>v. x = Some v \<and> wrappers s (order s ! k) = W_done k v)) \<and>
    distinct (order s) \<and> set (order s) \<subseteq> {..<n} \<and>
    (\<forall>i<n. \<forall>v. wrappers s i = W_back v \<longrightarrow> pop_last (glues s) \<noteq> None) \<and>
    ((\<forall>i<n. \<exists>k v. wrappers s i = W_done k v) \<longrightarrow>
      (\<forall>k. loaders s k = L_wait \<longrightarrow> completed_step n s (s\<lparr>loaders := (loaders s)(k := L_loaded (cells s k))\<rparr>)))"
proof -
  have "completed_inv n s" using ac.reach_inv assms by (auto simp: completed_reach_def)
  then have p: "places_ok n s" and c: "cells_ok s" and l: "loaders_ok n s" by (simp_all add: completed_inv_def)
  have "k < length (order s) \<and> (\<exists>v. x = Some v \<and> wrappers s (order s ! k) = W_done k v)" if lo: "loaders s k = L_loaded x" for k x
  proof -
    obtain i v where "x = Some v" "wrappers s i = W_done k v" using l lo unfolding loaders_ok_def by blast
    then show ?thesis using done_at_order[OF p] by auto
  qed
  moreover have "pop_last (glues s) \<noteq> None" if "i < n" "wrappers s i = W_back v" for i v
    using places_left[OF p that(1)] that(2) p by (simp add: places_ok_def pop_last_rev_upt)
  moreover have "completed_step n s (s\<lparr>loaders := (loaders s)(k := L_loaded (cells s k))\<rparr>)"
    if "\<forall>i<n. \<exists>k v. wrappers s i = W_done k v" "loaders s k = L_wait" for k
  proof (rule completed_step.loads[OF that(2)])
    have "k < made s" using l that(2) by (metis loaders_ok_def loader.distinct(1) not_less)
    then show "evt s k" using all_done_events[OF p c that(1)] l by (simp add: loaders_ok_def)
  qed
  ultimately show ?thesis using p by (auto simp: places_ok_def)
qed

text \<open>
  A coroutine that raises leaves the last loader waiting for ever: its wrapper takes no place and sets no event, the exception goes nowhere but to the log, and from then on,
  whatever happens, the loader of the last place does not come back.
\<close>

theorem as_completed_hangs:
  assumes "completed_reach n s" "i < n" "wrappers s i = W_raised e" "(completed_step n)\<^sup>*\<^sup>* s t"
  shows "wrappers t i = W_raised e \<and> \<not> evt t (n - 1) \<and> (\<forall>x. loaders t (n - 1) \<noteq> L_loaded x)"
proof -
  have "completed_inv n t \<and> wrappers t i = W_raised e" using assms(4)
  proof (induction rule: rtranclp_induct)
    case base
    show ?case using ac.reach_inv assms(1,3) by (auto simp: completed_reach_def)
  next
    case (step t u)
    then have "wrappers u i = W_raised e" by (auto elim!: completed_step.cases)
    then show ?case using completed_inv_step step by blast
  qed
  then have p: "places_ok n t" and c: "cells_ok t" and l: "loaders_ok n t" and w: "wrappers t i = W_raised e" by (simp_all add: completed_inv_def)
  have "length (order t) < n" using places_left[OF p assms(2)] w by simp
  then have "wrappers t j \<noteq> W_done (n - 1) v" for j v using done_at_order(1)[OF p, of j "n - 1" v] by fastforce
  then show ?thesis using c l w unfolding cells_ok_def loaders_ok_def by metis
qed

text \<open>Two coroutines, of which the second is done first; and one that raises.\<close>

definition pair :: "nat cwrapper \<Rightarrow> nat cwrapper \<Rightarrow> nat list \<Rightarrow> nat option \<Rightarrow> bool \<Rightarrow> nat \<Rightarrow> nat loader \<Rightarrow> nat list \<Rightarrow> nat completed" where
  "pair a b g x e m l o' = \<lparr>glues = g, cells = (\<lambda>_. None)(0 := x), evt = (\<lambda>_. False)(0 := e), wrappers = (\<lambda>_. W_run)(0 := a, 1 := b), made = m,
     loaders = (\<lambda>_. L_unmade)(0 := l), order = o'\<rparr>"

lemma pair_reach: "completed_reach n s \<Longrightarrow> completed_step n s t \<Longrightarrow> t = u \<Longrightarrow> completed_reach n u"
  by (auto simp: completed_reach_def intro: reach.next_state)

lemma pair_start: "completed_reach 2 (pair W_run W_run [1, 0] None False 0 L_unmade [])"
  unfolding completed_reach_def by (rule reach.start) (simp add: completed_init_def pair_def numeral_2_eq_2 fun_upd_idem)

theorem as_completed_order_witness:
  "\<exists>s :: nat completed. completed_reach 2 s \<and> loaders s 0 = L_loaded (Some 7) \<and> order s = [1] \<and> wrappers s 1 = W_done 0 7 \<and> wrappers s 0 = W_run"
proof -
  have "completed_reach 2 (pair W_run (W_back 7) [1, 0] None False 0 L_unmade [])"
    by (rule pair_reach[OF pair_start completed_step.returns[of 1 _ _ 7]]) (simp_all add: pair_def)
  then have "completed_reach 2 (pair W_run (W_placed 0 7) [1] None False 0 L_unmade [1])"
    by (rule pair_reach[OF _ completed_step.pops[of 1 _ _ 7 0 "[1]"]]) (simp_all add: pair_def pop_last_def)
  then have "completed_reach 2 (pair W_run (W_stored 0 7) [1] (Some 7) False 0 L_unmade [1])"
    by (rule pair_reach[OF _ completed_step.stores[of 1 _ _ 0 7]]) (simp_all add: pair_def)
  then have "completed_reach 2 (pair W_run (W_done 0 7) [1] (Some 7) True 0 L_unmade [1])"
    by (rule pair_reach[OF _ completed_step.sets[of 1 _ _ 0 7]]) (simp_all add: pair_def)
  then have "completed_reach 2 (pair W_run (W_done 0 7) [1] (Some 7) True 1 L_wait [1])"
    by (rule pair_reach[OF _ completed_step.makes]) (simp_all add: pair_def)
  then have r: "completed_reach 2 (pair W_run (W_done 0 7) [1] (Some 7) True 1 (L_loaded (Some 7)) [1])"
    by (rule pair_reach[OF _ completed_step.loads[of _ 0]]) (simp_all add: pair_def)
  show ?thesis using r as_completed_order[OF r] by (intro exI[of _ "pair W_run (W_done 0 7) [1] (Some 7) True 1 (L_loaded (Some 7)) [1]"]) (simp add: pair_def)
qed

theorem as_completed_hangs_witness:
  "\<exists>s :: nat completed. completed_reach 2 s \<and> wrappers s 0 = W_raised (UserError 3) \<and> \<not> evt s 1"
proof -
  have r: "completed_reach 2 (pair (W_raised (UserError 3)) W_run [1, 0] None False 0 L_unmade [])"
    by (rule pair_reach[OF pair_start completed_step.raises[of 0 _ _ "UserError 3"]]) (simp_all add: pair_def fun_upd_twist)
  show ?thesis using r as_completed_hangs[OF r, of 0 "UserError 3" "pair (W_raised (UserError 3)) W_run [1, 0] None False 0 L_unmade []"]
    by (intro exI[of _ "pair (W_raised (UserError 3)) W_run [1, 0] None False 0 L_unmade []"]) (simp add: pair_def)
qed

end
