(* ===== verification/Events.thy ===== *)
theory Events
  imports Prelude
begin

text \<open>
  Events and waiters: \<open>Event\<close>, \<open>Waiter\<close>, the suspensions and \<open>Sentinel\<close> of \<open>src/src/events.rs\<close>. A coroutine that waits for one or several events is suspended as an object that every event holds
  a waker for; setting an event takes its wakers out of the queue, under the lock of the queue, and wakes the suspension once for each. A suspension over one event has the flag \<open>consumed\<close>,
  one over several counts the wakes that are missing in the counter of a \<open>Sentinel\<close>. What wakes or aborts a suspension for the last time puts a handle in the queue of the runtime, which resumes the coroutine
  or throws into it.

  The system has one suspension, on any list of events, and any number of tasks that set and clear the events on any number of threads; a timer for a wait with a timeout; and one that
  aborts the checkpoint the coroutine runs under (\<open>scope\<close>, \<open>select\<close> and \<open>timeout\<close> do). A step is one access to a shared cell or one section under a lock; the wakes that \<open>notify\<close> does under the
  lock of an event are steps of their own, as they interleave with those of other events. Values are left out: a waker always passes \<open>None\<close>. The theorems are that no
  wake-up is lost, that a suspension is scheduled at most once, and where both end.
\<close>

section \<open>The suspension\<close>

datatype handle = Resume | Throw

text \<open>
  \<open>owed\<close> counts the calls of \<open>decrement\<close> that found 0 and have the subtraction still to undo; \<open>handles\<close> are the handles made for this suspension.
\<close>

record susp =
  consumed :: bool
  sentinel :: "usize option"
  owed :: nat
  handles :: "handle list"

text \<open>\<open>build_sentinel\<close>: no sentinel for one event.\<close>

definition susp_new :: "nat \<Rightarrow> susp" where
  "susp_new n = \<lparr>consumed = False, sentinel = (if n \<le> 1 then None else Some (of_nat n)), owed = 0, handles = []\<rparr>"

definition sentinel_decrement :: "usize \<Rightarrow> susp \<Rightarrow> susp" where
  "sentinel_decrement prev sp = (let sp = sp\<lparr>sentinel := Some (prev - 1)\<rparr> in
     if prev = 0 then sp\<lparr>owed := Suc (owed sp)\<rparr> else if prev = 1 then sp\<lparr>handles := handles sp @ [Resume]\<rparr> else sp)"

definition sentinel_repay :: "susp \<Rightarrow> susp" where
  "sentinel_repay sp = sp\<lparr>sentinel := map_option (\<lambda>c. c + 1) (sentinel sp), owed := owed sp - 1\<rparr>"

definition sentinel_increment :: "susp \<Rightarrow> susp" where
  "sentinel_increment sp = sp\<lparr>sentinel := map_option (\<lambda>c. c + 1) (sentinel sp)\<rparr>"

definition sentinel_consume :: "usize \<Rightarrow> susp \<Rightarrow> bool \<times> susp" where
  "sentinel_consume prev sp = (prev \<noteq> 0, sp\<lparr>sentinel := Some 0\<rparr>)"

definition consume_once :: "handle \<Rightarrow> susp \<Rightarrow> susp" where
  "consume_once h sp = (case cas False True (consumed sp) of
      Some b \<Rightarrow> sp\<lparr>consumed := b, handles := handles sp @ [h]\<rparr> | None \<Rightarrow> sp)"

text \<open>
  \<open>resume\<close>: \<open>skip\<close> is the check of \<open>aborted\<close> at the beginning, which only the suspension of the \<open>await\<close> flavour makes. \<open>error\<close> and \<open>suspend\<close> are the same in both.
\<close>

definition susp_resume :: "bool \<Rightarrow> susp \<Rightarrow> susp" where
  "susp_resume skip sp = (if skip then sp else case sentinel sp of Some c \<Rightarrow> sentinel_decrement c sp | None \<Rightarrow> consume_once Resume sp)"

definition susp_error :: "susp \<Rightarrow> susp" where
  "susp_error sp = (case sentinel sp of
      Some c \<Rightarrow> (case sentinel_consume c sp of (ok, sp) \<Rightarrow> if ok then sp\<lparr>handles := handles sp @ [Throw]\<rparr> else sp)
    | None \<Rightarrow> consume_once Throw sp)"

definition susp_dead :: "bool \<Rightarrow> susp \<Rightarrow> bool" where
  "susp_dead skip sp \<longleftrightarrow> consumed sp \<or> skip"

section \<open>The system\<close>

text \<open>
  The one that aborts: not yet; past the exchange of \<open>aborted\<close>; past \<open>error\<close>, called on this suspension, or on an earlier one or none, because this one was not in the slot of the checkpoint
  yet. The timer: not there; in the heap; fired.
\<close>

datatype phase = P_live | P_flagged | P_struck | P_missed

datatype timer = T_none | T_armed | T_fired

record wsys =
  flag :: "nat \<Rightarrow> bool"
  watchers :: "nat \<Rightarrow> nat list"
  notifying :: "nat \<Rightarrow> nat"
  unnotifying :: "nat \<Rightarrow> nat"
  published :: bool
  registered :: nat
  waking :: "nat list"
  timer :: timer
  phase :: phase
  susp :: susp

definition wait_init :: "nat \<Rightarrow> wsys \<Rightarrow> bool" where
  "wait_init n s \<longleftrightarrow> watchers s = (\<lambda>_. []) \<and> notifying s = (\<lambda>_. 0) \<and> unnotifying s = (\<lambda>_. 0) \<and> \<not> published s \<and> registered s = 0 \<and> waking s = [] \<and> timer s = T_none
     \<and> phase s = P_live \<and> susp s = susp_new n"

definition skips :: "bool \<Rightarrow> phase \<Rightarrow> bool" where
  "skips colored ph \<longleftrightarrow> colored \<and> ph \<noteq> P_live"

text \<open>\<open>add_waker\<close>, a section under the lock of event \<open>e\<close>.\<close>

definition add_waker :: "nat \<Rightarrow> nat \<Rightarrow> wsys \<Rightarrow> wsys" where
  "add_waker e i s = (if flag s e then s\<lparr>waking := waking s @ [i]\<rparr> else s\<lparr>watchers := (watchers s)(e := watchers s e @ [i])\<rparr>)"

text \<open>
  The steps, for the flavour, the list of events, which are below \<open>m\<close>, whether there is a timeout, and whether somebody clears events.
\<close>

inductive wait_step :: "bool \<Rightarrow> bool \<Rightarrow> nat \<Rightarrow> nat list \<Rightarrow> bool \<Rightarrow> wsys \<Rightarrow> wsys \<Rightarrow> bool" for colored clears m es timed where
  publish: "\<not> published s \<Longrightarrow> wait_step colored clears m es timed s (s\<lparr>published := True\<rparr>)"
| register: "published s \<Longrightarrow> registered s < length es \<Longrightarrow>
     wait_step colored clears m es timed s ((add_waker (es ! registered s) (registered s) s)\<lparr>registered := Suc (registered s)\<rparr>)"
| arms: "registered s = length es \<Longrightarrow> published s \<Longrightarrow> timed \<Longrightarrow> timer s = T_none \<Longrightarrow> wait_step colored clears m es timed s (s\<lparr>timer := T_armed\<rparr>)"
| fires: "timer s = T_armed \<Longrightarrow>
     wait_step colored clears m es timed s (s\<lparr>timer := T_fired, susp := susp_resume (skips colored (phase s)) (susp s)\<rparr>)"
| sets: "e < m \<Longrightarrow> \<not> flag s e \<Longrightarrow> wait_step colored clears m es timed s (s\<lparr>flag := (flag s)(e := True), notifying := (notifying s)(e := Suc (notifying s e))\<rparr>)"
| notifies: "e < m \<Longrightarrow> 0 < notifying s e \<Longrightarrow> wait_step colored clears m es timed s
     (s\<lparr>notifying := (notifying s)(e := notifying s e - 1), waking := waking s @ watchers s e, watchers := (watchers s)(e := [])\<rparr>)"
| wakes: "waking s = xs @ i # ys \<Longrightarrow> wait_step colored clears m es timed s (s\<lparr>waking := xs @ ys, susp := susp_resume (skips colored (phase s)) (susp s)\<rparr>)"
| repays: "0 < owed (susp s) \<Longrightarrow> wait_step colored clears m es timed s (s\<lparr>susp := sentinel_repay (susp s)\<rparr>)"
| stale: "e < m \<Longrightarrow> susp_dead (skips colored (phase s)) (susp s) \<Longrightarrow>
     wait_step colored clears m es timed s (s\<lparr>watchers := (watchers s)(e := butlast (watchers s e))\<rparr>)"
| clears: "clears \<Longrightarrow> e < m \<Longrightarrow> flag s e \<Longrightarrow>
     wait_step colored clears m es timed s (s\<lparr>flag := (flag s)(e := False), unnotifying := (unnotifying s)(e := Suc (unnotifying s e))\<rparr>)"
| unnotifies: "e < m \<Longrightarrow> 0 < unnotifying s e \<Longrightarrow> wait_step colored clears m es timed s
     (s\<lparr>unnotifying := (unnotifying s)(e := unnotifying s e - 1), susp := (sentinel_increment ^^ length (watchers s e)) (susp s)\<rparr>)"
| aborts: "phase s = P_live \<Longrightarrow> wait_step colored clears m es timed s (s\<lparr>phase := P_flagged\<rparr>)"
| strikes: "phase s = P_flagged \<Longrightarrow> published s \<Longrightarrow> wait_step colored clears m es timed s (s\<lparr>phase := P_struck, susp := susp_error (susp s)\<rparr>)"
| misses: "phase s = P_flagged \<Longrightarrow> \<not> published s \<Longrightarrow> wait_step colored clears m es timed s (s\<lparr>phase := P_missed\<rparr>)"

text \<open>
  A wait is for at least one event, and for exactly one if there is a timeout; the counter is a \<open>usize\<close>, which a list in memory fits in.
\<close>

definition waitable :: "nat \<Rightarrow> nat list \<Rightarrow> bool \<Rightarrow> bool" where
  "waitable m es timed \<longleftrightarrow> es \<noteq> [] \<and> (\<forall>e \<in> set es. e < m) \<and> (timed \<longrightarrow> length es = 1) \<and> length es < 2 ^ 63"

definition wait_reach :: "bool \<Rightarrow> bool \<Rightarrow> nat \<Rightarrow> nat list \<Rightarrow> bool \<Rightarrow> wsys \<Rightarrow> bool" where
  "wait_reach colored clears m es timed = reach (\<lambda>s. wait_init (length es) s \<and> waitable m es timed) (wait_step colored clears m es timed)"

section \<open>The invariant without clearing\<close>

text \<open>The wakes that are to come: of the events not registered yet, of the wakers in the queues and of those on their way.\<close>

definition to_come :: "nat \<Rightarrow> nat \<Rightarrow> wsys \<Rightarrow> nat" where
  "to_come m n s = (n - registered s) + length (waking s) + (\<Sum>e<m. length (watchers s e))"

text \<open>
  The suspension, with \<open>r\<close> wakes to come. Before \<open>error\<close> was called, it is scheduled exactly when the flag is up or the counter has come down to 0, and unless wakes are
  skipped the counter is the number of wakes to come. After that, it has been scheduled, and whatever the wakes still do to the counter, which runs below 0, it does not come back to 1.
\<close>

definition flag_ok :: "phase \<Rightarrow> bool \<Rightarrow> nat \<Rightarrow> bool \<Rightarrow> susp \<Rightarrow> bool" where
  "flag_ok ph skip r fired sp \<longleftrightarrow> owed sp = 0 \<and> r \<le> 1 \<and>
     (if ph = P_struck then consumed sp \<and> length (handles sp) = 1
      else handles sp = (if consumed sp then [Resume] else []) \<and> (\<not> skip \<and> (r = 0 \<or> fired) \<longrightarrow> consumed sp))"

definition count_ok :: "nat \<Rightarrow> phase \<Rightarrow> bool \<Rightarrow> nat \<Rightarrow> usize \<Rightarrow> susp \<Rightarrow> bool" where
  "count_ok n ph skip r c sp \<longleftrightarrow> \<not> consumed sp \<and>
     (if ph = P_struck then length (handles sp) = 1 \<and> (\<exists>k. c = - of_nat k \<and> owed sp \<le> k \<and> k + r \<le> n)
      else owed sp = 0 \<and> r \<le> unat c \<and> unat c \<le> n \<and> (\<not> skip \<longrightarrow> unat c = r) \<and> handles sp = (if c = 0 then [Resume] else []))"

definition susp_ok :: "nat \<Rightarrow> phase \<Rightarrow> bool \<Rightarrow> nat \<Rightarrow> bool \<Rightarrow> susp \<Rightarrow> bool" where
  "susp_ok n ph skip r fired sp \<longleftrightarrow> (case sentinel sp of
      None \<Rightarrow> n = 1 \<and> flag_ok ph skip r fired sp
    | Some c \<Rightarrow> 2 \<le> n \<and> n < 2 ^ 63 \<and> \<not> fired \<and> count_ok n ph skip r c sp)"

lemma neg_of_nat_word:
  assumes "k < 2 ^ 64" "- (of_nat k :: usize) = 0"
  shows "k = 0"
proof -
  have "of_nat k = (0 :: usize)" using assms(2) by simp
  then have "unat (of_nat k :: usize) = 0" by (simp only: unat_0)
  moreover have "unat (of_nat k :: usize) = k" using assms(1) by (simp add: unat_of_nat take_bit_nat_eq_self)
  ultimately show ?thesis by simp
qed

lemma neg_of_nat_not_1:
  assumes "k < 2 ^ 63"
  shows "- (of_nat k :: usize) \<noteq> 1"
proof
  assume "- (of_nat k :: usize) = 1"
  then have "- (of_nat (Suc k) :: usize) = 0" by simp
  then show False using neg_of_nat_word[of "Suc k"] assms by simp
qed

lemma decrement_simps [simp]:
  "sentinel (sentinel_decrement c sp) = Some (c - 1)" "consumed (sentinel_decrement c sp) = consumed sp"
  "owed (sentinel_decrement c sp) = (if c = 0 then Suc (owed sp) else owed sp)"
  "handles (sentinel_decrement c sp) = (if c = 1 then handles sp @ [Resume] else handles sp)"
  by (simp_all add: sentinel_decrement_def Let_def)

lemma count_ok_struck:
  "count_ok n P_struck skip r c sp \<longleftrightarrow> \<not> consumed sp \<and> length (handles sp) = 1 \<and> (\<exists>k. c = - of_nat k \<and> owed sp \<le> k \<and> k + r \<le> n)"
  by (simp add: count_ok_def)

lemma count_ok_live:
  "ph \<noteq> P_struck \<Longrightarrow> count_ok n ph skip r c sp \<longleftrightarrow> \<not> consumed sp \<and> owed sp = 0 \<and> r \<le> unat c \<and> unat c \<le> n \<and> (\<not> skip \<longrightarrow> unat c = r)
     \<and> handles sp = (if c = 0 then [Resume] else [])"
  by (simp add: count_ok_def)

lemma count_ok_decrement:
  assumes "count_ok n ph False (Suc r) c sp" "n < 2 ^ 63"
  shows "count_ok n ph False r (c - 1) (sentinel_decrement c sp)"
proof (cases "ph = P_struck")
  case True
  then obtain k where k: "c = - of_nat k" "owed sp \<le> k" "k + Suc r \<le> n" and h: "length (handles sp) = 1" "\<not> consumed sp"
    using assms(1) by (auto simp: count_ok_struck)
  have "c \<noteq> 1" using neg_of_nat_not_1[of k] k assms(2) by simp
  moreover have "owed (sentinel_decrement c sp) \<le> Suc k" using k(2) by simp
  moreover have "c - 1 = - of_nat (Suc k)" using k(1) by simp
  ultimately have "length (handles (sentinel_decrement c sp)) = 1"
    and "\<exists>k. c - 1 = - of_nat k \<and> owed (sentinel_decrement c sp) \<le> k \<and> k + r \<le> n" using h k(3) by (simp, intro exI[of _ "Suc k"]) simp
  then show ?thesis using h(2) unfolding True count_ok_struck by simp
next
  case False
  have c: "unat c = Suc r" "owed sp = 0" "Suc r \<le> n" "handles sp = []" "\<not> consumed sp"
    using assms(1) False by (simp_all add: count_ok_live split: if_splits)
  then have nz: "c \<noteq> 0" by auto
  then have u: "unat (c - 1) = r" using c(1) by (simp add: unat_minus_one)
  have "c - 1 = 0 \<longleftrightarrow> c = 1" by simp
  then show ?thesis using False c nz u by (simp add: count_ok_live)
qed

lemma susp_ok_resume:
  assumes "susp_ok n ph skip (Suc r) fired sp"
  shows "susp_ok n ph skip r fired (susp_resume skip sp)"
proof (cases skip)
  case True
  have "count_ok n ph True r c sp" if "count_ok n ph True (Suc r) c sp" for c
    using that by (cases "ph = P_struck") (auto simp: count_ok_def)
  then show ?thesis using assms True by (auto simp: susp_ok_def susp_resume_def flag_ok_def split: option.splits)
next
  case False
  show ?thesis
  proof (cases "sentinel sp")
    case None
    then show ?thesis using assms False by (auto simp: susp_ok_def susp_resume_def flag_ok_def consume_once_def cas_def split: if_splits)
  next
    case (Some c)
    then have "count_ok n ph False r (c - 1) (sentinel_decrement c sp)" using assms False by (intro count_ok_decrement) (simp_all add: susp_ok_def)
    then show ?thesis using assms Some False by (simp add: susp_ok_def susp_resume_def)
  qed
qed

lemma susp_ok_one: "susp_ok 1 ph skip r fired sp \<longleftrightarrow> sentinel sp = None \<and> flag_ok ph skip r fired sp"
  by (cases "sentinel sp") (simp_all add: susp_ok_def)

lemma susp_ok_fire:
  assumes "susp_ok 1 ph skip r fired sp"
  shows "susp_ok 1 ph skip r True (susp_resume skip sp)"
proof -
  have n: "sentinel sp = None" and f: "flag_ok ph skip r fired sp" using assms by (simp_all only: susp_ok_one)
  have "flag_ok ph skip r True (susp_resume skip sp) \<and> sentinel (susp_resume skip sp) = None"
  proof (cases "skip \<or> consumed sp")
    case True
    then show ?thesis using n f by (auto simp: susp_resume_def consume_once_def flag_ok_def cas_def)
  next
    case False
    then show ?thesis using n f by (auto simp: susp_resume_def consume_once_def flag_ok_def cas_def split: if_splits)
  qed
  then show ?thesis by (simp only: susp_ok_one)
qed

lemma susp_ok_error:
  assumes "susp_ok n P_flagged skip r fired sp" "r \<le> n"
  shows "susp_ok n P_struck skip' r fired (susp_error sp)"
proof (cases "sentinel sp")
  case None
  then show ?thesis using assms by (auto simp: susp_ok_def susp_error_def flag_ok_def consume_once_def cas_def split: if_splits)
next
  case (Some c)
  have "count_ok n P_flagged skip r c sp" using assms(1) Some by (simp add: susp_ok_def)
  then have c: "\<not> consumed sp" "owed sp = 0" "handles sp = (if c = 0 then [Resume] else [])" by (simp_all add: count_ok_live)
  have "count_ok n P_struck skip' r 0 (susp_error sp)"
    unfolding count_ok_struck using c Some assms(2) by (auto simp: susp_error_def sentinel_consume_def intro!: exI[of _ 0])
  moreover have "sentinel (susp_error sp) = Some 0" using Some by (simp add: susp_error_def sentinel_consume_def)
  ultimately show ?thesis using assms(1) Some by (simp add: susp_ok_def)
qed

lemma susp_ok_repay:
  assumes "susp_ok n ph skip r fired sp" "0 < owed sp"
  shows "susp_ok n ph skip r fired (sentinel_repay sp)"
proof -
  obtain c where c: "sentinel sp = Some c" "count_ok n ph skip r c sp" using assms by (auto simp: susp_ok_def flag_ok_def split: option.splits)
  then have ph: "ph = P_struck" using assms(2) by (auto simp: count_ok_def split: if_splits)
  then obtain k where k: "c = - of_nat k" "owed sp \<le> k" "k + r \<le> n" using c(2) by (auto simp: count_ok_def)
  then have "c + 1 = - of_nat (k - 1)" using assms(2) by (cases k) simp_all
  then have "count_ok n ph skip r (c + 1) (sentinel_repay sp)"
    using c(2) ph k assms(2) unfolding count_ok_def sentinel_repay_def by (auto intro!: exI[of _ "k - 1"])
  then show ?thesis using assms(1) c(1) by (simp add: susp_ok_def) (simp add: sentinel_repay_def)
qed

text \<open>Fewer wakes to come do no harm to a suspension that is dead; and the flag of the checkpoint is not part of it.\<close>

lemma susp_ok_stale:
  assumes "susp_ok n ph skip r fired sp" "susp_dead skip sp" "r' \<le> r"
  shows "susp_ok n ph skip r' fired sp"
proof (cases "sentinel sp")
  case None
  then show ?thesis using assms by (auto simp: susp_ok_def susp_dead_def flag_ok_def split: if_splits)
next
  case (Some c)
  have "count_ok n ph skip r' c sp" if "count_ok n ph skip r c sp" "skip"
    using that assms(3) unfolding count_ok_def by (cases "ph = P_struck") (auto intro: order_trans add_left_mono)
  then show ?thesis using assms(1,2) Some by (auto simp: susp_ok_def susp_dead_def count_ok_def)
qed

lemma susp_ok_phase:
  "susp_ok n ph skip r fired sp \<Longrightarrow> ph \<noteq> P_struck \<Longrightarrow> ph' \<noteq> P_struck \<Longrightarrow> (skip \<Longrightarrow> skip') \<Longrightarrow> susp_ok n ph' skip' r fired sp"
  by (auto simp: susp_ok_def flag_ok_def count_ok_def split: option.splits if_splits)

text \<open>
  The system. No waker stays in the queue of an event that is set unless the one who set it is about to notify; the waker of an event that is not set is in its queue, unless the
  suspension is dead; and a suspension that was resumed had all its events set, or its timer fired.
\<close>

definition queues_ok :: "nat list \<Rightarrow> bool \<Rightarrow> wsys \<Rightarrow> bool" where
  "queues_ok es dead s \<longleftrightarrow> registered s \<le> length es \<and> unnotifying s = (\<lambda>_. 0) \<and> (\<forall>e. watchers s e \<noteq> [] \<longrightarrow> e \<in> set es)
     \<and> (\<forall>e. 0 < notifying s e \<longrightarrow> flag s e) \<and> (\<forall>e. watchers s e \<noteq> [] \<and> flag s e \<longrightarrow> 0 < notifying s e)
     \<and> (\<not> dead \<longrightarrow> (\<forall>i<registered s. \<not> flag s (es ! i) \<longrightarrow> i \<in> set (watchers s (es ! i))))"

definition fresh_ok :: "bool \<Rightarrow> wsys \<Rightarrow> bool" where
  "fresh_ok colored s \<longleftrightarrow> (\<not> published s \<longrightarrow> registered s = 0 \<and> waking s = [] \<and> timer s = T_none \<and> handles (susp s) = [] \<and> watchers s = (\<lambda>_. []))
     \<and> (colored \<and> phase s = P_missed \<longrightarrow> handles (susp s) = [])"

definition resumed_ok :: "nat list \<Rightarrow> wsys \<Rightarrow> bool" where
  "resumed_ok es s \<longleftrightarrow> (Resume \<in> set (handles (susp s)) \<longrightarrow> (\<forall>e \<in> set es. flag s e) \<or> timer s = T_fired)"

definition waits_inv :: "bool \<Rightarrow> nat \<Rightarrow> nat list \<Rightarrow> bool \<Rightarrow> wsys \<Rightarrow> bool" where
  "waits_inv colored m es timed s \<longleftrightarrow> waitable m es timed \<and> (timer s \<noteq> T_none \<longrightarrow> timed) \<and> to_come m (length es) s \<le> length es
     \<and> queues_ok es (susp_dead (skips colored (phase s)) (susp s)) s \<and> fresh_ok colored s \<and> resumed_ok es s
     \<and> susp_ok (length es) (phase s) (skips colored (phase s)) (to_come m (length es) s) (timer s = T_fired) (susp s)"

lemma waits_invD:
  assumes "waits_inv colored m es timed s"
  shows "waitable m es timed" "timer s \<noteq> T_none \<Longrightarrow> timed" "to_come m (length es) s \<le> length es"
    "queues_ok es (susp_dead (skips colored (phase s)) (susp s)) s" "fresh_ok colored s" "resumed_ok es s"
    "susp_ok (length es) (phase s) (skips colored (phase s)) (to_come m (length es) s) (timer s = T_fired) (susp s)"
  using assms by (simp_all add: waits_inv_def)

lemma to_come_register:
  assumes "registered s < n" "e < m"
  shows "to_come m n ((add_waker e i s)\<lparr>registered := Suc (registered s)\<rparr>) = to_come m n s"
  using assms(1) sum_fun_upd[OF assms(2), of length "watchers s" "watchers s e @ [i]"] by (simp add: to_come_def add_waker_def)

lemma to_come_notify:
  assumes "e < m" "waking t = waking s @ watchers s e" "watchers t = (watchers s)(e := [])" "registered t = registered s"
  shows "to_come m n t = to_come m n s"
  using sum_fun_upd[OF assms(1), of length "watchers s" "[]"] by (simp add: to_come_def assms(2-4))

lemma to_come_wake: "waking s = xs @ i # ys \<Longrightarrow> to_come m n s = Suc (to_come m n (s\<lparr>waking := xs @ ys, susp := sp\<rparr>))"
  by (simp add: to_come_def)

lemma to_come_stale:
  assumes "e < m"
  shows "to_come m n (s\<lparr>watchers := (watchers s)(e := butlast (watchers s e))\<rparr>) \<le> to_come m n s"
  using sum_fun_upd[OF assms, of length "watchers s" "butlast (watchers s e)"] by (simp add: to_come_def)

lemma to_come_same: "waking t = waking s \<Longrightarrow> watchers t = watchers s \<Longrightarrow> registered t = registered s \<Longrightarrow> to_come m n t = to_come m n s"
  by (simp add: to_come_def)

text \<open>With no wake to come all events have been set, unless the suspension is dead.\<close>

lemma none_to_come:
  assumes "queues_ok es False s" "to_come m (length es) s = length (waking s)" "waitable m es timed" "e \<in> set es"
  shows "flag s e"
proof -
  have z: "(length es - registered s) + (\<Sum>e<m. length (watchers s e)) = 0" using assms(2) unfolding to_come_def by linarith
  then have r: "registered s = length es" using assms(1) by (simp add: queues_ok_def)
  have w: "\<forall>e<m. watchers s e = []" using z by auto
  from assms(4) obtain i where i: "i < length es" "e = es ! i" by (auto simp: in_set_conv_nth)
  then have "watchers s e = []" using w assms(3,4) by (auto simp: waitable_def)
  then show ?thesis using assms(1) i r by (auto simp: queues_ok_def)
qed

lemma resume_scheduled:
  assumes "susp_ok n ph skip (Suc r) fired sp" "Resume \<in> set (handles (susp_resume skip sp))" "Resume \<notin> set (handles sp)"
  shows "r = 0 \<and> \<not> susp_dead skip sp"
proof -
  have ns: "\<not> skip" using assms(2,3) by (auto simp: susp_resume_def)
  show ?thesis
  proof (cases "sentinel sp")
    case None
    then have "flag_ok ph skip (Suc r) fired sp" using assms(1) by (simp add: susp_ok_def)
    then show ?thesis using assms(2,3) ns None by (auto simp: flag_ok_def susp_resume_def consume_once_def susp_dead_def cas_def split: if_splits)
  next
    case (Some c)
    then have k: "count_ok n ph skip (Suc r) c sp" and n: "n < 2 ^ 63" using assms(1) by (simp_all add: susp_ok_def)
    have c: "c = 1" using assms(2,3) ns Some by (auto simp: susp_resume_def split: if_splits)
    show ?thesis
    proof (cases "ph = P_struck")
      case True
      then obtain j where "c = - of_nat j" "j + Suc r \<le> n" using k by (auto simp: count_ok_struck)
      then show ?thesis using neg_of_nat_not_1[of j] c n by simp
    next
      case False
      then show ?thesis using k c ns by (simp add: count_ok_live susp_dead_def)
    qed
  qed
qed

lemma queues_ok_dead: "queues_ok es d s \<Longrightarrow> (d \<Longrightarrow> d') \<Longrightarrow> queues_ok es d' s"
  by (auto simp: queues_ok_def)

lemma queues_ok_frame:
  assumes "queues_ok es d s" "registered t = registered s" "unnotifying t = unnotifying s" "notifying t = notifying s" "watchers t = watchers s" "flag t = flag s"
  shows "queues_ok es d t"
  using assms by (simp add: queues_ok_def)

lemma queues_ok_register:
  assumes "queues_ok es d s" "registered s < length es"
  shows "queues_ok es d ((add_waker (es ! registered s) (registered s) s)\<lparr>registered := Suc (registered s)\<rparr>)"
  using assms by (auto simp: queues_ok_def add_waker_def less_Suc_eq)

lemma queues_ok_set:
  assumes "queues_ok es d s" "\<not> flag s e"
  shows "queues_ok es d (s\<lparr>flag := (flag s)(e := True), notifying := (notifying s)(e := Suc (notifying s e))\<rparr>)"
  using assms by (auto simp: queues_ok_def)

lemma queues_ok_notify:
  assumes "queues_ok es d s" "0 < notifying s e"
  shows "queues_ok es d (s\<lparr>notifying := (notifying s)(e := notifying s e - 1), waking := xs, watchers := (watchers s)(e := [])\<rparr>)"
  using assms by (auto simp: queues_ok_def)

lemma queues_ok_stale:
  assumes "queues_ok es True s"
  shows "queues_ok es True (s\<lparr>watchers := (watchers s)(e := butlast (watchers s e))\<rparr>)"
proof -
  have "butlast (watchers s e) \<noteq> [] \<Longrightarrow> watchers s e \<noteq> []" by auto
  then show ?thesis using assms by (auto simp: queues_ok_def)
qed

lemma susp_simps [simp]:
  "consumed sp \<Longrightarrow> consumed (susp_resume k sp)" "consumed sp \<Longrightarrow> consumed (susp_error sp)" "consumed (sentinel_repay sp) = consumed sp"
  "handles (sentinel_repay sp) = handles sp" "susp_resume True sp = sp"
  "Resume \<in> set (handles (susp_error sp)) \<longleftrightarrow> Resume \<in> set (handles sp)"
  by (auto simp: susp_resume_def susp_error_def sentinel_repay_def consume_once_def sentinel_consume_def cas_def split: option.splits)

text \<open>A wake.\<close>

lemma waits_inv_wakes:
  assumes inv: "waits_inv colored m es timed s" and w: "waking s = xs @ i # ys"
  shows "waits_inv colored m es timed (s\<lparr>waking := xs @ ys, susp := susp_resume (skips colored (phase s)) (susp s)\<rparr>)" (is "waits_inv _ _ _ _ ?t")
proof -
  note D = waits_invD[OF inv]
  let ?k = "skips colored (phase s)" and ?n = "length es"
  have r: "to_come m ?n s = Suc (to_come m ?n ?t)" by (rule to_come_wake[OF w])
  have "susp_ok ?n (phase ?t) (skips colored (phase ?t)) (to_come m ?n ?t) (timer ?t = T_fired) (susp ?t)"
    using susp_ok_resume[of ?n "phase s" ?k "to_come m ?n ?t" "timer s = T_fired" "susp s"] D(7) r by simp
  moreover have "queues_ok es (susp_dead (skips colored (phase ?t)) (susp ?t)) ?t"
    by (rule queues_ok_dead[OF queues_ok_frame[OF D(4)]]) (auto simp: susp_dead_def)
  moreover have "fresh_ok colored ?t" using D(5) w by (auto simp: fresh_ok_def skips_def)
  moreover have "resumed_ok es ?t"
  proof (cases "Resume \<in> set (handles (susp ?t)) \<and> Resume \<notin> set (handles (susp s))")
    case True
    then have z: "to_come m ?n ?t = 0" "\<not> susp_dead ?k (susp s)"
      using resume_scheduled[of ?n "phase s" ?k "to_come m ?n ?t" "timer s = T_fired" "susp s"] D(7) r by simp_all
    have "length (waking s) = 1" using z(1) w by (simp add: to_come_def)
    then have "flag s e" if "e \<in> set es" for e using none_to_come[OF _ _ D(1) that, of s] D(4) z r by simp
    then show ?thesis by (simp add: resumed_ok_def)
  qed (use D(6) in \<open>auto simp: resumed_ok_def\<close>)
  ultimately show ?thesis using D r by (simp add: waits_inv_def)
qed

lemma waits_inv_fires:
  assumes inv: "waits_inv colored m es timed s" and a: "timer s = T_armed"
  shows "waits_inv colored m es timed (s\<lparr>timer := T_fired, susp := susp_resume (skips colored (phase s)) (susp s)\<rparr>)" (is "waits_inv _ _ _ _ ?t")
proof -
  note D = waits_invD[OF inv]
  have n: "length es = 1" using D(1,2) a by (simp add: waitable_def)
  have r: "to_come m (length es) ?t = to_come m (length es) s" by (rule to_come_same) simp_all
  have "susp_ok (length es) (phase ?t) (skips colored (phase ?t)) (to_come m (length es) ?t) True (susp ?t)"
    using D(7) susp_ok_fire[of "phase s" "skips colored (phase s)" "to_come m (length es) s" "timer s = T_fired" "susp s"] r n by simp
  moreover have "queues_ok es (susp_dead (skips colored (phase ?t)) (susp ?t)) ?t"
    by (rule queues_ok_dead[OF queues_ok_frame[OF D(4)]]) (auto simp: susp_dead_def)
  moreover have "fresh_ok colored ?t" using D(5) a by (auto simp: fresh_ok_def skips_def)
  ultimately show ?thesis using D r a by (simp add: waits_inv_def resumed_ok_def)
qed

lemma waits_inv_strikes:
  assumes inv: "waits_inv colored m es timed s" and a: "phase s = P_flagged" "published s"
  shows "waits_inv colored m es timed (s\<lparr>phase := P_struck, susp := susp_error (susp s)\<rparr>)" (is "waits_inv _ _ _ _ ?t")
proof -
  note D = waits_invD[OF inv]
  have r: "to_come m (length es) ?t = to_come m (length es) s" by (rule to_come_same) simp_all
  have "susp_ok (length es) P_struck colored (to_come m (length es) ?t) (timer s = T_fired) (susp_error (susp s))"
    unfolding r by (rule susp_ok_error[OF _ D(3)]) (use D(7) a in auto)
  moreover have "queues_ok es (susp_dead (skips colored (phase ?t)) (susp ?t)) ?t"
    by (rule queues_ok_dead[OF queues_ok_frame[OF D(4)]]) (use a in \<open>auto simp: susp_dead_def skips_def\<close>)
  ultimately show ?thesis using D r a by (simp add: waits_inv_def fresh_ok_def resumed_ok_def skips_def)
qed

lemma waits_inv_step:
  assumes "wait_step colored False m es timed s t" "waits_inv colored m es timed s"
  shows "waits_inv colored m es timed t"
proof -
  note D = waits_invD[OF assms(2)]
  let ?k = "skips colored (phase s)"
  have ev: "es ! i < m" if "i < length es" for i using D(1) that by (simp add: waitable_def)
  show ?thesis using assms(1)
  proof cases
    case publish
    then show ?thesis using D to_come_same[of t s m "length es"] queues_ok_frame[OF D(4), of t] by (auto simp: waits_inv_def fresh_ok_def resumed_ok_def)
  next
    case register
    have r: "to_come m (length es) t = to_come m (length es) s" using register to_come_register[OF register(3) ev] by simp
    have f: "susp t = susp s" "phase t = phase s" "timer t = timer s" "flag t = flag s" "published t" using register by (simp_all add: add_waker_def)
    show ?thesis using D register(1) f r queues_ok_register[OF D(4) register(3)] by (simp add: waits_inv_def fresh_ok_def resumed_ok_def)
  next
    case arms
    then show ?thesis using D to_come_same[of t s m "length es"] queues_ok_frame[OF D(4), of t] by (auto simp: waits_inv_def fresh_ok_def resumed_ok_def)
  next
    case fires
    then show ?thesis using waits_inv_fires[OF assms(2)] by simp
  next
    case (sets e)
    then show ?thesis using D to_come_same[of t s m "length es"] queues_ok_set[OF D(4) sets(3)] by (auto simp: waits_inv_def fresh_ok_def resumed_ok_def)
  next
    case (notifies e)
    have p: "published s" if "watchers s e \<noteq> []" using D(5) that by (auto simp: fresh_ok_def)
    show ?thesis using D notifies p to_come_notify[of e m t s "length es"] queues_ok_notify[OF D(4) notifies(3)]
      by (auto simp: waits_inv_def fresh_ok_def resumed_ok_def)
  next
    case (wakes xs i ys)
    then show ?thesis using waits_inv_wakes[OF assms(2)] by simp
  next
    case repays
    then show ?thesis using D to_come_same[of t s m "length es"] queues_ok_frame[OF D(4), of t] susp_ok_repay[OF D(7) repays(2)]
      by (simp add: waits_inv_def fresh_ok_def resumed_ok_def susp_dead_def)
  next
    case (stale e)
    have r: "to_come m (length es) t \<le> to_come m (length es) s" using stale to_come_stale[OF stale(2)] by simp
    have q: "queues_ok es True t" using stale queues_ok_stale[of es s e] D(4) by simp
    have "fresh_ok colored t" using D(5) stale(1) by (auto simp: fresh_ok_def)
    then show ?thesis using D stale q susp_ok_stale[OF D(7) stale(3) r] r by (simp add: waits_inv_def resumed_ok_def)
  next
    case (unnotifies e)
    then show ?thesis using D(4) by (simp add: queues_ok_def)
  next
    case aborts
    have "queues_ok es (susp_dead (skips colored P_flagged) (susp s)) t"
      by (rule queues_ok_dead[OF queues_ok_frame[OF D(4)]]) (use aborts in \<open>auto simp: susp_dead_def skips_def\<close>)
    then show ?thesis using D aborts to_come_same[of t s m "length es"] susp_ok_phase[OF D(7), of P_flagged "skips colored P_flagged"]
      by (simp add: waits_inv_def fresh_ok_def resumed_ok_def skips_def)
  next
    case strikes
    then show ?thesis using waits_inv_strikes[OF assms(2)] by simp
  next
    case misses
    have "queues_ok es (susp_dead (skips colored P_missed) (susp s)) t"
      by (rule queues_ok_dead[OF queues_ok_frame[OF D(4)]]) (use misses in \<open>auto simp: susp_dead_def skips_def\<close>)
    then show ?thesis using D misses to_come_same[of t s m "length es"] susp_ok_phase[OF D(7), of P_missed "skips colored P_missed"]
      by (simp add: waits_inv_def fresh_ok_def resumed_ok_def skips_def)
  qed simp
qed

lemma waits_inv_init:
  assumes "wait_init (length es) s" "waitable m es timed"
  shows "waits_inv colored m es timed s"
proof -
  have "to_come m (length es) s = length es" using assms(1) by (simp add: wait_init_def to_come_def)
  moreover have "susp_ok (length es) P_live (skips colored P_live) (length es) False (susp_new (length es))"
  proof (cases "length es = 1")
    case True
    then show ?thesis by (simp add: susp_ok_def susp_new_def flag_ok_def)
  next
    case False
    have w: "es \<noteq> []" and n: "length es < 2 ^ 63" using assms(2) unfolding waitable_def by blast+
    have n2: "2 \<le> length es" using w False by (cases "length es") simp_all
    have u: "unat (of_nat (length es) :: usize) = length es" using n by (simp add: unat_of_nat take_bit_nat_eq_self)
    have "(of_nat (length es) :: usize) \<noteq> 0"
    proof
      assume "(of_nat (length es) :: usize) = 0"
      then show False using u n2 by simp
    qed
    then show ?thesis using n n2 u by (simp add: susp_ok_def susp_new_def count_ok_def skips_def)
  qed
  ultimately show ?thesis using assms
    by (simp add: waits_inv_def wait_init_def queues_ok_def fresh_ok_def resumed_ok_def) (simp add: susp_new_def)
qed

interpretation ws: step_system "\<lambda>s. wait_init (length es) s \<and> waitable m es timed" "wait_step colored False m es timed" "waits_inv colored m es timed" for colored m es timed
  by unfold_locales (auto intro: waits_inv_init waits_inv_step)

section \<open>Properties\<close>

lemma wait_reach_inv: "wait_reach colored False m es timed s \<Longrightarrow> waits_inv colored m es timed s"
  unfolding wait_reach_def by (rule ws.reach_inv)

lemma handles_live: "susp_ok n ph skip r fired sp \<Longrightarrow> ph \<noteq> P_struck \<Longrightarrow> handles sp = [] \<or> handles sp = [Resume]"
  by (auto simp: susp_ok_def flag_ok_def count_ok_live split: option.splits if_splits)

lemma handles_struck: "susp_ok n P_struck skip r fired sp \<Longrightarrow> length (handles sp) = 1"
  by (auto simp: susp_ok_def flag_ok_def count_ok_struck split: option.splits)

text \<open>
  C10. A suspension is scheduled at most once. As long as nobody clears the events, every interleaving of setting, registering, timing out and aborting makes at most one handle for
  it; it is resumed only if all its events are set or its timer has fired; and once an abort has struck it there is exactly one handle, so that the coroutine is neither resumed twice nor forgotten. This
  includes the moments in which the counter of a consumed sentinel wraps below 0.
\<close>

theorem wait_scheduled_once:
  assumes "wait_reach colored False m es timed s"
  shows "length (handles (susp s)) \<le> 1 \<and> (Resume \<in> set (handles (susp s)) \<longrightarrow> (\<forall>e \<in> set es. flag s e) \<or> timer s = T_fired) \<and>
    (phase s = P_struck \<longrightarrow> length (handles (susp s)) = 1)"
proof -
  note D = waits_invD[OF wait_reach_inv[OF assms]]
  have "length (handles (susp s)) \<le> 1"
  proof (cases "phase s = P_struck")
    case True
    then show ?thesis using D(7) handles_struck by force
  next
    case False
    then show ?thesis using handles_live[OF D(7)] by auto
  qed
  then show ?thesis using D(6,7) handles_struck by (auto simp: resumed_ok_def)
qed

text \<open>
  C9. No wake-up is lost, as long as nobody clears an event (with clearing one can be: \<open>clear_breaks_waits\<close> below). When all events of a suspension are set, its registration is complete, whoever set an event has notified and every wake taken out of a queue is done, then
  the coroutine has been scheduled to resume, unless it was aborted. So a coroutine that waits for events that are set has somebody on the way who wakes it.
\<close>

theorem wait_no_lost_wakeup:
  assumes "wait_reach colored False m es timed s" "\<forall>e \<in> set es. flag s e" "registered s = length es" "\<forall>e<m. notifying s e = 0" "waking s = []"
    and "phase s = P_live \<or> \<not> colored \<and> phase s = P_missed"
  shows "handles (susp s) = [Resume]"
proof -
  note D = waits_invD[OF wait_reach_inv[OF assms(1)]]
  have live: "phase s \<noteq> P_struck" "\<not> skips colored (phase s)" using assms(6) by (auto simp: skips_def)
  show ?thesis
  proof (cases "susp_dead (skips colored (phase s)) (susp s)")
    case True
    then have c: "consumed (susp s)" using live by (simp add: susp_dead_def)
    then show ?thesis using D(7) live by (auto simp: susp_ok_def flag_ok_def count_ok_def split: option.splits)
  next
    case False
    have q: "queues_ok es False s" using D(4) False by simp
    have "watchers s e = []" if "e < m" for e
    proof (rule ccontr)
      assume w: "watchers s e \<noteq> []"
      then have "e \<in> set es" using q by (auto simp: queues_ok_def)
      then show False using w q assms(2,4) that by (auto simp: queues_ok_def)
    qed
    then have z: "to_come m (length es) s = 0" using assms(3,5) by (simp add: to_come_def)
    show ?thesis using D(7) live unfolding z by (auto simp: susp_ok_def flag_ok_def count_ok_live unat_eq_zero split: option.splits)
  qed
qed

text \<open>
  An abort that comes while the coroutine is running, after it was resumed from one wait and before it is registered for the next, does not cancel it: the slot of the checkpoint still has
  the suspension of the wait that is over. In the \<open>yield\<close> flavour the coroutine goes on as if nothing had happened and is never thrown into. In the \<open>await\<close> flavour it is lost: every wake
  finds the checkpoint aborted and is skipped, nobody throws, and whatever the other tasks do, it is never scheduled again; its \<open>finally\<close> clauses do not run.
\<close>

theorem abort_between_waits:
  assumes "wait_reach colored False m es timed s" "phase s = P_missed" "(wait_step colored False m es timed)\<^sup>*\<^sup>* s t"
  shows "Throw \<notin> set (handles (susp t)) \<and> (colored \<longrightarrow> handles (susp t) = [])"
proof -
  have "waits_inv colored m es timed t \<and> phase t = P_missed" using assms(3)
  proof (induction rule: rtranclp_induct)
    case base
    show ?case using wait_reach_inv[OF assms(1)] assms(2) by simp
  next
    case (step t u)
    then have "phase u = P_missed" by (auto elim!: wait_step.cases simp: add_waker_def)
    then show ?case using waits_inv_step step by blast
  qed
  then have inv: "waits_inv colored m es timed t" and m: "phase t = P_missed" by simp_all
  have "handles (susp t) = [] \<or> handles (susp t) = [Resume]" using handles_live[OF waits_invD(7)[OF inv]] m by simp
  then show ?thesis using waits_invD(5)[OF inv] m by (auto simp: fresh_ok_def)
qed

section \<open>Concrete runs\<close>

text \<open>Two events, 0 and 1, and a suspension on both; event 1 is only ever set.\<close>

definition two :: "bool \<Rightarrow> bool \<Rightarrow> nat list \<Rightarrow> nat list \<Rightarrow> nat \<Rightarrow> nat \<Rightarrow> nat \<Rightarrow> bool \<Rightarrow> nat \<Rightarrow> nat list \<Rightarrow> phase \<Rightarrow> usize \<Rightarrow> handle list \<Rightarrow> wsys" where
  "two f g w v a b u p r k ph c h = \<lparr>flag = (\<lambda>_. False)(0 := f, 1 := g), watchers = (\<lambda>_. [])(0 := w, 1 := v), notifying = (\<lambda>_. 0)(0 := a, 1 := b),
     unnotifying = (\<lambda>_. 0)(0 := u), published = p, registered = r, waking = k, timer = T_none, phase = ph,
     susp = \<lparr>consumed = False, sentinel = Some c, owed = 0, handles = h\<rparr>\<rparr>"

definition two_reach :: "bool \<Rightarrow> bool \<Rightarrow> wsys \<Rightarrow> bool" where
  "two_reach colored clears = wait_reach colored clears 2 [0, 1] False"

lemma two_start: "two_reach colored clears (two False False [] [] 0 0 0 False 0 [] P_live 2 [])"
  unfolding two_reach_def wait_reach_def
  by (rule reach.start) (simp add: two_def wait_init_def susp_new_def waitable_def fun_upd_idem)

lemma two_step: "two_reach colored clears s \<Longrightarrow> wait_step colored clears 2 [0, 1] False s t \<Longrightarrow> t = u \<Longrightarrow> two_reach colored clears u"
  unfolding two_reach_def wait_reach_def by (auto intro: reach.next_state)

lemma two_registered: "two_reach colored clears (two False False [0] [1] 0 0 0 True 2 [] P_live 2 [])"
proof -
  have "two_reach colored clears (two False False [] [] 0 0 0 True 0 [] P_live 2 [])"
    by (rule two_step[OF two_start wait_step.publish]) (simp_all add: two_def)
  then have "two_reach colored clears (two False False [0] [] 0 0 0 True 1 [] P_live 2 [])"
    by (rule two_step[OF _ wait_step.register]) (simp_all add: two_def add_waker_def fun_upd_twist)
  then show ?thesis by (rule two_step[OF _ wait_step.register]) (simp_all add: two_def add_waker_def)
qed

lemma two_set:
  "two_reach colored clears (two False g w v a b u p r k ph c h) \<Longrightarrow> two_reach colored clears (two True g w v (Suc a) b u p r k ph c h)"
  "two_reach colored clears (two f False w v a b u p r k ph c h) \<Longrightarrow> two_reach colored clears (two f True w v a (Suc b) u p r k ph c h)"
  by (erule two_step, rule wait_step.sets[of 0], simp_all add: two_def fun_upd_twist)
     (erule two_step, rule wait_step.sets[of 1], simp_all add: two_def fun_upd_twist)

lemma two_notify:
  "two_reach colored clears (two f g w v (Suc a) b u p r k ph c h) \<Longrightarrow> two_reach colored clears (two f g [] v a b u p r (k @ w) ph c h)"
  "two_reach colored clears (two f g w v a (Suc b) u p r k ph c h) \<Longrightarrow> two_reach colored clears (two f g w [] a b u p r (k @ v) ph c h)"
  by (erule two_step, rule wait_step.notifies[of 0], simp_all add: two_def fun_upd_twist)
     (erule two_step, rule wait_step.notifies[of 1], simp_all add: two_def fun_upd_twist)

lemma two_wake:
  assumes "two_reach colored clears (two f g w v a b u p r [i] ph c h)" "\<not> skips colored ph" "c \<noteq> 0"
  shows "two_reach colored clears (two f g w v a b u p r [] ph (c - 1) (if c = 1 then h @ [Resume] else h))"
  by (rule two_step[OF assms(1) wait_step.wakes[of _ "[]" i "[]"]]) (use assms(2,3) in \<open>simp_all add: two_def susp_resume_def sentinel_decrement_def\<close>)

lemma two_clear:
  "two_reach colored True (two True g w v a b u p r k ph c h) \<Longrightarrow> two_reach colored True (two False g w v a b (Suc u) p r k ph c h)"
  by (erule two_step, rule wait_step.clears[of _ 0]) (simp_all add: two_def fun_upd_twist)

lemma two_unnotify:
  "two_reach colored True (two f g [i] v a b (Suc u) p r k ph c h) \<Longrightarrow> two_reach colored True (two f g [i] v a b u p r k ph (c + 1) h)"
  by (erule two_step, rule wait_step.unnotifies[of 0]) (simp_all add: two_def sentinel_increment_def)

text \<open>Both events set, both notified, both wakes done.\<close>

lemma two_resumed: "two_reach colored clears (two True True [] [] 0 0 0 True 2 [] P_live 0 [Resume])"
proof -
  have "two_reach colored clears (two True False [] [1] 0 0 0 True 2 [0] P_live 2 [])"
    using two_notify(1)[OF two_set(1)[OF two_registered]] by simp
  from two_wake[OF this] have "two_reach colored clears (two True False [] [1] 0 0 0 True 2 [] P_live 1 [])" by (simp add: skips_def)
  from two_notify(2)[OF two_set(2)[OF this]] have "two_reach colored clears (two True True [] [] 0 0 0 True 2 [1] P_live 1 [])" by simp
  from two_wake[OF this] show ?thesis by (simp add: skips_def)
qed

theorem wait_scheduled_once_witness:
  "\<exists>s. wait_reach True False 2 [0, 1] False s \<and> handles (susp s) = [Resume] \<and> length (handles (susp s)) \<le> 1"
  using wait_scheduled_once[OF two_resumed[of True False, unfolded two_reach_def]] two_resumed[of True False]
  by (intro exI[of _ "two True True [] [] 0 0 0 True 2 [] P_live 0 [Resume]"]) (simp add: two_def two_reach_def)

theorem wait_no_lost_wakeup_witness:
  "\<exists>s. wait_reach True False 2 [0, 1] False s \<and> phase s = P_live \<and> handles (susp s) = [Resume]"
  using wait_no_lost_wakeup[OF two_resumed[of True False, unfolded two_reach_def]] two_resumed[of True False]
  by (intro exI[of _ "two True True [] [] 0 0 0 True 2 [] P_live 0 [Resume]"]) (simp add: two_def two_reach_def less_2_cases_iff)

theorem abort_between_waits_witness:
  "\<exists>s. wait_reach True False 2 [0, 1] False s \<and> phase s = P_missed \<and> handles (susp s) = []"
proof -
  let ?s = "\<lambda>ph. two False False [] [] 0 0 0 False 0 [] ph 2 []"
  have "two_reach True False (?s P_flagged)" by (rule two_step[OF two_start wait_step.aborts]) (simp_all add: two_def)
  then have "two_reach True False (?s P_missed)" by (rule two_step[OF _ wait_step.misses]) (simp_all add: two_def)
  then have r: "wait_reach True False 2 [0, 1] False (?s P_missed)" by (simp only: two_reach_def)
  show ?thesis using r abort_between_waits[OF r, of "?s P_missed"] by (intro exI[of _ "?s P_missed"]) (simp add: two_def)
qed

text \<open>
  Clearing an event undermines both. Clearing it between the exchange of the flag and the notification adds one to the counter of a suspension on several events, and the
  notification then takes the waker away for good: the coroutine stays suspended although all its events are set and nothing is left to happen. And a suspension that an abort has struck
  can be scheduled once more, to resume as well as to throw.
\<close>

theorem clear_breaks_waits:
  "(\<exists>s. wait_reach False True 2 [0, 1] False s \<and> flag s 0 \<and> flag s 1 \<and> registered s = 2 \<and> notifying s = (\<lambda>_. 0) \<and> unnotifying s = (\<lambda>_. 0) \<and> waking s = [] \<and>
      watchers s = (\<lambda>_. []) \<and> phase s = P_live \<and> handles (susp s) = []) \<and>
   (\<exists>s. wait_reach False True 2 [0, 1] False s \<and> handles (susp s) = [Throw, Resume])"
proof
  have "two_reach False True (two False False [0] [1] 1 0 1 True 2 [] P_live 2 [])" using two_clear[OF two_set(1)[OF two_registered]] by simp
  then have "two_reach False True (two False False [0] [1] 1 0 0 True 2 [] P_live 3 [])" using two_unnotify[of False False False 0] by fastforce
  then have "two_reach False True (two False False [] [1] 0 0 0 True 2 [0] P_live 3 [])" using two_notify(1)[of False True False False "[0]"] by fastforce
  from two_wake[OF this] have "two_reach False True (two False False [] [1] 0 0 0 True 2 [] P_live 2 [])" by (simp add: skips_def)
  from two_notify(1)[OF two_set(1)[OF this]] have "two_reach False True (two True False [] [1] 0 0 0 True 2 [] P_live 2 [])" by simp
  from two_notify(2)[OF two_set(2)[OF this]] have "two_reach False True (two True True [] [] 0 0 0 True 2 [1] P_live 2 [])" by simp
  from two_wake[OF this] have "two_reach False True (two True True [] [] 0 0 0 True 2 [] P_live 1 [])" by (simp add: skips_def)
  then show "\<exists>s. wait_reach False True 2 [0, 1] False s \<and> flag s 0 \<and> flag s 1 \<and> registered s = 2 \<and> notifying s = (\<lambda>_. 0) \<and> unnotifying s = (\<lambda>_. 0) \<and> waking s = [] \<and>
      watchers s = (\<lambda>_. []) \<and> phase s = P_live \<and> handles (susp s) = []"
    by (intro exI[of _ "two True True [] [] 0 0 0 True 2 [] P_live 1 []"]) (simp add: two_reach_def, simp add: two_def fun_upd_idem)
  have "two_reach False True (two False False [0] [1] 0 0 0 True 2 [] P_flagged 2 [])"
    by (rule two_step[OF two_registered wait_step.aborts]) (simp_all add: two_def)
  then have "two_reach False True (two False False [0] [1] 0 0 0 True 2 [] P_struck 0 [Throw])"
    by (rule two_step[OF _ wait_step.strikes]) (simp_all add: two_def susp_error_def sentinel_consume_def)
  from two_clear[OF two_set(1)[OF this]] have "two_reach False True (two False False [0] [1] 1 0 1 True 2 [] P_struck 0 [Throw])" by simp
  then have "two_reach False True (two False False [0] [1] 1 0 0 True 2 [] P_struck 1 [Throw])" using two_unnotify[of False False False 0] by fastforce
  then have "two_reach False True (two False False [] [1] 0 0 0 True 2 [0] P_struck 1 [Throw])" using two_notify(1)[of False True False False "[0]"] by fastforce
  from two_wake[OF this] have "two_reach False True (two False False [] [1] 0 0 0 True 2 [] P_struck 0 [Throw, Resume])" by (simp add: skips_def)
  then show "\<exists>s. wait_reach False True 2 [0, 1] False s \<and> handles (susp s) = [Throw, Resume]"
    by (intro exI[of _ "two False False [] [1] 0 0 0 True 2 [] P_struck 0 [Throw, Resume]"]) (simp add: two_reach_def, simp add: two_def)
qed

end
