(* ===== verification/Signals.thy ===== *)
theory Signals
  imports Prelude
begin

text \<open>
  Signal receivers: \<open>SignalReceiver\<close> of \<open>src/tonio/signals.py\<close> and \<open>src/tonio/colored/signals.py\<close>, its base class in \<open>src/tonio/_signals.py\<close>, and the way of a signal through
  \<open>src/src/runtime.rs\<close>. The poll loop looks up the event of a signal and queues it; running it sets the event (its flag, then, under the lock, the waker that is
  registered); a coroutine per signal waits for the event, clears it and sends the number of the signal into an unbounded channel, from which the user takes it. Any number of receivers, any schedule.
  Fields are indexed by the receiver and the signal.
\<close>

section \<open>The system\<close>

text \<open>
  The coroutine \<open>receiver\<close>: not spawned; about to wait; registered with its event; woken; past \<open>event.clear()\<close>; unwound. A \<open>SignalReceiver\<close>: not entered, entered, left.
\<close>

datatype rloop = L_absent | L_check | L_parked | L_awake | L_cleared | L_gone

datatype rstate = Not_entered | Entered | Left

text \<open>
  \<open>outbox\<close> are the messages sent into the channel of a receiver, oldest first, of which the user has taken the first \<open>taken\<close>. \<open>arrived\<close> and \<open>due\<close> are not in the code: how many signals were
  looked up for the event, and whether one was since the last message.
\<close>

record sigsys =
  handler :: "nat \<Rightarrow> nat option"
  state :: "nat \<Rightarrow> rstate"
  queued :: "nat \<Rightarrow> nat \<Rightarrow> nat"
  flag :: "nat \<Rightarrow> nat \<Rightarrow> bool"
  notifying :: "nat \<Rightarrow> nat \<Rightarrow> nat"
  rloop :: "nat \<Rightarrow> nat \<Rightarrow> rloop"
  outbox :: "nat \<Rightarrow> nat list"
  taken :: "nat \<Rightarrow> nat"
  arrived :: "nat \<Rightarrow> nat \<Rightarrow> nat"
  due :: "nat \<Rightarrow> nat \<Rightarrow> bool"

definition upd2 :: "nat \<Rightarrow> nat \<Rightarrow> 'a \<Rightarrow> (nat \<Rightarrow> nat \<Rightarrow> 'a) \<Rightarrow> nat \<Rightarrow> nat \<Rightarrow> 'a" where
  "upd2 r g v f = f(r := (f r)(g := v))"

lemma upd2_same: "f r g = v \<Longrightarrow> upd2 r g v f = f"
  by (simp add: upd2_def fun_upd_idem)

lemma upd2_apply [simp]: "upd2 r g v f r' g' = (if r' = r \<and> g' = g then v else f r' g')"
  by (simp add: upd2_def)

definition sig_init :: "sigsys \<Rightarrow> bool" where
  "sig_init s \<longleftrightarrow> handler s = (\<lambda>_. None) \<and> state s = (\<lambda>_. Not_entered) \<and> queued s = (\<lambda>_ _. 0) \<and> flag s = (\<lambda>_ _. False) \<and> notifying s = (\<lambda>_ _. 0)
     \<and> rloop s = (\<lambda>_ _. L_absent) \<and> outbox s = (\<lambda>_. []) \<and> taken s = (\<lambda>_. 0) \<and> arrived s = (\<lambda>_ _. 0) \<and> due s = (\<lambda>_ _. False)"

text \<open>\<open>__enter__\<close>: a new event for every signal, replacing what was there, and one coroutine each. \<open>__exit__\<close>: the signals are taken off the table, whatever it has for them.\<close>

definition sig_enter :: "nat \<Rightarrow> nat list \<Rightarrow> sigsys \<Rightarrow> sigsys" where
  "sig_enter r sigs s = s\<lparr>handler := (\<lambda>g. if g \<in> set sigs then Some r else handler s g), state := (state s)(r := Entered),
     rloop := (rloop s)(r := (\<lambda>g. if g \<in> set sigs then L_check else L_absent))\<rparr>"

definition sig_exit :: "nat \<Rightarrow> nat list \<Rightarrow> sigsys \<Rightarrow> sigsys" where
  "sig_exit r sigs s = s\<lparr>handler := (\<lambda>g. if g \<in> set sigs then None else handler s g), state := (state s)(r := Left)\<rparr>"

text \<open>The poll loop reads a signal: \<open>handle_io_signals\<close>.\<close>

definition sig_arrive :: "nat \<Rightarrow> sigsys \<Rightarrow> sigsys" where
  "sig_arrive g s = (case handler s g of None \<Rightarrow> s
     | Some r \<Rightarrow> s\<lparr>queued := upd2 r g (Suc (queued s r g)) (queued s), arrived := upd2 r g (Suc (arrived s r g)) (arrived s), due := upd2 r g True (due s)\<rparr>)"

text \<open>A worker runs the queued event: \<open>Event::set\<close>, up to the lock.\<close>

definition sig_set :: "nat \<Rightarrow> nat \<Rightarrow> sigsys \<Rightarrow> sigsys" where
  "sig_set r g s = (let s = s\<lparr>queued := upd2 r g (queued s r g - 1) (queued s)\<rparr> in
     case cas False True (flag s r g) of
       Some b \<Rightarrow> s\<lparr>flag := upd2 r g b (flag s), notifying := upd2 r g (Suc (notifying s r g)) (notifying s)\<rparr> | None \<Rightarrow> s)"

text \<open>A turn of the coroutine, for receiver \<open>r\<close> and signal \<open>g\<close>: register, clear, send; or be unwound where it waits, by the \<open>_cancel_coros\<close> of \<open>__exit__\<close>.\<close>

inductive loop_step :: "nat \<Rightarrow> nat \<Rightarrow> sigsys \<Rightarrow> sigsys \<Rightarrow> bool" for r g where
  waits: "rloop s r g = L_check \<Longrightarrow> loop_step r g s (s\<lparr>rloop := upd2 r g (if flag s r g then L_awake else L_parked) (rloop s)\<rparr>)"
| clears: "rloop s r g = L_awake \<Longrightarrow> loop_step r g s (s\<lparr>flag := upd2 r g False (flag s), rloop := upd2 r g L_cleared (rloop s)\<rparr>)"
| sends: "rloop s r g = L_cleared \<Longrightarrow>
     loop_step r g s (s\<lparr>outbox := (outbox s)(r := outbox s r @ [g]), due := upd2 r g False (due s), rloop := upd2 r g L_check (rloop s)\<rparr>)"
| unwinds: "rloop s r g = L_parked \<Longrightarrow> state s r = Left \<Longrightarrow> loop_step r g s (s\<lparr>rloop := upd2 r g L_gone (rloop s)\<rparr>)"

text \<open>The same in the \<open>await\<close> flavour, where \<open>_cancel_coros\<close> calls \<open>abort\<close>.\<close>

inductive aw_loop_step :: "nat \<Rightarrow> nat \<Rightarrow> sigsys \<Rightarrow> sigsys \<Rightarrow> bool" for r g where
  awaits: "rloop s r g = L_check \<Longrightarrow> aw_loop_step r g s (s\<lparr>rloop := upd2 r g (if flag s r g then L_awake else L_parked) (rloop s)\<rparr>)"
| clears: "rloop s r g = L_awake \<Longrightarrow> aw_loop_step r g s (s\<lparr>flag := upd2 r g False (flag s), rloop := upd2 r g L_cleared (rloop s)\<rparr>)"
| sends: "rloop s r g = L_cleared \<Longrightarrow>
     aw_loop_step r g s (s\<lparr>outbox := (outbox s)(r := outbox s r @ [g]), due := upd2 r g False (due s), rloop := upd2 r g L_check (rloop s)\<rparr>)"
| aborts: "rloop s r g = L_parked \<Longrightarrow> state s r = Left \<Longrightarrow> aw_loop_step r g s (s\<lparr>rloop := upd2 r g L_gone (rloop s)\<rparr>)"

lemma aw_loop_step_same: "aw_loop_step = loop_step"
  by (intro ext) (simp only: aw_loop_step.simps loop_step.simps)

inductive sig_step :: "(nat \<Rightarrow> nat list) \<Rightarrow> sigsys \<Rightarrow> sigsys \<Rightarrow> bool" for sigs where
  enters: "state s r = Not_entered \<Longrightarrow> sig_step sigs s (sig_enter r (sigs r) s)"
| exits: "state s r = Entered \<Longrightarrow> sig_step sigs s (sig_exit r (sigs r) s)"
| arrives: "sig_step sigs s (sig_arrive g s)"
| runs: "0 < queued s r g \<Longrightarrow> sig_step sigs s (sig_set r g s)"
| notifies: "0 < notifying s r g \<Longrightarrow> sig_step sigs s (s\<lparr>notifying := upd2 r g (notifying s r g - 1) (notifying s),
     rloop := upd2 r g (if rloop s r g = L_parked then L_awake else rloop s r g) (rloop s)\<rparr>)"
| loops: "loop_step r g s t \<Longrightarrow> sig_step sigs s t"
| receives: "taken s r < length (outbox s r) \<Longrightarrow> sig_step sigs s (s\<lparr>taken := (taken s)(r := Suc (taken s r))\<rparr>)"

definition sig_reach :: "(nat \<Rightarrow> nat list) \<Rightarrow> sigsys \<Rightarrow> bool" where
  "sig_reach sigs = reach sig_init (sig_step sigs)"

section \<open>The invariant\<close>

text \<open>
  Of one event and its coroutine. A signal that is due is queued, or in the flag, or with the coroutine on its way to send; a parked coroutine whose flag is up is about to be notified;
  and the messages are bounded by the signals: setting the event can wake the coroutine twice, through the flag and through the notification.
\<close>

definition pays :: "bool \<Rightarrow> nat \<Rightarrow> nat \<Rightarrow> rloop \<Rightarrow> nat" where
  "pays f nt q l = (if l = L_awake \<or> l = L_cleared then 1 else 0) + (if f \<and> l \<noteq> L_awake then 1 else 0) + nt + 2 * q"

definition cell_ok :: "bool \<Rightarrow> bool \<Rightarrow> bool \<Rightarrow> nat \<Rightarrow> nat \<Rightarrow> rloop \<Rightarrow> nat \<Rightarrow> nat \<Rightarrow> bool \<Rightarrow> rstate \<Rightarrow> bool" where
  "cell_ok own ht f nt q l sent arr d st \<longleftrightarrow> (d \<longrightarrow> 0 < q \<or> f \<or> l = L_awake \<or> l = L_cleared) \<and> (l = L_parked \<and> f \<longrightarrow> 0 < nt)
     \<and> sent + pays f nt q l \<le> 2 * arr \<and> (st = Not_entered \<longrightarrow> l = L_absent \<and> q = 0 \<and> \<not> f \<and> nt = 0 \<and> \<not> ht)
     \<and> (d \<or> ht \<longrightarrow> l \<noteq> L_absent) \<and> (l = L_gone \<longrightarrow> st = Left) \<and> (l \<noteq> L_absent \<or> 0 < sent \<longrightarrow> own)"

abbreviation at_cell :: "(nat \<Rightarrow> nat list) \<Rightarrow> sigsys \<Rightarrow> nat \<Rightarrow> nat \<Rightarrow> bool" where
  "at_cell sigs s r g \<equiv> cell_ok (g \<in> set (sigs r)) (handler s g = Some r) (flag s r g) (notifying s r g) (queued s r g) (rloop s r g)
     (count_list (outbox s r) g) (arrived s r g) (due s r g) (state s r)"

definition sig_inv :: "(nat \<Rightarrow> nat list) \<Rightarrow> sigsys \<Rightarrow> bool" where
  "sig_inv sigs s \<longleftrightarrow> (\<forall>r g. at_cell sigs s r g) \<and> (\<forall>r. taken s r \<le> length (outbox s r))"

lemma cell_enter: "cell_ok own ht f nt q l sent arr d Not_entered \<Longrightarrow> cell_ok own own f nt q (if own then L_check else L_absent) sent arr d Entered"
  by (cases own; cases d) (auto simp: cell_ok_def pays_def)

lemma cell_other: "cell_ok own ht f nt q l sent arr d st \<Longrightarrow> ht' \<longrightarrow> ht \<Longrightarrow> cell_ok own ht' f nt q l sent arr d st"
  by (auto simp: cell_ok_def)

lemma cell_exit: "cell_ok own ht f nt q l sent arr d Entered \<Longrightarrow> ht' \<longrightarrow> ht \<Longrightarrow> cell_ok own ht' f nt q l sent arr d Left"
  by (auto simp: cell_ok_def)

lemma cell_arrive: "cell_ok own True f nt q l sent arr d st \<Longrightarrow> cell_ok own True f nt (Suc q) l sent (Suc arr) True st"
  by (auto simp: cell_ok_def pays_def)

lemma cell_set: "cell_ok own ht f nt (Suc q) l sent arr d st \<Longrightarrow> cell_ok own ht True (if f then nt else Suc nt) q l sent arr d st"
  by (auto simp: cell_ok_def pays_def)

lemma cell_notify: "cell_ok own ht f (Suc nt) q l sent arr d st \<Longrightarrow> cell_ok own ht f nt q (if l = L_parked then L_awake else l) sent arr d st"
  by (auto simp: cell_ok_def pays_def)

lemma cell_wait: "cell_ok own ht f nt q L_check sent arr d st \<Longrightarrow> cell_ok own ht f nt q (if f then L_awake else L_parked) sent arr d st"
  by (auto simp: cell_ok_def pays_def)

lemma cell_clear: "cell_ok own ht f nt q L_awake sent arr d st \<Longrightarrow> cell_ok own ht False nt q L_cleared sent arr d st"
  by (auto simp: cell_ok_def pays_def)

lemma cell_send: "cell_ok own ht f nt q L_cleared sent arr d st \<Longrightarrow> cell_ok own ht f nt q L_check (Suc sent) arr False st"
  by (auto simp: cell_ok_def pays_def)

lemma cell_unwind: "cell_ok own ht f nt q L_parked sent arr d Left \<Longrightarrow> cell_ok own ht f nt q L_gone sent arr d Left"
  by (auto simp: cell_ok_def pays_def)

lemma sig_inv_upd:
  assumes "sig_inv sigs s" "at_cell sigs t r g" "\<And>r' g'. r' \<noteq> r \<or> g' \<noteq> g \<Longrightarrow> at_cell sigs s r' g' \<Longrightarrow> at_cell sigs t r' g'"
    and "\<And>r. taken s r \<le> length (outbox s r) \<Longrightarrow> taken t r \<le> length (outbox t r)"
  shows "sig_inv sigs t"
  unfolding sig_inv_def
proof (intro conjI allI)
  fix r' g'
  show "at_cell sigs t r' g'" using assms(1,2) assms(3)[of r' g'] by (cases "r' = r \<and> g' = g") (auto simp: sig_inv_def)
  show "taken t r' \<le> length (outbox t r')" using assms(1) assms(4)[of r'] by (simp add: sig_inv_def)
qed

lemma sig_inv_loop:
  assumes "loop_step r g s t" "sig_inv sigs s"
  shows "sig_inv sigs t"
proof -
  have c: "at_cell sigs s r g" using assms(2) by (simp add: sig_inv_def)
  show ?thesis using assms(1)
  proof cases
    case waits
    have "at_cell sigs t r g" using cell_wait c waits by simp
    then show ?thesis using waits by (intro sig_inv_upd[OF assms(2), where t = t and r = r and g = g]) auto
  next
    case clears
    have "at_cell sigs t r g" using cell_clear c clears by simp
    then show ?thesis using clears by (intro sig_inv_upd[OF assms(2), where t = t and r = r and g = g]) auto
  next
    case sends
    have "at_cell sigs t r g" using cell_send c sends by simp
    then show ?thesis using sends by (intro sig_inv_upd[OF assms(2), where t = t and r = r and g = g]) (auto intro: le_SucI)
  next
    case unwinds
    have "at_cell sigs t r g" using cell_unwind c unwinds by simp
    then show ?thesis using unwinds by (intro sig_inv_upd[OF assms(2), where t = t and r = r and g = g]) auto
  qed
qed

lemma sig_inv_enter:
  assumes "sig_inv sigs s" "state s r = Not_entered"
  shows "sig_inv sigs (sig_enter r (sigs r) s)" (is "sig_inv sigs ?t")
proof -
  have c: "\<forall>r' g. at_cell sigs s r' g" using assms(1) by (simp add: sig_inv_def)
  have "at_cell sigs ?t r' g" for r' g
  proof (cases "r' = r")
    case True
    have "handler s g \<noteq> Some r" using c assms(2) by (simp add: cell_ok_def)
    moreover have "at_cell sigs s r g" using c by blast
    from cell_enter[OF this[unfolded assms(2)]]
    have "cell_ok (g \<in> set (sigs r)) (g \<in> set (sigs r)) (flag s r g) (notifying s r g) (queued s r g) (if g \<in> set (sigs r) then L_check else L_absent)
        (count_list (outbox s r) g) (arrived s r g) (due s r g) Entered" .
    ultimately show ?thesis using True by (cases "g \<in> set (sigs r)") (simp_all add: sig_enter_def)
  next
    case False
    then have "handler ?t g = Some r' \<longrightarrow> handler s g = Some r'" by (simp add: sig_enter_def)
    from cell_other[OF c[rule_format, of g r'] this] show ?thesis using False by (simp add: sig_enter_def)
  qed
  then show ?thesis using assms(1) by (simp add: sig_inv_def sig_enter_def)
qed

lemma sig_inv_exit:
  assumes "sig_inv sigs s" "state s r = Entered"
  shows "sig_inv sigs (sig_exit r (sigs r) s)" (is "sig_inv sigs ?t")
proof -
  have c: "\<forall>r' g. at_cell sigs s r' g" using assms(1) by (simp add: sig_inv_def)
  have ht: "handler ?t g = Some r' \<longrightarrow> handler s g = Some r'" for r' g by (simp add: sig_exit_def)
  have "at_cell sigs ?t r' g" for r' g
  proof (cases "r' = r")
    case True
    have "at_cell sigs s r g" using c by blast
    from cell_exit[OF this[unfolded assms(2)] ht] show ?thesis using True by (simp add: sig_exit_def)
  next
    case False
    have "at_cell sigs s r' g" using c by blast
    from cell_other[OF this ht] show ?thesis using False by (simp add: sig_exit_def)
  qed
  then show ?thesis using assms(1) by (simp add: sig_inv_def sig_exit_def)
qed

lemma sig_inv_set:
  assumes "sig_inv sigs s" "0 < queued s r g"
  shows "sig_inv sigs (sig_set r g s)" (is "sig_inv sigs ?t")
proof -
  have c: "at_cell sigs s r g" using assms(1) by (simp add: sig_inv_def)
  obtain q where q: "queued s r g = Suc q" using assms(2) by (cases "queued s r g") simp_all
  have t: "?t = s\<lparr>queued := upd2 r g q (queued s), flag := upd2 r g True (flag s),
      notifying := upd2 r g (if flag s r g then notifying s r g else Suc (notifying s r g)) (notifying s)\<rparr>"
  proof (cases "flag s r g")
    case True
    then have "upd2 r g True (flag s) = flag s" "upd2 r g (notifying s r g) (notifying s) = notifying s" by (simp_all add: upd2_same)
    then show ?thesis using True q by (simp add: sig_set_def cas_def)
  qed (use q in \<open>simp add: sig_set_def cas_def\<close>)
  have "at_cell sigs ?t r g" using cell_set c unfolding t q by simp
  then show ?thesis unfolding t by (intro sig_inv_upd[OF assms(1), where r = r and g = g]) auto
qed

lemma sig_inv_arrive:
  assumes "sig_inv sigs s"
  shows "sig_inv sigs (sig_arrive g s)" (is "sig_inv sigs ?t")
proof (cases "handler s g")
  case None
  then show ?thesis using assms by (simp add: sig_arrive_def)
next
  case (Some r)
  have c: "at_cell sigs s r g" using assms by (simp add: sig_inv_def)
  have "at_cell sigs ?t r g" using Some cell_arrive c by (simp add: sig_arrive_def)
  then show ?thesis using Some by (intro sig_inv_upd[OF assms, where r = r and g = g]) (auto simp: sig_arrive_def)
qed

lemma sig_inv_notify:
  assumes "sig_inv sigs s" "0 < notifying s r g"
  shows "sig_inv sigs (s\<lparr>notifying := upd2 r g (notifying s r g - 1) (notifying s), rloop := upd2 r g (if rloop s r g = L_parked then L_awake else rloop s r g) (rloop s)\<rparr>)"
    (is "sig_inv sigs ?t")
proof -
  have c: "at_cell sigs s r g" using assms(1) by (simp add: sig_inv_def)
  obtain k where k: "notifying s r g = Suc k" using assms(2) by (cases "notifying s r g") simp_all
  have "at_cell sigs ?t r g" using cell_notify c k by simp
  then show ?thesis by (intro sig_inv_upd[OF assms(1), where r = r and g = g]) auto
qed

lemma sig_inv_step: "sig_step sigs s t \<Longrightarrow> sig_inv sigs s \<Longrightarrow> sig_inv sigs t"
proof (induction rule: sig_step.induct)
  case (receives s r)
  then show ?case by (simp add: sig_inv_def)
next
  case (notifies s r g)
  then show ?case using sig_inv_notify by blast
qed (simp_all add: sig_inv_enter sig_inv_exit sig_inv_arrive sig_inv_set sig_inv_loop)

interpretation sg: step_system sig_init "sig_step sigs" "sig_inv sigs" for sigs
proof
  show "sig_inv sigs s" if "sig_init s" for s using that by (auto simp: sig_init_def sig_inv_def cell_ok_def pays_def)
qed (rule sig_inv_step)

section \<open>Properties\<close>

text \<open>
  C32. No signal is lost by a receiver that is entered. A signal that was looked up for it and that no message has followed is on its way: the event is queued to be set, or a notification is due, or the
  coroutine can take its next step; so when nothing is left to do, a message followed every signal. There are at most two messages for a signal, and only for signals of the receiver.
\<close>

theorem signals_not_lost:
  assumes "sig_reach sigs s" "state s r = Entered"
  shows "(due s r g \<longrightarrow> 0 < queued s r g \<or> 0 < notifying s r g \<or> (\<exists>t. loop_step r g s t)) \<and>
    count_list (outbox s r) g \<le> 2 * arrived s r g \<and> set (outbox s r) \<subseteq> set (sigs r)"
proof -
  have inv: "sig_inv sigs s" using sg.reach_inv assms(1) by (simp add: sig_reach_def)
  then have c: "at_cell sigs s r g" by (simp add: sig_inv_def)
  have "0 < queued s r g \<or> 0 < notifying s r g \<or> (\<exists>t. loop_step r g s t)" if "due s r g"
  proof (cases "rloop s r g")
    case L_parked
    then show ?thesis using c that by (auto simp: cell_ok_def)
  qed (use c that assms(2) loop_step.intros[of s r g] in \<open>auto simp: cell_ok_def\<close>)
  moreover have "count_list (outbox s r) g \<le> 2 * arrived s r g" using c by (auto simp: cell_ok_def)
  moreover have "g' \<in> set (sigs r)" if "g' \<in> set (outbox s r)" for g'
  proof -
    have "at_cell sigs s r g'" using inv by (simp add: sig_inv_def)
    moreover have "0 < count_list (outbox s r) g'" using that count_notin by (metis count_list_0_iff gr0I)
    ultimately show ?thesis by (simp add: cell_ok_def)
  qed
  ultimately show ?thesis by blast
qed

section \<open>Concrete runs\<close>

text \<open>Receiver 0 for signal 10, with receiver 1 entered and left, or not at all.\<close>

definition lone_sig :: "nat option \<Rightarrow> nat \<Rightarrow> bool \<Rightarrow> nat \<Rightarrow> rloop \<Rightarrow> nat list \<Rightarrow> nat \<Rightarrow> bool \<Rightarrow> sigsys" where
  "lone_sig h q f nt l ob arr d = \<lparr>handler = (\<lambda>_. None)(10 := h), state = (\<lambda>_. Not_entered)(0 := Entered), queued = upd2 0 10 q (\<lambda>_ _. 0), flag = upd2 0 10 f (\<lambda>_ _. False),
     notifying = upd2 0 10 nt (\<lambda>_ _. 0), rloop = upd2 0 10 l (\<lambda>_ _. L_absent), outbox = (\<lambda>_. [])(0 := ob), taken = (\<lambda>_. 0),
     arrived = upd2 0 10 arr (\<lambda>_ _. 0), due = upd2 0 10 d (\<lambda>_ _. False)\<rparr>"

definition blank_sig :: sigsys where
  "blank_sig = \<lparr>handler = (\<lambda>_. None), state = (\<lambda>_. Not_entered), queued = (\<lambda>_ _. 0), flag = (\<lambda>_ _. False), notifying = (\<lambda>_ _. 0), rloop = (\<lambda>_ _. L_absent), outbox = (\<lambda>_. []),
     taken = (\<lambda>_. 0), arrived = (\<lambda>_ _. 0), due = (\<lambda>_ _. False)\<rparr>"

lemma lone_next: "sig_reach sigs s \<Longrightarrow> sig_step sigs s t \<Longrightarrow> t = u \<Longrightarrow> sig_reach sigs u"
  by (auto simp: sig_reach_def intro: reach.next_state)

lemma upd2_simps [simp]: "upd2 r g v (upd2 r g u f) = upd2 r g v f" "upd2 r g (f r g) f = f"
  by (simp_all add: upd2_def)

abbreviation sigs10 :: "nat \<Rightarrow> nat list" where
  "sigs10 \<equiv> \<lambda>_. [10]"

lemma blank_reach: "sig_reach sigs blank_sig"
  unfolding sig_reach_def by (rule reach.start) (simp add: sig_init_def blank_sig_def)

lemma lone_start: "sig_reach sigs10 (lone_sig (Some 0) 0 False 0 L_check [] 0 False)"
  by (rule lone_next[OF blank_reach sig_step.enters[of _ 0]])
     (simp_all add: blank_sig_def lone_sig_def sig_enter_def upd2_same fun_eq_iff upd2_def)

lemma lone_due: "sig_reach sigs10 (lone_sig (Some 0) 1 False 0 L_check [] 1 True)"
  by (rule lone_next[OF lone_start sig_step.arrives[of _ _ 10]]) (simp add: lone_sig_def sig_arrive_def)

lemma lone_loop: "sig_reach sigs s \<Longrightarrow> loop_step r g s t \<Longrightarrow> t = u \<Longrightarrow> sig_reach sigs u"
  using lone_next[OF _ sig_step.loops] by blast

theorem signals_not_lost_witness:
  "sig_reach sigs10 (lone_sig (Some 0) 1 False 0 L_check [] 1 True) \<and> due (lone_sig (Some 0) 1 False 0 L_check [] 1 True) 0 10 \<and>
   count_list (outbox (lone_sig (Some 0) 1 False 0 L_check [] 1 True) 0) 10 \<le> 2"
  using lone_due signals_not_lost[OF lone_due, of 0 10] by (simp add: lone_sig_def)

text \<open>
  One signal can give two messages: the coroutine finds the flag up before the one who set it has notified, clears it, sends and registers again, and the notification wakes it a second time.
\<close>

theorem signal_doubled: "\<exists>s. sig_reach sigs10 s \<and> arrived s 0 10 = 1 \<and> outbox s 0 = [10, 10]"
proof -
  have "sig_reach sigs10 (lone_sig (Some 0) 0 True 1 L_check [] 1 True)"
    by (rule lone_next[OF lone_due sig_step.runs[of _ 0 10]]) (simp_all add: lone_sig_def sig_set_def cas_def)
  then have "sig_reach sigs10 (lone_sig (Some 0) 0 True 1 L_awake [] 1 True)"
    by (rule lone_loop[OF _ loop_step.waits[of _ 0 10]]) (simp_all add: lone_sig_def)
  then have "sig_reach sigs10 (lone_sig (Some 0) 0 False 1 L_cleared [] 1 True)"
    by (rule lone_loop[OF _ loop_step.clears[of _ 0 10]]) (simp_all add: lone_sig_def)
  then have "sig_reach sigs10 (lone_sig (Some 0) 0 False 1 L_check [10] 1 False)"
    by (rule lone_loop[OF _ loop_step.sends[of _ 0 10]]) (simp_all add: lone_sig_def)
  then have "sig_reach sigs10 (lone_sig (Some 0) 0 False 1 L_parked [10] 1 False)"
    by (rule lone_loop[OF _ loop_step.waits[of _ 0 10]]) (simp_all add: lone_sig_def)
  then have "sig_reach sigs10 (lone_sig (Some 0) 0 False 0 L_awake [10] 1 False)"
    by (rule lone_next[OF _ sig_step.notifies[of _ 0 10]]) (simp_all add: lone_sig_def)
  then have "sig_reach sigs10 (lone_sig (Some 0) 0 False 0 L_cleared [10] 1 False)"
    by (rule lone_loop[OF _ loop_step.clears[of _ 0 10]]) (simp_all add: lone_sig_def)
  then have "sig_reach sigs10 (lone_sig (Some 0) 0 False 0 L_check [10, 10] 1 False)"
    by (rule lone_loop[OF _ loop_step.sends[of _ 0 10]]) (simp_all add: lone_sig_def)
  then show ?thesis by (intro exI[of _ "lone_sig (Some 0) 0 False 0 L_check [10, 10] 1 False"]) (simp add: lone_sig_def)
qed

text \<open>
  A second receiver for a signal takes it over, and when it is left the signal is nobody's: the first receiver, still entered, hears no more of it.
\<close>

theorem nested_receiver_deaf:
  "\<exists>s. sig_reach sigs10 s \<and> state s 0 = Entered \<and> rloop s 0 10 = L_check \<and> (\<forall>g. sig_arrive g s = s)"
proof -
  let ?s = "lone_sig (Some 0) 0 False 0 L_check [] 0 False"
  let ?t = "sig_exit 1 [10] (sig_enter 1 [10] ?s)"
  have "sig_reach sigs10 (sig_enter 1 [10] ?s)" by (rule lone_next[OF lone_start sig_step.enters[of _ 1]]) (simp_all add: lone_sig_def)
  then have r: "sig_reach sigs10 ?t" by (rule lone_next[OF _ sig_step.exits[of _ 1]]) (simp_all add: lone_sig_def sig_enter_def)
  have "handler ?t = (\<lambda>_. None)" by (simp add: fun_eq_iff lone_sig_def sig_enter_def sig_exit_def)
  then have "sig_arrive g ?t = ?t" for g by (simp add: sig_arrive_def)
  moreover have "state ?t 0 = Entered \<and> rloop ?t 0 10 = L_check" by (simp add: lone_sig_def sig_enter_def sig_exit_def)
  ultimately show ?thesis using r by blast
qed

end
