(* ===== verification/Unbounded.thy ===== *)
theory Unbounded
  imports Channel
begin

text \<open>
  The unbounded channel: \<open>UnboundedChannel\<close>, \<open>UnboundedChannelSender\<close> and \<open>UnboundedChannelReceiver\<close> of \<open>src/src/sync.rs\<close> and their Python sides in \<open>src/tonio/_sync.py\<close> and
  \<open>src/tonio/_colored/_sync.py\<close>. A send never waits. The ends are counted, and dropping the last sender or the last receiver closes the channel. A step is one access to a shared cell or one
  section under the lock, as in \<open>Channel\<close>, whose abstract queue this channel implements as well.
\<close>

section \<open>The system\<close>

text \<open>
  A sending end: not made; idle; past the check of \<open>closed\<close>; past the queue, with a receiver to wake; found to be the last one when dropped; dropped. A receiving end: not made; idle, after it returned a
  message or raised; at the fast path; at the slow path; waiting; last when dropped; dropped.
\<close>

datatype 'm usend = U_none | U_idle | U_open 'm | U_pushed "nat option" | U_last | U_dropped

datatype urecv = V_none | V_idle | V_fast | V_slow | V_wait nat | V_last | V_dropped

record 'm uchan =
  uqueue :: "'m list"
  uwaiters :: "nat list"
  uclosed :: bool
  tx :: usize
  rx :: usize
  uevs :: "nat \<Rightarrow> bool"
  ufresh :: nat
  usender :: "nat \<Rightarrow> 'm usend"
  ureceiver :: "nat \<Rightarrow> urecv"
  ucloser :: closer
  uops :: "'m op list"

definition uchan_init :: "'m uchan" where
  "uchan_init = \<lparr>uqueue = [], uwaiters = [], uclosed = False, tx = 0, rx = 0, uevs = (\<lambda>_. False), ufresh = 0, usender = (\<lambda>_. U_none), ureceiver = (\<lambda>_. V_none),
     ucloser = C_open, uops = []\<rparr>"

text \<open>The sections under the lock: \<open>push\<close> and the macro of \<open>pull\<close>; the exchange of \<open>closed\<close> at the beginning of \<open>close\<close>.\<close>

definition upush_lock :: "'m \<Rightarrow> 'm list \<Rightarrow> nat list \<Rightarrow> 'm list \<times> nat option \<times> nat list" where
  "upush_lock m q ws = (q @ [m], (case ws of [] \<Rightarrow> (None, []) | e # ws' \<Rightarrow> (Some e, ws')))"

datatype 'm upulled = U_got 'm "'m list" | U_closed | U_empty

definition utry_pull :: "'m list \<Rightarrow> bool \<Rightarrow> 'm upulled" where
  "utry_pull q c = (case q of m # q' \<Rightarrow> U_got m q' | [] \<Rightarrow> if c then U_closed else U_empty)"

definition uclose :: "'m uchan \<Rightarrow> 'm uchan" where
  "uclose s = (case cas False True (uclosed s) of Some b \<Rightarrow> s\<lparr>uclosed := b, ucloser := C_flag, uops := Shut # uops s\<rparr> | None \<Rightarrow> s)"

text \<open>Senders below \<open>n\<close>, receivers below \<open>r\<close>; \<open>cancels\<close>: whether a receiver can be cancelled while it waits.\<close>

inductive uchan_step :: "bool \<Rightarrow> nat \<Rightarrow> nat \<Rightarrow> 'm uchan \<Rightarrow> 'm uchan \<Rightarrow> bool" for cancels n r where
  new_sender: "i < n \<Longrightarrow> usender s i = U_none \<Longrightarrow> uchan_step cancels n r s (s\<lparr>tx := tx s + 1, usender := (usender s)(i := U_idle)\<rparr>)"
| send: "i < n \<Longrightarrow> usender s i = U_idle \<Longrightarrow> \<not> uclosed s \<Longrightarrow> uchan_step cancels n r s (s\<lparr>usender := (usender s)(i := U_open m)\<rparr>)"
| refused: "i < n \<Longrightarrow> usender s i = U_idle \<Longrightarrow> uclosed s \<Longrightarrow> uchan_step cancels n r s (s\<lparr>uops := No_send i # uops s\<rparr>)"
| pushes: "i < n \<Longrightarrow> usender s i = U_open m \<Longrightarrow> upush_lock m (uqueue s) (uwaiters s) = (q, wake, ws) \<Longrightarrow>
     uchan_step cancels n r s (s\<lparr>usender := (usender s)(i := U_pushed wake), uqueue := q, uwaiters := ws, uops := Enq i m # uops s\<rparr>)"
| wakes: "i < n \<Longrightarrow> usender s i = U_pushed wake \<Longrightarrow> uchan_step cancels n r s (s\<lparr>usender := (usender s)(i := U_idle), uevs := set_opt wake (uevs s)\<rparr>)"
| closes: "i < n \<Longrightarrow> usender s i = U_idle \<Longrightarrow> uchan_step cancels n r s (uclose s)"
| drop_sender: "i < n \<Longrightarrow> usender s i = U_idle \<Longrightarrow>
     uchan_step cancels n r s (s\<lparr>tx := tx s - 1, usender := (usender s)(i := if tx s = 1 then U_last else U_dropped)\<rparr>)"
| last_sender: "i < n \<Longrightarrow> usender s i = U_last \<Longrightarrow> uchan_step cancels n r s ((uclose s)\<lparr>usender := (usender s)(i := U_dropped)\<rparr>)"
| new_receiver: "j < r \<Longrightarrow> ureceiver s j = V_none \<Longrightarrow> uchan_step cancels n r s (s\<lparr>rx := rx s + 1, ureceiver := (ureceiver s)(j := V_idle)\<rparr>)"
| receive: "j < r \<Longrightarrow> ureceiver s j = V_idle \<Longrightarrow> uchan_step cancels n r s (s\<lparr>ureceiver := (ureceiver s)(j := V_fast)\<rparr>)"
| gets: "j < r \<Longrightarrow> ureceiver s j = V_fast \<or> ureceiver s j = V_slow \<Longrightarrow> utry_pull (uqueue s) (uclosed s) = U_got m q \<Longrightarrow>
     uchan_step cancels n r s (s\<lparr>ureceiver := (ureceiver s)(j := V_idle), uqueue := q, uops := Deq j m # uops s\<rparr>)"
| no_more: "j < r \<Longrightarrow> ureceiver s j = V_fast \<or> ureceiver s j = V_slow \<Longrightarrow> utry_pull (uqueue s) (uclosed s) = U_closed \<Longrightarrow>
     uchan_step cancels n r s (s\<lparr>ureceiver := (ureceiver s)(j := V_idle), uops := No_recv j # uops s\<rparr>)"
| slow: "j < r \<Longrightarrow> ureceiver s j = V_fast \<Longrightarrow> utry_pull (uqueue s) (uclosed s) = U_empty \<Longrightarrow> uchan_step cancels n r s (s\<lparr>ureceiver := (ureceiver s)(j := V_slow)\<rparr>)"
| parks: "j < r \<Longrightarrow> ureceiver s j = V_slow \<Longrightarrow> utry_pull (uqueue s) (uclosed s) = U_empty \<Longrightarrow>
     uchan_step cancels n r s (s\<lparr>ureceiver := (ureceiver s)(j := V_wait (ufresh s)), uwaiters := uwaiters s @ [ufresh s], ufresh := Suc (ufresh s)\<rparr>)"
| woken: "j < r \<Longrightarrow> ureceiver s j = V_wait e \<Longrightarrow> uevs s e \<Longrightarrow> uchan_step cancels n r s (s\<lparr>ureceiver := (ureceiver s)(j := V_fast)\<rparr>)"
| cancelled: "cancels \<Longrightarrow> j < r \<Longrightarrow> ureceiver s j = V_wait e \<Longrightarrow> uchan_step cancels n r s (s\<lparr>ureceiver := (ureceiver s)(j := V_idle)\<rparr>)"
| drop_receiver: "j < r \<Longrightarrow> ureceiver s j = V_idle \<Longrightarrow>
     uchan_step cancels n r s (s\<lparr>rx := rx s - 1, ureceiver := (ureceiver s)(j := if rx s = 1 then V_last else V_dropped)\<rparr>)"
| last_receiver: "j < r \<Longrightarrow> ureceiver s j = V_last \<Longrightarrow> uchan_step cancels n r s ((uclose s)\<lparr>ureceiver := (ureceiver s)(j := V_dropped)\<rparr>)"
| takes: "ucloser s = C_flag \<Longrightarrow> uchan_step cancels n r s (s\<lparr>uwaiters := [], ucloser := C_take (uwaiters s)\<rparr>)"
| drains: "ucloser s = C_take ws \<Longrightarrow> uchan_step cancels n r s (s\<lparr>uevs := (\<lambda>e. uevs s e \<or> e \<in> set ws), ucloser := C_done\<rparr>)"

definition uchan_reach :: "bool \<Rightarrow> nat \<Rightarrow> nat \<Rightarrow> 'm uchan \<Rightarrow> bool" where
  "uchan_reach cancels n r = reach (\<lambda>s. s = uchan_init) (uchan_step cancels n r)"

section \<open>The queue\<close>

definition ufifo_inv :: "'m uchan \<Rightarrow> bool" where
  "ufifo_inv s \<longleftrightarrow> fifo_run (uops s) = Some (uqueue s, uclosed s) \<and> (uclosed s \<longleftrightarrow> ucloser s \<noteq> C_open)"

lemma utry_pull_simps:
  "utry_pull q c = U_got m q' \<longleftrightarrow> q = m # q'" "utry_pull q c = U_closed \<longleftrightarrow> q = [] \<and> c" "utry_pull q c = U_empty \<longleftrightarrow> q = [] \<and> \<not> c"
  by (auto simp: utry_pull_def split: list.splits)

lemma uclose_fifo: "ufifo_inv s \<Longrightarrow> ufifo_inv (uclose s)"
  by (auto simp: ufifo_inv_def uclose_def fifo_apply_def cas_def)

lemma ufifo_frame: "ufifo_inv s \<Longrightarrow> uops t = uops s \<Longrightarrow> uqueue t = uqueue s \<Longrightarrow> uclosed t = uclosed s \<Longrightarrow> (ucloser t = C_open \<longleftrightarrow> ucloser s = C_open) \<Longrightarrow> ufifo_inv t"
  by (simp add: ufifo_inv_def)

lemma ufifo_inv_step: "uchan_step cancels n r s t \<Longrightarrow> ufifo_inv s \<Longrightarrow> ufifo_inv t"
proof (induction rule: uchan_step.induct)
  case (closes i s)
  then show ?case by (simp add: uclose_fifo)
next
  case (last_sender i s)
  show ?case by (rule ufifo_frame[OF uclose_fifo[OF last_sender(3)]]) simp_all
next
  case (last_receiver j s)
  show ?case by (rule ufifo_frame[OF uclose_fifo[OF last_receiver(3)]]) simp_all
next
  case (refused i s)
  then show ?case by (simp add: ufifo_inv_def fifo_apply_def)
next
  case (pushes i s m q wake ws)
  then show ?case by (auto simp: ufifo_inv_def fifo_apply_def upush_lock_def)
next
  case (gets j s m q)
  then show ?case by (simp add: ufifo_inv_def fifo_apply_def utry_pull_simps)
next
  case (no_more j s)
  then show ?case by (simp add: ufifo_inv_def fifo_apply_def utry_pull_simps)
qed (erule ufifo_frame; simp)+

text \<open>All that was sent and all that was received, oldest first.\<close>

primrec all_sent :: "'m op list \<Rightarrow> 'm list" where
  "all_sent [] = []"
| "all_sent (x # xs) = all_sent xs @ (case x of Enq i m \<Rightarrow> [m] | _ \<Rightarrow> [])"

primrec all_received :: "'m op list \<Rightarrow> 'm list" where
  "all_received [] = []"
| "all_received (x # xs) = all_received xs @ (case x of Deq j m \<Rightarrow> [m] | _ \<Rightarrow> [])"

lemma fifo_roundtrip: "fifo_run xs = Some (q, c) \<Longrightarrow> all_sent xs = all_received xs @ q"
proof (induction xs arbitrary: q c)
  case (Cons x xs)
  then obtain q' c' where "fifo_run xs = Some (q', c')" "fifo_apply x (q', c') = Some (q, c)" by (auto split: option.splits)
  then show ?case using Cons.IH[of q' c'] by (cases x) (auto simp: fifo_apply_def split: list.splits if_splits)
qed simp

section \<open>Who is woken\<close>

text \<open>
  An event is spent when it is set, or about to be set by a sender or by whoever closes. A receiver that waits has its event registered or spent, never both, and without
  cancellation what is registered belongs to a receiver that waits, so that there are never more messages than receivers on their way as long as one is still registered.
\<close>

definition spent :: "'m uchan \<Rightarrow> nat \<Rightarrow> bool" where
  "spent s e \<longleftrightarrow> uevs s e \<or> (\<exists>i. usender s i = U_pushed (Some e)) \<or> to_take e (ucloser s)"

definition events_ok :: "'m uchan \<Rightarrow> bool" where
  "events_ok s \<longleftrightarrow> distinct (uwaiters s) \<and> (\<forall>e \<in> set (uwaiters s). \<not> spent s e \<and> e < ufresh s) \<and> (\<forall>e. spent s e \<longrightarrow> e < ufresh s)
     \<and> (\<forall>j e. ureceiver s j = V_wait e \<longrightarrow> e < ufresh s \<and> (e \<in> set (uwaiters s) \<or> spent s e))
     \<and> (\<forall>j k e. ureceiver s j = V_wait e \<and> ureceiver s k = V_wait e \<longrightarrow> j = k)"

definition on_the_way :: "nat list \<Rightarrow> urecv \<Rightarrow> bool" where
  "on_the_way ws v \<longleftrightarrow> v = V_fast \<or> v = V_slow \<or> (\<exists>e. v = V_wait e \<and> e \<notin> set ws)"

definition served_ok :: "nat \<Rightarrow> 'm uchan \<Rightarrow> bool" where
  "served_ok r s \<longleftrightarrow> (\<forall>e \<in> set (uwaiters s). \<exists>j<r. ureceiver s j = V_wait e)
     \<and> (uwaiters s \<noteq> [] \<longrightarrow> length (uqueue s) \<le> card {j. j < r \<and> on_the_way (uwaiters s) (ureceiver s j)})"

lemma ex_upd: "\<not> P (f i) \<Longrightarrow> (\<exists>k. P ((f(i := u)) k)) \<longleftrightarrow> (\<exists>k. P (f k)) \<or> P u"
  by (metis fun_upd_other fun_upd_same)

text \<open>Steps that spend nothing, register nothing and park nobody.\<close>

lemma spent_same:
  assumes "uevs t = uevs s" "usender t = (usender s)(i := u)" "\<And>e. u \<noteq> U_pushed (Some e)" "\<And>e. usender s i \<noteq> U_pushed (Some e)"
    "\<And>e. to_take e (ucloser t) = to_take e (ucloser s)"
  shows "spent t = spent s"
proof
  show "spent t e = spent s e" for e
    using ex_upd[of "\<lambda>v. v = U_pushed (Some e)" "usender s" i u] assms by (simp add: spent_def)
qed

lemma events_ok_frame:
  assumes "events_ok s" "spent t = spent s" "uwaiters t = uwaiters s" "ufresh t = ufresh s" "\<And>j e. ureceiver t j = V_wait e \<Longrightarrow> ureceiver s j = V_wait e"
  shows "events_ok t"
  using assms unfolding events_ok_def by metis

lemma spent_receiver: "uevs t = uevs s \<Longrightarrow> usender t = usender s \<Longrightarrow> ucloser t = ucloser s \<Longrightarrow> spent t = spent s"
  by (intro ext) (simp add: spent_def)

lemma spent_uclose: "spent (uclose s) = spent s" if "ufifo_inv s"
  using that by (intro ext) (auto simp: spent_def uclose_def cas_def ufifo_inv_def)

lemma uclose_frame [simp]:
  "uwaiters (uclose s) = uwaiters s" "ufresh (uclose s) = ufresh s" "ureceiver (uclose s) = ureceiver s" "usender (uclose s) = usender s" "uqueue (uclose s) = uqueue s"
  "tx (uclose s) = tx s" "rx (uclose s) = rx s" "uevs (uclose s) = uevs s" "uclosed (uclose s)"
  by (simp_all add: uclose_def cas_def)

lemma spent_push:
  assumes "usender s i = U_open m" "usender t = (usender s)(i := U_pushed wake)" "uevs t = uevs s" "ucloser t = ucloser s"
  shows "spent t e \<longleftrightarrow> spent s e \<or> wake = Some e"
  using ex_upd[of "\<lambda>v. v = U_pushed (Some e)" "usender s" i "U_pushed wake"] assms by (auto simp: spent_def)

lemma spent_wake:
  assumes "usender s i = U_pushed wake" "usender t = (usender s)(i := U_idle)" "uevs t = set_opt wake (uevs s)" "ucloser t = ucloser s"
  shows "spent t e \<longleftrightarrow> spent s e"
proof (cases "wake = Some e")
  case True
  then show ?thesis using assms by (auto simp: spent_def set_opt_eq)
next
  case False
  then show ?thesis using ex_upd[of "\<lambda>v. v = U_pushed (Some e)" "usender s" i U_idle] assms by (auto simp: spent_def set_opt_eq)
qed

lemma events_ok_push:
  assumes "events_ok s" "usender s i = U_open m" "upush_lock m (uqueue s) (uwaiters s) = (q, wake, ws)"
  shows "events_ok (s\<lparr>usender := (usender s)(i := U_pushed wake), uqueue := q, uwaiters := ws, uops := xs\<rparr>)" (is "events_ok ?t")
proof -
  have sp: "spent ?t e \<longleftrightarrow> spent s e \<or> wake = Some e" for e by (rule spent_push[OF assms(2)]) simp_all
  show ?thesis
  proof (cases "uwaiters s")
    case Nil
    then have "wake = None" "ws = []" using assms(3) by (simp_all add: upush_lock_def)
    then show ?thesis using assms(1) sp Nil unfolding events_ok_def by simp
  next
    case (Cons e ws')
    then have "wake = Some e" "ws = ws'" using assms(3) by (simp_all add: upush_lock_def)
    then show ?thesis using assms(1) sp Cons unfolding events_ok_def by auto
  qed
qed

lemma events_ok_park:
  assumes "events_ok s"
  shows "events_ok (s\<lparr>ureceiver := (ureceiver s)(j := V_wait (ufresh s)), uwaiters := uwaiters s @ [ufresh s], ufresh := Suc (ufresh s)\<rparr>)" (is "events_ok ?t")
proof -
  have sp: "spent ?t = spent s" by (rule spent_receiver) simp_all
  have "\<not> spent s (ufresh s)" "ufresh s \<notin> set (uwaiters s)" "ureceiver s k \<noteq> V_wait (ufresh s)" for k using assms unfolding events_ok_def by blast+
  then show ?thesis using assms unfolding events_ok_def sp by (auto simp: less_Suc_eq)
qed

lemma events_ok_step: "uchan_step cancels n r s t \<Longrightarrow> ufifo_inv s \<Longrightarrow> events_ok s \<Longrightarrow> events_ok t"
proof (induction rule: uchan_step.induct)
  case (new_sender i s)
  show ?case by (rule events_ok_frame[OF new_sender(4) spent_same[where i = i and u = U_idle]]) (use new_sender in simp_all)
next
  case (send i s m)
  show ?case by (rule events_ok_frame[OF send(5) spent_same[where i = i and u = "U_open m"]]) (use send in simp_all)
next
  case (refused i s)
  show ?case by (rule events_ok_frame[OF refused(5) spent_receiver]) simp_all
next
  case (pushes i s m q wake ws)
  then show ?case by (simp add: events_ok_push)
next
  case (wakes i s wake)
  have "spent (s\<lparr>usender := (usender s)(i := U_idle), uevs := set_opt wake (uevs s)\<rparr>) = spent s" by (intro ext spent_wake[OF wakes(2)]) simp_all
  from events_ok_frame[OF wakes(4) this] show ?case by simp
next
  case (closes i s)
  show ?case by (rule events_ok_frame[OF closes(4) spent_uclose[OF closes(3)]]) simp_all
next
  case (drop_sender i s)
  show ?case
    by (rule events_ok_frame[OF drop_sender(4) spent_same[where i = i and u = "if tx s = 1 then U_last else U_dropped"]]) (use drop_sender in \<open>simp_all split: if_splits\<close>)
next
  case (last_sender i s)
  have "spent ((uclose s)\<lparr>usender := (usender s)(i := U_dropped)\<rparr>) = spent (uclose s)" by (rule spent_same[where i = i and u = U_dropped]) (use last_sender in simp_all)
  from events_ok_frame[OF last_sender(4) trans[OF this spent_uclose[OF last_sender(3)]]] show ?case by simp
next
  case (takes s)
  have "spent (s\<lparr>uwaiters := [], ucloser := C_take (uwaiters s)\<rparr>) e \<longleftrightarrow> spent s e \<or> e \<in> set (uwaiters s)" for e using takes(1) by (auto simp: spent_def)
  then show ?case using takes(3) unfolding events_ok_def by auto
next
  case (drains s ws)
  have "spent (s\<lparr>uevs := (\<lambda>e. uevs s e \<or> e \<in> set ws), ucloser := C_done\<rparr>) = spent s" using drains(1) by (intro ext) (auto simp: spent_def)
  from events_ok_frame[OF drains(3) this] show ?case by simp
next
  case (parks j s)
  then show ?case by (simp add: events_ok_park)
next
  case (last_receiver j s)
  have "spent ((uclose s)\<lparr>ureceiver := (ureceiver s)(j := V_dropped)\<rparr>) = spent s" using spent_receiver[of _ "uclose s"] spent_uclose[OF last_receiver(3)] by simp
  then show ?case by (intro events_ok_frame[OF last_receiver(4)]) (simp_all split: if_splits)
next
  case (new_receiver j s)
  show ?case by (rule events_ok_frame[OF new_receiver(4) spent_receiver]) (auto split: if_splits)
next
  case (receive j s)
  show ?case by (rule events_ok_frame[OF receive(4) spent_receiver]) (auto split: if_splits)
next
  case (gets j s m q)
  show ?case by (rule events_ok_frame[OF gets(5) spent_receiver]) (auto split: if_splits)
next
  case (no_more j s)
  show ?case by (rule events_ok_frame[OF no_more(5) spent_receiver]) (auto split: if_splits)
next
  case (slow j s)
  show ?case by (rule events_ok_frame[OF slow(5) spent_receiver]) (auto split: if_splits)
next
  case (woken j s e)
  show ?case by (rule events_ok_frame[OF woken(5) spent_receiver]) (auto split: if_splits)
next
  case (cancelled j s e)
  show ?case by (rule events_ok_frame[OF cancelled(5) spent_receiver]) (auto split: if_splits)
next
  case (drop_receiver j s)
  show ?case by (rule events_ok_frame[OF drop_receiver(4) spent_receiver]) (auto split: if_splits)
qed

section \<open>Receivers on their way\<close>

lemma served_ok_frame:
  assumes "served_ok r s" "uwaiters t = uwaiters s" "length (uqueue t) \<le> length (uqueue s)" "ureceiver t = (ureceiver s)(j := v)"
    and "\<And>e. ureceiver s j = V_wait e \<Longrightarrow> e \<notin> set (uwaiters s)" "on_the_way (uwaiters s) (ureceiver s j) \<Longrightarrow> on_the_way (uwaiters s) v"
  shows "served_ok r t"
proof -
  have "\<exists>k<r. ureceiver t k = V_wait e" if e: "e \<in> set (uwaiters s)" for e
  proof -
    obtain k where "k < r" "ureceiver s k = V_wait e" using assms(1) e unfolding served_ok_def by blast
    then show ?thesis using assms(4,5) e by (cases "k = j") auto
  qed
  moreover have "card {k. k < r \<and> on_the_way (uwaiters s) (ureceiver s k)} \<le> card {k. k < r \<and> on_the_way (uwaiters s) (ureceiver t k)}"
    using assms(4,6) by (intro card_mono) auto
  moreover have "uwaiters s \<noteq> [] \<longrightarrow> length (uqueue s) \<le> card {k. k < r \<and> on_the_way (uwaiters s) (ureceiver s k)}" using assms(1) by (simp add: served_ok_def)
  ultimately show ?thesis using assms(3) unfolding served_ok_def assms(2) by (intro conjI impI ballI) (assumption | linarith | blast)+
qed

lemma served_ok_get:
  assumes "served_ok r s" "j < r" "ureceiver s j = V_fast \<or> ureceiver s j = V_slow" "uqueue s = m # q" "uwaiters t = uwaiters s" "uqueue t = q" "ureceiver t = (ureceiver s)(j := V_idle)"
  shows "served_ok r t"
proof -
  let ?S = "\<lambda>f. {k. k < r \<and> on_the_way (uwaiters s) (f k)}"
  have "?S (ureceiver t) = ?S (ureceiver s) - {j}" using assms(7) by (auto simp: on_the_way_def split: if_splits)
  moreover have "j \<in> ?S (ureceiver s)" using assms(2,3) by (auto simp: on_the_way_def)
  ultimately have c: "card (?S (ureceiver s)) = Suc (card (?S (ureceiver t)))" using card.remove[of "?S (ureceiver s)" j] by simp
  have "\<exists>k<r. ureceiver t k = V_wait e" if e: "e \<in> set (uwaiters s)" for e
  proof -
    obtain k where "k < r" "ureceiver s k = V_wait e" using assms(1) e unfolding served_ok_def by blast
    then show ?thesis using assms(3,7) by (cases "k = j") auto
  qed
  then show ?thesis using assms(1,4,5,6) c unfolding served_ok_def by auto
qed

lemma served_ok_push:
  assumes "served_ok r s" "events_ok s" "upush_lock m (uqueue s) (uwaiters s) = (q, wake, ws)" "uwaiters t = ws" "uqueue t = q" "ureceiver t = ureceiver s"
  shows "served_ok r t"
proof (cases "uwaiters s")
  case Nil
  then have "ws = []" using assms(3) by (simp add: upush_lock_def)
  then show ?thesis using assms(4) by (simp add: served_ok_def)
next
  case (Cons e ws')
  then have w: "ws = ws'" and q: "q = uqueue s @ [m]" using assms(3) by (simp_all add: upush_lock_def)
  obtain j where j: "j < r" "ureceiver s j = V_wait e" using assms(1) Cons by (auto simp: served_ok_def)
  have e: "e \<notin> set ws'" using assms(2) Cons by (simp add: events_ok_def)
  let ?S = "\<lambda>xs. {k. k < r \<and> on_the_way xs (ureceiver s k)}"
  have "insert j (?S (e # ws')) \<subseteq> ?S ws'" using j e by (auto simp: on_the_way_def)
  then have "card (insert j (?S (e # ws'))) \<le> card (?S ws')" by (intro card_mono) simp_all
  moreover have "j \<notin> ?S (e # ws')" using j by (auto simp: on_the_way_def)
  ultimately have "Suc (card (?S (e # ws'))) \<le> card (?S ws')" by simp
  then show ?thesis using assms(1,4,5,6) Cons w q by (auto simp: served_ok_def)
qed

lemma served_ok_same: "served_ok r s \<Longrightarrow> uwaiters t = uwaiters s \<Longrightarrow> uqueue t = uqueue s \<Longrightarrow> ureceiver t = ureceiver s \<Longrightarrow> served_ok r t"
  by (simp add: served_ok_def)

lemma served_ok_step: "uchan_step False n r s t \<Longrightarrow> events_ok s \<Longrightarrow> served_ok r s \<Longrightarrow> served_ok r t"
proof (induction rule: uchan_step.induct)
  case (pushes i s m q wake ws)
  show ?case by (rule served_ok_push[OF pushes(5,4,3)]) simp_all
next
  case (gets j s m q)
  show ?case by (rule served_ok_get[OF gets(5,1,2), of m q]) (use gets(3) in \<open>simp_all add: utry_pull_simps\<close>)
next
  case (no_more j s)
  have "uqueue s = []" using no_more(3) by (simp add: utry_pull_simps)
  moreover have "\<exists>k<r. ((ureceiver s)(j := V_idle)) k = V_wait e" if e: "e \<in> set (uwaiters s)" for e
  proof -
    obtain k where "k < r" "ureceiver s k = V_wait e" using no_more(5) e unfolding served_ok_def by blast
    then show ?thesis using no_more(2) by (cases "k = j") auto
  qed
  ultimately show ?case by (simp add: served_ok_def)
next
  case (parks j s)
  have "uqueue s = []" using parks(3) by (simp add: utry_pull_simps)
  moreover have "\<exists>k<r. ((ureceiver s)(j := V_wait (ufresh s))) k = V_wait e" if e: "e = ufresh s \<or> e \<in> set (uwaiters s)" for e
  proof (cases "e = ufresh s")
    case False
    then obtain k where "k < r" "ureceiver s k = V_wait e" using parks(5) e unfolding served_ok_def by blast
    then show ?thesis using parks(2) by (cases "k = j") auto
  qed (use parks(1) in auto)
  ultimately show ?case by (auto simp: served_ok_def)
next
  case (woken j s e)
  have "spent s e" using woken(3) by (simp add: spent_def)
  then have "e \<notin> set (uwaiters s)" using woken(4) unfolding events_ok_def by blast
  then show ?case using woken(2) by (intro served_ok_frame[OF woken(5), where j = j and v = V_fast]) (auto simp: on_the_way_def)
next
  case (new_receiver j s)
  then show ?case by (intro served_ok_frame[OF new_receiver(4), where j = j and v = V_idle]) (auto simp: on_the_way_def)
next
  case (receive j s)
  then show ?case by (intro served_ok_frame[OF receive(4), where j = j and v = V_fast]) (auto simp: on_the_way_def)
next
  case (slow j s)
  then show ?case by (intro served_ok_frame[OF slow(5), where j = j and v = V_slow]) (auto simp: on_the_way_def)
next
  case (drop_receiver j s)
  then show ?case by (intro served_ok_frame[OF drop_receiver(4), where j = j and v = "if rx s = 1 then V_last else V_dropped"]) (auto simp: on_the_way_def)
next
  case (last_receiver j s)
  then show ?case by (intro served_ok_frame[OF last_receiver(4), where j = j and v = V_dropped]) (auto simp: on_the_way_def)
next
  case (takes s)
  show ?case by (simp add: served_ok_def)
qed (auto intro: served_ok_same)

section \<open>Counting the ends\<close>

text \<open>
  The counter is the number of ends in use, those that are not made, last or dropped; and when an end was dropped, another one is in use, or the one that found
  itself the last is about to close the channel, or the channel is closed. Both sides of the channel are instances.
\<close>

definition ends_ok :: "nat \<Rightarrow> ('e \<Rightarrow> bool) \<Rightarrow> 'e \<Rightarrow> 'e \<Rightarrow> usize \<Rightarrow> bool \<Rightarrow> (nat \<Rightarrow> 'e) \<Rightarrow> bool" where
  "ends_ok n live final gone c shut f \<longleftrightarrow> c = of_nat (card {i. i < n \<and> live (f i)}) \<and>
     ((\<exists>i<n. f i = gone) \<longrightarrow> (\<exists>i<n. live (f i) \<or> f i = final) \<or> shut)"

lemma ends_ok_new:
  assumes "ends_ok n live final gone c shut f" "i < n" "\<not> live (f i)" "f i \<noteq> final" "live v" "v \<noteq> gone"
  shows "ends_ok n live final gone (c + 1) shut (f(i := v))"
proof -
  have "{k. k < n \<and> live ((f(i := v)) k)} = insert i {k. k < n \<and> live (f k)}" using assms(2,5) by auto
  moreover have "card (insert i {k. k < n \<and> live (f k)}) = Suc (card {k. k < n \<and> live (f k)})" using assms(3) by simp
  ultimately show ?thesis using assms unfolding ends_ok_def by auto
qed

lemma ends_ok_stays:
  assumes "ends_ok n live final gone c shut f" "live (f i)" "live v" "v \<noteq> gone"
  shows "ends_ok n live final gone c shut (f(i := v))"
proof -
  have "{k. k < n \<and> live ((f(i := v)) k)} = {k. k < n \<and> live (f k)}" using assms(2,3) by auto
  moreover have "(\<exists>k<n. live (f k) \<or> f k = final) \<longrightarrow> (\<exists>k<n. live ((f(i := v)) k) \<or> (f(i := v)) k = final)" using assms(3) by auto
  moreover have "(\<exists>k<n. (f(i := v)) k = gone) \<longrightarrow> (\<exists>k<n. f k = gone)" using assms(4) by auto
  ultimately show ?thesis using assms(1) unfolding ends_ok_def by metis
qed

lemma usize_one: "(of_nat k :: usize) = 1 \<longleftrightarrow> k = 1" if "k < 2 ^ 64"
proof
  assume "(of_nat k :: usize) = 1"
  then have "unat (of_nat k :: usize) = 1" by simp
  then show "k = 1" using that by (simp add: unat_of_nat take_bit_nat_eq_self)
qed simp

lemma ends_ok_drop:
  assumes "ends_ok n live final gone c shut f" "i < n" "live (f i)" "\<not> live final" "\<not> live gone" "n < 2 ^ 64"
  shows "ends_ok n live final gone (c - 1) shut (f(i := if c = 1 then final else gone))" (is "ends_ok n live final gone _ _ ?g")
proof -
  let ?S = "{k. k < n \<and> live (f k)}" and ?T = "{k. k < n \<and> live (?g k)}"
  have T: "?T = ?S - {i}" using assms(4,5) by auto
  have c: "card ?S = Suc (card ?T)" by (rule card_remove_one(1)[OF _ _ T]) (use assms(2,3) in auto)
  have "card ?S \<le> card {..<n}" by (rule card_mono) auto
  then have "c = 1 \<longleftrightarrow> card ?S = 1" using assms(1,6) usize_one[of "card ?S"] unfolding ends_ok_def by simp
  moreover have "card ?T \<noteq> 0 \<Longrightarrow> \<exists>k<n. live (?g k)" by (auto simp only: card_eq_0_iff)
  moreover have "c = 1 \<Longrightarrow> ?g i = final" by simp
  ultimately have "\<exists>k<n. live (?g k) \<or> ?g k = final" using c assms(2) by (metis One_nat_def)
  moreover have "c = of_nat (Suc (card ?T))" using assms(1) unfolding ends_ok_def c by blast
  then have "c - 1 = of_nat (card ?T)" unfolding of_nat_Suc by (metis add_diff_cancel_left')
  ultimately show ?thesis unfolding ends_ok_def by blast
qed

lemma ends_ok_last:
  assumes "ends_ok n live final gone c shut f" "f i = final" "\<not> live final" "\<not> live gone"
  shows "ends_ok n live final gone c True (f(i := gone))"
proof -
  have "{k. k < n \<and> live ((f(i := gone)) k)} = {k. k < n \<and> live (f k)}" using assms by auto
  then show ?thesis using assms(1) unfolding ends_ok_def by simp
qed

lemma ends_ok_shut: "ends_ok n live final gone c shut f \<Longrightarrow> ends_ok n live final gone c True f"
  by (simp add: ends_ok_def)

lemma ends_ok_abandoned:
  assumes "ends_ok n live final gone c shut f" "(\<exists>i<n. f i = gone) \<and> (\<forall>i<n. f i = unmade \<or> f i = gone)" "\<not> live unmade" "\<not> live gone" "unmade \<noteq> final" "gone \<noteq> final"
  shows shut
proof -
  have "\<not> (\<exists>i<n. live (f i) \<or> f i = final)" using assms(2-6) by metis
  then show ?thesis using assms(1,2) unfolding ends_ok_def by blast
qed

definition tx_live :: "'m usend \<Rightarrow> bool" where
  "tx_live u \<longleftrightarrow> u \<notin> {U_none, U_last, U_dropped}"

definition rx_live :: "urecv \<Rightarrow> bool" where
  "rx_live v \<longleftrightarrow> v \<notin> {V_none, V_last, V_dropped}"

lemma live_simps [simp]:
  "\<not> tx_live U_none" "tx_live U_idle" "tx_live (U_open m)" "tx_live (U_pushed w)" "\<not> tx_live U_last" "\<not> tx_live U_dropped"
  "\<not> rx_live V_none" "rx_live V_idle" "rx_live V_fast" "rx_live V_slow" "rx_live (V_wait e)" "\<not> rx_live V_last" "\<not> rx_live V_dropped"
  by (simp_all add: tx_live_def rx_live_def)

abbreviation tx_ok :: "nat \<Rightarrow> 'm uchan \<Rightarrow> bool" where
  "tx_ok n s \<equiv> ends_ok n tx_live U_last U_dropped (tx s) (uclosed s) (usender s)"

abbreviation rx_ok :: "nat \<Rightarrow> 'm uchan \<Rightarrow> bool" where
  "rx_ok r s \<equiv> ends_ok r rx_live V_last V_dropped (rx s) (uclosed s) (ureceiver s)"

lemma tx_ok_step: "uchan_step cancels n r s t \<Longrightarrow> n < 2 ^ 64 \<Longrightarrow> tx_ok n s \<Longrightarrow> tx_ok n t"
proof (induction rule: uchan_step.induct)
  case (new_sender i s)
  then show ?case by (simp add: ends_ok_new del: fun_upd_apply)
next
  case (drop_sender i s)
  then show ?case using ends_ok_drop[OF drop_sender(4,1)] by (simp split del: if_split del: fun_upd_apply)
next
  case (last_sender i s)
  then show ?case using ends_ok_last[OF last_sender(4,2)] by (simp del: fun_upd_apply)
qed (simp_all add: ends_ok_stays ends_ok_shut)

lemma rx_ok_step: "uchan_step cancels n r s t \<Longrightarrow> r < 2 ^ 64 \<Longrightarrow> rx_ok r s \<Longrightarrow> rx_ok r t"
proof (induction rule: uchan_step.induct)
  case (new_receiver j s)
  then show ?case by (simp add: ends_ok_new del: fun_upd_apply)
next
  case (drop_receiver j s)
  then show ?case using ends_ok_drop[OF drop_receiver(4,1)] by (simp split del: if_split del: fun_upd_apply)
next
  case (last_receiver j s)
  then show ?case using ends_ok_last[OF last_receiver(4,2)] by (simp del: fun_upd_apply)
next
  case (gets j s m q)
  then show ?case by (auto intro: ends_ok_stays simp del: fun_upd_apply)
next
  case (no_more j s)
  then show ?case by (auto intro: ends_ok_stays simp del: fun_upd_apply)
qed (simp_all add: ends_ok_stays ends_ok_shut)

section \<open>The invariant\<close>

definition taken_ok :: "'m uchan \<Rightarrow> bool" where
  "taken_ok s \<longleftrightarrow> (ucloser s \<noteq> C_open \<and> ucloser s \<noteq> C_flag \<longrightarrow> uwaiters s = [])"

lemma taken_ok_step: "uchan_step cancels n r s t \<Longrightarrow> ufifo_inv s \<Longrightarrow> taken_ok s \<Longrightarrow> taken_ok t"
proof (induction rule: uchan_step.induct)
  case (parks j s)
  then show ?case by (auto simp: taken_ok_def ufifo_inv_def utry_pull_simps)
next
  case (pushes i s m q wake ws)
  then show ?case by (auto simp: taken_ok_def upush_lock_def)
qed (auto simp: taken_ok_def uclose_def cas_def ufifo_inv_def)

definition uchan_inv :: "bool \<Rightarrow> nat \<Rightarrow> nat \<Rightarrow> 'm uchan \<Rightarrow> bool" where
  "uchan_inv cancels n r s \<longleftrightarrow> ufifo_inv s \<and> events_ok s \<and> taken_ok s \<and> (\<not> cancels \<longrightarrow> served_ok r s) \<and> (n < 2 ^ 64 \<longrightarrow> tx_ok n s) \<and> (r < 2 ^ 64 \<longrightarrow> rx_ok r s)"

lemma uchan_inv_step:
  assumes "uchan_step cancels n r s t" "uchan_inv cancels n r s"
  shows "uchan_inv cancels n r t"
proof -
  have "\<not> cancels \<longrightarrow> served_ok r t" using assms served_ok_step[of n r s t] by (auto simp: uchan_inv_def)
  moreover have "n < 2 ^ 64 \<longrightarrow> tx_ok n t" using assms(2) tx_ok_step[OF assms(1)] unfolding uchan_inv_def by blast
  moreover have "r < 2 ^ 64 \<longrightarrow> rx_ok r t" using assms(2) rx_ok_step[OF assms(1)] unfolding uchan_inv_def by blast
  moreover have "ufifo_inv s" "events_ok s" "taken_ok s" using assms(2) unfolding uchan_inv_def by blast+
  ultimately show ?thesis using ufifo_inv_step[OF assms(1)] events_ok_step[OF assms(1)] taken_ok_step[OF assms(1)] unfolding uchan_inv_def by blast
qed

interpretation uc: step_system "\<lambda>s. s = uchan_init" "uchan_step cancels n r" "uchan_inv cancels n r" for cancels n r
proof
  show "uchan_inv cancels n r s" if "s = uchan_init" for s :: "'a uchan"
    using that by (simp add: uchan_inv_def uchan_init_def ufifo_inv_def events_ok_def spent_def served_ok_def taken_ok_def ends_ok_def)
qed (rule uchan_inv_step)

lemma uchan_reach_inv: "uchan_reach cancels n r s \<Longrightarrow> uchan_inv cancels n r s"
  using uc.reach_inv[of cancels n r s] by (simp add: uchan_reach_def)

section \<open>Theorems\<close>

text \<open>
  C14. What goes in comes out. In every interleaving of any number of sending and receiving ends, with cancellation, closing and dropping, the messages that were sent are, in order,
  the messages that were received followed by those in the queue; and the whole history is one of the abstract queue of \<open>Channel\<close>, so a receive fails only on a closed, empty channel.
\<close>

theorem unbounded_roundtrip:
  assumes "uchan_reach cancels n r s"
  shows "all_sent (uops s) = all_received (uops s) @ uqueue s \<and> fifo_run (uops s) = Some (uqueue s, uclosed s)"
  using uchan_reach_inv[OF assms] fifo_roundtrip[of "uops s" "uqueue s" "uclosed s"] by (simp add: uchan_inv_def ufifo_inv_def)

text \<open>
  C30. As long as no receiver is cancelled, none sleeps while there is something for it: the event of one that waits is set, or about to be set by a sender or by whoever closes; or it is
  registered, the channel is open or its closing has yet to collect the registered events, and there are no more messages than receivers on their way to the queue.
\<close>

theorem unbounded_receivers_woken:
  assumes "uchan_reach False n r s" "ureceiver s j = V_wait e"
  shows "uevs s e \<or> (\<exists>i. usender s i = U_pushed (Some e)) \<or> to_take e (ucloser s) \<or>
    (e \<in> set (uwaiters s) \<and> (uclosed s \<longrightarrow> ucloser s = C_flag) \<and> length (uqueue s) \<le> card {k. k < r \<and> on_the_way (uwaiters s) (ureceiver s k)})"
proof (cases "spent s e")
  case False
  have i: "uchan_inv False n r s" by (rule uchan_reach_inv[OF assms(1)])
  then have "e \<in> set (uwaiters s)" using False assms(2) unfolding uchan_inv_def events_ok_def by blast
  then have "uwaiters s \<noteq> []" by auto
  then show ?thesis using i \<open>e \<in> set (uwaiters s)\<close> by (auto simp: uchan_inv_def served_ok_def taken_ok_def ufifo_inv_def)
qed (auto simp: spent_def)

text \<open>
  An abandoned channel is closed: when an end of one side was dropped and none of that side is in use or being dropped, the flag is up, whatever the other side does. The counters are of
  the width of the source, for fewer than \<open>2 ^ 64\<close> ends of each side.
\<close>

theorem unbounded_abandoned_closed:
  assumes "uchan_reach cancels n r s" "n < 2 ^ 64" "r < 2 ^ 64"
    and "(\<exists>i<n. usender s i = U_dropped) \<and> (\<forall>i<n. usender s i = U_none \<or> usender s i = U_dropped) \<or>
      (\<exists>j<r. ureceiver s j = V_dropped) \<and> (\<forall>j<r. ureceiver s j = V_none \<or> ureceiver s j = V_dropped)"
  shows "uclosed s"
proof -
  have "tx_ok n s" "rx_ok r s" using uchan_reach_inv[OF assms(1)] assms(2,3) by (simp_all add: uchan_inv_def)
  then show ?thesis using assms(4) ends_ok_abandoned[of n tx_live U_last U_dropped "tx s" "uclosed s" "usender s" U_none]
      ends_ok_abandoned[of r rx_live V_last V_dropped "rx s" "uclosed s" "ureceiver s" V_none] by (elim disjE) simp_all
qed

section \<open>Concrete runs\<close>

lemma uchan_start: "uchan_reach cancels n r uchan_init"
  unfolding uchan_reach_def by (rule reach.start) simp

lemma uchan_go_eq: "uchan_reach cancels n r s \<Longrightarrow> uchan_step cancels n r s t \<Longrightarrow> t = u \<Longrightarrow> uchan_reach cancels n r u"
  by (auto simp: uchan_reach_def intro: reach.next_state)

lemma uchan_sends:
  assumes "uchan_reach cancels n r s" "i < n" "usender s i = U_idle" "\<not> uclosed s" "upush_lock m (uqueue s) (uwaiters s) = (q, wake, ws)"
  shows "uchan_reach cancels n r (s\<lparr>uqueue := q, uwaiters := ws, uevs := set_opt wake (uevs s), uops := Enq i m # uops s\<rparr>)"
proof -
  have "uchan_reach cancels n r (s\<lparr>usender := (usender s)(i := U_open m)\<rparr>)"
    by (rule uchan_go_eq[OF assms(1) uchan_step.send[of i n s cancels r m]]) (use assms in simp_all)
  then have "uchan_reach cancels n r (s\<lparr>usender := (usender s)(i := U_pushed wake), uqueue := q, uwaiters := ws, uops := Enq i m # uops s\<rparr>)"
    by (rule uchan_go_eq[OF _ uchan_step.pushes[of i n _ m q wake ws]]) (use assms(2-5) in simp_all)
  then show ?thesis
  proof (rule uchan_go_eq[OF _ uchan_step.wakes[of i n _ wake]])
    have "(usender s)(i := U_idle) = usender s" using assms(3) by (rule fun_upd_idem)
    then show "s\<lparr>usender := (usender s)(i := U_pushed wake), uqueue := q, uwaiters := ws, uops := Enq i m # uops s,
        usender := (usender (s\<lparr>usender := (usender s)(i := U_pushed wake), uqueue := q, uwaiters := ws, uops := Enq i m # uops s\<rparr>))(i := U_idle),
        uevs := set_opt wake (uevs (s\<lparr>usender := (usender s)(i := U_pushed wake), uqueue := q, uwaiters := ws, uops := Enq i m # uops s\<rparr>))\<rparr> =
      s\<lparr>uqueue := q, uwaiters := ws, uevs := set_opt wake (uevs s), uops := Enq i m # uops s\<rparr>"
      by (intro uchan.equality) simp_all
  qed (use assms(2) in simp_all)
qed

text \<open>One end of each side.\<close>

definition demo_ends :: "nat uchan" where
  "demo_ends = uchan_init\<lparr>tx := 1, rx := 1, usender := (\<lambda>_. U_none)(0 := U_idle), ureceiver := (\<lambda>_. V_none)(0 := V_idle)\<rparr>"

lemma demo_ends_reach: "uchan_reach False 1 1 demo_ends"
proof -
  have "uchan_reach False 1 1 (uchan_init\<lparr>tx := 1, usender := (\<lambda>_. U_none)(0 := U_idle)\<rparr> :: nat uchan)"
    by (rule uchan_go_eq[OF uchan_start uchan_step.new_sender[of 0]]) (simp_all add: uchan_init_def)
  then show ?thesis by (rule uchan_go_eq[OF _ uchan_step.new_receiver[of 0]]) (simp_all add: uchan_init_def demo_ends_def)
qed

text \<open>Two messages sent, one received.\<close>

theorem unbounded_roundtrip_witness:
  "\<exists>s :: nat uchan. uchan_reach False 1 1 s \<and> all_sent (uops s) = [7, 8] \<and> all_received (uops s) = [7] \<and> uqueue s = [8] \<and> fifo_run (uops s) = Some ([8], False)"
proof -
  have "uchan_reach False 1 1 (demo_ends\<lparr>uqueue := [7], uops := [Enq 0 7]\<rparr>)"
    using uchan_sends[OF demo_ends_reach, of 0 7 "[7]" None "[]"] by (simp add: demo_ends_def uchan_init_def upush_lock_def set_opt_def)
  from uchan_sends[OF this, of 0 8 "[7, 8]" None "[]"] have "uchan_reach False 1 1 (demo_ends\<lparr>uqueue := [7, 8], uops := [Enq 0 8, Enq 0 7]\<rparr>)"
    by (simp add: demo_ends_def uchan_init_def upush_lock_def set_opt_def)
  then have "uchan_reach False 1 1 (demo_ends\<lparr>uqueue := [7, 8], uops := [Enq 0 8, Enq 0 7], ureceiver := (\<lambda>_. V_none)(0 := V_fast)\<rparr>)"
    by (rule uchan_go_eq[OF _ uchan_step.receive[of 0]]) (simp_all add: demo_ends_def uchan_init_def)
  then have r: "uchan_reach False 1 1 (demo_ends\<lparr>uqueue := [8], uops := [Deq 0 7, Enq 0 8, Enq 0 7]\<rparr>)"
    by (rule uchan_go_eq[OF _ uchan_step.gets[of 0 _ _ 7 "[8]"]]) (simp_all add: demo_ends_def uchan_init_def utry_pull_def)
  show ?thesis by (intro exI conjI, rule r) (use unbounded_roundtrip[OF r] in \<open>simp_all add: demo_ends_def uchan_init_def\<close>)
qed

text \<open>A receiver waits, nothing was sent.\<close>

theorem unbounded_receivers_woken_witness:
  "\<exists>s :: nat uchan. uchan_reach False 1 1 s \<and> ureceiver s 0 = V_wait 0 \<and> \<not> uevs s 0 \<and> 0 \<in> set (uwaiters s) \<and>
    length (uqueue s) \<le> card {k. k < 1 \<and> on_the_way (uwaiters s) (ureceiver s k)}"
proof -
  have "uchan_reach False 1 1 (demo_ends\<lparr>ureceiver := (\<lambda>_. V_none)(0 := V_fast)\<rparr>)"
    by (rule uchan_go_eq[OF demo_ends_reach uchan_step.receive[of 0]]) (simp_all add: demo_ends_def uchan_init_def)
  then have "uchan_reach False 1 1 (demo_ends\<lparr>ureceiver := (\<lambda>_. V_none)(0 := V_slow)\<rparr>)"
    by (rule uchan_go_eq[OF _ uchan_step.slow[of 0]]) (simp_all add: demo_ends_def uchan_init_def utry_pull_def)
  then have r: "uchan_reach False 1 1 (demo_ends\<lparr>ureceiver := (\<lambda>_. V_none)(0 := V_wait 0), uwaiters := [0], ufresh := 1\<rparr>)" (is "uchan_reach _ _ _ ?s")
    by (rule uchan_go_eq[OF _ uchan_step.parks[of 0]]) (simp_all add: demo_ends_def uchan_init_def utry_pull_def)
  have q: "length (uqueue ?s) \<le> card {k. k < 1 \<and> on_the_way (uwaiters ?s) (ureceiver ?s k)}"
    using unbounded_receivers_woken[OF r, of 0 0] by (simp add: demo_ends_def uchan_init_def split: if_splits)
  show ?thesis by (rule exI[of _ ?s], intro conjI r q) (simp_all add: demo_ends_def uchan_init_def)
qed

text \<open>The only sender is dropped.\<close>

theorem unbounded_abandoned_closed_witness:
  "\<exists>s :: nat uchan. uchan_reach False 1 1 s \<and> usender s 0 = U_dropped \<and> ureceiver s 0 = V_idle \<and> uclosed s"
proof -
  have "uchan_reach False 1 1 (demo_ends\<lparr>tx := 0, usender := (\<lambda>_. U_none)(0 := U_last)\<rparr>)"
    by (rule uchan_go_eq[OF demo_ends_reach uchan_step.drop_sender[of 0]]) (simp_all add: demo_ends_def uchan_init_def)
  then have r: "uchan_reach False 1 1 ((uclose (demo_ends\<lparr>tx := 0, usender := (\<lambda>_. U_none)(0 := U_last)\<rparr>))\<lparr>usender := (\<lambda>_. U_none)(0 := U_dropped)\<rparr>)" (is "uchan_reach _ _ _ ?s")
    by (rule uchan_go_eq[OF _ uchan_step.last_sender[of 0]]) (simp_all add: demo_ends_def uchan_init_def)
  have "uclosed ?s" by (rule unbounded_abandoned_closed[OF r]) simp_all
  show ?thesis by (rule exI[of _ ?s], intro conjI r \<open>uclosed ?s\<close>) (simp_all add: demo_ends_def uchan_init_def)
qed

end
