(* ===== verification/Channel_Ends.thy ===== *)
theory Channel_Ends
  imports Unbounded
begin

text \<open>
  The counted ends of the bounded channel: \<open>tx_add\<close>, \<open>tx_rem\<close>, \<open>rx_add\<close> and \<open>rx_rem\<close> of \<open>Channel\<close> in \<open>src/src/sync.rs\<close>, which the constructors and destructors of \<open>ChannelSender\<close> and
  \<open>ChannelReceiver\<close> call. They run beside the channel of the theory \<open>Channel\<close> and touch it only by closing it, so that everything proved there holds with them; and, as for the unbounded channel,
  dropping the last end of a side closes it. Any number of tasks can use an end; when it is dropped is not constrained.
\<close>

datatype end_pc = E_none | E_open | E_last | E_dropped

record 'm ended =
  chn :: "'m chan"
  ctx :: usize
  crx :: usize
  txe :: "nat \<Rightarrow> end_pc"
  rxe :: "nat \<Rightarrow> end_pc"

definition ends_init :: "'m ended" where
  "ends_init = \<lparr>chn = chan_init, ctx = 0, crx = 0, txe = (\<lambda>_. E_none), rxe = (\<lambda>_. E_none)\<rparr>"

text \<open>The exchange of \<open>closed\<close> at the beginning of \<open>close\<close>; the rest of it are steps of the channel.\<close>

definition chan_close :: "'m chan \<Rightarrow> 'm chan" where
  "chan_close c = (case cas False True (closed c) of Some b \<Rightarrow> c\<lparr>closed := b, closer := C_flag, ops := Shut # ops c\<rparr> | None \<Rightarrow> c)"

inductive ends_step :: "nat \<Rightarrow> nat \<Rightarrow> nat \<Rightarrow> nat \<Rightarrow> nat \<Rightarrow> 'm ended \<Rightarrow> 'm ended \<Rightarrow> bool" for cap n r a b where
  moves: "chan_step cap n r (chn s) c \<Longrightarrow> ends_step cap n r a b s (s\<lparr>chn := c\<rparr>)"
| new_tx: "i < a \<Longrightarrow> txe s i = E_none \<Longrightarrow> ends_step cap n r a b s (s\<lparr>ctx := ctx s + 1, txe := (txe s)(i := E_open)\<rparr>)"
| drop_tx: "i < a \<Longrightarrow> txe s i = E_open \<Longrightarrow> ends_step cap n r a b s (s\<lparr>ctx := ctx s - 1, txe := (txe s)(i := if ctx s = 1 then E_last else E_dropped)\<rparr>)"
| last_tx: "i < a \<Longrightarrow> txe s i = E_last \<Longrightarrow> ends_step cap n r a b s (s\<lparr>chn := chan_close (chn s), txe := (txe s)(i := E_dropped)\<rparr>)"
| new_rx: "j < b \<Longrightarrow> rxe s j = E_none \<Longrightarrow> ends_step cap n r a b s (s\<lparr>crx := crx s + 1, rxe := (rxe s)(j := E_open)\<rparr>)"
| drop_rx: "j < b \<Longrightarrow> rxe s j = E_open \<Longrightarrow> ends_step cap n r a b s (s\<lparr>crx := crx s - 1, rxe := (rxe s)(j := if crx s = 1 then E_last else E_dropped)\<rparr>)"
| last_rx: "j < b \<Longrightarrow> rxe s j = E_last \<Longrightarrow> ends_step cap n r a b s (s\<lparr>chn := chan_close (chn s), rxe := (rxe s)(j := E_dropped)\<rparr>)"

definition ends_reach :: "nat \<Rightarrow> nat \<Rightarrow> nat \<Rightarrow> nat \<Rightarrow> nat \<Rightarrow> 'm ended \<Rightarrow> bool" where
  "ends_reach cap n r a b = reach (\<lambda>s. s = ends_init) (ends_step cap n r a b)"

text \<open>Closing is a step of the channel, or nothing when it is closed already; and the channel stays closed.\<close>

lemma chan_close_reach: "chan_reach cap n r c \<Longrightarrow> chan_reach cap n r (chan_close c)"
proof (cases "closed c")
  case False
  assume c: "chan_reach cap n r c"
  then have "closer c = C_open" using False chan_reach_inv[OF c] by (auto simp: fifo_inv_def)
  from chan_go[OF c chan_step.closes[OF this]] False show ?thesis by (simp add: chan_close_def cas_def)
qed (simp add: chan_close_def cas_def)

lemma chan_closed_mono: "chan_step cap n r c d \<Longrightarrow> closed c \<Longrightarrow> closed d"
  by (induction rule: chan_step.induct) simp_all

lemma chan_close_closed [simp]: "closed (chan_close c)"
  by (simp add: chan_close_def cas_def)

abbreviation ends_side :: "nat \<Rightarrow> usize \<Rightarrow> 'm chan \<Rightarrow> (nat \<Rightarrow> end_pc) \<Rightarrow> bool" where
  "ends_side k count c f \<equiv> ends_ok k (\<lambda>e. e = E_open) E_last E_dropped count (closed c) f"

definition ends_inv :: "nat \<Rightarrow> nat \<Rightarrow> nat \<Rightarrow> nat \<Rightarrow> nat \<Rightarrow> 'm ended \<Rightarrow> bool" where
  "ends_inv cap n r a b s \<longleftrightarrow> chan_reach cap n r (chn s) \<and> (a < 2 ^ 64 \<longrightarrow> ends_side a (ctx s) (chn s) (txe s)) \<and> (b < 2 ^ 64 \<longrightarrow> ends_side b (crx s) (chn s) (rxe s))"

lemma ends_side_mono: "ends_side k count c f \<Longrightarrow> (closed c \<longrightarrow> closed d) \<Longrightarrow> ends_side k count d f"
  by (auto simp: ends_ok_def)

lemma ends_inv_step: "ends_step cap n r a b s t \<Longrightarrow> ends_inv cap n r a b s \<Longrightarrow> ends_inv cap n r a b t"
proof (induction rule: ends_step.induct)
  case (moves s c)
  have "closed (chn s) \<longrightarrow> closed c" using chan_closed_mono[OF moves(1)] by blast
  then show ?case using moves chan_go[OF _ moves(1)] unfolding ends_inv_def by (auto elim: ends_side_mono)
next
  case (new_tx i s)
  have "ends_side a (ctx s) (chn s) (txe s) \<Longrightarrow> ends_side a (ctx s + 1) (chn s) ((txe s)(i := E_open))" using new_tx(1,2) by (intro ends_ok_new) simp_all
  then show ?case using new_tx(3) unfolding ends_inv_def by simp
next
  case (drop_tx i s)
  have "ends_side a (ctx s - 1) (chn s) ((txe s)(i := if ctx s = 1 then E_last else E_dropped))" if "a < 2 ^ 64"
    by (rule ends_ok_drop[OF _ drop_tx(1)]) (use drop_tx(2,3) that in \<open>simp_all add: ends_inv_def\<close>)
  then show ?case using drop_tx(3) unfolding ends_inv_def by simp
next
  case (last_tx i s)
  have "ends_side a (ctx s) (chan_close (chn s)) ((txe s)(i := E_dropped))" if "a < 2 ^ 64"
    using ends_ok_last[of a "\<lambda>e. e = E_open" E_last E_dropped "ctx s" "closed (chn s)" "txe s" i] last_tx(2,3) that by (simp add: ends_inv_def)
  then show ?case using last_tx(3) chan_close_reach[of cap n r "chn s"] ends_side_mono[of b "crx s" "chn s" "rxe s" "chan_close (chn s)"] unfolding ends_inv_def by simp
next
  case (new_rx j s)
  have "ends_side b (crx s) (chn s) (rxe s) \<Longrightarrow> ends_side b (crx s + 1) (chn s) ((rxe s)(j := E_open))" using new_rx(1,2) by (intro ends_ok_new) simp_all
  then show ?case using new_rx(3) unfolding ends_inv_def by simp
next
  case (drop_rx j s)
  have "ends_side b (crx s - 1) (chn s) ((rxe s)(j := if crx s = 1 then E_last else E_dropped))" if "b < 2 ^ 64"
    by (rule ends_ok_drop[OF _ drop_rx(1)]) (use drop_rx(2,3) that in \<open>simp_all add: ends_inv_def\<close>)
  then show ?case using drop_rx(3) unfolding ends_inv_def by simp
next
  case (last_rx j s)
  have "ends_side b (crx s) (chan_close (chn s)) ((rxe s)(j := E_dropped))" if "b < 2 ^ 64"
    using ends_ok_last[of b "\<lambda>e. e = E_open" E_last E_dropped "crx s" "closed (chn s)" "rxe s" j] last_rx(2,3) that by (simp add: ends_inv_def)
  then show ?case using last_rx(3) chan_close_reach[of cap n r "chn s"] ends_side_mono[of a "ctx s" "chn s" "txe s" "chan_close (chn s)"] unfolding ends_inv_def by simp
qed

interpretation ce: step_system "\<lambda>s. s = ends_init" "ends_step cap n r a b" "ends_inv cap n r a b" for cap n r a b
proof
  show "ends_inv cap n r a b s" if "s = ends_init" for s :: "'m ended"
    using that chan_start by (simp add: ends_inv_def ends_init_def ends_ok_def)
qed (rule ends_inv_step)

text \<open>
  The ends and the channel. With the ends counted, the channel runs as in \<open>Channel\<close>; and when an end of one side was dropped and none of that side is in use or being dropped, it is closed. The
  counters are of the width of the source, for fewer than \<open>2 ^ 64\<close> ends of each side.
\<close>

theorem channel_abandoned_closed:
  assumes "ends_reach cap n r a b s" "a < 2 ^ 64" "b < 2 ^ 64"
  shows "chan_reach cap n r (chn s) \<and>
    ((\<exists>i<a. txe s i = E_dropped) \<and> (\<forall>i<a. txe s i = E_none \<or> txe s i = E_dropped) \<or>
     (\<exists>j<b. rxe s j = E_dropped) \<and> (\<forall>j<b. rxe s j = E_none \<or> rxe s j = E_dropped) \<longrightarrow> closed (chn s))"
proof -
  have inv: "ends_inv cap n r a b s" using ce.reach_inv[of cap n r a b s] assms(1) by (simp add: ends_reach_def)
  have "closed (chn s)" if "(\<exists>i<k. f i = E_dropped) \<and> (\<forall>i<k. f i = E_none \<or> f i = E_dropped)" "ends_side k c (chn s) f" for k c f
    using ends_ok_abandoned[OF that(2,1)] by simp
  then show ?thesis using inv assms(2,3) unfolding ends_inv_def by blast
qed

end
