(* ===== verification/Blocking_Pool.thy ===== *)
theory Blocking_Pool
  imports Prelude
begin

text \<open>
  The pool of threads for blocking calls: \<open>BlockingRunnerPool\<close> and \<open>blocking_worker\<close> of \<open>src/src/blocking.rs\<close>. A call of \<open>spawn_blocking\<close> queues its task, takes one off the budget
  and, if there was none, makes a thread unless there are enough; a thread adds one to the budget whenever it is about to wait for a task, and ends when none comes in time, after a last look at the queue.
  What becomes of a task in the hands of a thread is \<open>Blocking\<close>. The budget is an \<open>isize\<close> and the counter of threads a \<open>usize\<close>; both stay below the number of calls and threads, so they are unbounded numbers here.
\<close>

section \<open>The system\<close>

text \<open>
  A call: not made; task queued; charged to an empty budget, about to look at the counter of threads; about to add one to it; to take it back; done. A thread: not there; about to enter the wait; waiting;
  timed out, before it leaves the budget and then the counter; before its last look; with a task of that look, before it is back in the counter and then in the budget; in a task; ended.
\<close>

datatype kpc = K_idle | K_sent | K_short | K_add | K_back | K_done

datatype wpc = W_none | W_new | W_wait | W_late | W_left | W_last | W_saved nat | W_again nat | W_busy nat | W_gone

text \<open>\<open>finished\<close> are the tasks whose run is over, which the code does not record.\<close>

record tpool =
  pqueue :: "nat list"
  budget :: int
  threads :: nat
  calls :: "nat \<Rightarrow> kpc"
  workers :: "nat \<Rightarrow> wpc"
  made :: nat
  finished :: "nat list"

definition tpool_new :: tpool where
  "tpool_new = \<lparr>pqueue = [], budget = 0, threads = 0, calls = (\<lambda>_. K_idle), workers = (\<lambda>_. W_none), made = 0, finished = []\<rparr>"

text \<open>
  Call \<open>i\<close> below \<open>n\<close> is for task \<open>i\<close>; \<open>tmax\<close> is the size of the pool. With \<open>prompt\<close>, no thread leaves the counter while a call is between the two accesses of \<open>spawn_thread\<close> to it: these are
  two instructions apart, and a thread leaves after a time-out.
\<close>

inductive tpool_move :: "bool \<Rightarrow> nat \<Rightarrow> nat \<Rightarrow> tpool \<Rightarrow> tpool \<Rightarrow> bool" for prompt tmax n where
  charges: "i < n \<Longrightarrow> calls s i = K_sent \<Longrightarrow>
     tpool_move prompt tmax n s (s\<lparr>budget := budget s - 1, calls := (calls s)(i := if budget s \<le> 0 then K_short else K_done)\<rparr>)"
| looks: "i < n \<Longrightarrow> calls s i = K_short \<Longrightarrow> tpool_move prompt tmax n s (s\<lparr>calls := (calls s)(i := if threads s < tmax then K_add else K_done)\<rparr>)"
| spawns: "i < n \<Longrightarrow> calls s i = K_add \<Longrightarrow> threads s < tmax \<Longrightarrow>
     tpool_move prompt tmax n s (s\<lparr>threads := Suc (threads s), calls := (calls s)(i := K_done), workers := (workers s)(made s := W_new), made := Suc (made s)\<rparr>)"
| full: "i < n \<Longrightarrow> calls s i = K_add \<Longrightarrow> tmax \<le> threads s \<Longrightarrow> tpool_move prompt tmax n s (s\<lparr>threads := Suc (threads s), calls := (calls s)(i := K_back)\<rparr>)"
| backs: "i < n \<Longrightarrow> calls s i = K_back \<Longrightarrow> tpool_move prompt tmax n s (s\<lparr>threads := threads s - 1, calls := (calls s)(i := K_done)\<rparr>)"
| waits: "w < made s \<Longrightarrow> workers s w = W_new \<Longrightarrow> tpool_move prompt tmax n s (s\<lparr>budget := budget s + 1, workers := (workers s)(w := W_wait)\<rparr>)"
| takes: "w < made s \<Longrightarrow> workers s w = W_wait \<Longrightarrow> pqueue s = t # q \<Longrightarrow> tpool_move prompt tmax n s (s\<lparr>pqueue := q, workers := (workers s)(w := W_busy t)\<rparr>)"
| times_out: "w < made s \<Longrightarrow> workers s w = W_wait \<Longrightarrow> tpool_move prompt tmax n s (s\<lparr>workers := (workers s)(w := W_late)\<rparr>)"
| leaves: "w < made s \<Longrightarrow> workers s w = W_late \<Longrightarrow> tpool_move prompt tmax n s (s\<lparr>budget := budget s - 1, workers := (workers s)(w := W_left)\<rparr>)"
| retires: "w < made s \<Longrightarrow> workers s w = W_left \<Longrightarrow> (prompt \<longrightarrow> (\<forall>i<n. calls s i \<noteq> K_back)) \<Longrightarrow>
     tpool_move prompt tmax n s (s\<lparr>threads := threads s - 1, workers := (workers s)(w := W_last)\<rparr>)"
| saves: "w < made s \<Longrightarrow> workers s w = W_last \<Longrightarrow> pqueue s = t # q \<Longrightarrow> tpool_move prompt tmax n s (s\<lparr>pqueue := q, workers := (workers s)(w := W_saved t)\<rparr>)"
| ends: "w < made s \<Longrightarrow> workers s w = W_last \<Longrightarrow> pqueue s = [] \<Longrightarrow> tpool_move prompt tmax n s (s\<lparr>workers := (workers s)(w := W_gone)\<rparr>)"
| returns: "w < made s \<Longrightarrow> workers s w = W_saved t \<Longrightarrow> tpool_move prompt tmax n s (s\<lparr>threads := Suc (threads s), workers := (workers s)(w := W_again t)\<rparr>)"
| rejoins: "w < made s \<Longrightarrow> workers s w = W_again t \<Longrightarrow> tpool_move prompt tmax n s (s\<lparr>budget := budget s + 1, workers := (workers s)(w := W_busy t)\<rparr>)"
| finishes: "w < made s \<Longrightarrow> workers s w = W_busy t \<Longrightarrow> tpool_move prompt tmax n s (s\<lparr>workers := (workers s)(w := W_new), finished := t # finished s\<rparr>)"

inductive tpool_sends :: "nat \<Rightarrow> tpool \<Rightarrow> tpool \<Rightarrow> bool" for n where
  sends: "i < n \<Longrightarrow> calls s i = K_idle \<Longrightarrow> tpool_sends n s (s\<lparr>pqueue := pqueue s @ [i], calls := (calls s)(i := K_sent)\<rparr>)"

definition tpool_reach :: "bool \<Rightarrow> nat \<Rightarrow> nat \<Rightarrow> tpool \<Rightarrow> bool" where
  "tpool_reach prompt tmax n = reach (\<lambda>s. s = tpool_new) (\<lambda>s t. tpool_sends n s t \<or> tpool_move prompt tmax n s t)"

section \<open>Counting\<close>

text \<open>
  Sums over the calls and over the threads of what each contributes, and how they change when one of them moves or a thread is made.
\<close>

abbreviation over_calls :: "nat \<Rightarrow> (kpc \<Rightarrow> int) \<Rightarrow> tpool \<Rightarrow> int" where
  "over_calls n f s \<equiv> (\<Sum>i<n. f (calls s i))"

abbreviation over_workers :: "(wpc \<Rightarrow> int) \<Rightarrow> tpool \<Rightarrow> int" where
  "over_workers f s \<equiv> (\<Sum>w<made s. f (workers s w))"

lemma sum_move: "i < (n :: nat) \<Longrightarrow> g i = u \<Longrightarrow> (\<Sum>k<n. f ((g(i := v)) k)) = (\<Sum>k<n. f (g k)) + f v - (f u :: int)"
  using sum_fun_upd[of i n f g v] by simp

lemma sum_made: "(\<Sum>k<Suc m. f ((g(m := v)) k)) = (\<Sum>k<m. f (g k)) + (f v :: int)"
  by (simp add: sum.lessThan_Suc)

text \<open>In the budget; in the counter of threads; the task in hand.\<close>

definition in_budget :: "wpc \<Rightarrow> int" where
  "in_budget w = (case w of W_wait \<Rightarrow> 1 | W_late \<Rightarrow> 1 | W_saved _ \<Rightarrow> - 1 | W_again _ \<Rightarrow> - 1 | _ \<Rightarrow> 0)"

definition uncharged :: "kpc \<Rightarrow> int" where
  "uncharged k = (if k = K_sent then 1 else 0)"

definition counted :: "wpc \<Rightarrow> int" where
  "counted w = (case w of W_none \<Rightarrow> 0 | W_last \<Rightarrow> 0 | W_saved _ \<Rightarrow> 0 | W_gone \<Rightarrow> 0 | _ \<Rightarrow> 1)"

definition overdrawn :: "kpc \<Rightarrow> int" where
  "overdrawn k = (if k = K_back then 1 else 0)"

definition in_hand_of :: "nat \<Rightarrow> wpc \<Rightarrow> int" where
  "in_hand_of t w = (case w of W_saved u \<Rightarrow> of_bool (u = t) | W_again u \<Rightarrow> of_bool (u = t) | W_busy u \<Rightarrow> of_bool (u = t) | _ \<Rightarrow> 0)"

lemma pool_weights [simp]:
  "in_budget W_none = 0" "in_budget W_new = 0" "in_budget W_wait = 1" "in_budget W_late = 1" "in_budget W_left = 0" "in_budget W_last = 0" "in_budget (W_saved t) = - 1"
  "in_budget (W_again t) = - 1" "in_budget (W_busy t) = 0" "in_budget W_gone = 0"
  "counted W_none = 0" "counted W_new = 1" "counted W_wait = 1" "counted W_late = 1" "counted W_left = 1" "counted W_last = 0" "counted (W_saved t) = 0"
  "counted (W_again t) = 1" "counted (W_busy t) = 1" "counted W_gone = 0"
  "in_hand_of k W_none = 0" "in_hand_of k W_new = 0" "in_hand_of k W_wait = 0" "in_hand_of k W_late = 0" "in_hand_of k W_left = 0" "in_hand_of k W_last = 0"
  "in_hand_of k (W_saved t) = of_bool (t = k)" "in_hand_of k (W_again t) = of_bool (t = k)" "in_hand_of k (W_busy t) = of_bool (t = k)" "in_hand_of k W_gone = 0"
  "uncharged K_idle = 0" "uncharged K_sent = 1" "uncharged K_short = 0" "uncharged K_add = 0" "uncharged K_back = 0" "uncharged K_done = 0"
  "overdrawn K_idle = 0" "overdrawn K_sent = 0" "overdrawn K_short = 0" "overdrawn K_add = 0" "overdrawn K_back = 1" "overdrawn K_done = 0"
  by (simp_all add: in_budget_def counted_def in_hand_of_def uncharged_def overdrawn_def)

lemma weights_nonneg: "0 \<le> counted w" "0 \<le> overdrawn k" "0 \<le> uncharged k" "0 \<le> in_hand_of t w"
  by (simp_all add: counted_def overdrawn_def uncharged_def in_hand_of_def split: wpc.splits)

definition counts_ok :: "nat \<Rightarrow> tpool \<Rightarrow> bool" where
  "counts_ok n s \<longleftrightarrow> budget s = over_workers in_budget s - int (length (pqueue s)) + over_calls n uncharged s
     \<and> int (threads s) = over_workers counted s + over_calls n overdrawn s
     \<and> (\<forall>t<n. int (count_list (pqueue s) t) + over_workers (in_hand_of t) s + int (count_list (finished s) t) = of_bool (calls s t \<noteq> K_idle))
     \<and> (\<forall>w\<ge>made s. workers s w = W_none)"

lemma over_nonneg: "(\<And>k. 0 \<le> f k) \<Longrightarrow> 0 \<le> (\<Sum>i<(n::nat). f (g i) :: int)"
  by (simp add: sum_nonneg)

lemma over_pos: "i < n \<Longrightarrow> (\<And>k. 0 \<le> f k) \<Longrightarrow> f (g i) = 1 \<Longrightarrow> 1 \<le> (\<Sum>k<(n::nat). f (g k) :: int)"
  by (metis finite_lessThan lessThan_iff member_le_sum)

lemma threads_pos:
  assumes "counts_ok n s" "w < made s \<and> counted (workers s w) = 1 \<or> i < n \<and> calls s i = K_back"
  shows "0 < threads s"
proof -
  have "0 \<le> over_workers counted s" "0 \<le> over_calls n overdrawn s" by (simp_all add: over_nonneg[of counted] over_nonneg[of overdrawn] weights_nonneg)
  moreover have "1 \<le> over_workers counted s \<or> 1 \<le> over_calls n overdrawn s"
    using assms(2) over_pos[of w "made s" counted "workers s"] over_pos[of i n overdrawn "calls s"] by (auto simp: weights_nonneg)
  ultimately show ?thesis using assms(1) unfolding counts_ok_def by linarith
qed

text \<open>A thread moves: what its contributions change must be what the cells change.\<close>

lemma counts_ok_worker:
  assumes "counts_ok n s" "w < made s" "workers s w = u" "workers t = (workers s)(w := v)" "made t = made s" "calls t = calls s"
    and "budget t - budget s = in_budget v - in_budget u + int (length (pqueue s)) - int (length (pqueue t))" "int (threads t) - int (threads s) = counted v - counted u"
    and "\<And>k. int (count_list (pqueue t) k) + int (count_list (finished t) k) + in_hand_of k v = int (count_list (pqueue s) k) + int (count_list (finished s) k) + in_hand_of k u"
  shows "counts_ok n t"
proof -
  have m: "over_workers f t = over_workers f s + f v - f u" for f using assms(2-5) sum_move[of w "made s" "workers s" u f v] by simp
  have "int (count_list (pqueue t) k) + over_workers (in_hand_of k) t + int (count_list (finished t) k) =
      int (count_list (pqueue s) k) + over_workers (in_hand_of k) s + int (count_list (finished s) k)" for k using m[of "in_hand_of k"] assms(9)[of k] by linarith
  then show ?thesis using assms(1,2,4-8) m[of in_budget] m[of counted] unfolding counts_ok_def by auto
qed

lemma counts_ok_call:
  assumes "counts_ok n s" "i < n" "calls s i = u" "calls t = (calls s)(i := v)" "made t = made s" "workers t = workers s" "finished t = finished s"
    and "budget t - budget s = uncharged v - uncharged u + int (length (pqueue s)) - int (length (pqueue t))" "int (threads t) - int (threads s) = overdrawn v - overdrawn u"
    and "\<And>k. k < n \<Longrightarrow> int (count_list (pqueue t) k) - int (count_list (pqueue s) k) = of_bool (calls t k \<noteq> K_idle) - of_bool (calls s k \<noteq> K_idle)"
  shows "counts_ok n t"
proof -
  have m: "over_calls n f t = over_calls n f s + f v - f u" for f using assms(2-4) sum_move[of i n "calls s" u f v] by simp
  have "int (count_list (pqueue t) k) + over_workers (in_hand_of k) t + int (count_list (finished t) k) = of_bool (calls t k \<noteq> K_idle)" if "k < n" for k
  proof -
    have "int (count_list (pqueue s) k) + over_workers (in_hand_of k) s + int (count_list (finished s) k) = of_bool (calls s k \<noteq> K_idle)" using assms(1) that by (simp add: counts_ok_def)
    then show ?thesis using assms(10)[OF that] assms(5-7) by simp
  qed
  then show ?thesis using assms(1,5-9) m[of uncharged] m[of overdrawn] unfolding counts_ok_def by simp
qed

lemma counts_ok_move: "tpool_move prompt tmax n s t \<Longrightarrow> counts_ok n s \<Longrightarrow> counts_ok n t"
proof (induction rule: tpool_move.induct)
  case (charges i s)
  show ?case by (rule counts_ok_call[OF charges(3,1,2)]) (auto simp: charges(2) split: if_splits)
next
  case (looks i s)
  show ?case by (rule counts_ok_call[OF looks(3,1,2)]) (auto simp: looks(2) split: if_splits)
next
  case (spawns i s)
  let ?t = "s\<lparr>threads := Suc (threads s), calls := (calls s)(i := K_done)\<rparr>"
  have c: "over_calls n f ?t = over_calls n f s + f K_done - f K_add" for f using spawns(1,2) sum_move[of i n "calls s" K_add f K_done] by simp
  have w: "over_workers f (s\<lparr>threads := Suc (threads s), calls := (calls s)(i := K_done), workers := (workers s)(made s := W_new), made := Suc (made s)\<rparr>) =
      over_workers f s + f W_new" for f using sum_made[of f "workers s" "made s" W_new] by simp
  show ?case using spawns(2,4) c[of uncharged] c[of overdrawn] w[of in_budget] w[of counted] w[of "in_hand_of _"] unfolding counts_ok_def by auto
next
  case (full i s)
  show ?case by (rule counts_ok_call[OF full(4,1,2)]) (auto simp: full(2))
next
  case (backs i s)
  have "0 < threads s" using threads_pos[OF backs(3)] backs(1,2) by blast
  then show ?case by (intro counts_ok_call[OF backs(3,1,2)]) (auto simp: backs(2))
next
  case (waits w s)
  show ?case by (rule counts_ok_worker[OF waits(3,1,2), where v = W_wait]) simp_all
next
  case (takes w s t q)
  show ?case by (rule counts_ok_worker[OF takes(4,1,2), where v = "W_busy t"]) (simp_all add: takes(3))
next
  case (times_out w s)
  show ?case by (rule counts_ok_worker[OF times_out(3,1,2), where v = W_late]) simp_all
next
  case (leaves w s)
  show ?case by (rule counts_ok_worker[OF leaves(3,1,2), where v = W_left]) simp_all
next
  case (retires w s)
  have "0 < threads s" using threads_pos[OF retires(4), of w] retires(1,2) by (simp add: counted_def)
  then show ?case by (intro counts_ok_worker[OF retires(4,1,2), where v = W_last]) simp_all
next
  case (saves w s t q)
  show ?case by (rule counts_ok_worker[OF saves(4,1,2), where v = "W_saved t"]) (simp_all add: saves(3))
next
  case (ends w s)
  show ?case by (rule counts_ok_worker[OF ends(4,1,2), where v = W_gone]) simp_all
next
  case (returns w s t)
  show ?case by (rule counts_ok_worker[OF returns(3,1,2), where v = "W_again t"]) simp_all
next
  case (rejoins w s t)
  show ?case by (rule counts_ok_worker[OF rejoins(3,1,2), where v = "W_busy t"]) simp_all
next
  case (finishes w s t)
  show ?case by (rule counts_ok_worker[OF finishes(3,1,2), where v = W_new]) simp_all
qed

lemma counts_ok_send: "tpool_sends n s t \<Longrightarrow> counts_ok n s \<Longrightarrow> counts_ok n t"
proof (induction rule: tpool_sends.induct)
  case (sends i s)
  show ?case by (rule counts_ok_call[OF sends(3,1,2)]) (auto simp: sends(2))
qed

section \<open>No task is left behind\<close>

text \<open>
  As long as there is a task in the queue, a thread is there or a call that has yet to see whether one is needed; and while a call has overdrawn the counter, a thread that is counted is there.
\<close>

definition alive :: "wpc \<Rightarrow> bool" where
  "alive w \<longleftrightarrow> w \<noteq> W_none \<and> w \<noteq> W_gone"

definition pending :: "kpc \<Rightarrow> bool" where
  "pending k \<longleftrightarrow> k = K_sent \<or> k = K_short \<or> k = K_add"

definition attended :: "nat \<Rightarrow> tpool \<Rightarrow> bool" where
  "attended n s \<longleftrightarrow> (pqueue s \<noteq> [] \<longrightarrow> (\<exists>w<made s. alive (workers s w)) \<or> (\<exists>i<n. pending (calls s i)))
     \<and> ((\<exists>i<n. calls s i = K_back) \<longrightarrow> (\<exists>w<made s. counted (workers s w) = 1))"

lemma ex_pos: "0 < (\<Sum>k<(n :: nat). f (g k) :: int) \<Longrightarrow> \<exists>k<n. 0 < f (g k)"
  by (metis lessThan_iff not_le sum_nonpos)

lemma weight_alive: "0 < in_budget w \<Longrightarrow> alive w" "0 < counted w \<Longrightarrow> alive w \<and> counted w = 1"
  by (cases w; simp add: alive_def)+

text \<open>A counter that is not below \<open>tmax\<close> shows that there is a thread.\<close>

lemma counter_shows_thread:
  assumes "counts_ok n s" "attended n s" "0 < tmax" "tmax \<le> threads s"
  shows "\<exists>w<made s. alive (workers s w) \<and> counted (workers s w) = 1"
proof -
  have "0 < over_workers counted s \<or> 0 < over_calls n overdrawn s" using assms(1,3,4) unfolding counts_ok_def by linarith
  then show ?thesis
  proof
    assume "0 < over_workers counted s"
    then show ?thesis using ex_pos[of counted "workers s" "made s"] weight_alive(2) by blast
  next
    assume "0 < over_calls n overdrawn s"
    then obtain i where "i < n" "0 < overdrawn (calls s i)" using ex_pos[of overdrawn "calls s" n] by blast
    then have "calls s i = K_back" by (cases "calls s i") simp_all
    then obtain w where "w < made s" "counted (workers s w) = 1" using assms(2) \<open>i < n\<close> unfolding attended_def by blast
    then show ?thesis using weight_alive(2)[of "workers s w"] by auto
  qed
qed

text \<open>A call charged to a budget that is not empty leaves a thread in it, or another call that is not charged yet.\<close>

lemma budget_shows_thread:
  assumes "counts_ok n s" "i < n" "calls s i = K_sent" "0 < budget s" "pqueue s \<noteq> []"
  shows "(\<exists>w<made s. alive (workers s w)) \<or> (\<exists>k<n. k \<noteq> i \<and> calls s k = K_sent)"
proof (rule disjCI)
  assume none: "\<not> (\<exists>k<n. k \<noteq> i \<and> calls s k = K_sent)"
  have "over_calls n uncharged (s\<lparr>calls := (calls s)(i := K_done)\<rparr>) = over_calls n uncharged s - 1" using sum_move[of i n "calls s" K_sent uncharged K_done] assms(2,3) by simp
  moreover have "over_calls n uncharged (s\<lparr>calls := (calls s)(i := K_done)\<rparr>) = 0" using none by (intro sum.neutral) (auto simp: uncharged_def)
  ultimately have "budget s = over_workers in_budget s - int (length (pqueue s)) + 1" using assms(1) unfolding counts_ok_def by linarith
  then have "0 < over_workers in_budget s" using assms(4,5) by (cases "pqueue s") simp_all
  then show "\<exists>w<made s. alive (workers s w)" using ex_pos[of in_budget "workers s" "made s"] weight_alive(1) by blast
qed

lemma attended_worker:
  assumes "attended n s" "w < made s" "workers t = (workers s)(w := v)" "calls t = calls s" "made t = made s" "alive v" "counted (workers s w) = 1 \<longrightarrow> counted v = 1"
  shows "attended n t"
proof -
  have "\<exists>k<made s. counted (((workers s)(w := v)) k) = 1" if ex: "\<exists>k<made s. counted (workers s k) = 1"
  proof -
    obtain k where "k < made s" "counted (workers s k) = 1" using ex by blast
    then show ?thesis using assms(2,7) by (cases "k = w") (auto intro: exI[of _ k])
  qed
  moreover have "\<exists>k<made s. alive (((workers s)(w := v)) k)" using assms(2,6) by auto
  ultimately show ?thesis using assms(1) unfolding attended_def assms(3-5) by blast
qed

lemma attended_call:
  assumes "attended n s" "i < n" "workers t = workers s" "calls t = (calls s)(i := v)" "made t = made s" "v \<noteq> K_back"
    and "pending v \<or> (\<exists>w<made s. alive (workers s w)) \<or> (\<exists>k<n. k \<noteq> i \<and> pending (calls s k)) \<or> pqueue t = []"
  shows "attended n t"
proof -
  have "(\<exists>k<n. ((calls s)(i := v)) k = K_back) \<longrightarrow> (\<exists>k<n. calls s k = K_back)" using assms(6) by auto
  moreover have "pending v \<or> (\<exists>k<n. k \<noteq> i \<and> pending (calls s k)) \<longrightarrow> (\<exists>k<n. pending (((calls s)(i := v)) k))" using assms(2) by auto
  ultimately show ?thesis using assms(1,7) unfolding attended_def assms(3-5) by blast
qed

lemma attended_move: "tpool_move True tmax n s t \<Longrightarrow> 0 < tmax \<Longrightarrow> counts_ok n s \<Longrightarrow> attended n s \<Longrightarrow> attended n t"
proof (induction rule: tpool_move.induct)
  case (charges i s)
  have "pending (if budget s \<le> 0 then K_short else K_done) \<or> (\<exists>w<made s. alive (workers s w)) \<or> (\<exists>k<n. k \<noteq> i \<and> pending (calls s k)) \<or> pqueue s = []"
    using budget_shows_thread[OF charges(4,1,2)] unfolding pending_def by (cases "budget s \<le> 0") auto
  then show ?case by (intro attended_call[OF charges(5,1), where v = "if budget s \<le> 0 then K_short else K_done"]) auto
next
  case (looks i s)
  have "pending (if threads s < tmax then K_add else K_done) \<or> (\<exists>w<made s. alive (workers s w))"
    using counter_shows_thread[OF looks(4,5,3)] by (cases "threads s < tmax") (auto simp: pending_def)
  then show ?case by (intro attended_call[OF looks(5,1), where v = "if threads s < tmax then K_add else K_done"]) auto
next
  case (spawns i s)
  have "counted W_new = 1" "alive W_new" by (simp_all add: alive_def)
  then show ?case unfolding attended_def by auto
next
  case (full i s)
  obtain w where "w < made s" "alive (workers s w)" "counted (workers s w) = 1" using counter_shows_thread[OF full(5,6,4,3)] by blast
  then show ?case unfolding attended_def by auto
next
  case (backs i s)
  obtain w where "w < made s" "counted (workers s w) = 1" using backs(1,2,5) unfolding attended_def by blast
  then have "\<exists>w<made s. alive (workers s w)" using weight_alive(2)[of "workers s w"] by auto
  then show ?case by (intro attended_call[OF backs(5,1), where v = K_done]) auto
next
  case (retires w s)
  then have "\<forall>i<n. calls s i \<noteq> K_back" by simp
  moreover have "alive W_last" by (simp add: alive_def)
  ultimately show ?case using retires(1) unfolding attended_def by auto
next
  case (ends w s)
  then have "counted (((workers s)(w := W_gone)) k) = counted (workers s k)" for k by simp
  then show ?case using ends(3,6) unfolding attended_def by simp
next
  case (waits w s)
  show ?case by (rule attended_worker[OF waits(5,1), where v = W_wait]) (simp_all add: alive_def)
next
  case (takes w s t q)
  show ?case by (rule attended_worker[OF takes(6,1), where v = "W_busy t"]) (simp_all add: alive_def)
next
  case (times_out w s)
  show ?case by (rule attended_worker[OF times_out(5,1), where v = W_late]) (simp_all add: alive_def)
next
  case (leaves w s)
  show ?case by (rule attended_worker[OF leaves(5,1), where v = W_left]) (simp_all add: alive_def)
next
  case (saves w s t q)
  show ?case by (rule attended_worker[OF saves(6,1), where v = "W_saved t"]) (simp_all add: alive_def saves(2))
next
  case (returns w s t)
  show ?case by (rule attended_worker[OF returns(5,1), where v = "W_again t"]) (simp_all add: alive_def)
next
  case (rejoins w s t)
  show ?case by (rule attended_worker[OF rejoins(5,1), where v = "W_busy t"]) (simp_all add: alive_def)
next
  case (finishes w s t)
  show ?case by (rule attended_worker[OF finishes(5,1), where v = W_new]) (simp_all add: alive_def)
qed

lemma attended_send: "tpool_sends n s t \<Longrightarrow> attended n s \<Longrightarrow> attended n t"
proof (induction rule: tpool_sends.induct)
  case (sends i s)
  show ?case by (rule attended_call[OF sends(3,1), where v = K_sent]) (simp_all add: pending_def)
qed

interpretation tp: step_system "\<lambda>s. s = tpool_new" "\<lambda>s t. tpool_sends n s t \<or> tpool_move prompt tmax n s t" "\<lambda>s. counts_ok n s \<and> (prompt \<and> 0 < tmax \<longrightarrow> attended n s)"
  for prompt tmax n
proof
  show "counts_ok n s \<and> (prompt \<and> 0 < tmax \<longrightarrow> attended n s)" if "s = tpool_new" for s
    using that by (simp add: tpool_new_def counts_ok_def attended_def)
next
  show "counts_ok n t \<and> (prompt \<and> 0 < tmax \<longrightarrow> attended n t)"
    if "tpool_sends n s t \<or> tpool_move prompt tmax n s t" "counts_ok n s \<and> (prompt \<and> 0 < tmax \<longrightarrow> attended n s)" for s t
    using that by (cases prompt) (auto intro: counts_ok_move counts_ok_send attended_move attended_send)
qed

section \<open>The pool comes to rest\<close>

text \<open>How far a call and a thread are from their end; a task in the queue can cost a thread a whole round.\<close>

definition call_left :: "kpc \<Rightarrow> int" where
  "call_left k = (case k of K_sent \<Rightarrow> 9 | K_short \<Rightarrow> 8 | K_add \<Rightarrow> 7 | K_back \<Rightarrow> 1 | _ \<Rightarrow> 0)"

definition worker_left :: "wpc \<Rightarrow> int" where
  "worker_left w = (case w of W_saved _ \<Rightarrow> 8 | W_again _ \<Rightarrow> 7 | W_busy _ \<Rightarrow> 6 | W_new \<Rightarrow> 5 | W_wait \<Rightarrow> 4 | W_late \<Rightarrow> 3 | W_left \<Rightarrow> 2 | W_last \<Rightarrow> 1 | _ \<Rightarrow> 0)"

definition pool_left :: "nat \<Rightarrow> tpool \<Rightarrow> nat" where
  "pool_left n s = nat (8 * int (length (pqueue s)) + over_calls n call_left s + over_workers worker_left s)"

lemma calls_left_nonneg: "0 \<le> over_calls n call_left s" for n :: nat and s :: tpool
  by (rule over_nonneg[of call_left]) (simp add: call_left_def split: kpc.splits)

lemma workers_left_nonneg: "0 \<le> over_workers worker_left s" for s :: tpool
  by (rule over_nonneg[of worker_left]) (simp add: worker_left_def split: wpc.splits)

lemma left_worker:
  assumes "w < made s" "workers s w = u" "workers t = (workers s)(w := v)" "made t = made s" "calls t = calls s"
    and "8 * int (length (pqueue t)) + worker_left v < 8 * int (length (pqueue s)) + worker_left u"
  shows "pool_left n t < pool_left n s"
proof -
  have "over_workers worker_left t = over_workers worker_left s + worker_left v - worker_left u" using sum_move[of w "made s" "workers s" u worker_left v] assms(1-4) by simp
  then show ?thesis using assms(5,6) calls_left_nonneg[where n = n and s = t] calls_left_nonneg[where n = n and s = s] workers_left_nonneg[of t] workers_left_nonneg[of s] by (simp add: pool_left_def)
qed

lemma left_call:
  assumes "i < n" "calls s i = u" "calls t = (calls s)(i := v)" "over_workers worker_left t + call_left v < over_workers worker_left s + call_left u" "pqueue t = pqueue s"
  shows "pool_left n t < pool_left n s"
proof -
  have "over_calls n call_left t = over_calls n call_left s + call_left v - call_left u" using sum_move[of i n "calls s" u call_left v] assms(1-3) by simp
  then show ?thesis using assms(4,5) calls_left_nonneg[where n = n and s = t] calls_left_nonneg[where n = n and s = s] workers_left_nonneg[of t] workers_left_nonneg[of s] by (simp add: pool_left_def)
qed

lemma move_left: "tpool_move prompt tmax n s t \<Longrightarrow> pool_left n t < pool_left n s"
proof (induction rule: tpool_move.induct)
  case (charges i s)
  show ?case by (rule left_call[OF charges]) (auto simp: call_left_def)
next
  case (looks i s)
  show ?case by (rule left_call[OF looks]) (auto simp: call_left_def)
next
  case (spawns i s)
  have "over_workers worker_left (s\<lparr>threads := Suc (threads s), calls := (calls s)(i := K_done), workers := (workers s)(made s := W_new), made := Suc (made s)\<rparr>) =
      over_workers worker_left s + 5" using sum_made[of worker_left "workers s" "made s" W_new] by (simp add: worker_left_def)
  then show ?case by (intro left_call[OF spawns(1,2), where v = K_done]) (simp_all add: call_left_def)
next
  case (full i s)
  show ?case by (rule left_call[OF full(1,2), where v = K_back]) (simp_all add: call_left_def)
next
  case (backs i s)
  show ?case by (rule left_call[OF backs, where v = K_done]) (simp_all add: call_left_def)
next
  case (waits w s)
  show ?case by (rule left_worker[OF waits, where v = W_wait]) (simp_all add: worker_left_def)
next
  case (takes w s t q)
  show ?case by (rule left_worker[OF takes(1,2), where v = "W_busy t"]) (simp_all add: worker_left_def takes(3))
next
  case (times_out w s)
  show ?case by (rule left_worker[OF times_out, where v = W_late]) (simp_all add: worker_left_def)
next
  case (leaves w s)
  show ?case by (rule left_worker[OF leaves, where v = W_left]) (simp_all add: worker_left_def)
next
  case (retires w s)
  show ?case by (rule left_worker[OF retires(1,2), where v = W_last]) (simp_all add: worker_left_def)
next
  case (saves w s t q)
  show ?case by (rule left_worker[OF saves(1,2), where v = "W_saved t"]) (simp_all add: worker_left_def saves(3))
next
  case (ends w s)
  show ?case by (rule left_worker[OF ends(1,2), where v = W_gone]) (simp_all add: worker_left_def)
next
  case (returns w s t)
  show ?case by (rule left_worker[OF returns, where v = "W_again t"]) (simp_all add: worker_left_def)
next
  case (rejoins w s t)
  show ?case by (rule left_worker[OF rejoins, where v = "W_busy t"]) (simp_all add: worker_left_def)
next
  case (finishes w s t)
  show ?case by (rule left_worker[OF finishes, where v = W_new]) (simp_all add: worker_left_def)
qed

text \<open>A thread that is there and a call that is on its way can move.\<close>

lemma alive_moves:
  assumes "w < made s" "alive (workers s w)"
  shows "\<exists>t. tpool_move prompt tmax n s t"
proof (cases "workers s w")
  case W_left
  then show ?thesis
  proof (cases "\<forall>i<n. calls s i \<noteq> K_back")
    case True
    then show ?thesis using tpool_move.retires[OF assms(1) W_left, of prompt n] by blast
  next
    case False
    then obtain i where "i < n" "calls s i = K_back" by blast
    then show ?thesis using tpool_move.backs by blast
  qed
next
  case W_last
  then show ?thesis using tpool_move.saves[OF assms(1) W_last] tpool_move.ends[OF assms(1) W_last] by (cases "pqueue s") blast+
qed (use assms in \<open>auto simp: alive_def intro: tpool_move.intros\<close>)

lemma pending_moves: "i < n \<Longrightarrow> pending (calls s i) \<Longrightarrow> \<exists>t. tpool_move prompt tmax n s t"
  unfolding pending_def by (elim disjE; cases "threads s < tmax") (blast intro: tpool_move.intros leI)+

text \<open>
  C26. The pool of blocking threads. In a pool of at least one thread and for any interleaving of calls and threads that time out: every task is run at most once; every move brings the pool closer to rest; and at
  rest every task that was queued was run exactly once or is still in the queue. None is left in the queue provided that no thread leaves the counter between the two accesses of a call that has overdrawn it; without this
  a task can be left (\<open>blocking_pool_strands\<close> below).
\<close>

theorem blocking_pool_runs_all:
  assumes "tpool_reach prompt tmax n s" "0 < tmax"
  shows "(\<forall>t. tpool_move prompt tmax n s t \<longrightarrow> pool_left n t < pool_left n s) \<and> (\<forall>i<n. count_list (finished s) i \<le> 1) \<and>
    ((\<nexists>t. tpool_move prompt tmax n s t) \<longrightarrow>
       (\<forall>i<n. count_list (finished s) i + count_list (pqueue s) i = of_bool (calls s i \<noteq> K_idle)) \<and> (prompt \<longrightarrow> pqueue s = []))"
proof (intro conjI impI allI)
  have inv: "counts_ok n s" "prompt \<Longrightarrow> attended n s" using tp.reach_inv[of n prompt tmax s] assms by (simp_all add: tpool_reach_def)
  have c: "int (count_list (pqueue s) i) + over_workers (in_hand_of i) s + int (count_list (finished s) i) = of_bool (calls s i \<noteq> K_idle)" if "i < n" for i
    using inv(1) that by (simp add: counts_ok_def)
  have h: "0 \<le> over_workers (in_hand_of i) s" for i by (rule over_nonneg) (rule weights_nonneg)
  show "count_list (finished s) i \<le> 1" if "i < n" for i
  proof -
    have "of_bool (calls s i \<noteq> K_idle) \<le> (1 :: int)" by simp
    then show ?thesis using c[OF that] h[of i] by linarith
  qed
  show "pool_left n t < pool_left n s" if "tpool_move prompt tmax n s t" for t using that by (rule move_left)
  assume stuck: "\<nexists>t. tpool_move prompt tmax n s t"
  then have dead: "\<forall>w<made s. \<not> alive (workers s w)" using alive_moves by blast
  show "pqueue s = []" if prompt using stuck dead inv(2)[OF that] pending_moves unfolding attended_def by blast
  show "count_list (finished s) i + count_list (pqueue s) i = of_bool (calls s i \<noteq> K_idle)" if "i < n" for i
  proof -
    have "over_workers (in_hand_of i) s = 0" using dead by (intro sum.neutral) (auto simp: alive_def)
    then show ?thesis using c[OF that] by (cases "calls s i = K_idle") simp_all
  qed
qed

section \<open>Concrete runs\<close>

text \<open>
  Who moves next: a call, a thread, or a thread that times out. Executing such a list is a run of the system.
\<close>

datatype actor = Call nat | Thread nat | Timeout nat

definition call_act :: "nat \<Rightarrow> nat \<Rightarrow> tpool \<Rightarrow> tpool option" where
  "call_act tmax i s = (case calls s i of
      K_idle \<Rightarrow> Some (s\<lparr>pqueue := pqueue s @ [i], calls := (calls s)(i := K_sent)\<rparr>)
    | K_sent \<Rightarrow> Some (s\<lparr>budget := budget s - 1, calls := (calls s)(i := if budget s \<le> 0 then K_short else K_done)\<rparr>)
    | K_short \<Rightarrow> Some (s\<lparr>calls := (calls s)(i := if threads s < tmax then K_add else K_done)\<rparr>)
    | K_add \<Rightarrow> Some (if threads s < tmax
        then s\<lparr>threads := Suc (threads s), calls := (calls s)(i := K_done), workers := (workers s)(made s := W_new), made := Suc (made s)\<rparr>
        else s\<lparr>threads := Suc (threads s), calls := (calls s)(i := K_back)\<rparr>)
    | K_back \<Rightarrow> Some (s\<lparr>threads := threads s - 1, calls := (calls s)(i := K_done)\<rparr>)
    | K_done \<Rightarrow> None)"

definition thread_act :: "nat \<Rightarrow> tpool \<Rightarrow> tpool option" where
  "thread_act w s = (case workers s w of
      W_new \<Rightarrow> Some (s\<lparr>budget := budget s + 1, workers := (workers s)(w := W_wait)\<rparr>)
    | W_wait \<Rightarrow> (case pqueue s of [] \<Rightarrow> None | t # q \<Rightarrow> Some (s\<lparr>pqueue := q, workers := (workers s)(w := W_busy t)\<rparr>))
    | W_late \<Rightarrow> Some (s\<lparr>budget := budget s - 1, workers := (workers s)(w := W_left)\<rparr>)
    | W_last \<Rightarrow> (case pqueue s of [] \<Rightarrow> Some (s\<lparr>workers := (workers s)(w := W_gone)\<rparr>) | t # q \<Rightarrow> Some (s\<lparr>pqueue := q, workers := (workers s)(w := W_saved t)\<rparr>))
    | W_saved t \<Rightarrow> Some (s\<lparr>threads := Suc (threads s), workers := (workers s)(w := W_again t)\<rparr>)
    | W_again t \<Rightarrow> Some (s\<lparr>budget := budget s + 1, workers := (workers s)(w := W_busy t)\<rparr>)
    | W_busy t \<Rightarrow> Some (s\<lparr>workers := (workers s)(w := W_new), finished := t # finished s\<rparr>)
    | W_left \<Rightarrow> Some (s\<lparr>threads := threads s - 1, workers := (workers s)(w := W_last)\<rparr>)
    | _ \<Rightarrow> None)"

definition act :: "bool \<Rightarrow> nat \<Rightarrow> nat \<Rightarrow> actor \<Rightarrow> tpool \<Rightarrow> tpool option" where
  "act prompt tmax n a s = (case a of
      Call i \<Rightarrow> if i < n then call_act tmax i s else None
    | Thread w \<Rightarrow> if w < made s \<and> (prompt \<and> workers s w = W_left \<longrightarrow> (\<forall>i \<in> set [0..<n]. calls s i \<noteq> K_back)) then thread_act w s else None
    | Timeout w \<Rightarrow> if w < made s \<and> workers s w = W_wait then Some (s\<lparr>workers := (workers s)(w := W_late)\<rparr>) else None)"

fun acts :: "bool \<Rightarrow> nat \<Rightarrow> nat \<Rightarrow> actor list \<Rightarrow> tpool \<Rightarrow> tpool option" where
  "acts prompt tmax n [] s = Some s"
| "acts prompt tmax n (a # as) s = (case act prompt tmax n a s of None \<Rightarrow> None | Some t \<Rightarrow> acts prompt tmax n as t)"

lemma call_act_step:
  assumes "call_act tmax i s = Some t" "i < n"
  shows "tpool_sends n s t \<or> tpool_move prompt tmax n s t"
proof (cases "calls s i")
  case K_idle
  then show ?thesis using assms tpool_sends.sends[OF assms(2) K_idle] by (simp add: call_act_def)
next
  case K_sent
  then show ?thesis using assms tpool_move.charges[OF assms(2) K_sent] by (simp add: call_act_def)
next
  case K_short
  then show ?thesis using assms tpool_move.looks[OF assms(2) K_short, of prompt tmax] by (simp add: call_act_def)
next
  case K_add
  then show ?thesis using assms tpool_move.spawns[OF assms(2) K_add] tpool_move.full[OF assms(2) K_add] by (simp add: call_act_def split: if_splits)
next
  case K_back
  then show ?thesis using assms tpool_move.backs[OF assms(2) K_back] by (simp add: call_act_def)
qed (use assms in \<open>simp add: call_act_def\<close>)

lemma thread_act_step:
  assumes "thread_act w s = Some t" "w < made s" "prompt \<and> workers s w = W_left \<longrightarrow> (\<forall>i<n. calls s i \<noteq> K_back)"
  shows "tpool_move prompt tmax n s t"
proof (cases "workers s w")
  case W_left
  then show ?thesis using assms tpool_move.retires[OF assms(2) W_left, of prompt n] by (simp add: thread_act_def)
qed (use assms in \<open>auto simp: thread_act_def intro: tpool_move.intros split: list.splits\<close>)

lemma acts_reach: "acts prompt tmax n as s = Some t \<Longrightarrow> tpool_reach prompt tmax n s \<Longrightarrow> tpool_reach prompt tmax n t"
proof (induction as arbitrary: s)
  case (Cons a as)
  then obtain u where u: "act prompt tmax n a s = Some u" "acts prompt tmax n as u = Some t" by (auto split: option.splits)
  have "tpool_sends n s u \<or> tpool_move prompt tmax n s u"
    using u(1) call_act_step[of tmax _ s u n prompt] thread_act_step[of _ s u prompt n tmax] by (cases a) (auto simp: act_def intro: tpool_move.times_out split: if_splits)
  then have "tpool_reach prompt tmax n u" using Cons.prems(2) unfolding tpool_reach_def by (rule reach.next_state[rotated])
  then show ?case using Cons.IH[OF u(2)] by blast
qed simp

lemma tpool_start: "tpool_reach prompt tmax n tpool_new"
  unfolding tpool_reach_def by (rule reach.start) simp

lemmas tpool_eval = act_def call_act_def thread_act_def tpool_new_def upt_rec

text \<open>One call, from the queue to the end of the thread that was made for it.\<close>

definition one_call :: "actor list" where
  "one_call = [Call 0, Call 0, Call 0, Call 0, Thread 0, Thread 0, Thread 0, Thread 0, Timeout 0, Thread 0, Thread 0, Thread 0]"

theorem blocking_pool_runs_all_witness:
  "\<exists>s. tpool_reach True 1 1 s \<and> pool_left 1 s = 0 \<and> calls s 0 = K_done \<and> count_list (finished s) 0 = 1 \<and> pqueue s = []"
proof -
  let ?s = "\<lparr>pqueue = [], budget = 0, threads = 0, calls = (\<lambda>_. K_idle)(0 := K_done), workers = (\<lambda>_. W_none)(0 := W_gone), made = 1, finished = [0]\<rparr>"
  have "acts True 1 1 one_call tpool_new = Some ?s" by (simp add: one_call_def tpool_eval)
  then have r: "tpool_reach True 1 1 ?s" using acts_reach tpool_start by blast
  have z: "pool_left 1 ?s = 0" by (simp add: pool_left_def call_left_def worker_left_def)
  note all = blocking_pool_runs_all[OF r zero_less_one]
  have "\<nexists>t. tpool_move True 1 1 ?s t" using conjunct1[OF all] z by auto
  from mp[OF conjunct2[OF conjunct2[OF all]] this] have "\<forall>i<1. count_list (finished ?s) i + count_list (pqueue ?s) i = of_bool (calls ?s i \<noteq> K_idle)" by (rule conjunct1)
  then show ?thesis using r z by (intro exI[of _ ?s]) simp
qed

text \<open>
  The bound on the number of threads does not hold: a thread that times out leaves the counter before its last look at the queue, a call that comes in between makes a new thread, and the old one, having found the task, is
  back. Here two threads run in a pool of one.
\<close>

theorem blocking_pool_outgrows:
  "\<exists>s. tpool_reach True 1 2 s \<and> threads s = 2 \<and> made s = 2 \<and> alive (workers s 0) \<and> alive (workers s 1)"
proof -
  let ?run = "[Call 0, Call 0, Call 0, Call 0, Thread 0, Thread 0, Thread 0, Thread 0, Timeout 0, Thread 0, Thread 0, Call 1, Call 1, Call 1, Call 1, Thread 0, Thread 0, Thread 0]"
  let ?s = "\<lparr>pqueue = [], budget = 0, threads = 2, calls = (\<lambda>_. K_idle)(0 := K_done, 1 := K_done), workers = (\<lambda>_. W_none)(0 := W_busy 1, 1 := W_new), made = 2, finished = [0]\<rparr>"
  have "acts True 1 2 ?run tpool_new = Some ?s" by (simp add: tpool_eval fun_upd_twist)
  then have "tpool_reach True 1 2 ?s" using acts_reach tpool_start by blast
  then show ?thesis by (intro exI[of _ ?s]) (simp add: alive_def)
qed

text \<open>
  And without the condition that no thread leaves while a call has overdrawn the counter, a task is left behind: two calls go for the only place, the second one overdraws the counter, and before it takes that
  back the thread has run both tasks, timed out and ended; a third call that looks now sees a full pool. Its task stays in the queue until another call comes.
\<close>

theorem blocking_pool_strands:
  "\<exists>s. tpool_reach False 1 3 s \<and> pqueue s = [2] \<and> (\<nexists>t. tpool_move False 1 3 s t)"
proof -
  let ?run = "[Call 0, Call 1, Call 0, Call 1, Call 0, Call 1, Call 0, Call 1, Thread 0, Thread 0, Thread 0, Thread 0, Thread 0, Thread 0, Thread 0, Timeout 0, Thread 0, Thread 0, Thread 0,
    Call 2, Call 2, Call 2, Call 1]"
  let ?s = "\<lparr>pqueue = [2], budget = - 1, threads = 0, calls = (\<lambda>_. K_idle)(0 := K_done, 1 := K_done, 2 := K_done), workers = (\<lambda>_. W_none)(0 := W_gone), made = 1, finished = [1, 0]\<rparr>"
  have "acts False 1 3 ?run tpool_new = Some ?s" by (simp add: tpool_eval fun_upd_twist)
  then have "tpool_reach False 1 3 ?s" using acts_reach tpool_start by blast
  moreover have "\<nexists>t. tpool_move False 1 3 ?s t" by (auto simp: tpool_move.simps less_Suc_eq numeral_3_eq_3 split: if_splits)
  ultimately show ?thesis by (intro exI[of _ ?s]) simp
qed

end
