(* ===== verification/Test_Plugin.thy ===== *)
theory Test_Plugin
  imports Py_IO Run_Main
begin

text \<open>
  The pytest plugin, \<open>src/tonio/_testutils/_pytest_plugin.py\<close>: the one runner of a session, the hook around the set-up of fixtures, the marking and conversion of the tests that are
  coroutines, and the call of a test. What pytest does around the hooks is an argument of the definitions: the set-up the first hook wraps, whether a function is a test. A coroutine is a function
  of the runtime it runs on, which acts on the world of the tests; that \<open>run_until_complete\<close> gives its outcome is \<open>Run_Main\<close>.
\<close>

section \<open>The runner\<close>

text \<open>Values of arguments: a dictionary of options, where an option can be \<open>None\<close>, or any other object.\<close>

datatype val = Dict "(string \<times> nat option) list" | Obj nat

definition extract_runtime_options :: "val \<Rightarrow> (string \<times> nat option) list" where
  "extract_runtime_options backend = (case backend of Dict d \<Rightarrow> d | Obj _ \<Rightarrow> [])"

definition tonio_runtime_options :: "val \<Rightarrow> (string \<times> nat option) list" where
  "tonio_runtime_options tonio_runtime = (case tonio_runtime of Dict d \<Rightarrow> d | Obj _ \<Rightarrow> [])"

text \<open>
  The world of the tests with the global \<open>_current_runner\<close> of the plugin. A function: its kind; the object it is bound to, with its type, if it is a method; and what running a call of it does,
  given the object, the arguments and the runtime, if one runs it.
\<close>

record 'w session =
  current_runner :: "rt_args option"
  world :: 'w

datatype fkind = Plain | Coroutine_fn | Generator_fn | Asyncgen_fn

type_synonym kwargs = "string \<rightharpoonup> val"

record ('v, 'w) pyfunc =
  fkind :: fkind
  bound_to :: "(nat \<times> nat) option"
  body :: "(nat \<times> nat) option \<Rightarrow> kwargs \<Rightarrow> rt_args option \<Rightarrow> ('v, 'w session) io"

definition iscoroutinefunction :: "('v, 'w) pyfunc \<Rightarrow> bool" where
  "iscoroutinefunction f \<longleftrightarrow> fkind f = Coroutine_fn"

definition isgeneratorfunction :: "('v, 'w) pyfunc \<Rightarrow> bool" where
  "isgeneratorfunction f \<longleftrightarrow> fkind f = Generator_fn"

definition isasyncgenfunction :: "('v, 'w) pyfunc \<Rightarrow> bool" where
  "isasyncgenfunction f \<longleftrightarrow> fkind f = Asyncgen_fn"

text \<open>
  \<open>runner._run(f(**kwargs))\<close>: the runtime runs the coroutine or generator that the call makes. It takes an asynchronous generator for a coroutine and awaits it, which Python refuses.
\<close>

definition run_fn :: "rt_args \<Rightarrow> ('v, 'w) pyfunc \<Rightarrow> kwargs \<Rightarrow> ('v, 'w session) io" where
  "run_fn rn f kwargs =
     (if isasyncgenfunction f then raise (TypeError ''object async_generator can't be used in 'await' expression'')
      else body f (bound_to f) kwargs (Some rn))"

text \<open>\<open>get_runner\<close>: made with the options of the first call; \<open>cpus\<close> is the number of processors.\<close>

definition runner_options :: "(string \<times> nat option) list \<Rightarrow> options" where
  "runner_options opts = default_options\<lparr>use_context := True, threads := (case map_of opts ''threads'' of Some n \<Rightarrow> n | None \<Rightarrow> Some 2)\<rparr>"

definition get_runner :: "nat \<Rightarrow> (string \<times> nat option) list \<Rightarrow> (rt_args, 'w session) io" where
  "get_runner cpus opts = bnd (read current_runner) (\<lambda>r. case r of
      Some r \<Rightarrow> ret r
    | None \<Rightarrow> (let r = new_runtime cpus (runner_options opts) in bnd (modify (\<lambda>s. s\<lparr>current_runner := Some r\<rparr>)) (\<lambda>_. ret r)))"

section \<open>Fixtures\<close>

record ('v, 'w) fixturedef =
  func :: "('v, 'w) pyfunc"
  argnames :: "string list"

text \<open>
  The wrapper of a fixture: a method is bound to the instance of the request when that is of the type it was bound to; the arguments the plugin has added are passed on only if the fixture asks for
  them. \<open>inst\<close> is the attribute \<open>instance\<close> of pytest's request, an object with its type.
\<close>

definition rebind :: "(nat \<times> nat) option \<Rightarrow> ('v, 'w) pyfunc \<Rightarrow> ('v, 'w) pyfunc" where
  "rebind inst f = (case (inst, bound_to f) of
      (Some i, Some b) \<Rightarrow> if fst b = fst i then f\<lparr>bound_to := Some i\<rparr> else f
    | _ \<Rightarrow> f)"

definition fixture_wrapper :: "nat \<Rightarrow> (val \<Rightarrow> (nat \<times> nat) option) \<Rightarrow> ('v, 'w) pyfunc \<Rightarrow> bool \<Rightarrow> bool \<Rightarrow> kwargs \<Rightarrow> ('v, 'w session) io" where
  "fixture_wrapper cpus inst f has_runtime_arg has_request_arg kwargs =
     (case (kwargs ''tonio_runtime'', kwargs ''request'') of
        (Some tonio_runtime, Some request) \<Rightarrow>
          (let local_func = rebind (inst request) f;
               kwargs = kwargs(''tonio_runtime'' := None, ''request'' := None);
               kwargs = (if has_runtime_arg then kwargs(''tonio_runtime'' \<mapsto> tonio_runtime) else kwargs);
               kwargs = (if has_request_arg then kwargs(''request'' \<mapsto> request) else kwargs)
           in bnd (get_runner cpus (extract_runtime_options tonio_runtime)) (\<lambda>rn. run_fn rn local_func kwargs))
      | _ \<Rightarrow> raise (TypeError ''missing required positional argument''))"

definition wrapper_func :: "nat \<Rightarrow> (val \<Rightarrow> (nat \<times> nat) option) \<Rightarrow> ('v, 'w) pyfunc \<Rightarrow> bool \<Rightarrow> bool \<Rightarrow> ('v, 'w) pyfunc" where
  "wrapper_func cpus inst f has_runtime_arg has_request_arg =
     \<lparr>fkind = Generator_fn, bound_to = None, body = (\<lambda>_ kwargs _. fixture_wrapper cpus inst f has_runtime_arg has_request_arg kwargs)\<rparr>"

text \<open>The hook: \<open>setup\<close> is what it wraps, the rest of the set-up of the fixture by pytest.\<close>

definition add_arg :: "string \<Rightarrow> string list \<Rightarrow> string list" where
  "add_arg a names = (if a \<in> set names then names else names @ [a])"

definition pytest_fixture_setup ::
    "nat \<Rightarrow> (val \<Rightarrow> (nat \<times> nat) option) \<Rightarrow> string list \<Rightarrow> ('a, ('v, 'w) fixturedef \<times> 'w session) io \<Rightarrow> ('a, ('v, 'w) fixturedef \<times> 'w session) io" where
  "pytest_fixture_setup cpus inst fixturenames setup = bnd (read fst) (\<lambda>fd.
     if (isasyncgenfunction (func fd) \<or> iscoroutinefunction (func fd) \<or> isgeneratorfunction (func fd)) \<and> ''tonio_runtime'' \<in> set fixturenames
     then bnd (modify (apfst (\<lambda>d. d\<lparr>func := wrapper_func cpus inst (func fd) (''tonio_runtime'' \<in> set (argnames fd)) (''request'' \<in> set (add_arg ''tonio_runtime'' (argnames fd))),
                 argnames := add_arg ''request'' (add_arg ''tonio_runtime'' (argnames d))\<rparr>)))
            (\<lambda>_. try_finally setup (modify (apfst (\<lambda>d. d\<lparr>func := func fd, argnames := argnames fd\<rparr>))))
     else setup)"

text \<open>pytest calls a fixture with the values of the names in its definition.\<close>

definition call_args :: "(string \<Rightarrow> val) \<Rightarrow> string list \<Rightarrow> kwargs" where
  "call_args vals names = (\<lambda>a. if a \<in> set names then Some (vals a) else None)"

lemma add_arg_set [simp]: "set (add_arg a names) = insert a (set names)"
  by (auto simp: add_arg_def)

lemma wrapper_args:
  "fixture_wrapper cpus inst f (''tonio_runtime'' \<in> set names) (''request'' \<in> set (add_arg ''tonio_runtime'' names))
     (call_args vals (add_arg ''request'' (add_arg ''tonio_runtime'' names))) =
   bnd (get_runner cpus (extract_runtime_options (vals ''tonio_runtime''))) (\<lambda>rn. run_fn rn (rebind (inst (vals ''request'')) f) (call_args vals names))"
proof -
  have "(let kw = (call_args vals (add_arg ''request'' (add_arg ''tonio_runtime'' names)))(''tonio_runtime'' := None, ''request'' := None);
             kw = (if ''tonio_runtime'' \<in> set names then kw(''tonio_runtime'' \<mapsto> vals ''tonio_runtime'') else kw)
         in if ''request'' \<in> set (add_arg ''tonio_runtime'' names) then kw(''request'' \<mapsto> vals ''request'') else kw) = call_args vals names"
    by (auto simp: fun_eq_iff call_args_def Let_def)
  then show ?thesis by (simp add: fixture_wrapper_def Let_def call_args_def)
qed

lemma try_finally_modify:
  "try_finally m (modify f) s = map_option (apsnd f) (m s)"
  by (auto simp: try_finally_def modify_def split: option.splits prod.splits)

text \<open>The runner is made once and kept: the options of later calls have no effect.\<close>

lemma runner_kept: "get_runner cpus opts s = Some (Inr rn, t) \<Longrightarrow> current_runner t = Some rn \<and> get_runner cpus opts' t = Some (Inr rn, t)"
  by (auto simp: get_runner_def bnd_def read_def ret_def modify_def Let_def split: option.splits)

lemma asyncgen_fixture_fails: "fkind f = Asyncgen_fn \<Longrightarrow> run_fn rn f kwargs = raise (TypeError ''object async_generator can't be used in 'await' expression'')"
  by (simp add: run_fn_def isasyncgenfunction_def)

text \<open>
  The set-up of a fixture that is a coroutine. pytest sees the wrapper and the names of the fixture with \<open>tonio_runtime\<close> and \<open>request\<close> added; called with the values of these names, the wrapper runs
  the fixture's own function, on the runner of the session and bound to the instance of the request, with exactly the arguments the fixture declares; and afterwards, whether the
  set-up has returned or raised, the definition of the fixture is as it was.
\<close>

theorem plugin_fixture_setup:
  assumes "fkind (func fd) \<noteq> Plain" "''tonio_runtime'' \<in> set fixturenames"
  shows "\<exists>w names. pytest_fixture_setup cpus inst fixturenames setup (fd, s) =
        map_option (apsnd (apfst (\<lambda>d. d\<lparr>func := func fd, argnames := argnames fd\<rparr>))) (setup (fd\<lparr>func := w, argnames := names\<rparr>, s)) \<and>
      set names = set (argnames fd) \<union> {''tonio_runtime'', ''request''} \<and> fkind w = Generator_fn \<and>
      (\<forall>b rt vals. body w b (call_args vals names) rt =
        bnd (get_runner cpus (extract_runtime_options (vals ''tonio_runtime''))) (\<lambda>rn. run_fn rn (rebind (inst (vals ''request'')) (func fd)) (call_args vals (argnames fd))))"
proof (intro exI conjI allI)
  let ?w = "wrapper_func cpus inst (func fd) (''tonio_runtime'' \<in> set (argnames fd)) (''request'' \<in> set (add_arg ''tonio_runtime'' (argnames fd)))"
  let ?names = "add_arg ''request'' (add_arg ''tonio_runtime'' (argnames fd))"
  have "isasyncgenfunction (func fd) \<or> iscoroutinefunction (func fd) \<or> isgeneratorfunction (func fd)"
    using assms(1) by (cases "fkind (func fd)") (simp_all add: isasyncgenfunction_def iscoroutinefunction_def isgeneratorfunction_def)
  then show "pytest_fixture_setup cpus inst fixturenames setup (fd, s) =
      map_option (apsnd (apfst (\<lambda>d. d\<lparr>func := func fd, argnames := argnames fd\<rparr>))) (setup (fd\<lparr>func := ?w, argnames := ?names\<rparr>, s))"
    using assms(2) by (simp add: pytest_fixture_setup_def bnd_def read_def modify_def try_finally_modify[unfolded modify_def])
  show "set ?names = set (argnames fd) \<union> {''tonio_runtime'', ''request''}" by auto
  show "fkind ?w = Generator_fn" by (simp add: wrapper_func_def)
  show "body ?w b (call_args vals ?names) rt =
      bnd (get_runner cpus (extract_runtime_options (vals ''tonio_runtime''))) (\<lambda>rn. run_fn rn (rebind (inst (vals ''request'')) (func fd)) (call_args vals (argnames fd)))" for b rt vals
    unfolding wrapper_func_def by (simp only: pyfunc.simps wrapper_args)
qed

section \<open>Marking and collecting tests\<close>

text \<open>
  \<open>pytest_pycollect_makeitem\<close>: whether the mark that asks for the fixture \<open>tonio_runtime\<close> is added to the function. \<open>istest\<close> is the collector's answer, \<open>inner\<close> the inner test of Hypothesis, if the
  function has one, \<open>marked\<close> whether the collector is marked.
\<close>

definition pytest_pycollect_makeitem :: "bool \<Rightarrow> ('v, 'w) pyfunc \<Rightarrow> ('v, 'w) pyfunc option \<Rightarrow> bool \<Rightarrow> string list \<Rightarrow> bool" where
  "pytest_pycollect_makeitem istest obj inner marked own_markers =
     (istest \<and> (let inner_func = (case inner of Some f \<Rightarrow> f | None \<Rightarrow> obj) in
        (iscoroutinefunction inner_func \<or> isgeneratorfunction inner_func) \<and> (marked \<or> ''tonio'' \<in> set own_markers)))"

record ('v, 'w) item =
  is_function :: bool
  ifunction :: "('v, 'w) pyfunc"
  closest_marker :: bool
  fixturenames :: "string list"
  names_closure :: "string list"
  originalname :: string

text \<open>The parameters of the test that takes the place of an item, in the shape of pytest 8 and of pytest 7; the parameter of \<open>tonio_runtime\<close> is \<open>None\<close>.\<close>

datatype callspec =
    Callspec8 "(string \<times> val option) list" "(string \<times> nat) list" "string option list"
  | Callspec7 "(string \<times> val option) list" "(string \<times> nat) list" "string option list"

definition runtime_callspec :: "bool \<Rightarrow> callspec" where
  "runtime_callspec has_arg2scope = (if has_arg2scope then Callspec8 [(''tonio_runtime'', None)] [(''tonio_runtime'', 0)] [None]
     else Callspec7 [(''tonio_runtime'', None)] [(''tonio_runtime'', 0)] [None])"

definition needs_runtime :: "('v, 'w) item \<Rightarrow> bool" where
  "needs_runtime it \<longleftrightarrow> is_function it \<and> (iscoroutinefunction (ifunction it) \<or> isgeneratorfunction (ifunction it)) \<and> closest_marker it
     \<and> ''tonio_runtime'' \<notin> set (fixturenames it)"

text \<open>\<open>from_parent\<close> is the constructor of pytest, given the item it replaces, the name, the parameters and the closure of fixture names.\<close>

definition convert_item ::
    "bool \<Rightarrow> (('v, 'w) item \<Rightarrow> string \<Rightarrow> callspec \<Rightarrow> string list \<Rightarrow> ('v, 'w) item) \<Rightarrow> ('v, 'w) item \<Rightarrow> ('v, 'w) item" where
  "convert_item pytest8 from_parent it =
     from_parent it (originalname it @ ''[tonio]'') (runtime_callspec pytest8)
       (if ''tonio_runtime'' \<in> set (names_closure it) then names_closure it else names_closure it @ [''tonio_runtime''])"

definition pytest_collection_finish ::
    "bool \<Rightarrow> (('v, 'w) item \<Rightarrow> string \<Rightarrow> callspec \<Rightarrow> string list \<Rightarrow> ('v, 'w) item) \<Rightarrow> ('v, 'w) item list \<Rightarrow> ('v, 'w) item list" where
  "pytest_collection_finish pytest8 from_parent items =
     foldl (\<lambda>acc (i, it). if needs_runtime it then take i acc @ [convert_item pytest8 from_parent it] @ drop (Suc i) acc else acc) items (rev (enumerate 0 items))"

text \<open>Going through the indices from the last to the first, the loop replaces every item in its place.\<close>

lemma collect_suffix:
  assumes "k \<le> length items"
  shows "foldl (\<lambda>acc (i, it). if P it then take i acc @ [f it] @ drop (Suc i) acc else acc) items (rev (drop k (enumerate 0 items))) =
    take k items @ map (\<lambda>it. if P it then f it else it) (drop k items)"
  using assms
proof (induction rule: inc_induct)
  case (step k)
  have d: "drop k (enumerate 0 items) = (k, items ! k) # drop (Suc k) (enumerate 0 items)" "drop k items = items ! k # drop (Suc k) items"
    using step(2) by (simp_all add: Cons_nth_drop_Suc[symmetric] nth_enumerate_eq)
  have "take (Suc k) items = take k items @ [items ! k]" using step(2) by (rule take_Suc_conv_app_nth)
  then show ?case using step by (simp add: d)
qed simp

lemma collection_finish_map:
  "pytest_collection_finish pytest8 from_parent items = map (\<lambda>it. if needs_runtime it then convert_item pytest8 from_parent it else it) items"
  using collect_suffix[of 0 items needs_runtime "convert_item pytest8 from_parent"] by (simp add: pytest_collection_finish_def)

section \<open>Running a test\<close>

text \<open>\<open>_iterate_exceptions\<close>: the exceptions in a tree of groups, from left to right.\<close>

fun iterate_exceptions :: "exn \<Rightarrow> exn list" where
  "iterate_exceptions (ExceptionGroup m es) = concat (map iterate_exceptions es)"
| "iterate_exceptions (BaseExceptionGroup m es) = concat (map iterate_exceptions es)"
| "iterate_exceptions e = [e]"

definition ends_session :: "exn \<Rightarrow> bool" where
  "ends_session e = (case e of PytestExit _ \<Rightarrow> True | KeyboardInterrupt \<Rightarrow> True | SystemExit _ \<Rightarrow> True | _ \<Rightarrow> False)"

definition is_ExceptionGroup :: "exn \<Rightarrow> bool" where
  "is_ExceptionGroup e = (case e of ExceptionGroup _ _ \<Rightarrow> True | _ \<Rightarrow> False)"

definition unwrap_group :: "exn \<Rightarrow> exn" where
  "unwrap_group excgrp = (case find ends_session (iterate_exceptions excgrp) of Some exc \<Rightarrow> exc | None \<Rightarrow> excgrp)"

text \<open>The inner test of a Hypothesis test: as it was, or \<open>run_with_hypothesis\<close>, which is told apart by its qualified name.\<close>

datatype ('v, 'w) inner_test = Inner "('v, 'w) pyfunc" | Run_with_hypothesis "kwargs \<Rightarrow> (unit, 'w session) io"

record ('v, 'w) pyfuncitem =
  obj :: "('v, 'w) pyfunc"
  hypothesis :: "('v, 'w) inner_test option"
  funcargs :: kwargs
  test_argnames :: "string list"

primrec pick_args :: "string list \<Rightarrow> kwargs \<Rightarrow> exn + kwargs" where
  "pick_args [] args = Inr (\<lambda>_. None)"
| "pick_args (a # names) args = (case args a of None \<Rightarrow> Inl (KeyError a)
     | Some v \<Rightarrow> (case pick_args names args of Inl e \<Rightarrow> Inl e | Inr kw \<Rightarrow> Inr (kw(a \<mapsto> v))))"

text \<open>\<open>pytest_pyfunc_call\<close>: what it returns, \<open>True\<close> if it has run the test, and the inner test it leaves.\<close>

definition pytest_pyfunc_call :: "nat \<Rightarrow> ('v, 'w) pyfuncitem \<Rightarrow> (bool option \<times> ('v, 'w) inner_test option, 'w session) io" where
  "pytest_pyfunc_call cpus it = (case funcargs it ''tonio_runtime'' of
      None \<Rightarrow> ret (None, hypothesis it)
    | Some rt \<Rightarrow> (let opts = extract_runtime_options rt in
        case hypothesis it of
          Some (Run_with_hypothesis g) \<Rightarrow> ret (None, Some (Run_with_hypothesis g))
        | Some (Inner f) \<Rightarrow> ret (None, Some (if iscoroutinefunction f \<or> isgeneratorfunction f
            then Run_with_hypothesis (\<lambda>kwargs. bnd (get_runner cpus opts) (\<lambda>rn. bnd (run_fn rn f kwargs) (\<lambda>_. ret ()))) else Inner f))
        | None \<Rightarrow> if iscoroutinefunction (obj it) \<or> isgeneratorfunction (obj it)
            then (case pick_args (test_argnames it) (funcargs it) of
                Inl e \<Rightarrow> raise e
              | Inr testargs \<Rightarrow> bnd (get_runner cpus opts) (\<lambda>rn.
                  bnd (try_except (run_fn rn (obj it) testargs) is_ExceptionGroup (\<lambda>excgrp. raise (unwrap_group excgrp))) (\<lambda>_. ret (Some True, None))))
            else ret (None, None)))"

text \<open>The groups Python makes: an \<open>ExceptionGroup\<close> has exceptions derived from \<open>Exception\<close> only.\<close>

fun group_ok :: "exn \<Rightarrow> bool" where
  "group_ok (ExceptionGroup m es) \<longleftrightarrow> es \<noteq> [] \<and> (\<forall>e \<in> set es. is_Exception e \<and> group_ok e)"
| "group_ok (BaseExceptionGroup m es) \<longleftrightarrow> es \<noteq> [] \<and> (\<forall>e \<in> set es. group_ok e)"
| "group_ok e \<longleftrightarrow> True"

lemma leaf_is_Exception: "group_ok e \<Longrightarrow> is_Exception e \<Longrightarrow> x \<in> set (iterate_exceptions e) \<Longrightarrow> is_Exception x"
  by (induction e rule: iterate_exceptions.induct) (auto simp: is_Exception_def)

lemma unwrap_group_cases:
  "unwrap_group e = e \<and> (\<forall>x \<in> set (iterate_exceptions e). \<not> ends_session x) \<or>
   find ends_session (iterate_exceptions e) = Some (unwrap_group e) \<and> unwrap_group e \<in> set (iterate_exceptions e) \<and> ends_session (unwrap_group e)"
proof (cases "find ends_session (iterate_exceptions e)")
  case None
  then have "\<forall>x \<in> set (iterate_exceptions e). \<not> ends_session x" by (simp add: find_None_iff)
  then show ?thesis using None by (simp add: unwrap_group_def)
next
  case (Some x)
  then have "ends_session x" "x \<in> set (iterate_exceptions e)" by (auto simp: find_Some_iff)
  then show ?thesis using Some by (simp add: unwrap_group_def)
qed

lemma pick_args_eq: "(\<forall>a \<in> set names. args a \<noteq> None) \<Longrightarrow> pick_args names args = Inr (args |` set names)"
proof (induction names)
  case (Cons a names)
  then show ?case by (auto simp: fun_eq_iff restrict_map_def)
qed (simp add: fun_eq_iff)

text \<open>
  C40. Running a test that is a coroutine. It is run on the runner of the session with exactly the arguments it declares. The hook reports the test as run when the test returned; what the test raised is
  raised, except that a group with a \<open>pytest.exit\<close> anywhere inside is replaced by the first of them. Since a group that is caught has only exceptions derived from \<open>Exception\<close>, the hook's tests for
  \<open>KeyboardInterrupt\<close> and \<open>SystemExit\<close> never apply.
\<close>

theorem plugin_runs_test:
  assumes "funcargs it ''tonio_runtime'' = Some rt" "hypothesis it = None" "iscoroutinefunction (obj it) \<or> isgeneratorfunction (obj it)"
    and "\<forall>a \<in> set (test_argnames it). funcargs it a \<noteq> None" "get_runner cpus (extract_runtime_options rt) s = Some (Inr rn, s')"
    and "run_fn rn (obj it) (funcargs it |` set (test_argnames it)) s' = Some (r, t)" "\<forall>e. r = Inl e \<longrightarrow> group_ok e"
  shows "current_runner s' = Some rn \<and>
    (case r of
       Inr v \<Rightarrow> pytest_pyfunc_call cpus it s = Some (Inr (Some True, None), t)
     | Inl e \<Rightarrow> (\<exists>e'. pytest_pyfunc_call cpus it s = Some (Inl e', t) \<and>
         (if is_ExceptionGroup e \<and> (\<exists>m. PytestExit m \<in> set (iterate_exceptions e)) then find ends_session (iterate_exceptions e) = Some e' \<and> (\<exists>m. e' = PytestExit m) else e' = e)))"
proof -
  have call: "pytest_pyfunc_call cpus it s = (bnd (try_except (run_fn rn (obj it) (funcargs it |` set (test_argnames it))) is_ExceptionGroup (\<lambda>excgrp. raise (unwrap_group excgrp)))
      (\<lambda>_. ret (Some True, None))) s'"
    using assms(1-5) pick_args_eq[OF assms(4)] by (simp add: pytest_pyfunc_call_def Let_def bnd_def)
  show ?thesis
  proof (cases r)
    case (Inr v)
    then show ?thesis using call assms(6) runner_kept[OF assms(5)] by (simp add: bnd_def try_except_def try_else_def ret_def)
  next
    case (Inl e)
    have "ends_session x \<longleftrightarrow> (\<exists>m. x = PytestExit m)" if "is_ExceptionGroup e" "x \<in> set (iterate_exceptions e)" for x
      using leaf_is_Exception[of e x] assms(7) Inl that by (auto simp: ends_session_def is_Exception_def is_ExceptionGroup_def split: exn.splits)
    then show ?thesis using call Inl assms(6) runner_kept[OF assms(5)] unwrap_group_cases[of e]
      by (auto simp: bnd_def try_except_def try_else_def raise_def)
  qed
qed

section \<open>Concrete runs\<close>

text \<open>A coroutine that returns the number of its arguments that it finds, on a session without a runner; and a test that raises a group with a \<open>pytest.exit\<close> inside.\<close>

definition demo_fn :: "(nat, unit) pyfunc" where
  "demo_fn = \<lparr>fkind = Coroutine_fn, bound_to = None, body = (\<lambda>_ kwargs _. ret (length (filter (\<lambda>a. kwargs a \<noteq> None) [''x'', ''request'', ''tonio_runtime''])))\<rparr>"

definition demo_session :: "unit session" where
  "demo_session = \<lparr>current_runner = None, world = ()\<rparr>"

theorem plugin_fixture_setup_witness:
  "\<exists>(w :: (nat, unit) pyfunc) names. pytest_fixture_setup 4 (\<lambda>_. None) [''tonio_runtime''] (ret (7 :: nat)) (\<lparr>func = demo_fn, argnames = [''x'']\<rparr>, demo_session) =
      Some (Inr 7, \<lparr>func = demo_fn, argnames = [''x'']\<rparr>, demo_session) \<and> set names = {''x'', ''tonio_runtime'', ''request''} \<and>
    returned (body w None (call_args (\<lambda>_. Dict []) names) None demo_session) = Some 1"
proof -
  let ?fd = "\<lparr>func = demo_fn, argnames = [''x'']\<rparr>"
  have f: "fkind (func ?fd) \<noteq> Plain" "''tonio_runtime'' \<in> set [''tonio_runtime'']" by (simp_all add: demo_fn_def)
  obtain w names where *: "pytest_fixture_setup 4 (\<lambda>_. None) [''tonio_runtime''] (ret (7 :: nat)) (?fd, demo_session) =
        map_option (apsnd (apfst (\<lambda>d. d\<lparr>func := func ?fd, argnames := argnames ?fd\<rparr>))) (ret 7 (?fd\<lparr>func := w, argnames := names\<rparr>, demo_session))"
      "set names = set (argnames ?fd) \<union> {''tonio_runtime'', ''request''}"
    and b: "\<forall>b rt vals. body w b (call_args vals names) rt =
        bnd (get_runner 4 (extract_runtime_options (vals ''tonio_runtime''))) (\<lambda>rn. run_fn rn (rebind None (func ?fd)) (call_args vals (argnames ?fd)))"
    using plugin_fixture_setup[OF f, of 4 "\<lambda>_. None" "ret 7" demo_session] by blast
  have "body w None (call_args (\<lambda>_. Dict []) names) None =
      bnd (get_runner 4 (extract_runtime_options (Dict []))) (\<lambda>rn. run_fn rn (rebind None (func ?fd)) (call_args (\<lambda>_. Dict []) (argnames ?fd)))" using b by blast
  then have "returned (body w None (call_args (\<lambda>_. Dict []) names) None demo_session) = Some 1"
    by (simp add: extract_runtime_options_def get_runner_def bnd_def read_def modify_def ret_def run_fn_def rebind_def demo_fn_def isasyncgenfunction_def call_args_def Let_def demo_session_def)
  then show ?thesis using * by (intro exI[of _ w] exI[of _ names]) (auto simp: ret_def)
qed

definition demo_test :: "(nat, unit) pyfuncitem" where
  "demo_test = \<lparr>obj = demo_fn\<lparr>body := (\<lambda>_ _ _. raise (ExceptionGroup ''SpawnExceptionGroup'' [UserError 1, ExceptionGroup ''inner'' [PytestExit ''stop'']]))\<rparr>,
     hypothesis = None, funcargs = [''tonio_runtime'' \<mapsto> Dict [(''threads'', Some 1)]], test_argnames = []\<rparr>"

theorem plugin_runs_test_witness:
  "\<exists>s. pytest_pyfunc_call 4 demo_test demo_session = Some (Inl (PytestExit ''stop''), s) \<and> current_runner s = Some (new_runtime 4 (runner_options [(''threads'', Some 1)]))"
proof -
  let ?rn = "new_runtime 4 (runner_options [(''threads'', Some 1)])" and ?e = "ExceptionGroup ''SpawnExceptionGroup'' [UserError 1, ExceptionGroup ''inner'' [PytestExit ''stop'']]"
  let ?s = "demo_session\<lparr>current_runner := Some ?rn\<rparr>"
  have "current_runner ?s = Some ?rn \<and> (case Inl ?e :: exn + nat of
      Inr v \<Rightarrow> pytest_pyfunc_call 4 demo_test demo_session = Some (Inr (Some True, None), ?s)
    | Inl e \<Rightarrow> (\<exists>e'. pytest_pyfunc_call 4 demo_test demo_session = Some (Inl e', ?s) \<and>
        (if is_ExceptionGroup e \<and> (\<exists>m. PytestExit m \<in> set (iterate_exceptions e)) then find ends_session (iterate_exceptions e) = Some e' \<and> (\<exists>m. e' = PytestExit m) else e' = e)))"
    by (rule plugin_runs_test[where rt = "Dict [(''threads'', Some 1)]"])
      (auto simp: demo_test_def demo_fn_def iscoroutinefunction_def isasyncgenfunction_def get_runner_def bnd_def read_def ret_def modify_def Let_def demo_session_def run_fn_def raise_def
        extract_runtime_options_def is_Exception_def)
  then show ?thesis by (auto simp: is_ExceptionGroup_def ends_session_def)
qed

text \<open>With pytest's constructor making a test of the given names, every marked coroutine has the fixture of the runtime after the collection, and the other items are untouched.\<close>

lemma collection_complete:
  assumes "\<And>it name cs closure. fixturenames (from_parent it name cs closure) = closure" "it \<in> set (pytest_collection_finish pytest8 from_parent items)"
  shows "\<not> needs_runtime it"
  using assms by (auto simp: collection_finish_map convert_item_def needs_runtime_def split: if_splits)

end
