(* ===== verification/Work.thy ===== *)
theory Work
  imports Prelude
begin

text \<open>
  The worker threads: \<open>WorkSchedule\<close>, \<open>find_work\<close> and \<open>work_loop\<close> of \<open>src/src/work.rs\<close>, with \<open>add_handle\<close>, \<open>add_io_handle\<close>, \<open>defer_handle\<close> and \<open>stop_threads\<close> of \<open>src/src/runtime.rs\<close>. Handles are pushed to the queue of the
  worker that makes them or to a queue that all share, the injector. A worker without work raises its idle flag, looks once more and parks; whoever pushes a handle wakes a parked worker, unless, for
  \<open>unpark_one\<close>, a worker that was woken before is still looking: \<open>speculation\<close> counts these. A step is one access to a shared cell; accesses are taken as sequentially consistent. What a worker wakes others with runs beside it instead of before it goes on, and a look at the queues of the others may miss one: this allows more runs than the code has. Handles are only counted; the counters are \<open>usize\<close>, whose transient wrap below 0 is a negative number here.
\<close>

section \<open>The system\<close>

text \<open>
  Whoever wakes a worker, with the choice between \<open>unpark\<close>, which is forced, and \<open>unpark_one\<close>: before the load of \<open>idle_count\<close>; before the exchange or the addition on \<open>speculation\<close>; at the flag of worker
  \<open>k\<close>; with the flag of \<open>k\<close> cleared, before the subtraction from \<open>idle_count\<close> and before the \<open>unpark\<close>.
\<close>

datatype waker = Q_load bool | Q_cas | Q_add | Q_scan nat | Q_count nat | Q_unpark nat

text \<open>The queue \<open>find_work\<close> looks at: the worker's own, the injector, those of the others.\<close>

datatype lookout = Own | Inj | Others

text \<open>
  A worker, where the argument is \<open>is_speculating\<close>: in the first \<open>find_work\<close>; in \<open>set_idle\<close>, before the flag and before the count; in the second \<open>find_work\<close>; before it gives its speculation up; in the last
  look at the injector; parked; back from \<open>park\<close>. With a handle in hand: before the exchange of \<open>clear_idle\<close>; past it, before the count; with a flag that was claimed, before it absorbs the token; before
  it gives up its own token; running the handle. And back from \<open>park\<close> with its own flag cleared, before the count.
  \<open>W_check\<close>, \<open>W_check2\<close> and \<open>W_check3\<close> are before the three looks at \<open>work_stopping\<close>; a worker that leaves clears its flag after the second, gives its token up and has ended, where a second argument and that of \<open>W_ended\<close> tell of a
  token it was claimed with and took along.
\<close>

datatype wk = W_first bool lookout | W_flag bool | W_count bool | W_second bool lookout | W_release | W_final | W_parked | W_woke
  | W_clear bool | W_uncount bool | W_absorb bool | W_token bool | W_run | W_unclaimed
  | W_check bool | W_check2 bool | W_check3 bool | W_quit bool | W_quit_count bool | W_leave bool bool | W_ended bool

record sched =
  inj :: nat
  loc :: "nat \<Rightarrow> nat"
  flag :: "nat \<Rightarrow> bool"
  idle_count :: int
  speculation :: int
  token :: "nat \<Rightarrow> bool"
  worker :: "nat \<Rightarrow> wk"
  wakers :: "waker list"
  work_stopping :: bool
  unparked :: nat

definition sched_new :: sched where
  "sched_new = \<lparr>inj = 0, loc = (\<lambda>_. 0), flag = (\<lambda>_. False), idle_count = 0, speculation = 0, token = (\<lambda>_. False), worker = (\<lambda>_. W_first False Own), wakers = [], work_stopping = False, unparked = 0\<rparr>"

text \<open>\<open>unpark_one\<close>, \<open>unpark\<close> and \<open>wake_idle\<close> with \<open>n\<close> workers: a step of one waker; \<^const>\<open>None\<close> is its end.\<close>

definition waker_act :: "nat \<Rightarrow> waker \<Rightarrow> sched \<Rightarrow> waker option \<times> sched" where
  "waker_act n q s = (case q of
      Q_load forced \<Rightarrow> (if idle_count s = 0 then None else Some (if forced then Q_add else Q_cas), s)
    | Q_cas \<Rightarrow> if speculation s = 0 then (Some (Q_scan 0), s\<lparr>speculation := 1\<rparr>) else (None, s)
    | Q_add \<Rightarrow> (Some (Q_scan 0), s\<lparr>speculation := speculation s + 1\<rparr>)
    | Q_scan k \<Rightarrow> if n \<le> k then (None, s\<lparr>speculation := speculation s - 1\<rparr>)
        else if flag s k then (Some (Q_count k), s\<lparr>flag := (flag s)(k := False)\<rparr>) else (Some (Q_scan (Suc k)), s)
    | Q_count k \<Rightarrow> (Some (Q_unpark k), s\<lparr>idle_count := idle_count s - 1\<rparr>)
    | Q_unpark k \<Rightarrow> (None, s\<lparr>token := (token s)(k := True)\<rparr>))"

text \<open>
  A look of \<open>find_work\<close> in the first, the second or the last round: where it goes with a handle, and without. With \<open>prompt\<close>, no worker raises its flag while a waker is at the flags.
\<close>

inductive work_step :: "bool \<Rightarrow> nat \<Rightarrow> sched \<Rightarrow> sched \<Rightarrow> bool" for prompt n where
  waker_moves: "wakers s = xs @ q # ys \<Longrightarrow> waker_act n q s = (q', t) \<Longrightarrow>
     work_step prompt n s (t\<lparr>wakers := xs @ (case q' of None \<Rightarrow> [] | Some q' \<Rightarrow> [q']) @ ys\<rparr>)"
| first_own: "w < n \<Longrightarrow> worker s w = W_first b Own \<Longrightarrow>
     work_step prompt n s (if 0 < loc s w then s\<lparr>loc := (loc s)(w := loc s w - 1), worker := (worker s)(w := W_token b)\<rparr> else s\<lparr>worker := (worker s)(w := W_first b Inj)\<rparr>)"
| first_inj: "w < n \<Longrightarrow> worker s w = W_first b Inj \<Longrightarrow>
     work_step prompt n s (if 0 < inj s then s\<lparr>inj := inj s - 1, worker := (worker s)(w := W_token b)\<rparr> else s\<lparr>worker := (worker s)(w := W_first b Others)\<rparr>)"
| first_steal: "w < n \<Longrightarrow> worker s w = W_first b Others \<Longrightarrow> v < n \<Longrightarrow> v \<noteq> w \<Longrightarrow> 0 < loc s v \<Longrightarrow>
     work_step prompt n s (s\<lparr>loc := (loc s)(v := loc s v - 1), worker := (worker s)(w := W_token b)\<rparr>)"
| first_none: "w < n \<Longrightarrow> worker s w = W_first b Others \<Longrightarrow> work_step prompt n s (s\<lparr>worker := (worker s)(w := W_check b)\<rparr>)"
| check: "w < n \<Longrightarrow> worker s w = W_check b \<Longrightarrow> work_step prompt n s (s\<lparr>worker := (worker s)(w := if work_stopping s then W_leave b False else W_flag b)\<rparr>)"
| flags: "w < n \<Longrightarrow> worker s w = W_flag b \<Longrightarrow> (prompt \<longrightarrow> (\<forall>k. Q_scan k \<notin> set (wakers s))) \<Longrightarrow>
     work_step prompt n s (s\<lparr>flag := (flag s)(w := True), worker := (worker s)(w := W_count b)\<rparr>)"
| counts: "w < n \<Longrightarrow> worker s w = W_count b \<Longrightarrow> work_step prompt n s (s\<lparr>idle_count := idle_count s + 1, worker := (worker s)(w := W_second b Own)\<rparr>)"
| second_own: "w < n \<Longrightarrow> worker s w = W_second b Own \<Longrightarrow>
     work_step prompt n s (if 0 < loc s w then s\<lparr>loc := (loc s)(w := loc s w - 1), worker := (worker s)(w := W_clear b)\<rparr> else s\<lparr>worker := (worker s)(w := W_second b Inj)\<rparr>)"
| second_inj: "w < n \<Longrightarrow> worker s w = W_second b Inj \<Longrightarrow>
     work_step prompt n s (if 0 < inj s then s\<lparr>inj := inj s - 1, worker := (worker s)(w := W_clear b)\<rparr> else s\<lparr>worker := (worker s)(w := W_second b Others)\<rparr>)"
| second_steal: "w < n \<Longrightarrow> worker s w = W_second b Others \<Longrightarrow> v < n \<Longrightarrow> v \<noteq> w \<Longrightarrow> 0 < loc s v \<Longrightarrow>
     work_step prompt n s (s\<lparr>loc := (loc s)(v := loc s v - 1), worker := (worker s)(w := W_clear b)\<rparr>)"
| second_none: "w < n \<Longrightarrow> worker s w = W_second b Others \<Longrightarrow> work_step prompt n s (s\<lparr>worker := (worker s)(w := W_check2 b)\<rparr>)"
| check2: "w < n \<Longrightarrow> worker s w = W_check2 b \<Longrightarrow>
     work_step prompt n s (s\<lparr>worker := (worker s)(w := if work_stopping s then W_quit b else if b then W_release else W_parked)\<rparr>)"
| releases: "w < n \<Longrightarrow> worker s w = W_release \<Longrightarrow> work_step prompt n s (s\<lparr>speculation := speculation s - 1, worker := (worker s)(w := W_final)\<rparr>)"
| final: "w < n \<Longrightarrow> worker s w = W_final \<Longrightarrow>
     work_step prompt n s (if 0 < inj s then s\<lparr>inj := inj s - 1, worker := (worker s)(w := W_clear False)\<rparr> else s\<lparr>worker := (worker s)(w := W_parked)\<rparr>)"
| unparks: "w < n \<Longrightarrow> worker s w = W_parked \<Longrightarrow> token s w \<Longrightarrow> work_step prompt n s (s\<lparr>token := (token s)(w := False), worker := (worker s)(w := W_woke)\<rparr>)"
| woke: "w < n \<Longrightarrow> worker s w = W_woke \<Longrightarrow>
     work_step prompt n s (if flag s w then s\<lparr>flag := (flag s)(w := False), worker := (worker s)(w := W_unclaimed)\<rparr> else s\<lparr>worker := (worker s)(w := W_check3 True)\<rparr>)"
| unclaimed: "w < n \<Longrightarrow> worker s w = W_unclaimed \<Longrightarrow> work_step prompt n s (s\<lparr>idle_count := idle_count s - 1, worker := (worker s)(w := W_check3 False)\<rparr>)"
| check3: "w < n \<Longrightarrow> worker s w = W_check3 b \<Longrightarrow> work_step prompt n s (s\<lparr>worker := (worker s)(w := if work_stopping s then W_ended b else W_first b Own)\<rparr>)"
| quits: "w < n \<Longrightarrow> worker s w = W_quit b \<Longrightarrow>
     work_step prompt n s (if flag s w then s\<lparr>flag := (flag s)(w := False), worker := (worker s)(w := W_quit_count b)\<rparr> else s\<lparr>worker := (worker s)(w := W_leave b True)\<rparr>)"
| quit_counts: "w < n \<Longrightarrow> worker s w = W_quit_count b \<Longrightarrow> work_step prompt n s (s\<lparr>idle_count := idle_count s - 1, worker := (worker s)(w := W_leave b False)\<rparr>)"
| leaves: "w < n \<Longrightarrow> worker s w = W_leave b l \<Longrightarrow>
     work_step prompt n s (s\<lparr>speculation := (if b then speculation s - 1 else speculation s), worker := (worker s)(w := W_ended l)\<rparr>)"
| clears: "w < n \<Longrightarrow> worker s w = W_clear b \<Longrightarrow>
     work_step prompt n s (if flag s w then s\<lparr>flag := (flag s)(w := False), worker := (worker s)(w := W_uncount b)\<rparr> else s\<lparr>worker := (worker s)(w := W_absorb b)\<rparr>)"
| uncounts: "w < n \<Longrightarrow> worker s w = W_uncount b \<Longrightarrow> work_step prompt n s (s\<lparr>idle_count := idle_count s - 1, worker := (worker s)(w := W_token b)\<rparr>)"
| absorbs: "w < n \<Longrightarrow> worker s w = W_absorb b \<Longrightarrow> work_step prompt n s (s\<lparr>speculation := speculation s - 1, worker := (worker s)(w := W_token b)\<rparr>)"
| keeps: "w < n \<Longrightarrow> worker s w = W_token False \<Longrightarrow> work_step prompt n s (s\<lparr>worker := (worker s)(w := W_run)\<rparr>)"
| hands_on: "w < n \<Longrightarrow> worker s w = W_token True \<Longrightarrow>
     work_step prompt n s (s\<lparr>speculation := speculation s - 1, worker := (worker s)(w := W_run), wakers := (if speculation s = 1 then [Q_load False] else []) @ wakers s\<rparr>)"
| finishes: "w < n \<Longrightarrow> worker s w = W_run \<Longrightarrow> work_step prompt n s (s\<lparr>worker := (worker s)(w := W_first False Own)\<rparr>)"

text \<open>Handles come in: from a worker that runs one, to its own queue, or from anywhere to the injector.\<close>

inductive push_step :: "nat \<Rightarrow> sched \<Rightarrow> sched \<Rightarrow> bool" for n where
  local: "w < n \<Longrightarrow> worker s w = W_run \<Longrightarrow> push_step n s (s\<lparr>loc := (loc s)(w := Suc (loc s w)), wakers := Q_load False # wakers s\<rparr>)"
| inject: "push_step n s (s\<lparr>inj := Suc (inj s), wakers := Q_load forced # wakers s\<rparr>)"

text \<open>\<open>stop_threads\<close> raises \<open>work_stopping\<close> and unparks all workers; then it waits for them to end.\<close>

inductive stop_step :: "nat \<Rightarrow> sched \<Rightarrow> sched \<Rightarrow> bool" for n where
  stop: "stop_step n s (s\<lparr>work_stopping := True\<rparr>)"
| unpark_next: "work_stopping s \<Longrightarrow> unparked s < n \<Longrightarrow> stop_step n s (s\<lparr>token := (token s)(unparked s := True), unparked := Suc (unparked s)\<rparr>)"

definition work_reach :: "bool \<Rightarrow> nat \<Rightarrow> sched \<Rightarrow> bool" where
  "work_reach prompt n = reach (\<lambda>s. s = sched_new) (\<lambda>s t. push_step n s t \<or> stop_step n s t \<or> work_step prompt n s t)"

section \<open>What the counters count\<close>

text \<open>
  Between raising its flag and looking at it again, a worker with its flag down has been claimed, and carries the token of the one that claimed it; a worker that speculates carries one, and so does a
  waker at the flags.
\<close>

fun exposed :: "wk \<Rightarrow> bool" where
  "exposed (W_count _) = True"
| "exposed (W_second _ _) = True"
| "exposed W_release = True"
| "exposed W_final = True"
| "exposed W_parked = True"
| "exposed W_woke = True"
| "exposed (W_clear _) = True"
| "exposed (W_check2 _) = True"
| "exposed (W_quit _) = True"
| "exposed _ = False"

fun speculates :: "wk \<Rightarrow> int" where
  "speculates (W_first b _) = of_bool b"
| "speculates (W_flag b) = of_bool b"
| "speculates (W_count b) = of_bool b"
| "speculates (W_second b _) = of_bool b"
| "speculates W_release = 1"
| "speculates (W_clear b) = of_bool b"
| "speculates (W_uncount b) = of_bool b"
| "speculates (W_absorb b) = 1 + of_bool b"
| "speculates (W_token b) = of_bool b"
| "speculates (W_check b) = of_bool b"
| "speculates (W_check2 b) = of_bool b"
| "speculates (W_check3 b) = of_bool b"
| "speculates (W_quit b) = of_bool b"
| "speculates (W_quit_count b) = of_bool b"
| "speculates (W_leave b l) = of_bool b + of_bool l"
| "speculates (W_ended l) = of_bool l"
| "speculates _ = 0"

fun off_count :: "wk \<Rightarrow> int" where
  "off_count (W_count _) = - 1"
| "off_count (W_uncount _) = 1"
| "off_count W_unclaimed = 1"
| "off_count (W_quit_count _) = 1"
| "off_count _ = 0"

definition tokens :: "wk \<Rightarrow> bool \<Rightarrow> int" where
  "tokens u f = speculates u + of_bool (exposed u \<and> \<not> f)"

definition idles :: "wk \<Rightarrow> bool \<Rightarrow> int" where
  "idles u f = of_bool f + off_count u"

fun scanning :: "waker \<Rightarrow> int" where
  "scanning (Q_scan _) = 1"
| "scanning _ = 0"

fun counting :: "waker \<Rightarrow> int" where
  "counting (Q_count _) = 1"
| "counting _ = 0"

abbreviation over_all :: "nat \<Rightarrow> (wk \<Rightarrow> bool \<Rightarrow> int) \<Rightarrow> sched \<Rightarrow> int" where
  "over_all n f s \<equiv> (\<Sum>w<n. f (worker s w) (flag s w))"

abbreviation over_wakers :: "(waker \<Rightarrow> int) \<Rightarrow> sched \<Rightarrow> int" where
  "over_wakers f s \<equiv> (\<Sum>q\<leftarrow>wakers s. f q)"

definition counters_ok :: "nat \<Rightarrow> sched \<Rightarrow> bool" where
  "counters_ok n s \<longleftrightarrow> speculation s = over_all n tokens s + over_wakers scanning s \<and> idle_count s = over_all n idles s + over_wakers counting s
     \<and> (\<forall>w. flag s w \<longrightarrow> w < n \<and> exposed (worker s w)) \<and> (\<forall>k. Q_count k \<in> set (wakers s) \<or> Q_unpark k \<in> set (wakers s) \<longrightarrow> k < n)"

lemma sum_change: "w < (n :: nat) \<Longrightarrow> (\<And>k. k \<noteq> w \<Longrightarrow> h' k = h k) \<Longrightarrow> (\<Sum>k<n. h' k) = (\<Sum>k<n. h k) + h' w - (h w :: int)"
  by (simp add: sum.remove[of "{..<n}" w])

text \<open>A worker moves and may set its flag; a waker moves and may clear one.\<close>

lemma counters_ok_worker:
  assumes "counters_ok n s" "w < n" "worker t = (worker s)(w := v)" "\<And>k. flag t k = (if k = w then g else flag s k)" "g \<longrightarrow> exposed v"
    and "speculation t - speculation s = tokens v g - tokens (worker s w) (flag s w)" "idle_count t - idle_count s = idles v g - idles (worker s w) (flag s w)"
    and "over_wakers scanning t = over_wakers scanning s" "over_wakers counting t = over_wakers counting s"
    and "\<And>k. Q_count k \<in> set (wakers t) \<or> Q_unpark k \<in> set (wakers t) \<Longrightarrow> Q_count k \<in> set (wakers s) \<or> Q_unpark k \<in> set (wakers s)"
  shows "counters_ok n t"
proof -
  have "over_all n f t = over_all n f s + f v g - f (worker s w) (flag s w)" for f
    using sum_change[OF assms(2), of "\<lambda>k. f (worker t k) (flag t k)" "\<lambda>k. f (worker s k) (flag s k)"] assms(3,4) by simp
  from this[of tokens] this[of idles] show ?thesis using assms unfolding counters_ok_def by auto
qed

lemma counters_ok_waker:
  assumes "counters_ok n s" "wakers s = xs @ q # ys" "waker_act n q s = (q', u)"
  shows "counters_ok n (u\<lparr>wakers := xs @ (case q' of None \<Rightarrow> [] | Some q' \<Rightarrow> [q']) @ ys\<rparr>)"
proof (cases q)
  case (Q_scan k)
  show ?thesis
  proof (cases "k < n \<and> flag s k")
    case True
    let ?t = "s\<lparr>flag := (flag s)(k := False), wakers := xs @ Q_count k # ys\<rparr>"
    have "over_all n f ?t = over_all n f s + f (worker s k) False - f (worker s k) True" for f
      using sum_change[of k n "\<lambda>w. f (worker s w) (((flag s)(k := False)) w)" "\<lambda>w. f (worker s w) (flag s w)"] True by simp
    from this[of tokens] this[of idles] have "counters_ok n ?t" using assms(1,2) True Q_scan unfolding counters_ok_def by (auto simp: tokens_def idles_def)
    then show ?thesis using assms(3) True Q_scan by (auto simp: waker_act_def)
  qed (use assms Q_scan in \<open>auto simp: waker_act_def counters_ok_def split: if_splits\<close>)
qed (use assms in \<open>auto simp: waker_act_def counters_ok_def split: if_splits\<close>)

lemma counters_ok_plain:
  assumes "counters_ok n s" "w < n" "worker s w = u" "worker t = (worker s)(w := v)" "flag t = flag s" "exposed v = exposed u"
    and "speculation t - speculation s = speculates v - speculates u" "idle_count t - idle_count s = off_count v - off_count u"
    and "over_wakers scanning t = over_wakers scanning s" "over_wakers counting t = over_wakers counting s"
    and "\<And>k. Q_count k \<in> set (wakers t) \<or> Q_unpark k \<in> set (wakers t) \<Longrightarrow> Q_count k \<in> set (wakers s) \<or> Q_unpark k \<in> set (wakers s)"
  shows "counters_ok n t"
  by (rule counters_ok_worker[OF assms(1,2,4), where g = "flag s w"]) (use assms in \<open>auto simp: counters_ok_def tokens_def idles_def\<close>)

lemma counters_ok_step: "work_step prompt n s t \<Longrightarrow> counters_ok n s \<Longrightarrow> counters_ok n t"
proof (induction rule: work_step.induct)
  case (waker_moves s xs q ys q' t)
  then show ?case by (simp add: counters_ok_waker)
next
  case (flags w s b)
  then have "\<not> flag s w" by (auto simp: counters_ok_def)
  then show ?case using flags by (intro counters_ok_worker[OF flags(4,1), where v = "W_count b" and g = True]) (simp_all add: tokens_def idles_def)
next
  case (woke w s)
  then show ?case by (intro counters_ok_worker[OF woke(3,1), where v = "if flag s w then W_unclaimed else W_check3 True" and g = False]) (auto simp: tokens_def idles_def split: if_splits)
next
  case (clears w s b)
  then show ?case by (intro counters_ok_worker[OF clears(3,1), where v = "if flag s w then W_uncount b else W_absorb b" and g = False]) (auto simp: tokens_def idles_def split: if_splits)
next
  case (quits w s b)
  then show ?case by (intro counters_ok_worker[OF quits(3,1), where v = "if flag s w then W_quit_count b else W_leave b True" and g = False]) (auto simp: tokens_def idles_def split: if_splits)
next
  case (first_own w s b)
  show ?case by (rule counters_ok_plain[OF first_own(3,1,2), where v = "if 0 < loc s w then W_token b else W_first b Inj"]) (auto split: if_splits)
next
  case (first_inj w s b)
  show ?case by (rule counters_ok_plain[OF first_inj(3,1,2), where v = "if 0 < inj s then W_token b else W_first b Others"]) (auto split: if_splits)
next
  case (first_steal w s b v)
  show ?case by (rule counters_ok_plain[OF first_steal(6,1,2), where v = "W_token b"]) auto
next
  case (first_none w s b)
  show ?case by (rule counters_ok_plain[OF first_none(3,1,2), where v = "W_check b"]) auto
next
  case (check w s b)
  show ?case by (rule counters_ok_plain[OF check(3,1,2), where v = "if work_stopping s then W_leave b False else W_flag b"]) auto
next
  case (counts w s b)
  show ?case by (rule counters_ok_plain[OF counts(3,1,2), where v = "W_second b Own"]) auto
next
  case (second_own w s b)
  show ?case by (rule counters_ok_plain[OF second_own(3,1,2), where v = "if 0 < loc s w then W_clear b else W_second b Inj"]) (auto split: if_splits)
next
  case (second_inj w s b)
  show ?case by (rule counters_ok_plain[OF second_inj(3,1,2), where v = "if 0 < inj s then W_clear b else W_second b Others"]) (auto split: if_splits)
next
  case (second_steal w s b v)
  show ?case by (rule counters_ok_plain[OF second_steal(6,1,2), where v = "W_clear b"]) auto
next
  case (second_none w s b)
  show ?case by (rule counters_ok_plain[OF second_none(3,1,2), where v = "W_check2 b"]) auto
next
  case (check2 w s b)
  show ?case by (rule counters_ok_plain[OF check2(3,1,2), where v = "if work_stopping s then W_quit b else if b then W_release else W_parked"]) (auto split: if_splits)
next
  case (releases w s)
  show ?case by (rule counters_ok_plain[OF releases(3,1,2), where v = W_final]) auto
next
  case (final w s)
  show ?case by (rule counters_ok_plain[OF final(3,1,2), where v = "if 0 < inj s then W_clear False else W_parked"]) (auto split: if_splits)
next
  case (unparks w s)
  show ?case by (rule counters_ok_plain[OF unparks(4,1,2), where v = W_woke]) auto
next
  case (unclaimed w s)
  show ?case by (rule counters_ok_plain[OF unclaimed(3,1,2), where v = "W_check3 False"]) auto
next
  case (check3 w s b)
  show ?case by (rule counters_ok_plain[OF check3(3,1,2), where v = "if work_stopping s then W_ended b else W_first b Own"]) auto
next
  case (quit_counts w s b)
  show ?case by (rule counters_ok_plain[OF quit_counts(3,1,2), where v = "W_leave b False"]) auto
next
  case (leaves w s b l)
  show ?case by (rule counters_ok_plain[OF leaves(3,1,2), where v = "W_ended l"]) auto
next
  case (uncounts w s b)
  show ?case by (rule counters_ok_plain[OF uncounts(3,1,2), where v = "W_token b"]) auto
next
  case (absorbs w s b)
  show ?case by (rule counters_ok_plain[OF absorbs(3,1,2), where v = "W_token b"]) auto
next
  case (keeps w s)
  show ?case by (rule counters_ok_plain[OF keeps(3,1,2), where v = W_run]) auto
next
  case (hands_on w s)
  show ?case by (rule counters_ok_plain[OF hands_on(3,1,2), where v = W_run]) (auto split: if_splits)
next
  case (finishes w s)
  show ?case by (rule counters_ok_plain[OF finishes(3,1,2), where v = "W_first False Own"]) auto
qed

section \<open>Nobody sleeps on work\<close>

text \<open>
  A worker on its way to park that finds its flag down has been claimed: its token is there or on the way. A waker at flag \<open>k\<close> has seen the flags before down. The queue of a worker that has none in hand or is not
  about to look there is empty. And as long as the injector has a handle, there is a waker, or a worker that will look at the injector before it sleeps.
\<close>

fun dozing :: "wk \<Rightarrow> bool" where
  "dozing (W_count _) = True"
| "dozing (W_second _ _) = True"
| "dozing W_release = True"
| "dozing W_final = True"
| "dozing W_parked = True"
| "dozing (W_check2 _) = True"
| "dozing _ = False"

fun at_own :: "wk \<Rightarrow> bool" where
  "at_own (W_first _ st) \<longleftrightarrow> st = Own"
| "at_own (W_clear _) = True"
| "at_own (W_uncount _) = True"
| "at_own (W_absorb _) = True"
| "at_own (W_token _) = True"
| "at_own W_run = True"
| "at_own _ = False"

definition claims_ok :: "nat \<Rightarrow> sched \<Rightarrow> bool" where
  "claims_ok n s \<longleftrightarrow> (\<forall>w<n. dozing (worker s w) \<and> \<not> flag s w \<longrightarrow> token s w \<or> Q_count w \<in> set (wakers s) \<or> Q_unpark w \<in> set (wakers s))"

definition scans_ok :: "sched \<Rightarrow> bool" where
  "scans_ok s \<longleftrightarrow> (\<forall>k. Q_scan k \<in> set (wakers s) \<longrightarrow> (\<forall>w<k. \<not> flag s w))"

definition local_ok :: "sched \<Rightarrow> bool" where
  "local_ok s \<longleftrightarrow> (\<forall>w. 0 < loc s w \<longrightarrow> at_own (worker s w))"

fun quitting :: "wk \<Rightarrow> bool" where
  "quitting (W_quit _) = True"
| "quitting (W_quit_count _) = True"
| "quitting (W_leave _ _) = True"
| "quitting (W_ended _) = True"
| "quitting _ = False"

definition quit_ok :: "sched \<Rightarrow> bool" where
  "quit_ok s \<longleftrightarrow> work_stopping s \<or> (\<forall>w. \<not> quitting (worker s w))"

definition looking :: "sched \<Rightarrow> nat \<Rightarrow> bool" where
  "looking s w \<longleftrightarrow> worker s w \<noteq> W_second False Others \<and> worker s w \<noteq> W_check2 False \<and> worker s w \<noteq> W_parked \<and> \<not> quitting (worker s w) \<or> token s w"

definition watched :: "nat \<Rightarrow> sched \<Rightarrow> bool" where
  "watched n s \<longleftrightarrow> (0 < inj s \<and> \<not> work_stopping s \<longrightarrow> wakers s \<noteq> [] \<or> (\<exists>w<n. looking s w))"

text \<open>What all steps of a worker have in common; everything else is a step of a waker.\<close>

definition worker_frame :: "nat \<Rightarrow> sched \<Rightarrow> sched \<Rightarrow> nat \<Rightarrow> wk \<Rightarrow> bool" where
  "worker_frame n s t w v \<longleftrightarrow> w < n \<and> worker t = (worker s)(w := v) \<and> (\<forall>k. k \<noteq> w \<longrightarrow> flag t k = flag s k \<and> token t k = token s k \<and> (0 < loc t k \<longrightarrow> 0 < loc s k))
     \<and> set (wakers s) \<subseteq> set (wakers t) \<and> (\<forall>k. Q_scan k \<in> set (wakers t) \<longrightarrow> Q_scan k \<in> set (wakers s))
     \<and> (dozing v \<longrightarrow> flag t w \<or> dozing (worker s w) \<and> flag t w = flag s w \<and> token t w = token s w)
     \<and> (0 < loc t w \<and> (0 < loc s w \<longrightarrow> at_own (worker s w)) \<longrightarrow> at_own v)
     \<and> work_stopping t = work_stopping s \<and> (quitting v \<longrightarrow> work_stopping s \<or> quitting (worker s w)) \<and> (0 < inj t \<longrightarrow> 0 < inj s \<and> (\<not> work_stopping s \<longrightarrow> looking s w \<longrightarrow> looking t w))"

lemma work_step_frame:
  assumes "work_step prompt n s t"
  shows "(\<exists>xs q ys q' u. wakers s = xs @ q # ys \<and> waker_act n q s = (q', u) \<and> t = u\<lparr>wakers := xs @ (case q' of None \<Rightarrow> [] | Some q' \<Rightarrow> [q']) @ ys\<rparr>) \<or>
    (\<exists>w v. worker_frame n s t w v)"
  using assms
proof (induction rule: work_step.induct)
  case (waker_moves s xs q ys q' t)
  then show ?case by blast
next
  case (first_own w s b)
  then show ?case by (intro disjI2 exI[of _ w] exI[of _ "if 0 < loc s w then W_token b else W_first b Inj"]) (auto simp: worker_frame_def looking_def split: if_splits)
next
  case (first_inj w s b)
  then show ?case by (intro disjI2 exI[of _ w] exI[of _ "if 0 < inj s then W_token b else W_first b Others"]) (auto simp: worker_frame_def looking_def split: if_splits)
next
  case (first_steal w s b v)
  then show ?case by (intro disjI2 exI[of _ w] exI[of _ "W_token b"]) (auto simp: worker_frame_def looking_def split: if_splits)
next
  case (first_none w s b)
  then show ?case by (intro disjI2 exI[of _ w] exI[of _ "W_check b"]) (auto simp: worker_frame_def looking_def split: if_splits)
next
  case (flags w s b)
  then show ?case by (intro disjI2 exI[of _ w] exI[of _ "W_count b"]) (auto simp: worker_frame_def looking_def split: if_splits)
next
  case (counts w s b)
  then show ?case by (intro disjI2 exI[of _ w] exI[of _ "W_second b Own"]) (auto simp: worker_frame_def looking_def split: if_splits)
next
  case (second_own w s b)
  then show ?case by (intro disjI2 exI[of _ w] exI[of _ "if 0 < loc s w then W_clear b else W_second b Inj"]) (auto simp: worker_frame_def looking_def split: if_splits)
next
  case (second_inj w s b)
  then show ?case by (intro disjI2 exI[of _ w] exI[of _ "if 0 < inj s then W_clear b else W_second b Others"]) (auto simp: worker_frame_def looking_def split: if_splits)
next
  case (second_steal w s b v)
  then show ?case by (intro disjI2 exI[of _ w] exI[of _ "W_clear b"]) (auto simp: worker_frame_def looking_def split: if_splits)
next
  case (second_none w s b)
  then show ?case by (intro disjI2 exI[of _ w] exI[of _ "W_check2 b"]) (auto simp: worker_frame_def looking_def split: if_splits)
next
  case (releases w s)
  then show ?case by (intro disjI2 exI[of _ w] exI[of _ W_final]) (auto simp: worker_frame_def looking_def split: if_splits)
next
  case (final w s)
  then show ?case by (intro disjI2 exI[of _ w] exI[of _ "if 0 < inj s then W_clear False else W_parked"]) (auto simp: worker_frame_def looking_def split: if_splits)
next
  case (unparks w s)
  then show ?case by (intro disjI2 exI[of _ w] exI[of _ W_woke]) (auto simp: worker_frame_def looking_def split: if_splits)
next
  case (woke w s)
  then show ?case by (intro disjI2 exI[of _ w] exI[of _ "if flag s w then W_unclaimed else W_check3 True"]) (auto simp: worker_frame_def looking_def split: if_splits)
next
  case (unclaimed w s)
  then show ?case by (intro disjI2 exI[of _ w] exI[of _ "W_check3 False"]) (auto simp: worker_frame_def looking_def split: if_splits)
next
  case (clears w s b)
  then show ?case by (intro disjI2 exI[of _ w] exI[of _ "if flag s w then W_uncount b else W_absorb b"]) (auto simp: worker_frame_def looking_def split: if_splits)
next
  case (uncounts w s b)
  then show ?case by (intro disjI2 exI[of _ w] exI[of _ "W_token b"]) (auto simp: worker_frame_def looking_def split: if_splits)
next
  case (absorbs w s b)
  then show ?case by (intro disjI2 exI[of _ w] exI[of _ "W_token b"]) (auto simp: worker_frame_def looking_def split: if_splits)
next
  case (keeps w s)
  then show ?case by (intro disjI2 exI[of _ w] exI[of _ W_run]) (auto simp: worker_frame_def looking_def split: if_splits)
next
  case (hands_on w s)
  then show ?case by (intro disjI2 exI[of _ w] exI[of _ W_run]) (auto simp: worker_frame_def looking_def split: if_splits)
next
  case (finishes w s)
  then show ?case by (intro disjI2 exI[of _ w] exI[of _ "W_first False Own"]) (auto simp: worker_frame_def looking_def split: if_splits)
next
  case (check w s b)
  then show ?case by (intro disjI2 exI[of _ w] exI[of _ "if work_stopping s then W_leave b False else W_flag b"]) (auto simp: worker_frame_def looking_def split: if_splits)
next
  case (check2 w s b)
  then show ?case by (intro disjI2 exI[of _ w] exI[of _ "if work_stopping s then W_quit b else if b then W_release else W_parked"]) (auto simp: worker_frame_def looking_def split: if_splits)
next
  case (check3 w s b)
  then show ?case by (intro disjI2 exI[of _ w] exI[of _ "if work_stopping s then W_ended b else W_first b Own"]) (auto simp: worker_frame_def looking_def split: if_splits)
next
  case (quits w s b)
  then show ?case by (intro disjI2 exI[of _ w] exI[of _ "if flag s w then W_quit_count b else W_leave b True"]) (auto simp: worker_frame_def looking_def split: if_splits)
next
  case (quit_counts w s b)
  then show ?case by (intro disjI2 exI[of _ w] exI[of _ "W_leave b False"]) (auto simp: worker_frame_def looking_def split: if_splits)
next
  case (leaves w s b l)
  then show ?case by (intro disjI2 exI[of _ w] exI[of _ "W_ended l"]) (auto simp: worker_frame_def looking_def split: if_splits)
qed

lemma claims_ok_worker: "claims_ok n s \<Longrightarrow> worker_frame n s t w v \<Longrightarrow> claims_ok n t"
proof -
  assume c: "claims_ok n s" and f: "worker_frame n s t w v"
  have "token t k \<or> Q_count k \<in> set (wakers t) \<or> Q_unpark k \<in> set (wakers t)" if "k < n" "dozing (worker t k)" "\<not> flag t k" for k
  proof -
    have "dozing (worker s k) \<and> flag t k = flag s k \<and> token t k = token s k" using that f by (cases "k = w") (auto simp: worker_frame_def)
    moreover have "set (wakers s) \<subseteq> set (wakers t)" using f by (simp add: worker_frame_def)
    ultimately show ?thesis using c that unfolding claims_ok_def by blast
  qed
  then show "claims_ok n t" unfolding claims_ok_def by blast
qed

lemma claims_ok_step:
  assumes "work_step prompt n s t" "claims_ok n s"
  shows "claims_ok n t"
  using work_step_frame[OF assms(1)]
proof (elim disjE exE conjE)
  fix xs q ys q' u
  assume "wakers s = xs @ q # ys" "waker_act n q s = (q', u)" "t = u\<lparr>wakers := xs @ (case q' of None \<Rightarrow> [] | Some q' \<Rightarrow> [q']) @ ys\<rparr>"
  then show ?thesis using assms(2) by (cases q) (auto simp: waker_act_def claims_ok_def split: if_splits)
qed (rule claims_ok_worker[OF assms(2)])

lemma local_ok_step:
  assumes "work_step prompt n s t" "local_ok s"
  shows "local_ok t"
  using work_step_frame[OF assms(1)]
proof (elim disjE exE conjE)
  fix xs q ys q' u
  assume "waker_act n q s = (q', u)" "t = u\<lparr>wakers := xs @ (case q' of None \<Rightarrow> [] | Some q' \<Rightarrow> [q']) @ ys\<rparr>"
  then have "loc t = loc s" "worker t = worker s" by (auto simp: waker_act_def split: waker.splits if_splits)
  then show ?thesis using assms(2) by (simp add: local_ok_def)
next
  fix w v
  assume f: "worker_frame n s t w v"
  have "at_own (worker t k)" if "0 < loc t k" for k
    using f that assms(2) by (cases "k = w") (auto simp: worker_frame_def local_ok_def)
  then show ?thesis by (simp add: local_ok_def)
qed

lemma scans_ok_step: "work_step True n s t \<Longrightarrow> scans_ok s \<Longrightarrow> scans_ok t"
proof (induction rule: work_step.induct)
  case (waker_moves s xs q ys q' t)
  then show ?case by (cases q) (auto simp: waker_act_def scans_ok_def less_Suc_eq split: if_splits)
qed (auto simp: scans_ok_def)

text \<open>If no worker looks and the only waker has claimed nobody, all flags are up.\<close>

lemma all_asleep:
  assumes "claims_ok n s" "\<forall>w<n. \<not> looking s w" "\<And>w. \<not> quitting (worker s w)" "wakers s = [q]" "\<And>k. q \<noteq> Q_count k" "\<And>k. q \<noteq> Q_unpark k" "w < n"
  shows "flag s w" "tokens (worker s w) (flag s w) = 0" "idles (worker s w) (flag s w) = 1"
proof -
  have u: "worker s w = W_second False Others \<or> worker s w = W_check2 False \<or> worker s w = W_parked" "\<not> token s w" using assms(2,3,7) unfolding looking_def by blast+
  then have "dozing (worker s w)" by auto
  then show "flag s w" using assms(1,4-7) u(2) unfolding claims_ok_def by auto
  then show "tokens (worker s w) (flag s w) = 0" "idles (worker s w) (flag s w) = 1" using u(1) by (auto simp: tokens_def idles_def)
qed

text \<open>So the last waker leaves only when a worker looks.\<close>

lemma waker_leaves:
  assumes "counters_ok n s" "claims_ok n s" "scans_ok s" "0 < n" "wakers s = [q]" "waker_act n q s = (None, u)" "\<And>w. \<not> quitting (worker s w)"
  shows "\<exists>w<n. looking u w"
proof (cases "\<exists>w<n. looking s w")
  case True
  moreover have "worker u = worker s" "\<And>w. token s w \<longrightarrow> token u w" using assms(6) by (auto simp: waker_act_def split: waker.splits if_splits)
  ultimately show ?thesis unfolding looking_def by auto
next
  case False
  then have no: "\<forall>w<n. \<not> looking s w" by blast
  note asleep = all_asleep[OF assms(2) no assms(7,5)]
  show ?thesis
  proof (cases q)
    case (Q_load f)
    have "over_all n idles s = (\<Sum>w<n. 1)" by (rule sum.cong[OF refl]) (use asleep(3) Q_load in simp)
    then have "idle_count s \<noteq> 0" using assms(1,4,5) Q_load by (simp add: counters_ok_def)
    then show ?thesis using assms(6) Q_load by (simp add: waker_act_def)
  next
    case Q_cas
    have "over_all n tokens s = 0" by (rule sum.neutral) (use asleep(2) Q_cas in simp)
    then have "speculation s = 0" using assms(1,5) Q_cas by (simp add: counters_ok_def)
    then show ?thesis using assms(6) Q_cas by (simp add: waker_act_def)
  next
    case (Q_scan k)
    then have "n \<le> k" using assms(6) by (simp add: waker_act_def split: if_splits)
    then have "\<not> flag s 0" using assms(3-5) Q_scan by (auto simp: scans_ok_def)
    then show ?thesis using asleep(1)[of 0] assms(4) Q_scan by simp
  next
    case (Q_unpark k)
    then have "k < n" using assms(1,5) by (simp add: counters_ok_def)
    then show ?thesis using assms(6) Q_unpark by (auto simp: waker_act_def looking_def)
  qed (use assms(6) in \<open>simp_all add: waker_act_def\<close>)
qed

lemma watched_step:
  assumes "work_step prompt n s t" "0 < n" "counters_ok n s" "claims_ok n s" "scans_ok s" "watched n s" "quit_ok s"
  shows "watched n t"
  using work_step_frame[OF assms(1)]
proof (elim disjE exE conjE)
  fix xs q ys q' u
  assume w: "wakers s = xs @ q # ys" "waker_act n q s = (q', u)" and t: "t = u\<lparr>wakers := xs @ (case q' of None \<Rightarrow> [] | Some q' \<Rightarrow> [q']) @ ys\<rparr>"
  show ?thesis
  proof (cases "wakers t = [] \<and> \<not> work_stopping s")
    case True
    then have "wakers s = [q]" "q' = None" using w(1) t by (auto split: option.splits)
    moreover have "\<not> quitting (worker s k)" for k using assms(7) True by (simp add: quit_ok_def)
    ultimately obtain k where "k < n" "looking u k" using waker_leaves[OF assms(3,4,5,2)] w(2) by blast
    then show ?thesis unfolding watched_def t looking_def by auto
  next
    case False
    have "work_stopping t = work_stopping s" using w(2) t by (auto simp: waker_act_def split: waker.splits if_splits)
    then show ?thesis using False by (auto simp: watched_def)
  qed
next
  fix w v
  assume f: "worker_frame n s t w v"
  have "wakers t \<noteq> [] \<or> (\<exists>k<n. looking t k)" if i: "0 < inj t" "\<not> work_stopping t"
  proof -
    have "wakers s \<noteq> [] \<or> (\<exists>k<n. looking s k)" using assms(6) f i by (simp add: worker_frame_def watched_def)
    moreover have "looking t k" if "looking s k" for k
      using f i that by (cases "k = w") (auto simp: worker_frame_def looking_def)
    moreover have "wakers s \<noteq> [] \<Longrightarrow> wakers t \<noteq> []" using f by (cases "wakers s") (auto simp: worker_frame_def)
    ultimately show ?thesis by blast
  qed
  then show ?thesis by (simp add: watched_def)
qed

lemma quit_ok_step:
  assumes "work_step prompt n s t" "quit_ok s"
  shows "quit_ok t"
  using work_step_frame[OF assms(1)]
proof (elim disjE exE conjE)
  fix xs q ys q' u
  assume "waker_act n q s = (q', u)" "t = u\<lparr>wakers := xs @ (case q' of None \<Rightarrow> [] | Some q' \<Rightarrow> [q']) @ ys\<rparr>"
  then have "work_stopping t = work_stopping s" "worker t = worker s" by (auto simp: waker_act_def split: waker.splits if_splits)
  then show ?thesis using assms(2) by (simp add: quit_ok_def)
qed (use assms(2) in \<open>auto simp: worker_frame_def quit_ok_def\<close>)

section \<open>The theorem\<close>

definition work_inv :: "nat \<Rightarrow> sched \<Rightarrow> bool" where
  "work_inv n s \<longleftrightarrow> counters_ok n s \<and> claims_ok n s \<and> scans_ok s \<and> local_ok s \<and> quit_ok s \<and> (0 < n \<longrightarrow> watched n s)"

lemma work_inv_push: "push_step n s t \<Longrightarrow> work_inv n s \<Longrightarrow> work_inv n t"
  by (induction rule: push_step.induct) (auto simp: work_inv_def counters_ok_def claims_ok_def scans_ok_def local_ok_def watched_def quit_ok_def)

lemma work_inv_stop: "stop_step n s t \<Longrightarrow> work_inv n s \<Longrightarrow> work_inv n t"
  by (induction rule: stop_step.induct) (auto simp: work_inv_def counters_ok_def claims_ok_def scans_ok_def local_ok_def watched_def quit_ok_def)

lemma work_inv_step: "work_step True n s t \<Longrightarrow> work_inv n s \<Longrightarrow> work_inv n t"
  unfolding work_inv_def by (intro conjI impI) (auto intro: counters_ok_step claims_ok_step scans_ok_step local_ok_step quit_ok_step watched_step)

interpretation wk: step_system "\<lambda>s. s = sched_new" "\<lambda>s t. push_step n s t \<or> stop_step n s t \<or> work_step True n s t" "work_inv n" for n
proof
  show "work_inv n s" if "s = sched_new" for s
    using that by (simp add: work_inv_def sched_new_def counters_ok_def claims_ok_def scans_ok_def local_ok_def quit_ok_def watched_def tokens_def idles_def)
qed (use work_inv_push work_inv_stop work_inv_step in blast)

text \<open>A waker can always move, and so can a worker that looks, unless it waits for a waker to leave the flags.\<close>

lemma waker_moves_on: "wakers s \<noteq> [] \<Longrightarrow> \<exists>t. work_step prompt n s t"
proof (cases "wakers s")
  case (Cons q ys)
  then show ?thesis using work_step.waker_moves[of s "[]" q ys n "fst (waker_act n q s)" "snd (waker_act n q s)"] by auto
qed simp

fun has_ended :: "wk \<Rightarrow> bool" where
  "has_ended (W_ended _) = True"
| "has_ended _ = False"

lemma moves_on: "work_step prompt n s t \<Longrightarrow> worker t w \<noteq> worker s w \<Longrightarrow> \<exists>t. work_step prompt n s t \<and> worker t w \<noteq> worker s w"
  by blast

lemma worker_moves_on:
  assumes "w < n" "\<not> has_ended (worker s w)" "worker s w = W_parked \<Longrightarrow> token s w" "prompt \<Longrightarrow> wakers s = []"
  shows "\<exists>t. work_step prompt n s t \<and> worker t w \<noteq> worker s w"
proof (cases "worker s w")
  case (W_first b st)
  note moves = moves_on[OF work_step.first_own[OF assms(1)]] moves_on[OF work_step.first_inj[OF assms(1)]] moves_on[OF work_step.first_none[OF assms(1)]]
  show ?thesis using W_first by (cases st) (rule moves, simp, simp)+
next
  case (W_second b st)
  note moves = moves_on[OF work_step.second_own[OF assms(1)]] moves_on[OF work_step.second_inj[OF assms(1)]] moves_on[OF work_step.second_none[OF assms(1)]]
  show ?thesis using W_second by (cases st) (rule moves, simp, simp)+
next
  case (W_flag b)
  show ?thesis by (rule moves_on[OF work_step.flags[OF assms(1) W_flag]]) (use assms(4) in \<open>auto simp: W_flag\<close>)
next
  case (W_token b)
  show ?thesis
  proof (cases b)
    case True
    show ?thesis by (rule moves_on[OF work_step.hands_on[OF assms(1)]]) (simp_all add: W_token True)
  next
    case False
    show ?thesis by (rule moves_on[OF work_step.keeps[OF assms(1)]]) (simp_all add: W_token False)
  qed
next
  case W_parked
  show ?thesis by (rule moves_on[OF work_step.unparks[OF assms(1) W_parked assms(3)[OF W_parked]]]) (simp add: W_parked)
next
  case (W_count b)
  show ?thesis by (rule moves_on[OF work_step.counts[OF assms(1) W_count]]) (simp add: W_count)
next
  case W_release
  show ?thesis by (rule moves_on[OF work_step.releases[OF assms(1) W_release]]) (simp add: W_release)
next
  case W_final
  show ?thesis by (rule moves_on[OF work_step.final[OF assms(1) W_final]]) (simp add: W_final)
next
  case W_woke
  show ?thesis by (rule moves_on[OF work_step.woke[OF assms(1) W_woke]]) (simp add: W_woke)
next
  case (W_clear b)
  show ?thesis by (rule moves_on[OF work_step.clears[OF assms(1) W_clear]]) (simp add: W_clear)
next
  case (W_uncount b)
  show ?thesis by (rule moves_on[OF work_step.uncounts[OF assms(1) W_uncount]]) (simp add: W_uncount)
next
  case (W_absorb b)
  show ?thesis by (rule moves_on[OF work_step.absorbs[OF assms(1) W_absorb]]) (simp add: W_absorb)
next
  case W_run
  show ?thesis by (rule moves_on[OF work_step.finishes[OF assms(1) W_run]]) (simp add: W_run)
next
  case W_unclaimed
  show ?thesis by (rule moves_on[OF work_step.unclaimed[OF assms(1) W_unclaimed]]) (simp add: W_unclaimed)
next
  case (W_check b)
  show ?thesis by (rule moves_on[OF work_step.check[OF assms(1) W_check]]) (simp add: W_check)
next
  case (W_check2 b)
  show ?thesis by (rule moves_on[OF work_step.check2[OF assms(1) W_check2]]) (simp add: W_check2)
next
  case (W_check3 b)
  show ?thesis by (rule moves_on[OF work_step.check3[OF assms(1) W_check3]]) (simp add: W_check3)
next
  case (W_quit b)
  show ?thesis by (rule moves_on[OF work_step.quits[OF assms(1) W_quit]]) (simp add: W_quit)
next
  case (W_quit_count b)
  show ?thesis by (rule moves_on[OF work_step.quit_counts[OF assms(1) W_quit_count]]) (simp add: W_quit_count)
next
  case (W_leave b l)
  show ?thesis by (rule moves_on[OF work_step.leaves[OF assms(1) W_leave]]) (simp add: W_leave)
qed (use assms(2) in simp)

lemma looking_moves_on: "w < n \<Longrightarrow> looking s w \<Longrightarrow> wakers s = [] \<Longrightarrow> \<not> has_ended (worker s w) \<Longrightarrow> \<exists>t. work_step prompt n s t"
  using worker_moves_on[of w n s prompt] by (auto simp: looking_def)

lemma at_own_looking: "at_own u \<Longrightarrow> worker s w = u \<Longrightarrow> looking s w \<and> \<not> has_ended u"
  by (cases u) (auto simp: looking_def)

text \<open>
  C11. No handle is forgotten by the workers, provided no worker raises its idle flag while a waker goes through the flags. Whenever a handle is in the queue of a worker, or in the injector and the runtime does not shut down, some worker or
  waker can move: it never comes to all workers being parked with their tokens spent. While a handle is in the injector and the runtime does not shut down, there is moreover a waker, or a worker that looks at the injector before it parks. And
  \<open>speculation\<close> does not wrap below 0.
\<close>

theorem workers_find_work:
  assumes "work_reach True n s" "0 < n"
  shows "(0 < inj s \<and> \<not> work_stopping s \<or> (\<exists>w<n. 0 < loc s w) \<longrightarrow> (\<exists>t. work_step True n s t)) \<and>
    (0 < inj s \<and> \<not> work_stopping s \<longrightarrow> wakers s \<noteq> [] \<or> (\<exists>w<n. looking s w)) \<and> 0 \<le> speculation s"
proof (intro conjI impI)
  have inv: "counters_ok n s" "local_ok s" "watched n s" "quit_ok s" using wk.reach_inv[of n s] assms by (simp_all add: work_reach_def work_inv_def)
  have look: "wakers s \<noteq> [] \<or> (\<exists>w<n. looking s w \<and> \<not> has_ended (worker s w))" if "0 < inj s \<and> \<not> work_stopping s \<or> (\<exists>w<n. 0 < loc s w)"
  proof (cases "0 < inj s \<and> \<not> work_stopping s")
    case False
    with that obtain w where "w < n" "0 < loc s w" by blast
    then show ?thesis using inv(2) at_own_looking unfolding local_ok_def by blast
  next
    case True
    then have "\<not> has_ended (worker s w)" for w using inv(4) by (cases "worker s w") (auto simp: quit_ok_def dest: spec[of _ w])
    then show ?thesis using True inv(3) by (simp add: watched_def)
  qed
  then show "0 < inj s \<and> \<not> work_stopping s \<Longrightarrow> wakers s \<noteq> [] \<or> (\<exists>w<n. looking s w)" by blast
  show "\<exists>t. work_step True n s t" if "0 < inj s \<and> \<not> work_stopping s \<or> (\<exists>w<n. 0 < loc s w)"
    using look[OF that] waker_moves_on looking_moves_on by blast
  have "0 \<le> tokens u f" "0 \<le> scanning q" for u f q by (cases u rule: speculates.cases; simp add: tokens_def) (cases q; simp)
  then have "0 \<le> over_all n tokens s" "0 \<le> over_wakers scanning s" by (simp add: sum_nonneg, intro sum_list_nonneg) auto
  then show "0 \<le> speculation s" using inv(1) by (simp add: counters_ok_def)
qed

section \<open>Shutting down\<close>

text \<open>A worker past its last look at \<open>work_stopping\<close> has its token when \<open>stop_threads\<close> has been there.\<close>

definition stop_ok :: "sched \<Rightarrow> bool" where
  "stop_ok s \<longleftrightarrow> (0 < unparked s \<longrightarrow> work_stopping s) \<and> (\<forall>w < unparked s. worker s w \<in> {W_release, W_final, W_parked} \<longrightarrow> token s w)"

lemma stop_ok_step: "work_step prompt n s t \<Longrightarrow> stop_ok s \<Longrightarrow> stop_ok t"
proof (induction rule: work_step.induct)
  case (waker_moves s xs q ys q' t)
  then show ?case by (cases q) (auto simp: waker_act_def stop_ok_def split: if_splits)
qed (auto simp: stop_ok_def split: if_splits)

interpretation stop: step_system "\<lambda>s. s = sched_new" "\<lambda>s t. push_step n s t \<or> stop_step n s t \<or> work_step prompt n s t" stop_ok for n prompt
proof
  show "stop_ok s" if "s = sched_new" for s using that by (simp add: stop_ok_def sched_new_def)
  show "stop_ok t" if "push_step n s t \<or> stop_step n s t \<or> work_step prompt n s t" "stop_ok s" for s t
    using that stop_ok_step by (auto simp: stop_ok_def less_Suc_eq elim!: push_step.cases stop_step.cases)
qed

text \<open>
  The workers stop: once \<open>stop_threads\<close> has unparked them all, none sleeps, and each that has not ended can take a step of its own. So \<open>stop_threads\<close> only waits for handles that run.
\<close>

theorem workers_stop:
  assumes "work_reach False n s" "unparked s = n" "w < n" "\<not> has_ended (worker s w)"
  shows "\<exists>t. work_step False n s t \<and> worker t w \<noteq> worker s w"
proof (rule worker_moves_on[OF assms(3,4)])
  show "token s w" if "worker s w = W_parked"
    using stop.reach_inv[of n False s] assms that by (auto simp: work_reach_def stop_ok_def)
qed simp

section \<open>Concrete runs\<close>

text \<open>One worker; the arguments are the handles in the injector, the flag, the two counters, where the worker is and the wakers.\<close>

definition solo :: "nat \<Rightarrow> bool \<Rightarrow> int \<Rightarrow> int \<Rightarrow> wk \<Rightarrow> waker list \<Rightarrow> sched" where
  "solo i f c sp u qs = \<lparr>inj = i, loc = (\<lambda>_. 0), flag = (\<lambda>_. False)(0 := f), idle_count = c, speculation = sp, token = (\<lambda>_. False), worker = (\<lambda>_. W_first False Own)(0 := u), wakers = qs, work_stopping = False, unparked = 0\<rparr>"

lemma solo_start: "work_reach prompt 1 (solo 0 False 0 0 (W_first False Own) [])"
proof -
  have "solo 0 False 0 0 (W_first False Own) [] = sched_new" by (simp add: solo_def sched_new_def fun_eq_iff)
  then show ?thesis using reach.start[of "\<lambda>s. s = sched_new" sched_new] by (simp add: work_reach_def)
qed

lemma work_go: "work_reach prompt n s \<Longrightarrow> work_step prompt n s t \<Longrightarrow> t = u \<Longrightarrow> work_reach prompt n u"
  by (auto simp: work_reach_def intro: reach.next_state)

lemma solo_push:
  assumes "work_reach prompt 1 (solo i f c sp u qs)"
  shows "work_reach prompt 1 (solo (Suc i) f c sp u (Q_load False # qs))"
proof -
  have "push_step 1 (solo i f c sp u qs) (solo (Suc i) f c sp u (Q_load False # qs))" using push_step.inject[of 1 "solo i f c sp u qs" False] by (simp add: solo_def)
  then show ?thesis using assms unfolding work_reach_def by (blast intro: reach.next_state)
qed

text \<open>A waker moves on to \<open>q'\<close>, or goes.\<close>

lemma solo_waker:
  assumes "work_reach prompt 1 (solo i f c sp u (q # qs))" "waker_act 1 q (solo i f c sp u (q # qs)) = (Some q', solo i f c sp' u (q # qs))"
  shows "work_reach prompt 1 (solo i f c sp' u (q' # qs))"
  by (rule work_go[OF assms(1) work_step.waker_moves[OF _ assms(2), of "[]" qs]]) (simp_all add: solo_def)

lemma solo_waker_goes:
  assumes "work_reach prompt 1 (solo i f c sp u (q # qs))" "waker_act 1 q (solo i f c sp u (q # qs)) = (None, solo i f c sp' u (q # qs))"
  shows "work_reach prompt 1 (solo i f c sp' u qs)"
  by (rule work_go[OF assms(1) work_step.waker_moves[OF _ assms(2), of "[]" qs]]) (simp_all add: solo_def)

text \<open>From the first look to the second with nothing to find, when no waker is at the flags or \<open>prompt\<close> is off.\<close>

lemma solo_rests:
  assumes "work_reach prompt 1 (solo 0 False c sp (W_first False Own) qs)" "prompt \<longrightarrow> (\<forall>k. Q_scan k \<notin> set qs)"
  shows "work_reach prompt 1 (solo 0 True (c + 1) sp (W_second False Own) qs)"
proof -
  have "work_reach prompt 1 (solo 0 False c sp (W_first False Inj) qs)" by (rule work_go[OF assms(1) work_step.first_own[of 0]]) (simp_all add: solo_def)
  then have "work_reach prompt 1 (solo 0 False c sp (W_first False Others) qs)" by (rule work_go[OF _ work_step.first_inj[of 0]]) (simp_all add: solo_def)
  then have "work_reach prompt 1 (solo 0 False c sp (W_check False) qs)" by (rule work_go[OF _ work_step.first_none[of 0]]) (simp_all add: solo_def)
  then have "work_reach prompt 1 (solo 0 False c sp (W_flag False) qs)" by (rule work_go[OF _ work_step.check[of 0 1 _ False]]) (simp_all add: solo_def)
  then have "work_reach prompt 1 (solo 0 True c sp (W_count False) qs)" by (rule work_go[OF _ work_step.flags[of 0]]) (use assms(2) in \<open>simp_all add: solo_def\<close>)
  then show ?thesis by (rule work_go[OF _ work_step.counts[of 0]]) (simp_all add: solo_def)
qed

lemma solo_parks:
  assumes "work_reach prompt 1 (solo 0 True c sp (W_second False Own) qs)"
  shows "work_reach prompt 1 (solo 0 True c sp W_parked qs)"
proof -
  have "work_reach prompt 1 (solo 0 True c sp (W_second False Inj) qs)" by (rule work_go[OF assms work_step.second_own[of 0]]) (simp_all add: solo_def)
  then have "work_reach prompt 1 (solo 0 True c sp (W_second False Others) qs)" by (rule work_go[OF _ work_step.second_inj[of 0]]) (simp_all add: solo_def)
  then have "work_reach prompt 1 (solo 0 True c sp (W_check2 False) qs)" by (rule work_go[OF _ work_step.second_none[of 0 1 _ False]]) (simp_all add: solo_def)
  then show ?thesis by (rule work_go[OF _ work_step.check2[of 0 1 _ False]]) (simp_all add: solo_def)
qed

theorem workers_find_work_witness:
  "\<exists>s. work_reach True 1 s \<and> 0 < inj s \<and> worker s 0 = W_parked \<and> wakers s \<noteq> [] \<and> 0 \<le> speculation s"
proof -
  have r: "work_reach True 1 (solo (Suc 0) True 1 0 W_parked [Q_load False])" (is "work_reach True 1 ?s")
    using solo_push[OF solo_parks[OF solo_rests[OF solo_start]]] by simp
  have "0 < inj ?s" "worker ?s 0 = W_parked" "\<not> work_stopping ?s" "\<not> (\<exists>w<1. looking ?s w)" by (simp_all add: solo_def looking_def)
  then show ?thesis using workers_find_work[OF r] r by (intro exI[of _ ?s]) simp
qed

text \<open>
  Without the condition a handle can be forgotten. A waker that finds no flag up gives its token back only afterwards; the worker meanwhile runs the handle the waker came for, raises its flag, looks, and parks; a second
  handle is pushed, whose waker sees the token and leaves the waking to the first one; and that one is past the flags.
\<close>

theorem workers_forget_work:
  "\<exists>s. work_reach False 1 s \<and> inj s = 1 \<and> worker s 0 = W_parked \<and> (\<nexists>t. work_step False 1 s t)"
proof -
  have "work_reach False 1 (solo 1 True 1 0 (W_second False Own) [Q_load False])" using solo_push[OF solo_rests[OF solo_start]] by simp
  then have "work_reach False 1 (solo 1 True 1 0 (W_second False Own) [Q_cas])" by (rule solo_waker) (simp add: waker_act_def solo_def)
  then have "work_reach False 1 (solo 1 True 1 0 (W_second False Inj) [Q_cas])" by (rule work_go[OF _ work_step.second_own[of 0]]) (simp_all add: solo_def)
  then have "work_reach False 1 (solo 0 True 1 0 (W_clear False) [Q_cas])" by (rule work_go[OF _ work_step.second_inj[of 0]]) (simp_all add: solo_def)
  then have "work_reach False 1 (solo 0 False 1 0 (W_uncount False) [Q_cas])" by (rule work_go[OF _ work_step.clears[of 0]]) (simp_all add: solo_def)
  then have "work_reach False 1 (solo 0 False 0 0 (W_token False) [Q_cas])" by (rule work_go[OF _ work_step.uncounts[of 0]]) (simp_all add: solo_def)
  then have "work_reach False 1 (solo 0 False 0 0 W_run [Q_cas])" by (rule work_go[OF _ work_step.keeps[of 0]]) (simp_all add: solo_def)
  then have "work_reach False 1 (solo 0 False 0 1 W_run [Q_scan 0])" by (rule solo_waker) (simp add: waker_act_def solo_def)
  then have "work_reach False 1 (solo 0 False 0 1 W_run [Q_scan 1])" by (rule solo_waker) (simp add: waker_act_def solo_def)
  then have "work_reach False 1 (solo 0 False 0 1 (W_first False Own) [Q_scan 1])" by (rule work_go[OF _ work_step.finishes[of 0]]) (simp_all add: solo_def)
  from solo_push[OF solo_parks[OF solo_rests[OF this]]] have "work_reach False 1 (solo 1 True 1 1 W_parked [Q_load False, Q_scan 1])" by simp
  then have "work_reach False 1 (solo 1 True 1 1 W_parked [Q_cas, Q_scan 1])" by (rule solo_waker) (simp add: waker_act_def solo_def)
  then have "work_reach False 1 (solo 1 True 1 1 W_parked [Q_scan 1])" by (rule solo_waker_goes) (simp add: waker_act_def solo_def)
  then have "work_reach False 1 (solo 1 True 1 0 W_parked [])" (is "work_reach False 1 ?s") by (rule solo_waker_goes) (simp add: waker_act_def solo_def)
  moreover have "\<nexists>t. work_step False 1 ?s t" by (auto simp: work_step.simps solo_def split: if_splits)
  ultimately show ?thesis by (intro exI[of _ ?s]) (simp add: solo_def)
qed

end
