(* ===== verification/Handles.thy ===== *)
theory Handles
  imports Py_Errors
begin

text \<open>
  How coroutines run: the handles of \<open>src/src/handles.rs\<close> with the suspensions of \<open>src/src/events.rs\<close> that link them. A coroutine of the \<open>yield\<close> flavour is a generator. It calls another one by yielding it: the runtime
  suspends the caller in an object that the handle of the callee keeps as its parent, queues the callee, and queues the caller again with what the callee returned or raised. No Python stack is shared. The theorem is
  that this machine of handles does what calling would do, and that a suspension is resumed once.

  A generator is what it does with what is sent into it, for any state of the process (\<open>'s\<close>) and any content of its context (\<open>'x\<close>); it may go on for ever. What it yields is nothing, another
  generator, a waiter (\<open>'w\<close>, see theory \<open>Events\<close>) or something else. Values are \<open>'v option\<close>, where \<^const>\<open>None\<close> is Python's. Waiters without events, which mark checkpoints, are left out.
\<close>

section \<open>Generators\<close>

datatype 'v input = Send "'v option" | Throw exn

codatatype ('w, 'v, 's, 'x) coro = Coro (react: "'v input \<Rightarrow> 's \<Rightarrow> 'x \<Rightarrow> ('w, 'v, 's, 'x) reply \<times> 's \<times> 'x")
  and ('w, 'v, 's, 'x) reply = Yielded "('w, 'v, 's, 'x) yielded" "('w, 'v, 's, 'x) coro" | Returned "'v option" | Raised exn
  and ('w, 'v, 's, 'x) yielded = Bare | Sub "('w, 'v, 's, 'x) coro" | Wait 'w | Other

text \<open>
  How a coroutine ends: with a value, with an exception, with the panic of a worker that got something it does not know; \<open>Abandoned\<close> is one that was left where it was.
\<close>

datatype 'v outcome = Ret "'v option" | Exc exn | Panic | Abandoned

text \<open>
  \<open>PyIter_Send\<close> and the call of \<open>throw\<close>, where \<open>StopIteration\<close> is the return. With a context (\<open>use_pyctx\<close>) the coroutine is sent to in the context it was made in, and thrown into in a copy that is dropped.
\<close>

definition send_coro :: "bool \<Rightarrow> ('w, 'v, 's, 'x) coro \<Rightarrow> 'v input \<Rightarrow> 's \<times> 'x \<Rightarrow> ('w, 'v, 's, 'x) reply \<times> 's \<times> 'x" where
  "send_coro use_pyctx c i w = (case react c i (fst w) (snd w) of (r, s, x) \<Rightarrow>
     (r, s, case i of Send _ \<Rightarrow> x | Throw _ \<Rightarrow> if use_pyctx then snd w else x))"

section \<open>Handles and suspensions\<close>

text \<open>\<open>PyGenSuspension\<close>; suspensions are named by their position in the order they were made.\<close>

record ('w, 'v, 's, 'x) pyframe =
  parent :: "nat option"
  target :: "('w, 'v, 's, 'x) coro"
  consumed :: bool

datatype ('w, 'v, 's, 'x) pyhandle = PyGenHandle "nat option" "('w, 'v, 's, 'x) coro" "'v option" | PyGenThrower "nat option" "('w, 'v, 's, 'x) coro" exn

text \<open>Where a chain of coroutines is: in a queue of the runtime; suspended by a waiter; at its end; or nowhere, as its suspension was consumed before.\<close>

datatype ('w, 'v, 's, 'x) pyplace = Queued "('w, 'v, 's, 'x) pyhandle" | Parked 'w nat | Finished "'v outcome" | Dropped

definition from_handle :: "nat option \<Rightarrow> ('w, 'v, 's, 'x) coro \<Rightarrow> ('w, 'v, 's, 'x) pyframe list \<Rightarrow> nat \<times> ('w, 'v, 's, 'x) pyframe list" where
  "from_handle p c st = (length st, st @ [\<lparr>parent = p, target = c, consumed = False\<rparr>])"

definition frame_resume :: "nat \<Rightarrow> 'v option \<Rightarrow> ('w, 'v, 's, 'x) pyframe list \<Rightarrow> ('w, 'v, 's, 'x) pyplace \<times> ('w, 'v, 's, 'x) pyframe list" where
  "frame_resume k v st = (case cas False True (consumed (st ! k)) of
      Some b \<Rightarrow> (Queued (PyGenHandle (parent (st ! k)) (target (st ! k)) v), st[k := (st ! k)\<lparr>consumed := b\<rparr>])
    | None \<Rightarrow> (Dropped, st))"

definition frame_error :: "nat \<Rightarrow> exn \<Rightarrow> ('w, 'v, 's, 'x) pyframe list \<Rightarrow> ('w, 'v, 's, 'x) pyplace \<times> ('w, 'v, 's, 'x) pyframe list" where
  "frame_error k e st = (case cas False True (consumed (st ! k)) of
      Some b \<Rightarrow> (Queued (PyGenThrower (parent (st ! k)) (target (st ! k)) e), st[k := (st ! k)\<lparr>consumed := b\<rparr>])
    | None \<Rightarrow> (Dropped, st))"

text \<open>What a handle does with the reply of its coroutine; \<open>again\<close> is the handle that is queued after a bare \<open>yield\<close>.\<close>

definition handle_reply :: "nat option \<Rightarrow> 'v option \<Rightarrow> ('w, 'v, 's, 'x) reply \<Rightarrow> ('w, 'v, 's, 'x) pyframe list \<Rightarrow>
    ('w, 'v, 's, 'x) pyplace \<times> ('w, 'v, 's, 'x) pyframe list" where
  "handle_reply p again r st = (case r of
      Yielded y c \<Rightarrow> (case y of
          Bare \<Rightarrow> (Queued (PyGenHandle p c again), st)
        | Sub g \<Rightarrow> (case from_handle p c st of (k, st) \<Rightarrow> (Queued (PyGenHandle (Some k) g None), st))
        | Wait wt \<Rightarrow> (case from_handle p c st of (k, st) \<Rightarrow> (Parked wt k, st))
        | Other \<Rightarrow> (Finished Panic, st))
    | Returned v \<Rightarrow> (case p of Some k \<Rightarrow> frame_resume k v st | None \<Rightarrow> (Finished (Ret v), st))
    | Raised e \<Rightarrow> (case p of Some k \<Rightarrow> frame_error k e st | None \<Rightarrow> (Finished (Exc e), st)))"

text \<open>\<open>PyGenHandle::call\<close> queues itself again after a bare \<open>yield\<close>, with the value it has; \<open>PyGenThrower::run\<close> a new handle without one.\<close>

definition pygen_call :: "bool \<Rightarrow> nat option \<Rightarrow> ('w, 'v, 's, 'x) coro \<Rightarrow> 'v option \<Rightarrow> ('w, 'v, 's, 'x) pyframe list \<Rightarrow> 's \<times> 'x \<Rightarrow>
    (('w, 'v, 's, 'x) pyplace \<times> ('w, 'v, 's, 'x) pyframe list) \<times> 's \<times> 'x" where
  "pygen_call use_pyctx p c v st w = (case send_coro use_pyctx c (Send v) w of (r, w) \<Rightarrow> (handle_reply p v r st, w))"

definition pygen_throw :: "bool \<Rightarrow> nat option \<Rightarrow> ('w, 'v, 's, 'x) coro \<Rightarrow> exn \<Rightarrow> ('w, 'v, 's, 'x) pyframe list \<Rightarrow> 's \<times> 'x \<Rightarrow>
    (('w, 'v, 's, 'x) pyplace \<times> ('w, 'v, 's, 'x) pyframe list) \<times> 's \<times> 'x" where
  "pygen_throw use_pyctx p c e st w = (case send_coro use_pyctx c (Throw e) w of (r, w) \<Rightarrow> (handle_reply p None r st, w))"

fun pyhandle_run :: "bool \<Rightarrow> ('w, 'v, 's, 'x) pyhandle \<Rightarrow> ('w, 'v, 's, 'x) pyframe list \<Rightarrow> 's \<times> 'x \<Rightarrow>
    (('w, 'v, 's, 'x) pyplace \<times> ('w, 'v, 's, 'x) pyframe list) \<times> 's \<times> 'x" where
  "pyhandle_run use_pyctx (PyGenHandle p c v) st w = pygen_call use_pyctx p c v st w"
| "pyhandle_run use_pyctx (PyGenThrower p c e) st w = pygen_throw use_pyctx p c e st w"

text \<open>
  The machine. What happens elsewhere between two handles is \<open>intr\<close>; \<open>answers\<close> says what a waiter brings back, which is sent or thrown.
\<close>

fun frame_answer :: "nat \<Rightarrow> 'v input \<Rightarrow> ('w, 'v, 's, 'x) pyframe list \<Rightarrow> ('w, 'v, 's, 'x) pyplace \<times> ('w, 'v, 's, 'x) pyframe list" where
  "frame_answer k (Send v) st = frame_resume k v st"
| "frame_answer k (Throw e) st = frame_error k e st"

type_synonym ('w, 'v, 's, 'x) chain = "(('w, 'v, 's, 'x) pyplace \<times> ('w, 'v, 's, 'x) pyframe list) \<times> 's \<times> 'x"

inductive chain_step :: "bool \<Rightarrow> ('s \<times> 'x \<Rightarrow> 's \<times> 'x \<Rightarrow> bool) \<Rightarrow> ('w \<Rightarrow> 's \<times> 'x \<Rightarrow> 'v input \<Rightarrow> 's \<times> 'x \<Rightarrow> bool) \<Rightarrow>
    ('w, 'v, 's, 'x) chain \<Rightarrow> ('w, 'v, 's, 'x) chain \<Rightarrow> bool" for use_pyctx intr answers where
  runs: "intr w w' \<Longrightarrow> chain_step use_pyctx intr answers ((Queued h, st), w) (pyhandle_run use_pyctx h st w')"
| wakes: "answers wt w i w' \<Longrightarrow> chain_step use_pyctx intr answers ((Parked wt k, st), w) (frame_answer k i st, w')"

section \<open>Calls\<close>

text \<open>What the code of a coroutine means when yielding a generator is calling it.\<close>

fun deliver :: "'v outcome \<Rightarrow> 'v input" where
  "deliver (Ret v) = Send v"
| "deliver (Exc e) = Throw e"
| "deliver _ = Send None"

fun resent :: "'v input \<Rightarrow> 'v option" where
  "resent (Send v) = v"
| "resent (Throw _) = None"

inductive calls :: "bool \<Rightarrow> ('s \<times> 'x \<Rightarrow> 's \<times> 'x \<Rightarrow> bool) \<Rightarrow> ('w \<Rightarrow> 's \<times> 'x \<Rightarrow> 'v input \<Rightarrow> 's \<times> 'x \<Rightarrow> bool) \<Rightarrow>
    ('w, 'v, 's, 'x) coro \<Rightarrow> 'v input \<Rightarrow> 's \<times> 'x \<Rightarrow> 'v outcome \<Rightarrow> 's \<times> 'x \<Rightarrow> bool" for use_pyctx intr answers where
  returns: "intr w w1 \<Longrightarrow> send_coro use_pyctx c i w1 = (Returned v, w2) \<Longrightarrow> calls use_pyctx intr answers c i w (Ret v) w2"
| raises: "intr w w1 \<Longrightarrow> send_coro use_pyctx c i w1 = (Raised e, w2) \<Longrightarrow> calls use_pyctx intr answers c i w (Exc e) w2"
| pauses: "intr w w1 \<Longrightarrow> send_coro use_pyctx c i w1 = (Yielded Bare c', w2) \<Longrightarrow> calls use_pyctx intr answers c' (Send (resent i)) w2 out w3 \<Longrightarrow>
     calls use_pyctx intr answers c i w out w3"
| called: "intr w w1 \<Longrightarrow> send_coro use_pyctx c i w1 = (Yielded (Sub g) c', w2) \<Longrightarrow> calls use_pyctx intr answers g (Send None) w2 res w3 \<Longrightarrow> res \<noteq> Panic \<Longrightarrow>
     calls use_pyctx intr answers c' (deliver res) w3 out w4 \<Longrightarrow> calls use_pyctx intr answers c i w out w4"
| panicked: "intr w w1 \<Longrightarrow> send_coro use_pyctx c i w1 = (Yielded (Sub g) c', w2) \<Longrightarrow> calls use_pyctx intr answers g (Send None) w2 Panic w3 \<Longrightarrow>
     calls use_pyctx intr answers c i w Panic w3"
| waits: "intr w w1 \<Longrightarrow> send_coro use_pyctx c i w1 = (Yielded (Wait wt) c', w2) \<Longrightarrow> answers wt w2 j w3 \<Longrightarrow> calls use_pyctx intr answers c' j w3 out w4 \<Longrightarrow>
     calls use_pyctx intr answers c i w out w4"
| panics: "intr w w1 \<Longrightarrow> send_coro use_pyctx c i w1 = (Yielded Other c', w2) \<Longrightarrow> calls use_pyctx intr answers c i w Panic w2"

lemma calls_end: "calls use_pyctx intr answers c i w out w' \<Longrightarrow> out \<noteq> Abandoned"
  by (induction rule: calls.induct) auto

section \<open>The machine does what calling does\<close>

fun handle_for :: "nat option \<Rightarrow> ('w, 'v, 's, 'x) coro \<Rightarrow> 'v input \<Rightarrow> ('w, 'v, 's, 'x) pyhandle" where
  "handle_for p c (Send v) = PyGenHandle p c v"
| "handle_for p c (Throw e) = PyGenThrower p c e"

lemma run_handle_for: "pyhandle_run u (handle_for p c i) st w = (case send_coro u c i w of (r, w') \<Rightarrow> (handle_reply p (resent i) r st, w'))"
  by (cases i) (simp_all add: pygen_call_def pygen_throw_def)

text \<open>Where an outcome goes.\<close>

definition hand_up :: "nat option \<Rightarrow> 'v outcome \<Rightarrow> ('w, 'v, 's, 'x) pyframe list \<Rightarrow> ('w, 'v, 's, 'x) pyplace \<times> ('w, 'v, 's, 'x) pyframe list" where
  "hand_up p out st = (case p of Some k \<Rightarrow> if out = Panic then (Finished Panic, st) else frame_answer k (deliver out) st | None \<Rightarrow> (Finished out, st))"

lemma frame_answer_live:
  "\<not> consumed (st ! k) \<Longrightarrow> frame_answer k i st = (Queued (handle_for (parent (st ! k)) (target (st ! k)) i), st[k := (st ! k)\<lparr>consumed := True\<rparr>])"
  by (cases i) (simp_all add: frame_resume_def frame_error_def cas_def)

lemma handle_reply_simps [simp]:
  "handle_reply p a (Yielded Bare c) st = (Queued (PyGenHandle p c a), st)"
  "handle_reply p a (Yielded (Sub g) c) st = (Queued (PyGenHandle (Some (length st)) g None), st @ [\<lparr>parent = p, target = c, consumed = False\<rparr>])"
  "handle_reply p a (Yielded (Wait wt) c) st = (Parked wt (length st), st @ [\<lparr>parent = p, target = c, consumed = False\<rparr>])"
  "handle_reply p a (Yielded Other c) st = (Finished Panic, st)"
  "handle_reply p a (Returned v) st = hand_up p (Ret v) st"
  "handle_reply p a (Raised e) st = hand_up p (Exc e) st"
  by (simp_all add: handle_reply_def from_handle_def hand_up_def split: option.splits)

text \<open>What is called runs to its end on the machine, for any caller; suspensions made before are as they were.\<close>

lemma step_handle_for:
  assumes "intr w w1" "send_coro u c i w1 = (r, w2)"
  shows "chain_step u intr answers ((Queued (handle_for p c i), st), w) (handle_reply p (resent i) r st, w2)"
  using chain_step.runs[of intr, OF assms(1), of u answers "handle_for p c i" st] assms(2) by (simp add: run_handle_for)

lemma calls_run:
  "calls u intr answers c i w out w' \<Longrightarrow>
   \<exists>st'. take (length st) st' = st \<and> (chain_step u intr answers)\<^sup>*\<^sup>* ((Queued (handle_for p c i), st), w) (hand_up p out st', w')"
proof (induction arbitrary: p st rule: calls.induct)
  case (returns w w1 c i v w2)
  from step_handle_for[of intr, OF this] show ?case by (intro exI[of _ st]) auto
next
  case (raises w w1 c i e w2)
  from step_handle_for[of intr, OF this] show ?case by (intro exI[of _ st]) auto
next
  case (pauses w w1 c i c' w2 out w3)
  from pauses.IH[of st p] obtain st' where st': "take (length st) st' = st"
    "(chain_step u intr answers)\<^sup>*\<^sup>* ((Queued (PyGenHandle p c' (resent i)), st), w2) (hand_up p out st', w3)" by auto
  moreover have "chain_step u intr answers ((Queued (handle_for p c i), st), w) ((Queued (PyGenHandle p c' (resent i)), st), w2)"
    using step_handle_for[of intr, OF pauses.hyps(1,2), of answers p st] by simp
  ultimately show ?case by (meson converse_rtranclp_into_rtranclp)
next
  case (called w w1 c i g c' w2 res w3 out w4)
  let ?f = "\<lparr>parent = p, target = c', consumed = False\<rparr>"
  have 1: "chain_step u intr answers ((Queued (handle_for p c i), st), w) ((Queued (PyGenHandle (Some (length st)) g None), st @ [?f]), w2)"
    using step_handle_for[of intr, OF called.hyps(1,2), of answers p st] by simp
  from called.IH(1)[of "st @ [?f]" "Some (length st)"] obtain st1 where st1: "take (Suc (length st)) st1 = st @ [?f]"
    and 2: "(chain_step u intr answers)\<^sup>*\<^sup>* ((Queued (PyGenHandle (Some (length st)) g None), st @ [?f]), w2) (hand_up (Some (length st)) res st1, w3)" by auto
  have n: "length st < length st1" using arg_cong[OF st1, of length] by simp
  have f: "st1 ! length st = ?f" using nth_take[of "length st" "Suc (length st)" st1] st1 by simp
  let ?st = "st1[length st := ?f\<lparr>consumed := True\<rparr>]"
  have up: "hand_up (Some (length st)) res st1 = (Queued (handle_for p c' (deliver res)), ?st)"
    using called.hyps(4) f by (simp add: hand_up_def frame_answer_live)
  from called.IH(2)[of ?st p] obtain st2 where st2: "take (length st1) st2 = ?st"
    "(chain_step u intr answers)\<^sup>*\<^sup>* ((Queued (handle_for p c' (deliver res)), ?st), w3) (hand_up p out st2, w4)" by auto
  have "take (length st) st2 = take (length st) ?st" using st2(1) n by (metis min.strict_order_iff take_take)
  also have "\<dots> = st" using st1 n by (metis append_eq_conv_conj length_append_singleton lessI min.strict_order_iff order_refl take_take take_update_cancel)
  finally show ?case using converse_rtranclp_into_rtranclp[of "chain_step u intr answers", OF 1 rtranclp_trans[OF 2[unfolded up] st2(2)]] by blast
next
  case (panicked w w1 c i g c' w2 w3)
  let ?f = "\<lparr>parent = p, target = c', consumed = False\<rparr>"
  have 1: "chain_step u intr answers ((Queued (handle_for p c i), st), w) ((Queued (PyGenHandle (Some (length st)) g None), st @ [?f]), w2)"
    using step_handle_for[of intr, OF panicked.hyps(1,2), of answers p st] by simp
  from panicked.IH[of "st @ [?f]" "Some (length st)"] obtain st1 where st1: "take (Suc (length st)) st1 = st @ [?f]"
    and 2: "(chain_step u intr answers)\<^sup>*\<^sup>* ((Queued (PyGenHandle (Some (length st)) g None), st @ [?f]), w2) (hand_up (Some (length st)) Panic st1, w3)" by auto
  have "take (length st) st1 = st" using st1 by (metis append_eq_conv_conj length_append_singleton lessI min.strict_order_iff take_take)
  moreover have "hand_up (Some (length st)) Panic st1 = hand_up p Panic st1" by (simp add: hand_up_def split: option.split)
  ultimately show ?case using converse_rtranclp_into_rtranclp[of "chain_step u intr answers", OF 1 2] by metis
next
  case (waits w w1 c i wt c' w2 j w3 out w4)
  let ?f = "\<lparr>parent = p, target = c', consumed = False\<rparr>"
  let ?st = "st @ [?f\<lparr>consumed := True\<rparr>]"
  have 1: "chain_step u intr answers ((Queued (handle_for p c i), st), w) ((Parked wt (length st), st @ [?f]), w2)"
    using step_handle_for[of intr, OF waits.hyps(1,2), of answers p st] by simp
  have 2: "chain_step u intr answers ((Parked wt (length st), st @ [?f]), w2) ((Queued (handle_for p c' j), ?st), w3)"
    using chain_step.wakes[of answers wt w2 j w3 u intr "length st" "st @ [?f]"] waits.hyps(3) by (simp add: frame_answer_live)
  from waits.IH[of ?st p] obtain st2 where st2: "take (Suc (length st)) st2 = ?st"
    "(chain_step u intr answers)\<^sup>*\<^sup>* ((Queued (handle_for p c' j), ?st), w3) (hand_up p out st2, w4)" by auto
  have "take (length st) st2 = st" using st2(1) by (metis append_eq_conv_conj length_append_singleton lessI min.strict_order_iff take_take)
  then show ?case using converse_rtranclp_into_rtranclp[of "chain_step u intr answers", OF 1 converse_rtranclp_into_rtranclp[of "chain_step u intr answers", OF 2 st2(2)]] by blast
next
  case (panics w w1 c i c' w2)
  from step_handle_for[of intr, OF this] have "chain_step u intr answers ((Queued (handle_for p c i), st), w) (hand_up p Panic st, w2)"
    by (simp add: hand_up_def split: option.split)
  then show ?case by (intro exI[of _ st]) auto
qed

text \<open>
  For the other direction, the callers of a handle: the targets of the suspensions above it, none of which has been consumed, each made before the one below. And what a stack of callers makes of an outcome.
\<close>

inductive frames :: "('w, 'v, 's, 'x) pyframe list \<Rightarrow> nat option \<Rightarrow> ('w, 'v, 's, 'x) coro list \<Rightarrow> bool" for st where
  no_frame: "frames st None []"
| frame: "k < length st \<Longrightarrow> \<not> consumed (st ! k) \<Longrightarrow> (\<And>j. parent (st ! k) = Some j \<Longrightarrow> j < k) \<Longrightarrow> frames st (parent (st ! k)) ks \<Longrightarrow> frames st (Some k) (target (st ! k) # ks)"

inductive_cases frames_SomeE: "frames st (Some k) cs"

lemma frames_NoneD: "frames st None cs \<Longrightarrow> cs = []"
  by (auto elim: frames.cases)

lemma frames_mono:
  assumes "frames st p ks" "\<And>k. p = Some k \<Longrightarrow> k < n" "\<And>j. j < n \<Longrightarrow> j < length st \<Longrightarrow> j < length st' \<and> st' ! j = st ! j"
  shows "frames st' p ks"
  using assms(1,2)
proof (induction rule: frames.induct)
  case (frame k ks)
  have k: "k < length st'" "st' ! k = st ! k" using assms(3)[of k] frame.hyps(1) frame.prems by auto
  have "frames st' (parent (st ! k)) ks" using frame.hyps(3) frame.prems[of k] by (intro frame.IH) (metis less_trans)
  then show ?case using frames.frame[of k st' ks] k frame.hyps by simp
qed (rule frames.no_frame)

fun unwind :: "bool \<Rightarrow> ('s \<times> 'x \<Rightarrow> 's \<times> 'x \<Rightarrow> bool) \<Rightarrow> ('w \<Rightarrow> 's \<times> 'x \<Rightarrow> 'v input \<Rightarrow> 's \<times> 'x \<Rightarrow> bool) \<Rightarrow>
    ('w, 'v, 's, 'x) coro list \<Rightarrow> 'v outcome \<Rightarrow> 's \<times> 'x \<Rightarrow> 'v outcome \<Rightarrow> 's \<times> 'x \<Rightarrow> bool" where
  "unwind u intr answers [] out w out' w' \<longleftrightarrow> out' = out \<and> w' = w"
| "unwind u intr answers (c # ks) out w out' w' \<longleftrightarrow>
     (if out = Panic then out' = Panic \<and> w' = w else \<exists>res w1. calls u intr answers c (deliver out) w res w1 \<and> unwind u intr answers ks res w1 out' w')"

text \<open>Where the machine is, with its callers, and what it will come to.\<close>

fun on_stack :: "('w, 'v, 's, 'x) pyplace \<times> ('w, 'v, 's, 'x) pyframe list \<Rightarrow> ('w, 'v, 's, 'x) coro list \<Rightarrow> bool" where
  "on_stack (Queued (PyGenHandle p _ _), st) ks = frames st p ks"
| "on_stack (Queued (PyGenThrower p _ _), st) ks = frames st p ks"
| "on_stack (Parked _ k, st) ks = frames st (Some k) ks"
| "on_stack (Finished _, st) ks = True"
| "on_stack (Dropped, st) ks = False"

fun comes_to :: "bool \<Rightarrow> ('s \<times> 'x \<Rightarrow> 's \<times> 'x \<Rightarrow> bool) \<Rightarrow> ('w \<Rightarrow> 's \<times> 'x \<Rightarrow> 'v input \<Rightarrow> 's \<times> 'x \<Rightarrow> bool) \<Rightarrow>
    ('w, 'v, 's, 'x) pyplace \<Rightarrow> ('w, 'v, 's, 'x) coro list \<Rightarrow> 's \<times> 'x \<Rightarrow> 'v outcome \<Rightarrow> 's \<times> 'x \<Rightarrow> bool" where
  "comes_to u intr answers (Queued (PyGenHandle _ c v)) ks w out w' \<longleftrightarrow> (\<exists>res w1. calls u intr answers c (Send v) w res w1 \<and> unwind u intr answers ks res w1 out w')"
| "comes_to u intr answers (Queued (PyGenThrower _ c e)) ks w out w' \<longleftrightarrow> (\<exists>res w1. calls u intr answers c (Throw e) w res w1 \<and> unwind u intr answers ks res w1 out w')"
| "comes_to u intr answers (Parked wt _) ks w out w' \<longleftrightarrow>
     (\<exists>j w1 res w2. answers wt w j w1 \<and> calls u intr answers (hd ks) j w1 res w2 \<and> unwind u intr answers (tl ks) res w2 out w')"
| "comes_to u intr answers (Finished res) ks w out w' \<longleftrightarrow> out = res \<and> w' = w"
| "comes_to u intr answers Dropped ks w out w' \<longleftrightarrow> False"

lemma handle_for_stack [simp]:
  "on_stack (Queued (handle_for p c i), st) ks \<longleftrightarrow> frames st p ks"
  "comes_to u intr answers (Queued (handle_for p c i)) ks w out w' \<longleftrightarrow> (\<exists>res w1. calls u intr answers c i w res w1 \<and> unwind u intr answers ks res w1 out w')"
  by (cases i; simp)+

lemma frames_snoc: "frames st p ks \<Longrightarrow> frames (st @ [f]) p ks"
  by (rule frames_mono[of st p ks "length st"]) (auto simp: nth_append elim: frames_SomeE)

lemma frames_new:
  assumes "frames st p ks"
  shows "frames (st @ [\<lparr>parent = p, target = c, consumed = False\<rparr>]) (Some (length st)) (c # ks)"
proof -
  let ?st = "st @ [\<lparr>parent = p, target = c, consumed = False\<rparr>]"
  have "frames ?st (parent (?st ! length st)) ks" using frames_snoc[OF assms] by simp
  from frames.frame[of "length st" ?st ks, OF _ _ _ this] assms show ?thesis by (auto elim: frames_SomeE)
qed

text \<open>An answer makes the suspension's target the handle; the frames above stay.\<close>

lemma frame_answer_stack:
  assumes "frames st (Some k) ks"
  obtains c ks' st' p where "ks = c # ks'" "frame_answer k i st = (Queued (handle_for p c i), st')" "frames st' p ks'"
proof -
  from assms obtain ks' where 1: "ks = target (st ! k) # ks'" "k < length st" "\<not> consumed (st ! k)" "\<And>j. parent (st ! k) = Some j \<Longrightarrow> j < k" "frames st (parent (st ! k)) ks'"
    by (auto elim: frames_SomeE)
  have "frames (st[k := (st ! k)\<lparr>consumed := True\<rparr>]) (parent (st ! k)) ks'" by (rule frames_mono[OF 1(5), of k]) (use 1 in auto)
  then show ?thesis using that frame_answer_live[OF 1(3), of i] 1(1) by blast
qed

lemma hand_up_stack:
  assumes "frames st p ks" "out \<noteq> Abandoned"
  shows "\<exists>ks'. on_stack (hand_up p out st) ks' \<and>
    (\<forall>out' w'. comes_to u intr answers (fst (hand_up p out st)) ks' w out' w' \<longrightarrow> unwind u intr answers ks out w out' w')"
proof (cases p)
  case None
  then have "ks = []" using assms(1) frames_NoneD by blast
  then show ?thesis using None by (simp add: hand_up_def)
next
  case (Some k)
  show ?thesis
  proof (cases "out = Panic")
    case True
    then have "unwind u intr answers ks out w Panic w" using Some assms(1) by (cases ks) simp_all
    then show ?thesis using Some True by (simp add: hand_up_def)
  next
    case False
    from assms(1)[unfolded Some] obtain c ks' st' p' where "ks = c # ks'" "frame_answer k (deliver out) st = (Queued (handle_for p' c (deliver out)), st')" "frames st' p' ks'"
      by (rule frame_answer_stack)
    then show ?thesis using Some False by (intro exI[of _ ks']) (simp add: hand_up_def del: split_paired_All split_paired_Ex)
  qed
qed

text \<open>Each step of the machine comes to nothing the calls do not come to.\<close>

lemma reply_stack:
  assumes "frames st p ks" "intr w w1" "send_coro u c i w1 = (r, w2)"
  shows "\<exists>ks'. on_stack (handle_reply p (resent i) r st) ks' \<and>
    (\<forall>out w'. comes_to u intr answers (fst (handle_reply p (resent i) r st)) ks' w2 out w' \<longrightarrow>
      (\<exists>res w3. calls u intr answers c i w res w3 \<and> unwind u intr answers ks res w3 out w'))"
proof -
  consider v where "r = Returned v" | e where "r = Raised e" | c' where "r = Yielded Bare c'" | g c' where "r = Yielded (Sub g) c'"
    | wt c' where "r = Yielded (Wait wt) c'" | c' where "r = Yielded Other c'" by (metis reply.exhaust yielded.exhaust)
  then show ?thesis
  proof cases
    case 1
    have "calls u intr answers c i w (Ret v) w2" using calls.returns[of intr w w1] assms(2,3) 1 by simp
    moreover have "handle_reply p (resent i) r st = hand_up p (Ret v) st" using 1 by simp
    ultimately show ?thesis using hand_up_stack[OF assms(1), of "Ret v" u intr answers w2] by (metis outcome.distinct(5))
  next
    case 2
    have "calls u intr answers c i w (Exc e) w2" using calls.raises[of intr w w1] assms(2,3) 2 by simp
    moreover have "handle_reply p (resent i) r st = hand_up p (Exc e) st" using 2 by simp
    ultimately show ?thesis using hand_up_stack[OF assms(1), of "Exc e" u intr answers w2] by (metis outcome.distinct(9))
  next
    case 3
    then show ?thesis using assms(1) calls.pauses[of intr w w1 u c i c' w2, OF assms(2)] assms(3)
      by (intro exI[of _ ks]) (simp del: split_paired_All split_paired_Ex, blast)
  next
    case 4
    show ?thesis
    proof (intro exI[of _ "c' # ks"] conjI allI impI)
      fix out w'
      assume "comes_to u intr answers (fst (handle_reply p (resent i) r st)) (c' # ks) w2 out w'"
      then obtain res w3 where res: "calls u intr answers g (Send None) w2 res w3" "unwind u intr answers (c' # ks) res w3 out w'" using 4 by auto
      show "\<exists>res w3. calls u intr answers c i w res w3 \<and> unwind u intr answers ks res w3 out w'"
      proof (cases "res = Panic")
        case True
        then have "unwind u intr answers ks Panic w3 out w'" using res(2) by (cases ks) auto
        moreover have "calls u intr answers c i w Panic w3" using calls.panicked[of intr w w1 u c i g c' w2 answers w3] assms(2,3) 4 res True by simp
        ultimately show ?thesis by blast
      next
        case False
        then show ?thesis using calls.called[of intr w w1 u c i g c' w2 answers res w3, OF assms(2)] assms(3) 4 res
          by (simp del: split_paired_All split_paired_Ex) blast
      qed
    qed (use 4 frames_new[OF assms(1)] in simp)
  next
    case 5
    then show ?thesis using assms(3) frames_new[OF assms(1)] calls.waits[of intr w w1 u c i wt c' w2, OF assms(2)]
      by (intro exI[of _ "c' # ks"]) (simp del: split_paired_All split_paired_Ex, blast)
  next
    case 6
    have "unwind u intr answers ks Panic w2 Panic w2" by (cases ks) auto
    then show ?thesis using 6 assms(3) calls.panics[of intr w w1 u c i c' w2 answers, OF assms(2)]
      by (intro exI[of _ ks]) (simp del: split_paired_All split_paired_Ex, blast)
  qed
qed

lemma step_stack:
  assumes "chain_step u intr answers s t" "on_stack (fst s) ks"
  shows "\<exists>ks'. on_stack (fst t) ks' \<and>
    (\<forall>out w'. comes_to u intr answers (fst (fst t)) ks' (snd t) out w' \<longrightarrow> comes_to u intr answers (fst (fst s)) ks (snd s) out w')"
  using assms
proof (cases rule: chain_step.cases)
  case (runs w w1 h st)
  obtain p c i where h: "h = handle_for p c i" by (metis pyhandle.exhaust handle_for.simps)
  obtain r w2 where r: "send_coro u c i w1 = (r, w2)" by (meson surj_pair)
  have "frames st p ks" using assms(2) runs(1) h by simp
  from reply_stack[OF this, of intr, OF runs(3) r, of answers] show ?thesis using runs(1,2) h r by (simp add: run_handle_for)
next
  case (wakes wt w i w1 k st)
  then have "frames st (Some k) ks" using assms(2) by simp
  then obtain c ks' st' p where "ks = c # ks'" "frame_answer k i st = (Queued (handle_for p c i), st')" "frames st' p ks'" by (rule frame_answer_stack)
  then show ?thesis using wakes by (intro exI[of _ ks']) (simp del: split_paired_All split_paired_Ex, blast)
qed

lemma run_stack:
  assumes "(chain_step u intr answers)\<^sup>*\<^sup>* s t" "on_stack (fst s) ks"
  shows "\<exists>ks'. on_stack (fst t) ks' \<and>
    (\<forall>out w'. comes_to u intr answers (fst (fst t)) ks' (snd t) out w' \<longrightarrow> comes_to u intr answers (fst (fst s)) ks (snd s) out w')"
  using assms
proof (induction arbitrary: ks rule: converse_rtranclp_induct)
  case (step s s')
  from step_stack[OF step.hyps(1) step.prems] step.IH show ?case by meson
qed blast

text \<open>
  C2. Yielding a coroutine is calling it. A coroutine of the \<open>yield\<close> flavour that is spawned ends on the machine of handles and suspensions with an outcome exactly if it does so when every coroutine it yields is called: what
  the callee returns or raises is what the \<open>yield\<close> returns or raises, however deep the calls, and with any effect of other threads between two handles. And the runtime never drops a coroutine: a suspension has not
  been consumed when it is resumed.
\<close>

theorem handles_run_calls:
  "((\<exists>st. (chain_step use_pyctx intr answers)\<^sup>*\<^sup>* ((Queued (PyGenHandle None c None), []), w) ((Finished out, st), w')) \<longleftrightarrow>
      calls use_pyctx intr answers c (Send None) w out w') \<and>
   (\<nexists>st w'. (chain_step use_pyctx intr answers)\<^sup>*\<^sup>* ((Queued (PyGenHandle None c None), []), w) ((Dropped, st), w'))"
proof (intro conjI iffI)
  have start: "on_stack (fst ((Queued (PyGenHandle None c None), []), w)) []" by (simp add: frames.no_frame)
  show "calls use_pyctx intr answers c (Send None) w out w'"
    if "\<exists>st. (chain_step use_pyctx intr answers)\<^sup>*\<^sup>* ((Queued (PyGenHandle None c None), []), w) ((Finished out, st), w')"
    using that run_stack[OF _ start] by fastforce
  show "\<exists>st. (chain_step use_pyctx intr answers)\<^sup>*\<^sup>* ((Queued (PyGenHandle None c None), []), w) ((Finished out, st), w')"
    if "calls use_pyctx intr answers c (Send None) w out w'"
    using calls_run[OF that, of "[]" None] by (auto simp: hand_up_def)
  show "\<nexists>st w'. (chain_step use_pyctx intr answers)\<^sup>*\<^sup>* ((Queued (PyGenHandle None c None), []), w) ((Dropped, st), w')"
    using run_stack[OF _ start] by fastforce
qed

section \<open>Coroutines of the await flavour\<close>

text \<open>
  Here Python itself does the calls, and what arrives at the runtime comes from the innermost \<open>await\<close>: nothing or a waiter. \<open>PyAsyncGenHandle::call\<close> and \<open>PyAsyncGenThrower::run\<close>; the latter looks at exceptions only.
\<close>

datatype ('w, 'v, 's, 'x) aplace = A_queued "('w, 'v, 's, 'x) coro" "'v input" | A_parked 'w "('w, 'v, 's, 'x) coro" | A_finished "'v outcome"

definition pyasyncgen_call :: "bool \<Rightarrow> ('w, 'v, 's, 'x) coro \<Rightarrow> 'v option \<Rightarrow> 's \<times> 'x \<Rightarrow> ('w, 'v, 's, 'x) aplace \<times> 's \<times> 'x" where
  "pyasyncgen_call use_pyctx c v w = (case send_coro use_pyctx c (Send v) w of (r, w) \<Rightarrow> (case r of
      Yielded y c \<Rightarrow> (case y of Bare \<Rightarrow> A_queued c (Send v) | Wait wt \<Rightarrow> A_parked wt c | _ \<Rightarrow> A_finished Panic)
    | Returned v \<Rightarrow> A_finished (Ret v)
    | Raised e \<Rightarrow> A_finished (Exc e), w))"

definition pyasyncgen_throw :: "bool \<Rightarrow> ('w, 'v, 's, 'x) coro \<Rightarrow> exn \<Rightarrow> 's \<times> 'x \<Rightarrow> ('w, 'v, 's, 'x) aplace \<times> 's \<times> 'x" where
  "pyasyncgen_throw use_pyctx c e w = (case send_coro use_pyctx c (Throw e) w of (r, w) \<Rightarrow> (case r of
      Yielded y c \<Rightarrow> A_finished Abandoned | Returned v \<Rightarrow> A_finished (Ret v) | Raised e \<Rightarrow> A_finished (Exc e), w))"

inductive await_step :: "bool \<Rightarrow> ('s \<times> 'x \<Rightarrow> 's \<times> 'x \<Rightarrow> bool) \<Rightarrow> ('w \<Rightarrow> 's \<times> 'x \<Rightarrow> 'v input \<Rightarrow> 's \<times> 'x \<Rightarrow> bool) \<Rightarrow>
    ('w, 'v, 's, 'x) aplace \<times> 's \<times> 'x \<Rightarrow> ('w, 'v, 's, 'x) aplace \<times> 's \<times> 'x \<Rightarrow> bool" for use_pyctx intr answers where
  sent: "intr w w' \<Longrightarrow> await_step use_pyctx intr answers (A_queued c (Send v), w) (pyasyncgen_call use_pyctx c v w')"
| thrown: "intr w w' \<Longrightarrow> await_step use_pyctx intr answers (A_queued c (Throw e), w) (pyasyncgen_throw use_pyctx c e w')"
| answered: "answers wt w i w' \<Longrightarrow> await_step use_pyctx intr answers (A_parked wt c, w) (A_queued c i, w')"

inductive_cases await_queuedE: "await_step use_pyctx intr answers (A_queued c (Send v), w) t"
inductive_cases await_parkedE: "await_step use_pyctx intr answers (A_parked wt c, w) t"
inductive_cases await_finishedE: "await_step use_pyctx intr answers (A_finished out, w) t"

coinductive awaits :: "('w, 'v, 's, 'x) coro \<Rightarrow> bool" where
  awaits: "(\<And>i s x y c' s' x'. react c i s x = (Yielded y c', s', x') \<Longrightarrow> (\<nexists>g. y = Sub g) \<and> awaits c') \<Longrightarrow> awaits c"

lemma awaits_send:
  assumes "awaits c" "send_coro u c i w = (Yielded y c', w')"
  shows "(\<nexists>g. y = Sub g) \<and> awaits c'"
  using assms(1)
proof (cases rule: awaits.cases)
  case awaits
  then show ?thesis using assms(2) by (auto simp: send_coro_def split: prod.splits)
qed

fun await_place :: "('w, 'v, 's, 'x) aplace \<Rightarrow> bool" where
  "await_place (A_queued c i) \<longleftrightarrow> awaits c \<and> (\<exists>v. i = Send v)"
| "await_place (A_parked wt c) \<longleftrightarrow> awaits c"
| "await_place (A_finished out) \<longleftrightarrow> True"

fun await_comes_to :: "bool \<Rightarrow> ('s \<times> 'x \<Rightarrow> 's \<times> 'x \<Rightarrow> bool) \<Rightarrow> ('w \<Rightarrow> 's \<times> 'x \<Rightarrow> 'v input \<Rightarrow> 's \<times> 'x \<Rightarrow> bool) \<Rightarrow>
    ('w, 'v, 's, 'x) aplace \<Rightarrow> 's \<times> 'x \<Rightarrow> 'v outcome \<Rightarrow> 's \<times> 'x \<Rightarrow> bool" where
  "await_comes_to u intr answers (A_queued c i) w out w' \<longleftrightarrow> calls u intr answers c i w out w'"
| "await_comes_to u intr answers (A_parked wt c) w out w' \<longleftrightarrow> (\<exists>j w1. answers wt w j w1 \<and> calls u intr answers c j w1 out w')"
| "await_comes_to u intr answers (A_finished res) w out w' \<longleftrightarrow> out = res \<and> w' = w"

lemma await_call_comes_to:
  assumes "intr w w1" "await_comes_to u intr answers (fst (pyasyncgen_call u c v w1)) (snd (pyasyncgen_call u c v w1)) out w'" "awaits c"
  shows "calls u intr answers c (Send v) w out w'" 
proof -
  obtain r w2 where r: "send_coro u c (Send v) w1 = (r, w2)" by (meson surj_pair)
  show ?thesis
  proof (cases r)
    case (Yielded y c')
    then have aw: "(\<nexists>g. y = Sub g) \<and> awaits c'" using awaits_send[OF assms(3)] r by blast
    show ?thesis
    proof (cases y)
      case Bare
      then show ?thesis using calls.pauses[of intr w w1 u c "Send v" c' w2, OF assms(1)] assms(2) r Yielded aw by (simp add: pyasyncgen_call_def)
    next
      case (Wait wt)
      then show ?thesis using calls.waits[of intr w w1 u c "Send v" wt c' w2, OF assms(1)] assms(2) r Yielded aw
        by (simp add: pyasyncgen_call_def del: split_paired_Ex) blast
    next
      case Other
      then show ?thesis using calls.panics[of intr w w1 u c "Send v" c' w2, OF assms(1)] assms(2) r Yielded by (simp add: pyasyncgen_call_def)
    qed (use aw in blast)
  next
    case (Returned v')
    then show ?thesis using calls.returns[of intr w w1 u c "Send v" v' w2, OF assms(1)] assms(2) r by (simp add: pyasyncgen_call_def)
  next
    case (Raised e)
    then show ?thesis using calls.raises[of intr w w1 u c "Send v" e w2, OF assms(1)] assms(2) r by (simp add: pyasyncgen_call_def)
  qed
qed

lemma await_call_place: "awaits c \<Longrightarrow> await_place (fst (pyasyncgen_call u c v w))"
proof -
  assume a: "awaits c"
  obtain r w2 where r: "send_coro u c (Send v) w = (r, w2)" by (meson surj_pair)
  show ?thesis using awaits_send[OF a, of u "Send v" w _ _ w2] r by (cases r) (auto simp: pyasyncgen_call_def split: yielded.splits)
qed

lemma await_step_back:
  assumes "await_step u intr answers s t" "await_place (fst s)" "\<And>wt w i w'. answers wt w i w' \<Longrightarrow> \<exists>v. i = Send v"
  shows "await_place (fst t) \<and> (\<forall>out w'. await_comes_to u intr answers (fst t) (snd t) out w' \<longrightarrow> await_comes_to u intr answers (fst s) (snd s) out w')"
  using assms(1)
proof (cases rule: await_step.cases)
  case (sent w w1 c v)
  then show ?thesis using await_call_place[of c u v w1] await_call_comes_to[of intr w w1 u answers c v] assms(2) by simp
next
  case (thrown w w1 c e)
  then show ?thesis using assms(2) by simp
next
  case (answered wt w i w1 c)
  then show ?thesis using assms(2) assms(3)[OF answered(3)] by (simp del: split_paired_All split_paired_Ex) blast
qed

lemma await_run_back:
  assumes "(await_step u intr answers)\<^sup>*\<^sup>* s t" "await_place (fst s)" "\<And>wt w i w'. answers wt w i w' \<Longrightarrow> \<exists>v. i = Send v"
  shows "await_place (fst t) \<and> (\<forall>out w'. await_comes_to u intr answers (fst t) (snd t) out w' \<longrightarrow> await_comes_to u intr answers (fst s) (snd s) out w')"
  using assms(1,2)
proof (induction rule: converse_rtranclp_induct)
  case (step s s')
  have "await_place (fst s') \<and> (\<forall>out w'. await_comes_to u intr answers (fst s') (snd s') out w' \<longrightarrow> await_comes_to u intr answers (fst s) (snd s) out w')"
    using await_step_back[OF step.hyps(1) step.prems] assms(3) by blast
  then show ?case using step.IH by blast
qed blast

lemma await_sent:
  assumes "intr w w1" "send_coro u c (Send v) w1 = (r, w2)"
  shows "await_step u intr answers (A_queued c (Send v), w) (case r of
      Yielded y c \<Rightarrow> (case y of Bare \<Rightarrow> A_queued c (Send v) | Wait wt \<Rightarrow> A_parked wt c | _ \<Rightarrow> A_finished Panic)
    | Returned v \<Rightarrow> A_finished (Ret v)
    | Raised e \<Rightarrow> A_finished (Exc e), w2)"
  using await_step.sent[of intr w w1 u answers c v] assms by (simp add: pyasyncgen_call_def)

lemma calls_await:
  assumes "calls u intr answers c i w out w'" "awaits c" "i = Send v" "\<And>wt w i w'. answers wt w i w' \<Longrightarrow> \<exists>v. i = Send v"
  shows "(await_step u intr answers)\<^sup>*\<^sup>* (A_queued c i, w) (A_finished out, w')"
  using assms(1-3)
proof (induction arbitrary: v rule: calls.induct)
  case (pauses w w1 c i c' w2 out w3)
  then show ?case using await_sent[of intr w w1 u c v "Yielded Bare c'" w2 answers] awaits_send[of c u i w1 Bare c' w2] by (auto intro: converse_rtranclp_into_rtranclp)
next
  case (waits w w1 c i wt c' w2 j w3 out w4)
  obtain v' where j: "j = Send v'" using assms(4) waits.hyps(3) by blast
  have "(await_step u intr answers)\<^sup>*\<^sup>* (A_queued c' j, w3) (A_finished out, w4)" using waits awaits_send[of c u i w1 "Wait wt" c' w2] j by blast
  then have "(await_step u intr answers)\<^sup>*\<^sup>* (A_parked wt c', w2) (A_finished out, w4)"
    using await_step.answered[of answers wt w2 j w3 u intr c'] waits.hyps(3) by (auto intro: converse_rtranclp_into_rtranclp)
  then show ?case using await_sent[of intr w w1 u c v "Yielded (Wait wt) c'" w2 answers] waits by (auto intro: converse_rtranclp_into_rtranclp)
next
  case (called w w1 c i g c' w2 res w3 out w4)
  then show ?case using awaits_send[of c u i w1 "Sub g" c' w2] by blast
next
  case (panicked w w1 c i g c' w2 w3)
  then show ?case using awaits_send[of c u i w1 "Sub g" c' w2] by blast
next
  case (returns w w1 c i v' w2)
  then show ?case using await_sent[of intr w w1 u c v "Returned v'" w2 answers] by auto
next
  case (raises w w1 c i e w2)
  then show ?case using await_sent[of intr w w1 u c v "Raised e" w2 answers] by auto
next
  case (panics w w1 c i c' w2)
  then show ?case using await_sent[of intr w w1 u c v "Yielded Other c'" w2 answers] by auto
qed

text \<open>A coroutine of the \<open>await\<close> flavour that nobody aborts ends as its code says.\<close>

theorem await_handles_run_calls:
  assumes "awaits c" "\<And>wt w i w'. answers wt w i w' \<Longrightarrow> \<exists>v. i = Send v"
  shows "(await_step u intr answers)\<^sup>*\<^sup>* (A_queued c (Send None), w) (A_finished out, w') \<longleftrightarrow> calls u intr answers c (Send None) w out w'"
proof
  assume "(await_step u intr answers)\<^sup>*\<^sup>* (A_queued c (Send None), w) (A_finished out, w')"
  from await_run_back[OF this] assms show "calls u intr answers c (Send None) w out w'" by simp
qed (use calls_await assms in blast)

section \<open>Where it is not quite a call\<close>

text \<open>
  The abort of a coroutine of the \<open>await\<close> flavour that catches it and awaits something: the coroutine is left there, and the rest of its \<open>finally\<close> is not run. In the \<open>yield\<close> flavour it is.
\<close>

definition cleans_up :: "(nat, nat, nat, nat) coro" where
  "cleans_up = Coro (\<lambda>i s x. (Yielded (Wait 0) (Coro (\<lambda>i s x. case i of Send v \<Rightarrow> (Returned v, s, x)
     | Throw e \<Rightarrow> (Yielded (Wait 1) (Coro (\<lambda>i s x. (Raised e, Suc s, x))), s, x))), s, x))"

fun abort_first :: "nat \<Rightarrow> nat \<times> nat \<Rightarrow> nat input \<Rightarrow> nat \<times> nat \<Rightarrow> bool" where
  "abort_first wt w i w' \<longleftrightarrow> i = (if wt = 0 then Throw CancelledError else Send None) \<and> w' = w"

theorem await_abort_abandons:
  "(await_step u (=) abort_first)\<^sup>*\<^sup>* (A_queued cleans_up (Send None), (0, 0)) (A_finished Abandoned, (0, 0))
   \<and> calls u (=) abort_first cleans_up (Send None) (0, 0) (Exc CancelledError) (1, 0)"
proof
  obtain c where c: "send_coro u cleans_up (Send None) (0, 0) = (Yielded (Wait 0) c, (0, 0))" "send_coro u c (Throw CancelledError) (0, 0) = (Yielded (Wait 1) (Coro (\<lambda>i s x. (Raised CancelledError, Suc s, x))), (0, 0))"
    by (simp add: send_coro_def cleans_up_def)
  have "await_step u (=) abort_first (A_queued cleans_up (Send None), (0, 0)) (A_parked 0 c, (0, 0))"
    using await_sent[of "(=)" "(0, 0)" "(0, 0)" u cleans_up None, OF refl c(1)] by simp
  moreover have "await_step u (=) abort_first (A_parked 0 c, (0, 0)) (A_queued c (Throw CancelledError), (0, 0))" by (rule await_step.answered) simp
  moreover have "await_step u (=) abort_first (A_queued c (Throw CancelledError), (0, 0)) (A_finished Abandoned, (0, 0))"
    using await_step.thrown[of "(=)" "(0, 0)" "(0, 0)" u abort_first c CancelledError] c(2) by (simp add: pyasyncgen_throw_def)
  ultimately show "(await_step u (=) abort_first)\<^sup>*\<^sup>* (A_queued cleans_up (Send None), (0, 0)) (A_finished Abandoned, (0, 0))"
    by (meson converse_rtranclp_into_rtranclp rtranclp.rtrancl_refl)
  have "calls u (=) abort_first (Coro (\<lambda>i s x. (Raised CancelledError, Suc s, x))) (Send None) (0, 0) (Exc CancelledError) (1, 0)"
    by (rule calls.raises[OF refl]) (simp add: send_coro_def)
  then have "calls u (=) abort_first c (Throw CancelledError) (0, 0) (Exc CancelledError) (1, 0)" by (rule calls.waits[OF refl c(2), rotated]) simp
  then show "calls u (=) abort_first cleans_up (Send None) (0, 0) (Exc CancelledError) (1, 0)" by (rule calls.waits[OF refl c(1), rotated]) simp
qed

text \<open>
  A bare \<open>yield\<close> gives the value the coroutine was last resumed with, not \<open>None\<close>: the handle is queued again as it is.
\<close>

definition five :: "(nat, nat, nat, nat) coro" where
  "five = Coro (\<lambda>i s x. (Returned (Some 5), s, x))"

definition asks_twice :: "(nat, nat, nat, nat) coro" where
  "asks_twice = Coro (\<lambda>i s x. (Yielded (Sub five) (Coro (\<lambda>i s x. (Yielded Bare (Coro (\<lambda>i s x. (Returned (resent i), s, x))), s, x))), s, x))"

theorem bare_yield_repeats: "calls u (=) answers asks_twice (Send None) w (Ret (Some 5)) w"
proof -
  let ?last = "Coro (\<lambda>i s x. (Returned (resent i), s, x)) :: (nat, nat, nat, nat) coro"
  let ?rest = "Coro (\<lambda>i s x. (Yielded Bare ?last, s, x))"
  have last: "calls u (=) answers ?last (Send (resent (Send (Some 5)))) w (Ret (Some 5)) w"
    by (rule calls.returns[OF refl]) (simp add: send_coro_def)
  have "send_coro u ?rest (Send (Some 5)) w = (Yielded Bare ?last, w)" by (simp add: send_coro_def)
  from calls.pauses[OF refl this last] have rest: "calls u (=) answers ?rest (deliver (Ret (Some 5))) w (Ret (Some 5)) w" by simp
  have five: "calls u (=) answers five (Send None) w (Ret (Some 5)) w" by (rule calls.returns[OF refl]) (simp add: send_coro_def five_def)
  have "send_coro u asks_twice (Send None) w = (Yielded (Sub five) ?rest, w)" by (simp add: send_coro_def asks_twice_def)
  from calls.called[OF refl this five _ rest] show ?thesis by simp
qed

text \<open>With contexts, what a coroutine sets in its context between an exception that reaches it and its next \<open>yield\<close> is lost.\<close>

definition fails :: "(nat, nat, nat, nat) coro" where
  "fails = Coro (\<lambda>i s x. (Raised (UserError 0), s, x))"

definition sets_on_error :: "(nat, nat, nat, nat) coro" where
  "sets_on_error = Coro (\<lambda>i s x. (Yielded (Sub fails) (Coro (\<lambda>i s x. (Yielded Bare (Coro (\<lambda>i s x. (Returned (Some x), s, x))), s, 1))), s, x))"

theorem handler_context_lost: "calls use_pyctx (=) answers sets_on_error (Send None) (0, 0) (Ret (Some (if use_pyctx then 0 else 1))) (0, if use_pyctx then 0 else 1)"
proof -
  let ?x = "if use_pyctx then 0 else 1 :: nat"
  let ?last = "Coro (\<lambda>i s x. (Returned (Some x), s, x))"
  let ?rest = "Coro (\<lambda>i s x. (Yielded Bare ?last, s, 1))"
  have last: "calls use_pyctx (=) answers ?last (Send (resent (Throw (UserError 0)))) (0, ?x) (Ret (Some ?x)) (0, ?x)"
    by (rule calls.returns[OF refl]) (simp add: send_coro_def)
  have "send_coro use_pyctx ?rest (Throw (UserError 0)) (0, 0) = (Yielded Bare ?last, (0, ?x))" by (simp add: send_coro_def)
  from calls.pauses[OF refl this last] have rest: "calls use_pyctx (=) answers ?rest (deliver (Exc (UserError 0))) (0, 0) (Ret (Some ?x)) (0, ?x)" by simp
  have fails: "calls use_pyctx (=) answers fails (Send None) (0, 0) (Exc (UserError 0)) (0, 0)" by (rule calls.raises[OF refl]) (simp add: send_coro_def fails_def)
  have "send_coro use_pyctx sets_on_error (Send None) (0, 0) = (Yielded (Sub fails) ?rest, (0, 0))" by (simp add: send_coro_def sets_on_error_def)
  from calls.called[OF refl this fails _ rest] show ?thesis by simp
qed

end
