(* ===== verification/Poll_Loop.thy ===== *)
theory Poll_Loop
  imports Prelude "HOL-Library.Multiset"
begin

text \<open>
  The event loop: \<open>Runtime::poll\<close>, \<open>add_timer\<close>, \<open>wake\<close>, the loop of \<open>_run\<close> and the setter of \<open>_stopping\<close> of \<open>src/src/runtime.rs\<close>, with \<open>Timer\<close> of \<open>src/src/time.rs\<close>. One thread polls the kernel until the
  next timer is due, and puts the timers that are due in the queue of the workers; any thread may add a timer or ask the loop to stop, and then wakes the poller. A step is one section under the lock of the timers or one access to a
  shared cell. Time is in microseconds since the start of the runtime. Dispatching what the kernel reports is the subject of \<open>Sched_IO\<close>, \<open>Io_Registry\<close> and \<open>Signals\<close>.
\<close>

section \<open>Timers\<close>

record ptimer =
  when_due :: nat
  owner :: nat

text \<open>
  \<open>BinaryHeap<Timer>\<close>: the order of \<open>Timer\<close> is turned around, so \<open>peek\<close> and \<open>pop\<close> give a timer that is due first. Which of several with the same time comes first is left open by the library; the theorems do
  not depend on it.
\<close>

definition heap_push :: "ptimer \<Rightarrow> ptimer list \<Rightarrow> ptimer list" where
  "heap_push t = insort_key when_due t"

text \<open>The timeout of the poll, in a \<open>u64\<close>.\<close>

definition poll_timeout :: "nat \<Rightarrow> ptimer list \<Rightarrow> 64 word option" where
  "poll_timeout tick hs = (case hs of [] \<Rightarrow> None | t # _ \<Rightarrow> Some (if when_due t > tick then of_nat (when_due t - tick) else 0))"

text \<open>The loop that takes the timers that are due, and the test before it.\<close>

fun pop_due :: "nat \<Rightarrow> ptimer list \<Rightarrow> ptimer list \<times> ptimer list" where
  "pop_due tick [] = ([], [])"
| "pop_due tick (t # hs) = (if when_due t > tick then ([], t # hs) else case pop_due tick hs of (due, rest) \<Rightarrow> (t # due, rest))"

definition handle_timers :: "nat \<Rightarrow> ptimer list \<Rightarrow> ptimer list \<times> ptimer list" where
  "handle_timers tick hs = (case hs of [] \<Rightarrow> ([], []) | t # _ \<Rightarrow> if when_due t \<le> tick then pop_due tick hs else ([], hs))"

lemma pop_due_split: "pop_due tick hs = (takeWhile (\<lambda>t. when_due t \<le> tick) hs, dropWhile (\<lambda>t. when_due t \<le> tick) hs)"
  by (induction hs) auto

lemma handle_timers_split: "handle_timers tick hs = (takeWhile (\<lambda>t. when_due t \<le> tick) hs, dropWhile (\<lambda>t. when_due t \<le> tick) hs)"
  by (cases hs) (simp_all add: handle_timers_def pop_due_split)

lemma sorted_when: "sorted (map when_due (t # hs)) \<Longrightarrow> u \<in> set (t # hs) \<Longrightarrow> when_due t \<le> when_due u"
  by auto

text \<open>What is handed over is what is due, in the order of the times.\<close>

lemma handle_timers_due:
  assumes "sorted (map when_due hs)" "handle_timers tick hs = (due, rest)"
  shows "due = filter (\<lambda>t. when_due t \<le> tick) hs" "rest = filter (\<lambda>t. tick < when_due t) hs" "sorted (map when_due due)" "sorted (map when_due rest)"
proof -
  have "takeWhile (\<lambda>t. when_due t \<le> tick) hs = filter (\<lambda>t. when_due t \<le> tick) hs \<and> dropWhile (\<lambda>t. when_due t \<le> tick) hs = filter (\<lambda>t. tick < when_due t) hs"
    using assms(1)
  proof (induction hs)
    case (Cons t hs)
    have "\<forall>u \<in> set hs. tick < when_due u" if "tick < when_due t" using Cons.prems that by (auto intro: less_le_trans)
    then show ?case using Cons by (cases "when_due t \<le> tick") (auto simp: filter_empty_conv filter_id_conv not_le)
  qed simp
  then show "due = filter (\<lambda>t. when_due t \<le> tick) hs" "rest = filter (\<lambda>t. tick < when_due t) hs" using assms(2) by (auto simp: handle_timers_split)
  then show "sorted (map when_due due)" "sorted (map when_due rest)" using assms(1) by (simp_all add: sorted_filter)
qed

lemma mset_due: "mset hs = mset (filter (\<lambda>t. when_due t \<le> tick) hs) + mset (filter (\<lambda>t. tick < when_due t) hs)"
  by (induction hs) auto

section \<open>The loop and the other threads\<close>

text \<open>
  The poller: not running; at the top of the loop; before its look at the timers; in the system call, with the time its timeout ends; back, with \<^const>\<open>False\<close> for an error that ends the loop; tearing down.
\<close>

datatype lpc = L_off | L_top | L_poll | L_sleep "nat option" | L_events bool | L_down

text \<open>\<open>waker\<close> tells whether the runtime has one; \<open>woken\<close> that it was used and the poll has not seen it; \<open>wakes\<close> counts the threads that have to call \<open>wake\<close> next. \<open>fired\<close> has the timers handed over and when.\<close>

record lsys =
  clock :: nat
  heap :: "ptimer list"
  added :: "ptimer list"
  fired :: "(ptimer \<times> nat) list"
  waker :: bool
  woken :: bool
  wakes :: nat
  stopping :: bool
  lpc :: lpc

definition lsys_init :: "lsys \<Rightarrow> bool" where
  "lsys_init s \<longleftrightarrow> heap s = [] \<and> added s = [] \<and> fired s = [] \<and> \<not> waker s \<and> \<not> woken s \<and> wakes s = 0 \<and> \<not> stopping s \<and> lpc s = L_off"

text \<open>
  The system call may return for many reasons; it need not see the waker when it does, as it reports at most 128 events. A waiter reads the clock before it adds its timer.
\<close>

inductive evloop_step :: "lsys \<Rightarrow> lsys \<Rightarrow> bool" where
  time_passes: "evloop_step s (s\<lparr>clock := clock s + d\<rparr>)"
| adds: "now \<le> clock s \<Longrightarrow> t = \<lparr>when_due = now + unat (timeout :: usize), owner = k\<rparr> \<Longrightarrow>
     evloop_step s (s\<lparr>heap := heap_push t (heap s), added := t # added s, wakes := Suc (wakes s)\<rparr>)"
| stops: "evloop_step s (s\<lparr>stopping := b, wakes := Suc (wakes s)\<rparr>)"
| wake: "0 < wakes s \<Longrightarrow> evloop_step s (s\<lparr>wakes := wakes s - 1, woken := woken s \<or> waker s\<rparr>)"
| starts: "lpc s = L_off \<Longrightarrow> evloop_step s (s\<lparr>waker := True, woken := False, lpc := L_top\<rparr>)"
| top: "lpc s = L_top \<Longrightarrow> evloop_step s (s\<lparr>lpc := if stopping s then L_down else L_poll\<rparr>)"
| polls: "lpc s = L_poll \<Longrightarrow> evloop_step s (s\<lparr>lpc := L_sleep (map_option (\<lambda>d. clock s + unat d) (poll_timeout (clock s) (heap s)))\<rparr>)"
| returns: "lpc s = L_sleep d \<Longrightarrow> (seen \<longrightarrow> woken s) \<Longrightarrow> evloop_step s (s\<lparr>woken := woken s \<and> \<not> seen, lpc := L_events ok\<rparr>)"
| timers: "lpc s = L_events ok \<Longrightarrow> handle_timers (clock s) (heap s) = (due, rest) \<Longrightarrow>
     evloop_step s (s\<lparr>heap := rest, fired := fired s @ map (\<lambda>t. (t, clock s)) due, lpc := if ok then L_top else L_down\<rparr>)"
| down: "lpc s = L_down \<Longrightarrow> evloop_step s (s\<lparr>waker := False, lpc := L_off\<rparr>)"

definition loop_reach :: "lsys \<Rightarrow> bool" where
  "loop_reach = reach lsys_init evloop_step"

section \<open>Timers fire, once and not early\<close>

text \<open>Somebody will wake the poller.\<close>

abbreviation stirred :: "lsys \<Rightarrow> bool" where
  "stirred s \<equiv> woken s \<or> 0 < wakes s"

definition heap_ok :: "lsys \<Rightarrow> bool" where
  "heap_ok s \<longleftrightarrow> sorted (map when_due (heap s)) \<and> (\<forall>t \<in> set (heap s). when_due t < clock s + 2 ^ 64) \<and> mset (added s) = mset (heap s) + mset (map fst (fired s))
     \<and> (\<forall>(t, k) \<in> set (fired s). when_due t \<le> k \<and> k \<le> clock s)"

fun bounds_all :: "nat option \<Rightarrow> nat \<Rightarrow> ptimer list \<Rightarrow> bool" where
  "bounds_all None now hs \<longleftrightarrow> hs = []"
| "bounds_all (Some d) now hs \<longleftrightarrow> d \<le> now \<or> (\<forall>t \<in> set hs. d \<le> when_due t)"

definition sleep_ok :: "lsys \<Rightarrow> bool" where
  "sleep_ok s \<longleftrightarrow> (waker s \<longleftrightarrow> lpc s \<noteq> L_off) \<and> (lpc s = L_poll \<or> (\<exists>d. lpc s = L_sleep d) \<longrightarrow> stopping s \<longrightarrow> stirred s)
     \<and> (\<forall>d. lpc s = L_sleep d \<longrightarrow> stirred s \<or> bounds_all d (clock s) (heap s))"

lemma set_heap_push [simp]: "set (heap_push t hs) = insert t (set hs)"
  by (simp add: heap_push_def set_insort_key)

lemma heap_ok_step: "evloop_step s t \<Longrightarrow> heap_ok s \<Longrightarrow> heap_ok t"
proof (induction rule: evloop_step.induct)
  case (adds now s t timeout k)
  have "unat timeout < 2 ^ 64" using unsigned_less[of timeout] by simp
  then have "when_due t < clock s + 2 ^ 64" using adds(1,2) by simp
  then show ?case using adds(3) by (auto simp: heap_ok_def heap_push_def sorted_insort_key set_insort_key)
next
  case (timers s ok due rest)
  then have "sorted (map when_due (heap s))" by (simp add: heap_ok_def)
  note d = handle_timers_due[OF this timers(2)]
  have "mset (heap s) = mset due + mset rest" unfolding d(1,2) by (rule mset_due)
  then have "mset (heap s) + mset (map fst (fired s)) = mset rest + mset (map fst (fired s @ map (\<lambda>t. (t, clock s)) due))" by (simp add: o_def)
  then show ?case using timers(3) d(3,4) unfolding heap_ok_def by (auto simp: d(1,2))
qed (auto simp: heap_ok_def)

lemma poll_timeout_fits:
  assumes "heap_ok s" "poll_timeout (clock s) (heap s) = Some e"
  shows "\<exists>t \<in> set (heap s). unat e = when_due t - clock s \<and> (\<forall>u \<in> set (heap s). when_due t \<le> when_due u)"
proof -
  obtain t hs where h: "heap s = t # hs" using assms(2) by (auto simp: poll_timeout_def split: list.splits)
  have "when_due t - clock s < 2 ^ 64" using assms(1) h by (auto simp: heap_ok_def)
  then have "unat (of_nat (when_due t - clock s) :: 64 word) = when_due t - clock s" by (simp add: unsigned_of_nat take_bit_nat_eq_self)
  then have "unat e = when_due t - clock s" using assms(2) h by (auto simp: poll_timeout_def)
  moreover have "\<forall>u \<in> set (heap s). when_due t \<le> when_due u" using assms(1) h by (auto simp: heap_ok_def)
  ultimately show ?thesis using h by auto
qed

lemma poll_bounds:
  assumes "heap_ok s"
  shows "bounds_all (map_option (\<lambda>d. clock s + unat d) (poll_timeout (clock s) (heap s))) (clock s) (heap s)"
proof (cases "poll_timeout (clock s) (heap s)")
  case (Some e)
  then obtain t where "t \<in> set (heap s)" and t: "unat e = when_due t - clock s" "\<forall>u \<in> set (heap s). when_due t \<le> when_due u" using poll_timeout_fits[OF assms] by blast
  show ?thesis
  proof (cases "when_due t \<le> clock s")
    case False
    then have "clock s + unat e = when_due t" using t(1) by simp
    then show ?thesis using Some t(2) by simp
  qed (use Some t in simp)
qed (simp add: poll_timeout_def split: list.splits)

lemma oversleeps_not:
  assumes "sleep_ok s" "lpc s = L_sleep d" "(\<exists>t \<in> set (heap s). when_due t \<le> clock s) \<or> stopping s"
  shows "woken s \<or> 0 < wakes s \<or> (\<exists>e. d = Some e \<and> e \<le> clock s)"
proof (cases "stopping s \<or> stirred s")
  case False
  then have "bounds_all d (clock s) (heap s)" using assms(1,2) by (simp add: sleep_ok_def)
  moreover obtain t where "t \<in> set (heap s)" "when_due t \<le> clock s" using False assms(3) by blast
  ultimately show ?thesis by (cases d) (auto intro: order_trans)
qed (use assms(1,2) in \<open>auto simp: sleep_ok_def\<close>)

lemma bounds_all_later: "bounds_all d now hs \<Longrightarrow> bounds_all d (now + k) hs"
  by (cases d) auto

lemma sleep_ok_step: "evloop_step s t \<Longrightarrow> heap_ok s \<Longrightarrow> sleep_ok s \<Longrightarrow> sleep_ok t"
proof (induction rule: evloop_step.induct)
  case (polls s)
  then show ?case using poll_bounds[OF polls(2)] by (auto simp: sleep_ok_def)
next
  case (time_passes s d)
  then show ?case by (auto simp: sleep_ok_def bounds_all_later)
qed (auto simp: sleep_ok_def)

interpretation loop: step_system lsys_init evloop_step "\<lambda>s. heap_ok s \<and> sleep_ok s"
proof
  show "heap_ok s \<and> sleep_ok s" if "lsys_init s" for s using that by (auto simp: lsys_init_def heap_ok_def sleep_ok_def)
qed (use heap_ok_step sleep_ok_step in blast)

text \<open>
  C12. The event loop. Whatever threads do and in whatever order: every timer that was added is in the heap or was handed to the workers, once, and not before it was due; the poller does not sleep past a timer that is
  due, nor after it was asked to stop: then a thread is about to wake it, or the system call has a reason to return. And a turn of the loop leaves no timer behind that was due, and hands them over in the order of their
  times. The timeout of the poll fits its 64 bits.
\<close>

theorem poll_loop_timers:
  assumes "loop_reach s"
  shows "mset (added s) = mset (heap s) + mset (map fst (fired s)) \<and> (\<forall>(t, k) \<in> set (fired s). when_due t \<le> k \<and> k \<le> clock s) \<and>
    (\<forall>d. lpc s = L_sleep d \<longrightarrow> (\<exists>t \<in> set (heap s). when_due t \<le> clock s) \<or> stopping s \<longrightarrow> woken s \<or> 0 < wakes s \<or> (\<exists>e. d = Some e \<and> e \<le> clock s)) \<and>
    (\<forall>due rest. handle_timers (clock s) (heap s) = (due, rest) \<longrightarrow> sorted (map when_due due) \<and> (\<forall>t \<in> set rest. clock s < when_due t)) \<and>
    (\<forall>e. poll_timeout (clock s) (heap s) = Some e \<longrightarrow> (\<exists>t \<in> set (heap s). unat e = when_due t - clock s))"
proof -
  have inv: "heap_ok s" "sleep_ok s" using loop.reach_inv assms by (simp_all add: loop_reach_def)
  have sorted: "sorted (map when_due (heap s))" using inv(1) by (simp add: heap_ok_def)
  have "sorted (map when_due due) \<and> (\<forall>t \<in> set rest. clock s < when_due t)" if "handle_timers (clock s) (heap s) = (due, rest)" for due rest
    using handle_timers_due[OF sorted that] by simp
  moreover have "mset (added s) = mset (heap s) + mset (map fst (fired s)) \<and> (\<forall>(t, k) \<in> set (fired s). when_due t \<le> k \<and> k \<le> clock s)"
    using inv(1) unfolding heap_ok_def by blast
  ultimately show ?thesis using oversleeps_not[OF inv(2)] poll_timeout_fits[OF inv(1)] by blast
qed

text \<open>A timer is added while the poller sleeps without a timeout, and time passes.\<close>

definition demo_loop :: "nat \<Rightarrow> ptimer list \<Rightarrow> nat \<Rightarrow> lpc \<Rightarrow> lsys" where
  "demo_loop c hs k pc = \<lparr>clock = c, heap = hs, added = hs, fired = [], waker = pc \<noteq> L_off, woken = False, wakes = k, stopping = False, lpc = pc\<rparr>"

lemma loop_go: "loop_reach s \<Longrightarrow> evloop_step s t \<Longrightarrow> t = u \<Longrightarrow> loop_reach u"
  by (auto simp: loop_reach_def intro: reach.next_state)

theorem poll_loop_timers_witness:
  "\<exists>s. loop_reach s \<and> lpc s = L_sleep None \<and> (\<exists>t \<in> set (heap s). when_due t \<le> clock s) \<and> mset (added s) = mset (heap s) + mset (map fst (fired s)) \<and> (woken s \<or> 0 < wakes s)"
proof -
  have "loop_reach (demo_loop 0 [] 0 L_off)" unfolding loop_reach_def by (rule reach.start) (simp add: lsys_init_def demo_loop_def)
  then have "loop_reach (demo_loop 0 [] 0 L_top)" by (rule loop_go[OF _ evloop_step.starts]) (simp_all add: demo_loop_def)
  then have "loop_reach (demo_loop 0 [] 0 L_poll)" by (rule loop_go[OF _ evloop_step.top]) (simp_all add: demo_loop_def)
  then have "loop_reach (demo_loop 0 [] 0 (L_sleep None))" by (rule loop_go[OF _ evloop_step.polls]) (simp_all add: demo_loop_def poll_timeout_def)
  then have "loop_reach (demo_loop 0 [\<lparr>when_due = 5, owner = 0\<rparr>] 1 (L_sleep None))"
    by (rule loop_go[OF _ evloop_step.adds[of 0 _ "\<lparr>when_due = 5, owner = 0\<rparr>" 5 0]]) (simp_all add: demo_loop_def heap_push_def)
  then have r: "loop_reach (demo_loop 7 [\<lparr>when_due = 5, owner = 0\<rparr>] 1 (L_sleep None))" (is "loop_reach ?s")
    by (rule loop_go[OF _ evloop_step.time_passes[of _ 7]]) (simp add: demo_loop_def)
  have "lpc ?s = L_sleep None" "\<exists>t \<in> set (heap ?s). when_due t \<le> clock ?s" by (simp_all add: demo_loop_def)
  with poll_loop_timers[OF r] r show ?thesis by blast
qed

end
