(* ===== verification/Io_Registry.thy ===== *)
theory Io_Registry
  imports Prelude
begin

text \<open>
  Who owns the readiness caches: \<open>io_register\<close>, \<open>io_deregister\<close> and the release and dispatch of \<open>Runtime::poll\<close> in \<open>src/src/runtime.rs\<close>. The kernel is given the address of a \<open>ScheduledIO\<close> as its token, and the poller turns
  the tokens of a batch of events back into references, while other threads register and deregister descriptors. Entries that were deregistered are therefore kept in \<open>io_pending_release\<close> until the poller is between two
  batches. The theorem is that no token is dereferenced after its entry was freed, also when addresses are used again, and that what is kept is released. A step is one access to shared state.

  Assumed of the kernel: a descriptor that was deregistered is in no later batch. The teardown of a runtime is left out.
\<close>

section \<open>The system\<close>

text \<open>
  The life of an entry: not made; in the map, before the call to the kernel; registered; taken out of the map; unknown to the kernel; parked, before the flag is raised; done with, or refused by the kernel.
\<close>

datatype entry = Unborn | Inserted | Registered | Removed | Deregistered | To_flag | Gone

text \<open>The poller: before the exchange of the flag, before it empties the list, before the system call, at the events.\<close>

datatype poller = R_swap | R_clear | R_poll | R_dispatch

text \<open>\<open>held\<close> are the entries that objects of Python refer to. The tokens of \<open>batch\<close> are the addresses of the entries named there.\<close>

record rsys =
  io_registrations :: "nat \<rightharpoonup> nat"
  io_pending_release :: "nat list"
  io_needs_release :: bool
  entry :: "nat \<Rightarrow> entry"
  addr :: "nat \<Rightarrow> nat"
  held :: "nat set"
  kernel :: "nat set"
  batch :: "nat list"
  poller :: poller

definition rsys_new :: rsys where
  "rsys_new = \<lparr>io_registrations = Map.empty, io_pending_release = [], io_needs_release = False, entry = (\<lambda>_. Unborn), addr = (\<lambda>_. 0), held = {}, kernel = {}, batch = [], poller = R_swap\<rparr>"

text \<open>An entry is freed when its last reference is gone: those of the map, of the list, of Python, and of the calls of \<open>io_register\<close> and \<open>io_deregister\<close> that work on it.\<close>

definition io_alive :: "rsys \<Rightarrow> nat \<Rightarrow> bool" where
  "io_alive s i \<longleftrightarrow> entry s i \<in> {Inserted, Registered, Removed, Deregistered, To_flag} \<or> i \<in> held s \<or> i \<in> set (io_pending_release s)"

inductive reg_step :: "rsys \<Rightarrow> rsys \<Rightarrow> bool" where
  registers: "entry s i = Unborn \<Longrightarrow> (\<And>j. io_alive s j \<Longrightarrow> addr s j \<noteq> a) \<Longrightarrow>
     reg_step s (s\<lparr>addr := (addr s)(i := a), io_registrations := (io_registrations s)(a \<mapsto> i), entry := (entry s)(i := Inserted)\<rparr>)"
| registered: "entry s i = Inserted \<Longrightarrow> reg_step s (s\<lparr>kernel := insert i (kernel s), held := insert i (held s), entry := (entry s)(i := Registered)\<rparr>)"
| refused: "entry s i = Inserted \<Longrightarrow> reg_step s (s\<lparr>io_registrations := (io_registrations s)(addr s i := None), entry := (entry s)(i := Gone)\<rparr>)"
| drops: "reg_step s (s\<lparr>held := held s - {i}\<rparr>)"
| deregisters: "i \<in> held s \<Longrightarrow> io_registrations s (addr s i) = Some j \<Longrightarrow>
     reg_step s (s\<lparr>io_registrations := (io_registrations s)(addr s i := None), entry := (entry s)(j := Removed)\<rparr>)"
| unknown: "entry s i = Removed \<Longrightarrow> reg_step s (s\<lparr>kernel := kernel s - {i}, entry := (entry s)(i := Deregistered)\<rparr>)"
| parks: "entry s i = Deregistered \<Longrightarrow> reg_step s (s\<lparr>io_pending_release := io_pending_release s @ [i], entry := (entry s)(i := To_flag)\<rparr>)"
| flags: "entry s i = To_flag \<Longrightarrow> reg_step s (s\<lparr>io_needs_release := True, entry := (entry s)(i := Gone)\<rparr>)"
| swaps: "poller s = R_swap \<Longrightarrow> reg_step s (s\<lparr>io_needs_release := False, poller := if io_needs_release s then R_clear else R_poll\<rparr>)"
| releases: "poller s = R_clear \<Longrightarrow> reg_step s (s\<lparr>io_pending_release := [], poller := R_poll\<rparr>)"
| polls: "poller s = R_poll \<Longrightarrow> set evs \<subseteq> kernel s \<Longrightarrow> reg_step s (s\<lparr>batch := evs, poller := R_dispatch\<rparr>)"
| dispatches: "poller s = R_dispatch \<Longrightarrow> batch s = i # is \<Longrightarrow> reg_step s (s\<lparr>batch := is\<rparr>)"
| ends: "poller s = R_dispatch \<Longrightarrow> batch s = [] \<Longrightarrow> reg_step s (s\<lparr>poller := R_swap\<rparr>)"

definition io_reach :: "rsys \<Rightarrow> bool" where
  "io_reach = reach (\<lambda>s. s = rsys_new) reg_step"

section \<open>No token outlives its entry\<close>

definition reg_ok :: "rsys \<Rightarrow> bool" where
  "reg_ok s \<longleftrightarrow> (\<forall>a i. io_registrations s a = Some i \<longrightarrow> addr s i = a \<and> entry s i \<in> {Inserted, Registered})
     \<and> (\<forall>i. entry s i \<in> {Inserted, Registered} \<longrightarrow> io_registrations s (addr s i) = Some i)
     \<and> (\<forall>i. entry s i \<in> {Unborn, Inserted} \<longrightarrow> i \<notin> held s \<and> i \<notin> set (io_pending_release s))"

definition addr_ok :: "rsys \<Rightarrow> bool" where
  "addr_ok s \<longleftrightarrow> (\<forall>i j. io_alive s i \<and> io_alive s j \<and> addr s i = addr s j \<longrightarrow> i = j)"

definition batch_ok :: "rsys \<Rightarrow> bool" where
  "batch_ok s \<longleftrightarrow> (\<forall>i \<in> kernel s. entry s i \<in> {Registered, Removed})
     \<and> (\<forall>i \<in> set (batch s). entry s i \<in> {Registered, Removed, Deregistered} \<or> i \<in> set (io_pending_release s)) \<and> (batch s \<noteq> [] \<longrightarrow> poller s = R_dispatch)
     \<and> (\<forall>i \<in> set (io_pending_release s). io_needs_release s \<or> poller s = R_clear \<or> entry s i = To_flag)"

lemma reg_ok_found: "reg_ok s \<Longrightarrow> io_registrations s a = Some j \<Longrightarrow> entry s j \<in> {Inserted, Registered} \<and> addr s j = a"
  unfolding reg_ok_def by blast

lemma batch_ok_step: "reg_step s t \<Longrightarrow> reg_ok s \<Longrightarrow> batch_ok s \<Longrightarrow> batch_ok t"
proof (induction rule: reg_step.induct)
  case (deregisters i s j)
  then show ?case using reg_ok_found[OF deregisters(3,2)] unfolding batch_ok_def by auto
qed (auto simp: batch_ok_def split: if_splits)

text \<open>Only \<open>io_register\<close> makes a live entry, at an address no other has.\<close>

lemma alive_step: "reg_step s t \<Longrightarrow> reg_ok s \<Longrightarrow> io_alive t i \<Longrightarrow> io_alive s i \<and> addr t i = addr s i \<or> (\<forall>j. j \<noteq> i \<longrightarrow> io_alive t j \<longrightarrow> addr t j \<noteq> addr t i)"
proof (induction rule: reg_step.induct)
  case (registers s k a)
  then show ?case by (cases "k = i") (auto simp: io_alive_def split: if_splits)
next
  case (deregisters k s j)
  then show ?case using reg_ok_found[OF deregisters(3,2)] by (auto simp: io_alive_def split: if_splits)
qed (auto simp: io_alive_def split: if_splits)

lemma addr_ok_step:
  assumes "reg_step s t" "reg_ok s" "addr_ok s"
  shows "addr_ok t"
proof -
  have False if "io_alive t i" "io_alive t j" "addr t i = addr t j" "i \<noteq> j" for i j
  proof -
    have "io_alive s i \<and> addr t i = addr s i" using alive_step[OF assms(1,2) that(1)] that by fastforce
    moreover have "io_alive s j \<and> addr t j = addr s j" using alive_step[OF assms(1,2) that(2)] that by fastforce
    ultimately show False using assms(3) that(3,4) unfolding addr_ok_def by fastforce
  qed
  then show ?thesis unfolding addr_ok_def by blast
qed

lemma reg_okI:
  assumes "\<And>a i. io_registrations s a = Some i \<Longrightarrow> addr s i = a \<and> entry s i \<in> {Inserted, Registered}"
    and "\<And>i. entry s i \<in> {Inserted, Registered} \<Longrightarrow> io_registrations s (addr s i) = Some i"
    and "\<And>i. entry s i \<in> {Unborn, Inserted} \<Longrightarrow> i \<notin> held s \<and> i \<notin> set (io_pending_release s)"
  shows "reg_ok s"
  using assms unfolding reg_ok_def by blast

lemma reg_ok_D:
  assumes "reg_ok s"
  shows "entry s i \<in> {Inserted, Registered} \<Longrightarrow> io_registrations s (addr s i) = Some i"
    and "entry s i \<in> {Unborn, Inserted} \<Longrightarrow> i \<notin> held s \<and> i \<notin> set (io_pending_release s)"
  using assms unfolding reg_ok_def by blast+

text \<open>An entry that was in the map is taken out of it.\<close>

lemma reg_ok_remove:
  assumes "reg_ok s" "addr_ok s" "entry s j \<in> {Inserted, Registered}" "e \<notin> {Unborn, Inserted, Registered}"
  shows "reg_ok (s\<lparr>io_registrations := (io_registrations s)(addr s j := None), entry := (entry s)(j := e)\<rparr>)" (is "reg_ok ?t")
proof (rule reg_okI)
  show "addr ?t i = a \<and> entry ?t i \<in> {Inserted, Registered}" if "io_registrations ?t a = Some i" for a i
    using reg_ok_found[OF assms(1), of a i] that by (auto split: if_splits)
  show "io_registrations ?t (addr ?t i) = Some i" if i: "entry ?t i \<in> {Inserted, Registered}" for i
  proof -
    have "i \<noteq> j" "entry s i \<in> {Inserted, Registered}" using i assms(4) by (auto split: if_splits)
    moreover from this have "addr s i \<noteq> addr s j" using assms(2,3) unfolding addr_ok_def io_alive_def by blast
    ultimately show ?thesis using reg_ok_D(1)[OF assms(1)] by simp
  qed
  show "i \<notin> held ?t \<and> i \<notin> set (io_pending_release ?t)" if "entry ?t i \<in> {Unborn, Inserted}" for i
    using reg_ok_D(2)[OF assms(1), of i] that assms(4) by (auto split: if_splits)
qed

lemma reg_ok_step: "reg_step s t \<Longrightarrow> reg_ok s \<Longrightarrow> addr_ok s \<Longrightarrow> reg_ok t"
proof (induction rule: reg_step.induct)
  case (registers s i a)
  let ?t = "s\<lparr>addr := (addr s)(i := a), io_registrations := (io_registrations s)(a \<mapsto> i), entry := (entry s)(i := Inserted)\<rparr>"
  show ?case
  proof (rule reg_okI)
    show "addr ?t k = b \<and> entry ?t k \<in> {Inserted, Registered}" if "io_registrations ?t b = Some k" for b k
      using reg_ok_found[OF registers(3), of b k] that registers(1) by (auto split: if_splits)
    show "io_registrations ?t (addr ?t k) = Some k" if k: "entry ?t k \<in> {Inserted, Registered}" for k
    proof (cases "k = i")
      case False
      then have "io_alive s k" "io_registrations s (addr s k) = Some k" using k reg_ok_D(1)[OF registers(3), of k] by (auto simp: io_alive_def)
      then show ?thesis using registers(2)[of k] False by simp
    qed simp
    show "k \<notin> held ?t \<and> k \<notin> set (io_pending_release ?t)" if "entry ?t k \<in> {Unborn, Inserted}" for k
      using reg_ok_D(2)[OF registers(3), of k] that registers(1) by (auto split: if_splits)
  qed
next
  case (deregisters i s j)
  have j: "entry s j \<in> {Inserted, Registered}" "addr s j = addr s i" using reg_ok_found[OF deregisters(3,2)] by auto
  then show ?case using reg_ok_remove[OF deregisters(3,4) j(1), of Removed] by simp
next
  case (refused i s)
  then show ?case by (intro reg_ok_remove) simp_all
next
  case (unknown s i)
  then have "io_registrations s a \<noteq> Some i" for a using reg_ok_found by fastforce
  then show ?case using unknown by (simp add: reg_ok_def)
next
  case (parks s i)
  then have "io_registrations s a \<noteq> Some i" for a using reg_ok_found by fastforce
  then show ?case using parks by (simp add: reg_ok_def)
next
  case (flags s i)
  then have "io_registrations s a \<noteq> Some i" for a using reg_ok_found by fastforce
  then show ?case using flags by (simp add: reg_ok_def)
qed (simp_all add: reg_ok_def)

interpretation io: step_system "\<lambda>s. s = rsys_new" reg_step "\<lambda>s. reg_ok s \<and> addr_ok s \<and> batch_ok s"
proof
  show "reg_ok s \<and> addr_ok s \<and> batch_ok s" if "s = rsys_new" for s
    using that by (simp add: rsys_new_def reg_ok_def addr_ok_def batch_ok_def io_alive_def)
qed (use reg_ok_step addr_ok_step batch_ok_step in blast)

text \<open>
  C13. The poller never follows a token into freed memory: every token of the batch it dispatches is the address of the entry it was registered for, which is still alive, and of no other live entry, whatever other threads register, deregister
  and drop meanwhile, and also when an address is used again. And an entry that waits for its release is released: the flag is up, or about to be, or the poller has seen it.
\<close>

theorem tokens_outlive_batch:
  assumes "io_reach s"
  shows "(\<forall>i \<in> set (batch s). io_alive s i \<and> (\<forall>j. io_alive s j \<and> addr s j = addr s i \<longrightarrow> j = i)) \<and>
    (\<forall>i \<in> set (io_pending_release s). io_needs_release s \<or> poller s = R_clear \<or> entry s i = To_flag) \<and>
    (poller s = R_clear \<longrightarrow> batch s = [])"
proof -
  have inv: "addr_ok s" "batch_ok s" using io.reach_inv assms by (simp_all add: io_reach_def)
  then have "io_alive s i" if "i \<in> set (batch s)" for i using that by (auto simp: batch_ok_def io_alive_def)
  then show ?thesis using inv unfolding addr_ok_def batch_ok_def by auto
qed

text \<open>A descriptor that is deregistered and dropped while its event waits to be dispatched.\<close>

definition demo_io :: "(nat \<rightharpoonup> nat) \<Rightarrow> nat list \<Rightarrow> entry \<Rightarrow> nat set \<Rightarrow> nat set \<Rightarrow> nat list \<Rightarrow> poller \<Rightarrow> rsys" where
  "demo_io m ps e h k b pc = \<lparr>io_registrations = m, io_pending_release = ps, io_needs_release = False, entry = (\<lambda>_. Unborn)(0 := e), addr = (\<lambda>_. 0), held = h, kernel = k, batch = b, poller = pc\<rparr>"

lemma io_go: "io_reach s \<Longrightarrow> reg_step s t \<Longrightarrow> t = u \<Longrightarrow> io_reach u"
  by (auto simp: io_reach_def intro: reach.next_state)

theorem tokens_outlive_batch_witness:
  "\<exists>s. io_reach s \<and> batch s = [0] \<and> held s = {} \<and> kernel s = {} \<and> io_registrations s = Map.empty \<and> io_alive s 0"
proof -
  have "demo_io Map.empty [] Unborn {} {} [] R_swap = rsys_new" by (simp add: demo_io_def rsys_new_def fun_eq_iff)
  then have "io_reach (demo_io Map.empty [] Unborn {} {} [] R_swap)" using reach.start[of "\<lambda>s. s = rsys_new" rsys_new reg_step] by (simp add: io_reach_def)
  then have "io_reach (demo_io Map.empty [] Unborn {} {} [] R_poll)" by (rule io_go[OF _ reg_step.swaps]) (simp_all add: demo_io_def)
  then have "io_reach (demo_io [0 \<mapsto> 0] [] Inserted {} {} [] R_poll)" by (rule io_go[OF _ reg_step.registers[of _ 0 0]]) (auto simp: demo_io_def io_alive_def split: if_splits)
  then have "io_reach (demo_io [0 \<mapsto> 0] [] Registered {0} {0} [] R_poll)" by (rule io_go[OF _ reg_step.registered[of _ 0]]) (simp_all add: demo_io_def)
  then have "io_reach (demo_io [0 \<mapsto> 0] [] Registered {0} {0} [0] R_dispatch)" by (rule io_go[OF _ reg_step.polls[of _ "[0]"]]) (simp_all add: demo_io_def)
  then have "io_reach (demo_io Map.empty [] Removed {0} {0} [0] R_dispatch)" by (rule io_go[OF _ reg_step.deregisters[of 0 _ 0]]) (simp_all add: demo_io_def)
  then have "io_reach (demo_io Map.empty [] Deregistered {0} {} [0] R_dispatch)" by (rule io_go[OF _ reg_step.unknown[of _ 0]]) (simp_all add: demo_io_def)
  then have "io_reach (demo_io Map.empty [0] To_flag {0} {} [0] R_dispatch)" by (rule io_go[OF _ reg_step.parks[of _ 0]]) (simp_all add: demo_io_def)
  then have r: "io_reach (demo_io Map.empty [0] To_flag {} {} [0] R_dispatch)" (is "io_reach ?s") by (rule io_go[OF _ reg_step.drops[of _ 0]]) (simp add: demo_io_def)
  then have "io_alive ?s 0" using tokens_outlive_batch[OF r] by (simp add: demo_io_def)
  then show ?thesis using r by (intro exI[of _ ?s]) (simp add: demo_io_def)
qed

end
