(* ===== verification/Native_Fd.thy ===== *)
theory Native_Fd
  imports Streams
begin

text \<open>
  The native side of descriptors: \<open>Fd\<close> of \<open>src/src/fd.rs\<close> and \<open>ProcFd\<close> with \<open>exit_fd\<close> of \<open>src/src/proc.rs\<close>, under the classes of \<open>src/tonio/_fd.py\<close> (theory \<open>Streams\<close>). What counts is who owns a descriptor: it is closed once, after the
  event loop has forgotten it, and not lost when a constructor fails. The system is a trace of the calls made and a function that gives the result of a call from the trace; nothing is assumed of it. Results are numbers.
\<close>

datatype ncall = N_get_blocking int | N_set_blocking int bool | N_runtime | N_register int | N_deregister int | N_close int
  | N_pidfd_open nat | N_kqueue | N_cloexec int | N_kevent int nat

text \<open>\<open>OwnedFd\<close> in its mutex is \<open>fd_inner\<close>; \<open>fd_io\<close> is the descriptor of the \<open>ScheduledIO\<close>.\<close>

record nfd =
  fd_inner :: "int option"
  fd_blocking :: bool
  fd_io :: int
  ntrace :: "ncall list"

definition syscall :: "(ncall list \<Rightarrow> exn + int) \<Rightarrow> ncall \<Rightarrow> (int, nfd) io" where
  "syscall sys c = (\<lambda>w. Some (sys (ntrace w @ [c]), w\<lparr>ntrace := ntrace w @ [c]\<rparr>))"

text \<open>A call whose result nobody looks at; the destructor of \<open>OwnedFd\<close> when an error leaves the function.\<close>

definition ignored :: "(int, nfd) io \<Rightarrow> (unit, nfd) io" where
  "ignored m = try_else m (\<lambda>_. True) (\<lambda>_. ret ()) (\<lambda>_. ret ())"

definition drop_on_error :: "(ncall list \<Rightarrow> exn + int) \<Rightarrow> int \<Rightarrow> ('a, nfd) io \<Rightarrow> ('a, nfd) io" where
  "drop_on_error sys fd m = try_except m (\<lambda>_. True) (\<lambda>e. bnd (ignored (syscall sys (N_close fd))) (\<lambda>_. raise e))"

text \<open>The end of both constructors.\<close>

definition register_owned :: "(ncall list \<Rightarrow> exn + int) \<Rightarrow> int \<Rightarrow> bool \<Rightarrow> (unit, nfd) io" where
  "register_owned sys fd blocking = drop_on_error sys fd
     (bnd (syscall sys N_runtime) (\<lambda>_. bnd (syscall sys (N_register fd)) (\<lambda>_.
      modify (\<lambda>w. w\<lparr>fd_inner := Some fd, fd_blocking := blocking, fd_io := fd\<rparr>))))"

definition fd_new :: "(ncall list \<Rightarrow> exn + int) \<Rightarrow> int \<Rightarrow> (unit, nfd) io" where
  "fd_new sys fd = bnd (syscall sys (N_get_blocking fd)) (\<lambda>blocking.
     bnd (syscall sys (N_set_blocking fd False)) (\<lambda>_. register_owned sys fd (blocking \<noteq> 0)))"

definition exit_fd_linux :: "(ncall list \<Rightarrow> exn + int) \<Rightarrow> nat \<Rightarrow> (int, nfd) io" where
  "exit_fd_linux sys pid = syscall sys (N_pidfd_open pid)"

definition exit_fd_bsd :: "(ncall list \<Rightarrow> exn + int) \<Rightarrow> nat \<Rightarrow> (int, nfd) io" where
  "exit_fd_bsd sys pid = bnd (syscall sys N_kqueue) (\<lambda>kq. drop_on_error sys kq
     (bnd (syscall sys (N_cloexec kq)) (\<lambda>_. bnd (syscall sys (N_kevent kq pid)) (\<lambda>_. ret kq))))"

definition proc_fd_new :: "bool \<Rightarrow> (ncall list \<Rightarrow> exn + int) \<Rightarrow> nat \<Rightarrow> (unit, nfd) io" where
  "proc_fd_new bsd sys pid = bnd ((if bsd then exit_fd_bsd else exit_fd_linux) sys pid) (\<lambda>fd. register_owned sys fd False)"

definition get_fd :: "(int, nfd) io" where
  "get_fd = read (\<lambda>w. case fd_inner w of None \<Rightarrow> - 1 | Some fd \<Rightarrow> fd)"

definition take_inner :: "(int option, nfd) io" where
  "take_inner = (\<lambda>w. Some (Inr (fd_inner w), w\<lparr>fd_inner := None\<rparr>))"

definition native_fd_drop :: "(ncall list \<Rightarrow> exn + int) \<Rightarrow> (unit, nfd) io" where
  "native_fd_drop sys = bnd take_inner (\<lambda>i. case i of None \<Rightarrow> ret ()
     | Some fd \<Rightarrow> bnd (read fd_blocking) (\<lambda>b. ignored (syscall sys (N_set_blocking fd b))))"

definition native_proc_drop :: "(unit, nfd) io" where
  "native_proc_drop = bnd take_inner (\<lambda>_. ret ())"

definition native_io_close :: "(ncall list \<Rightarrow> exn + int) \<Rightarrow> (unit, nfd) io" where
  "native_io_close sys = try_else (syscall sys N_runtime) (\<lambda>_. True) (\<lambda>_. ret ())
     (\<lambda>_. bnd (read fd_io) (\<lambda>fd. ignored (syscall sys (N_deregister fd))))"

section \<open>Who closes a descriptor\<close>

lemmas native_io_defs = syscall_def ignored_def drop_on_error_def register_owned_def fd_new_def exit_fd_linux_def exit_fd_bsd_def proc_fd_new_def get_fd_def take_inner_def
  native_fd_drop_def native_proc_drop_def native_io_close_def bnd_def ret_def raise_def read_def modify_def try_else_def try_except_def

definition is_close :: "ncall \<Rightarrow> bool" where
  "is_close c = (case c of N_close _ \<Rightarrow> True | _ \<Rightarrow> False)"

definition closes :: "nfd \<Rightarrow> ncall list" where
  "closes w = filter is_close (ntrace w)"

text \<open>The classes of Python over the native objects.\<close>

definition over_native :: "bool \<Rightarrow> (ncall list \<Rightarrow> exn + int) \<Rightarrow> nfd fd_os \<Rightarrow> bool" where
  "over_native proc sys os \<longleftrightarrow> fd_no os = get_fd \<and> fd_drop os = (if proc then native_proc_drop else native_fd_drop sys)
     \<and> io_close (fd_handle os) = native_io_close sys \<and> fd_os_close os = (\<lambda>fd. bnd (syscall sys (N_close fd)) (\<lambda>_. ret ()))"

text \<open>The constructors: what was opened is owned by the object, or was closed.\<close>

lemma register_owned_owner:
  "register_owned sys fd b w = Some (r, u) \<Longrightarrow> (case r of
      Inl _ \<Rightarrow> closes u = closes w @ [N_close fd] \<and> fd_inner u = fd_inner w
    | Inr _ \<Rightarrow> closes u = closes w \<and> fd_inner u = Some fd \<and> fd_io u = fd)"
  by (auto simp: native_io_defs closes_def is_close_def split: sum.splits)

lemma exit_fd_owner:
  "(if bsd then exit_fd_bsd else exit_fd_linux) sys pid w = Some (r, u) \<Longrightarrow> fd_inner u = fd_inner w \<and> (case r of
      Inl _ \<Rightarrow> closes u = closes w @ (if bsd then case sys (ntrace w @ [N_kqueue]) of Inr kq \<Rightarrow> [N_close kq] | Inl _ \<Rightarrow> [] else [])
    | Inr fd \<Rightarrow> closes u = closes w \<and> sys (ntrace w @ [if bsd then N_kqueue else N_pidfd_open pid]) = Inr fd)"
  by (auto simp: native_io_defs closes_def is_close_def split: sum.splits if_splits)

theorem proc_fd_new_owner:
  assumes "proc_fd_new bsd sys pid w = Some (r, u)"
  shows "case r of
      Inl _ \<Rightarrow> fd_inner u = fd_inner w \<and> (closes u = closes w @ (case sys (ntrace w @ [if bsd then N_kqueue else N_pidfd_open pid]) of Inr fd \<Rightarrow> [N_close fd] | Inl _ \<Rightarrow> []))
    | Inr _ \<Rightarrow> \<exists>fd. sys (ntrace w @ [if bsd then N_kqueue else N_pidfd_open pid]) = Inr fd \<and> fd_inner u = Some fd \<and> fd_io u = fd \<and> closes u = closes w"
proof -
  let ?exit = "(if bsd then exit_fd_bsd else exit_fd_linux) sys pid"
  obtain e v where e: "?exit w = Some (e, v)" using assms by (cases "?exit w") (auto simp: proc_fd_new_def bnd_def)
  note o = exit_fd_owner[OF e]
  show ?thesis
  proof (cases e)
    case (Inl x)
    then have "r = Inl x" "u = v" using assms e by (simp_all add: proc_fd_new_def bnd_def)
    then show ?thesis using o Inl e by (auto simp: native_io_defs split: if_splits sum.splits)
  next
    case (Inr fd)
    then have "register_owned sys fd False v = Some (r, u)" using assms e by (simp add: proc_fd_new_def bnd_def)
    from register_owned_owner[OF this] show ?thesis using o Inr by (cases r) simp_all
  qed
qed

text \<open>Closing: the event loop forgets the descriptor first, if there is a runtime; then it is closed, once, however often \<open>close\<close> is called.\<close>

lemma native_io_close_eq:
  "native_io_close sys w = Some (Inr (), w\<lparr>ntrace := ntrace w @ N_runtime # (case sys (ntrace w @ [N_runtime]) of Inl _ \<Rightarrow> [] | Inr _ \<Rightarrow> [N_deregister (fd_io w)])\<rparr>)"
  by (simp add: native_io_defs split: sum.splits)

lemma native_drop_eq:
  "fd_inner w = Some fd \<Longrightarrow> (if proc then native_proc_drop else native_fd_drop sys) w =
     Some (Inr (), w\<lparr>fd_inner := None, ntrace := ntrace w @ (if proc then [] else [N_set_blocking fd (fd_blocking w)])\<rparr>)"
  by (simp add: native_io_defs split: sum.splits)

lemma native_closed: "over_native proc sys os \<Longrightarrow> fd_inner w = None \<Longrightarrow> (if proc then proc_fd_close os else fd_close os) w = Some (Inr (), w)"
  by (simp add: over_native_def proc_fd_close_def fd_close_def fd_is_closed_def get_fd_def bnd_def ret_def read_def)

lemma bnd_Inr: "m w = Some (Inr a, u) \<Longrightarrow> bnd m f w = f a u"
  by (simp add: bnd_def)

lemma native_close_eq:
  assumes "over_native proc sys os" "fd_inner w = Some fd" "fd \<noteq> - 1"
  shows "\<exists>r. (if proc then proc_fd_close os else fd_close os) w = Some (r, w\<lparr>fd_inner := None, ntrace := ntrace w @ N_runtime #
    (case sys (ntrace w @ [N_runtime]) of Inl _ \<Rightarrow> [] | Inr _ \<Rightarrow> [N_deregister (fd_io w)]) @ (if proc then [] else [N_set_blocking fd (fd_blocking w)]) @ [N_close fd]\<rparr>)"
proof -
  have "(if proc then proc_fd_close os else fd_close os) w =
      bnd (native_io_close sys) (\<lambda>_. bnd (if proc then native_proc_drop else native_fd_drop sys) (\<lambda>_. bnd (syscall sys (N_close fd)) (\<lambda>_. ret ()))) w"
  proof -
    have fd: "get_fd w = Some (Inr fd, w)" "fd_is_closed os w = Some (Inr False, w)" using assms by (simp_all add: over_native_def fd_is_closed_def get_fd_def bnd_def ret_def read_def)
    show ?thesis using assms(1) by (simp add: proc_fd_close_def fd_close_def over_native_def bnd_Inr[of get_fd w, OF fd(1)] bnd_Inr[of "fd_is_closed os" w, OF fd(2)])
  qed
  then show ?thesis using native_drop_eq[of "w\<lparr>ntrace := ntrace w @ N_runtime # (case sys (ntrace w @ [N_runtime]) of Inl _ \<Rightarrow> [] | Inr _ \<Rightarrow> [N_deregister (fd_io w)])\<rparr>" fd proc sys] assms(2)
    by (simp add: bnd_def native_io_close_eq syscall_def ret_def split: sum.splits)
qed

theorem fd_close_once:
  assumes "over_native proc sys os" "fd_inner w = Some fd" "fd \<noteq> - 1"
  shows "\<exists>r u. (if proc then proc_fd_close os else fd_close os) w = Some (r, u) \<and> closes u = closes w @ [N_close fd] \<and>
    (if proc then proc_fd_close os else fd_close os) u = Some (Inr (), u) \<and>
    ((\<exists>k. sys (ntrace w @ [N_runtime]) = Inr k) \<longrightarrow> (\<exists>mid. ntrace u = ntrace w @ [N_runtime, N_deregister (fd_io w)] @ mid @ [N_close fd]))"
proof -
  obtain r where r: "(if proc then proc_fd_close os else fd_close os) w = Some (r, w\<lparr>fd_inner := None, ntrace := ntrace w @ N_runtime #
    (case sys (ntrace w @ [N_runtime]) of Inl _ \<Rightarrow> [] | Inr _ \<Rightarrow> [N_deregister (fd_io w)]) @ (if proc then [] else [N_set_blocking fd (fd_blocking w)]) @ [N_close fd]\<rparr>)"
    (is "_ = Some (r, ?u)") using native_close_eq[OF assms] by blast
  have "closes ?u = closes w @ [N_close fd]" by (simp add: closes_def is_close_def split: sum.split)
  moreover have "(if proc then proc_fd_close os else fd_close os) ?u = Some (Inr (), ?u)" by (rule native_closed[OF assms(1)]) simp
  moreover have "\<exists>mid. ntrace ?u = ntrace w @ [N_runtime, N_deregister (fd_io w)] @ mid @ [N_close fd]" if "sys (ntrace w @ [N_runtime]) = Inr k" for k
    using that by (intro exI[of _ "if proc then [] else [N_set_blocking fd (fd_blocking w)]"]) simp
  ultimately show ?thesis using r by blast
qed

end
