(* ===== verification/Ssl_Proxy.thy ===== *)
theory Ssl_Proxy
  imports Tls_Props
begin

text \<open>
  The SSL object of a TLS stream: \<open>_SSLProxy\<close> of \<open>src/tonio/_net/_tls.py\<close>, an object of the module \<open>ssl\<close> between two memory buffers, one for what came from the transport and one for what goes there. The theory composes it with the
  stream of \<open>Tls\<close>: the contract the theorems on streams rely on holds for the proxy, given what is documented of the SSL object and of the transport. The lock of the proxy is the atomicity of its methods.
\<close>

section \<open>Buffers and the SSL object\<close>

text \<open>\<open>ssl.MemoryBIO\<close>.\<close>

record bio =
  bio_data :: bytes
  bio_eof :: bool

definition bio_new :: bio where
  "bio_new = \<lparr>bio_data = [], bio_eof = False\<rparr>"

text \<open>
  An SSL object, made by \<open>wrap_bio\<close>, with states \<open>'k\<close>: a call takes the incoming buffer and gives its result, and what it writes to the outgoing one.
\<close>

type_synonym ('a, 'k) ssl_fn = "'k \<Rightarrow> bio \<Rightarrow> (exn + 'a) \<times> 'k \<times> bio \<times> bytes"

record 'k ssl_obj =
  o_read :: "int \<Rightarrow> (bytes, 'k) ssl_fn"
  o_write :: "bytes \<Rightarrow> (int, 'k) ssl_fn"
  o_do_handshake :: "(unit, 'k) ssl_fn"
  o_unwrap :: "(unit, 'k) ssl_fn"
  o_server_side :: bool
  o_version :: "'k \<Rightarrow> string"
  o_alpn :: "'k \<Rightarrow> string option"
  o_pending :: "'k \<Rightarrow> int"

text \<open>The proxy with the transport under it; \<open>all_made\<close> records what the SSL object ever wrote.\<close>

record ('k, 't) proxy =
  p_ingress :: bio
  p_egress :: bio
  p_inner :: 'k
  p_transport :: 't
  all_made :: bytes

definition proxy_init :: "'k \<Rightarrow> 't \<Rightarrow> ('k, 't) proxy" where
  "proxy_init k t = \<lparr>p_ingress = bio_new, p_egress = bio_new, p_inner = k, p_transport = t, all_made = []\<rparr>"

definition inner_call :: "('a, 'k) ssl_fn \<Rightarrow> ('a, ('k, 't) proxy) io" where
  "inner_call f = (\<lambda>w. case f (p_inner w) (p_ingress w) of (r, k, i, b) \<Rightarrow>
     Some (r, w\<lparr>p_inner := k, p_ingress := i, p_egress := (p_egress w)\<lparr>bio_data := bio_data (p_egress w) @ b\<rparr>, all_made := all_made w @ b\<rparr>))"

definition egress_read :: "(bytes, ('k, 't) proxy) io" where
  "egress_read = (\<lambda>w. Some (Inr (bio_data (p_egress w)), w\<lparr>p_egress := (p_egress w)\<lparr>bio_data := []\<rparr>\<rparr>))"

section \<open>The proxy\<close>

definition proxy_step :: "('a, ('k, 't) proxy) io \<Rightarrow> ('a option \<times> bool \<times> bytes, ('k, 't) proxy) io" where
  "proxy_step fn = try_else fn (\<lambda>e. e = SSLWantReadError)
     (\<lambda>_. bnd egress_read (\<lambda>b. ret (None, True, b))) (\<lambda>r. bnd egress_read (\<lambda>b. ret (Some r, False, b)))"

definition proxy_read :: "'k ssl_obj \<Rightarrow> int \<Rightarrow> (bytes option \<times> bool \<times> bytes, ('k, 't) proxy) io" where
  "proxy_read x max_bytes = proxy_step (inner_call (o_read x max_bytes))"

definition proxy_write :: "'k ssl_obj \<Rightarrow> bytes \<Rightarrow> (int option \<times> bool \<times> bytes, ('k, 't) proxy) io" where
  "proxy_write x data = proxy_step (inner_call (o_write x data))"

definition proxy_do_handshake :: "'k ssl_obj \<Rightarrow> (unit option \<times> bool \<times> bytes, ('k, 't) proxy) io" where
  "proxy_do_handshake x = proxy_step (inner_call (o_do_handshake x))"

definition proxy_unwrap :: "'k ssl_obj \<Rightarrow> (unit option \<times> bool \<times> bytes, ('k, 't) proxy) io" where
  "proxy_unwrap x = proxy_step (inner_call (o_unwrap x))"

text \<open>\<open>MemoryBIO.write\<close> after \<open>write_eof\<close> raises.\<close>

definition proxy_ingress_write :: "bytes \<Rightarrow> (unit, ('k, 't) proxy) io" where
  "proxy_ingress_write data = (\<lambda>w. if bio_eof (p_ingress w) then Some (Inl (SSLError False), w)
     else Some (Inr (), w\<lparr>p_ingress := (p_ingress w)\<lparr>bio_data := bio_data (p_ingress w) @ data\<rparr>\<rparr>))"

definition proxy_ingress_write_eof :: "(unit, ('k, 't) proxy) io" where
  "proxy_ingress_write_eof = modify (\<lambda>w. w\<lparr>p_ingress := (p_ingress w)\<lparr>bio_eof := True\<rparr>\<rparr>)"

definition proxy_ingress_pending :: "(int, ('k, 't) proxy) io" where
  "proxy_ingress_pending = read (\<lambda>w. int (length (bio_data (p_ingress w))))"

definition proxy_server_side :: "'k ssl_obj \<Rightarrow> bool" where
  "proxy_server_side x = o_server_side x"

definition proxy_version :: "'k ssl_obj \<Rightarrow> (string, ('k, 't) proxy) io" where
  "proxy_version x = read (\<lambda>w. o_version x (p_inner w))"

definition proxy_selected_alpn_protocol :: "'k ssl_obj \<Rightarrow> (string option, ('k, 't) proxy) io" where
  "proxy_selected_alpn_protocol x = read (\<lambda>w. o_alpn x (p_inner w))"

definition proxy_pending :: "'k ssl_obj \<Rightarrow> (int, ('k, 't) proxy) io" where
  "proxy_pending x = read (\<lambda>w. o_pending x (p_inner w))"

definition proxy_read_raw :: "'k ssl_obj \<Rightarrow> int \<Rightarrow> (bytes, ('k, 't) proxy) io" where
  "proxy_read_raw x len = inner_call (o_read x len)"

text \<open>A stream over the proxy and a transport.\<close>

record 't transport =
  tr_send_all :: "bytes \<Rightarrow> (unit, 't) io"
  tr_receive_some :: "(bytes, 't) io"
  tr_close :: "(unit, 't) io"

definition on_transport :: "('a, 't) io \<Rightarrow> ('a, ('k, 't) proxy) io" where
  "on_transport m = (\<lambda>w. case m (p_transport w) of None \<Rightarrow> None | Some (r, t) \<Rightarrow> Some (r, w\<lparr>p_transport := t\<rparr>))"

definition proxy_os :: "'k ssl_obj \<Rightarrow> 't transport \<Rightarrow> bool \<Rightarrow> ('k, 't) proxy tls_os" where
  "proxy_os x tr https = \<lparr>
     x_read = \<lambda>n. inner_call (o_read x n), x_write = \<lambda>d. inner_call (o_write x d), x_do_handshake = inner_call (o_do_handshake x), x_unwrap = inner_call (o_unwrap x),
     x_server_side = proxy_server_side x, x_version = proxy_version x, x_ingress_write = proxy_ingress_write, x_ingress_eof = proxy_ingress_write_eof,
     x_ingress_pending = proxy_ingress_pending, x_egress_read = egress_read,
     t_send_all = \<lambda>d. on_transport (tr_send_all tr d), t_receive_some = on_transport (tr_receive_some tr), t_close = on_transport (tr_close tr),
     compat_https = https\<rparr>"

text \<open>The step of the stream is the step of the proxy.\<close>

lemma ssl_step_proxy:
  "ssl_step (proxy_os x tr https) (x_read (proxy_os x tr https) n) = on_inner (proxy_read x n)"
  "ssl_step (proxy_os x tr https) (x_write (proxy_os x tr https) d) = on_inner (proxy_write x d)"
  "ssl_step (proxy_os x tr https) (x_do_handshake (proxy_os x tr https)) = on_inner (proxy_do_handshake x)"
  "ssl_step (proxy_os x tr https) (x_unwrap (proxy_os x tr https)) = on_inner (proxy_unwrap x)"
  by (simp_all add: ssl_step_def proxy_os_def proxy_step_def proxy_read_def proxy_write_def proxy_do_handshake_def proxy_unwrap_def)

section \<open>The contract of a stream holds for the proxy\<close>

text \<open>
  Of the SSL object: it raises nothing but errors of \<open>ssl\<close>, those in \<open>sfail\<close> apart from wanting input, leaves the end of the input as it is, and does not want more after it; \<open>need\<close> bounds how often it still wants some. Of the
  transport: it raises exceptions in \<open>tfail\<close>, \<open>sent\<close> grows by what is sent, or by a beginning of it when the call fails, and what it receives brings the SSL object closer to not wanting more.
\<close>

definition obj_call :: "('k \<Rightarrow> bytes \<Rightarrow> 't \<Rightarrow> nat) \<Rightarrow> (exn \<Rightarrow> bool) \<Rightarrow> ('a, 'k) ssl_fn \<Rightarrow> bool" where
  "obj_call need sfail f \<longleftrightarrow> (\<forall>k i t. case f k i of (r, k', i', b) \<Rightarrow> bio_eof i' = bio_eof i \<and> (case r of Inr _ \<Rightarrow> True | Inl e \<Rightarrow> is_ssl_error e \<and> (e = SSLWantReadError \<or> sfail e) \<and>
     (e = SSLWantReadError \<longrightarrow> \<not> bio_eof i \<and> 0 < need k' (bio_data i') t \<and> need k' (bio_data i') t \<le> need k (bio_data i) t \<and>
        (b \<noteq> [] \<longrightarrow> need k' (bio_data i') t < need k (bio_data i) t))))"

definition obj_ok :: "('k \<Rightarrow> bytes \<Rightarrow> 't \<Rightarrow> nat) \<Rightarrow> (exn \<Rightarrow> bool) \<Rightarrow> 'k ssl_obj \<Rightarrow> bool" where
  "obj_ok need sfail x \<longleftrightarrow> (\<forall>n. obj_call need sfail (o_read x n)) \<and> (\<forall>d. obj_call need sfail (o_write x d)) \<and> obj_call need sfail (o_do_handshake x) \<and> obj_call need sfail (o_unwrap x)"

definition transport_ok :: "('k \<Rightarrow> bytes \<Rightarrow> 't \<Rightarrow> nat) \<Rightarrow> ('t \<Rightarrow> bytes) \<Rightarrow> (exn \<Rightarrow> bool) \<Rightarrow> 't transport \<Rightarrow> bool" where
  "transport_ok need sent tfail tr \<longleftrightarrow>
     (\<forall>d t. wp (tr_send_all tr d) (\<lambda>_ t'. sent t' = sent t @ d \<and> (\<forall>k i. need k i t' \<le> need k i t)) (\<lambda>e t'. tfail e \<and> (\<exists>n. sent t' = sent t @ take n d)) t) \<and>
     (\<forall>t. wp (tr_receive_some tr) (\<lambda>d t'. sent t' = sent t \<and> (d \<noteq> [] \<longrightarrow> (\<forall>k i. 0 < need k i t \<longrightarrow> need k (i @ d) t' < need k i t))) (\<lambda>e t'. tfail e \<and> sent t' = sent t) t) \<and>
     (\<forall>t. wp (tr_close tr) (\<lambda>_ t'. sent t' = sent t \<and> (\<forall>k i. need k i t' \<le> need k i t)) (\<lambda>e t'. tfail e \<and> sent t' = sent t) t)"

definition proxy_view :: "('k \<Rightarrow> bytes \<Rightarrow> 't \<Rightarrow> nat) \<Rightarrow> ('t \<Rightarrow> bytes) \<Rightarrow> (exn \<Rightarrow> bool) \<Rightarrow> (exn \<Rightarrow> bool) \<Rightarrow> ('k, 't) proxy ssl_view" where
  "proxy_view need sent sfail tfail = \<lparr>wire = \<lambda>w. sent (p_transport w), outq = \<lambda>w. bio_data (p_egress w), made = all_made,
     wants = \<lambda>w. if bio_eof (p_ingress w) then 0 else need (p_inner w) (bio_data (p_ingress w)) (p_transport w), ssl_fails = sfail, link_fails = tfail\<rparr>"

lemma wp_on_transport: "wp (on_transport m) Q E w \<longleftrightarrow> wp m (\<lambda>a t. Q a (w\<lparr>p_transport := t\<rparr>)) (\<lambda>e t. E e (w\<lparr>p_transport := t\<rparr>)) (p_transport w)"
  by (auto simp: wp_def on_transport_def split: option.splits sum.splits)

lemma inner_call_ok:
  fixes f :: "('a, 'k) ssl_fn" and need :: "'k \<Rightarrow> bytes \<Rightarrow> 't \<Rightarrow> nat"
  assumes "obj_call need sfail f"
  shows "ssl_call (proxy_view need sent sfail tfail) (inner_call f)"
  unfolding ssl_call_def
proof
  fix w :: "('k, 't) proxy"
  obtain r k i b where f: "f (p_inner w) (p_ingress w) = (r, k, i, b)" by (metis prod_cases4)
  show "wp (inner_call f)
     (\<lambda>_ v'. \<exists>b. made (proxy_view need sent sfail tfail) v' = made (proxy_view need sent sfail tfail) w @ b \<and> outq (proxy_view need sent sfail tfail) v' = outq (proxy_view need sent sfail tfail) w @ b \<and> wire (proxy_view need sent sfail tfail) v' = wire (proxy_view need sent sfail tfail) w)
     (\<lambda>e v'. is_ssl_error e \<and> (e = SSLWantReadError \<or> ssl_fails (proxy_view need sent sfail tfail) e) \<and> (\<exists>b. made (proxy_view need sent sfail tfail) v' = made (proxy_view need sent sfail tfail) w @ b \<and> outq (proxy_view need sent sfail tfail) v' = outq (proxy_view need sent sfail tfail) w @ b
          \<and> wire (proxy_view need sent sfail tfail) v' = wire (proxy_view need sent sfail tfail) w
          \<and> (e = SSLWantReadError \<longrightarrow> 0 < wants (proxy_view need sent sfail tfail) v' \<and> wants (proxy_view need sent sfail tfail) v' \<le> wants (proxy_view need sent sfail tfail) w \<and> (b \<noteq> [] \<longrightarrow> wants (proxy_view need sent sfail tfail) v' < wants (proxy_view need sent sfail tfail) w)))) w"
    using spec[OF spec[OF spec[OF assms[unfolded obj_call_def], of "p_inner w"], of "p_ingress w"], of "p_transport w"] f
    by (cases r) (auto simp: wp_def inner_call_def proxy_view_def intro!: exI[of _ b])
qed

lemma proxy_env:
  assumes "obj_ok need sfail x" "transport_ok need sent tfail tr"
  shows "ssl_env (proxy_view need sent sfail tfail) (proxy_os x tr https)"
  unfolding ssl_env_def
proof (intro conjI allI impI)
  note tr = assms(2)[unfolded transport_ok_def]
  show "ssl_call (proxy_view need sent sfail tfail) (x_read (proxy_os x tr https) n)" "ssl_call (proxy_view need sent sfail tfail) (x_write (proxy_os x tr https) d)"
    "ssl_call (proxy_view need sent sfail tfail) (x_do_handshake (proxy_os x tr https))" "ssl_call (proxy_view need sent sfail tfail) (x_unwrap (proxy_os x tr https))" for n d
    using assms(1) by (simp_all add: obj_ok_def proxy_os_def inner_call_ok)
  show "quiet (proxy_view need sent sfail tfail) (t_close (proxy_os x tr https))"
    unfolding quiet_def proxy_os_def by (simp add: wp_on_transport, intro allI, rule wp_mono[OF conjunct2[OF conjunct2[OF tr], rule_format]]) (auto simp: proxy_view_def)
  fix w
  show "wp (t_send_all (proxy_os x tr https) d)
      (\<lambda>_ v'. wire (proxy_view need sent sfail tfail) v' = wire (proxy_view need sent sfail tfail) w @ d \<and> outq (proxy_view need sent sfail tfail) v' = outq (proxy_view need sent sfail tfail) w \<and>
        made (proxy_view need sent sfail tfail) v' = made (proxy_view need sent sfail tfail) w \<and> wants (proxy_view need sent sfail tfail) v' \<le> wants (proxy_view need sent sfail tfail) w)
      (\<lambda>e v'. link_fails (proxy_view need sent sfail tfail) e \<and> (\<exists>k. wire (proxy_view need sent sfail tfail) v' = wire (proxy_view need sent sfail tfail) w @ take k d \<and> made (proxy_view need sent sfail tfail) v' = made (proxy_view need sent sfail tfail) w)) w" for d
    unfolding proxy_os_def by (simp add: wp_on_transport, rule wp_mono[OF conjunct1[OF tr, rule_format, of d]]) (auto simp: proxy_view_def)
  assume "0 < wants (proxy_view need sent sfail tfail) w"
  then have w: "\<not> bio_eof (p_ingress w)" "0 < need (p_inner w) (bio_data (p_ingress w)) (p_transport w)" by (auto simp: proxy_view_def split: if_splits)
  show "wp (bnd (t_receive_some (proxy_os x tr https)) (\<lambda>d. if d = [] then x_ingress_eof (proxy_os x tr https) else x_ingress_write (proxy_os x tr https) d))
      (\<lambda>_ v'. wire (proxy_view need sent sfail tfail) v' = wire (proxy_view need sent sfail tfail) w \<and> outq (proxy_view need sent sfail tfail) v' = outq (proxy_view need sent sfail tfail) w \<and>
        made (proxy_view need sent sfail tfail) v' = made (proxy_view need sent sfail tfail) w \<and> wants (proxy_view need sent sfail tfail) v' < wants (proxy_view need sent sfail tfail) w)
      (\<lambda>e v'. link_fails (proxy_view need sent sfail tfail) e \<and> wire (proxy_view need sent sfail tfail) v' = wire (proxy_view need sent sfail tfail) w \<and> outq (proxy_view need sent sfail tfail) v' = outq (proxy_view need sent sfail tfail) w \<and>
        made (proxy_view need sent sfail tfail) v' = made (proxy_view need sent sfail tfail) w) w"
    unfolding proxy_os_def
    by (simp add: wp_on_transport wp_bnd, rule wp_mono[OF conjunct1[OF conjunct2[OF tr], rule_format]])
       (use w in \<open>auto simp: proxy_view_def wp_def proxy_ingress_write_def proxy_ingress_write_eof_def modify_def\<close>)
qed (auto simp: proxy_os_def quiet_def wp_def proxy_view_def proxy_version_def proxy_ingress_pending_def egress_read_def read_def)

text \<open>
  C20. A handshake of a TLS stream over the proxy. It comes to an end. When neither the SSL object nor the transport fails, the stream is ready, its locks are free, and every byte the SSL object made is on the wire in order or
  held back to go first with the next data. Otherwise it raises: a \<open>ResourceBroken\<close> over an error of the SSL object, or the exception of the transport; then what is on the wire is the beginning of what was made, the locks
  are free, and the stream is broken unless nothing is missing. It raises nothing else.
\<close>

theorem tls_over_proxy:
  assumes "obj_ok need sfail x" "transport_ok need sent tfail tr" "sent t = []"
  shows "wp (tls_handshake (proxy_os x tr https))
    (\<lambda>_ w. tst w = TReady \<and> all_made (inner w) = sent (p_transport (inner w)) @ egress_stack w \<and> bio_data (p_egress (inner w)) = [] \<and> \<not> recv_locked w \<and> \<not> send_locked w)
    (\<lambda>e w. ((\<exists>y. e = ResourceBroken (Some y) \<and> sfail y) \<or> tfail e) \<and> prefix (sent (p_transport (inner w))) (all_made (inner w)) \<and> \<not> recv_locked w \<and> \<not> send_locked w \<and>
       (tst w = TBroken \<or> all_made (inner w) = sent (p_transport (inner w)) @ egress_stack w)) (tls_init (proxy_init k t))"
proof -
  have "linked (proxy_view need sent sfail tfail) (tls_init (proxy_init k t))" using assms(3) by (simp add: linked_def in_hand_def proxy_view_def tls_init_def proxy_init_def bio_new_def)
  from tls_handshake_links[OF proxy_env[OF assms(1,2)] this, of https] show ?thesis
    by (auto simp: tls_init_def linked_def in_hand_def safe_def blamed_def proxy_view_def elim!: wp_mono)
qed

text \<open>
  An SSL object without a cipher, whose handshake is a hello, an answer and a finish, over a transport that takes everything and gives the chunks of a peer and then the end.
\<close>

definition wait_input :: "'k \<Rightarrow> bio \<Rightarrow> (exn + 'a) \<times> 'k \<times> bio \<times> bytes" where
  "wait_input k i = (Inl (if bio_eof i then SSLError True else SSLWantReadError), k, i, [])"

definition plain_obj :: "nat ssl_obj" where
  "plain_obj = \<lparr>
     o_read = \<lambda>n k i. if bio_data i = [] then wait_input k i else (Inr (take (nat n) (bio_data i)), k, i\<lparr>bio_data := drop (nat n) (bio_data i)\<rparr>, []),
     o_write = \<lambda>d k i. (Inr (int (length d)), k, i, d),
     o_do_handshake = \<lambda>k i. (case k of 0 \<Rightarrow> (Inr (), k, i, [])
        | Suc 0 \<Rightarrow> if bio_data i = [] then wait_input k i else (Inr (), 0, i\<lparr>bio_data := []\<rparr>, [20])
        | Suc n \<Rightarrow> (Inl (if bio_eof i then SSLError True else SSLWantReadError), n, i, [22])),
     o_unwrap = \<lambda>k i. (Inr (), k, i, [21]),
     o_server_side = True, o_version = \<lambda>_. ''TLSv1.3'', o_alpn = \<lambda>_. None, o_pending = \<lambda>_. 0\<rparr>"

definition plain_transport :: "(bytes \<times> bytes list) transport" where
  "plain_transport = \<lparr>tr_send_all = \<lambda>d. modify (\<lambda>(s, cs). (s @ d, cs)),
     tr_receive_some = \<lambda>(s, cs). (case cs of [] \<Rightarrow> Some (Inr [], s, []) | c # cs \<Rightarrow> Some (Inr c, s, cs)), tr_close = ret ()\<rparr>"

definition plain_need :: "nat \<Rightarrow> bytes \<Rightarrow> bytes \<times> bytes list \<Rightarrow> nat" where
  "plain_need k i t = 2 * k + length (snd t) + (if i = [] then 1 else 0)"

lemma plain_obj_ok: "obj_ok plain_need (\<lambda>e. e = SSLError True) plain_obj"
  by (auto simp: obj_ok_def obj_call_def plain_obj_def plain_need_def wait_input_def split: nat.splits)

lemma plain_transport_ok: "transport_ok plain_need fst (\<lambda>_. False) plain_transport"
  by (auto simp: transport_ok_def plain_transport_def plain_need_def wp_def modify_def ret_def split: list.splits)

theorem tls_over_proxy_witness:
  "\<exists>w. tls_handshake (proxy_os plain_obj plain_transport False) (tls_init (proxy_init 2 ([], [[1]]))) = Some (Inr (), w) \<and>
     fst (p_transport (inner w)) = [22] \<and> egress_stack w = [20] \<and> all_made (inner w) = [22, 20]"
proof -
  have "left_with (\<lambda>w. (fst (p_transport (inner w)), egress_stack w)) (tls_handshake (proxy_os plain_obj plain_transport False) (tls_init (proxy_init 2 ([], [[1]])))) = Some ([22], [20])"
    by code_simp
  then obtain w where r: "tls_handshake (proxy_os plain_obj plain_transport False) (tls_init (proxy_init 2 ([], [[1]]))) = Some (Inr (), w)"
      "fst (p_transport (inner w)) = [22]" "egress_stack w = [20]"
    by (auto elim: left_withE)
  then show ?thesis
    using tls_over_proxy[OF plain_obj_ok plain_transport_ok, of "([], [[1]])" False 2] by (simp add: wp_Inr)
qed

end
