(* ===== verification/Channel_Await.thy ===== *)
theory Channel_Await
  imports Py_IO
begin

text \<open>
  The coroutines of the ends of channels in both flavours: \<open>src/tonio/_sync.py\<close> and \<open>src/tonio/_colored/_sync.py\<close> over \<open>ChannelSender\<close> and \<open>ChannelReceiver\<close> of \<open>src/src/sync.rs\<close>. The theories \<open>Channel\<close> and
  \<open>Unbounded\<close> have the interleavings of these calls; here the calls are functions of the world, with the sections of the channel as parameters, and the flavours are compared.
\<close>

record ('m, 'w) chan_calls =
  nc_closed :: "(bool, 'w) io"
  nc_push :: "'m \<Rightarrow> (nat option, 'w) io"
  nc_pull :: "(nat option \<times> 'm option, 'w) io"
  nc_wait :: "nat \<Rightarrow> (unit, 'w) io"

section \<open>The native ends\<close>

definition native_send :: "('m, 'w) chan_calls \<Rightarrow> 'm \<Rightarrow> (nat option, 'w) io" where
  "native_send c message = bnd (nc_closed c) (\<lambda>closed. if closed then raise BrokenPipeError else nc_push c message)"

definition native_receive :: "('m, 'w) chan_calls \<Rightarrow> (nat option \<times> bool \<times> 'm option, 'w) io" where
  "native_receive c = bnd (nc_pull c) (\<lambda>r. case r of
      (Some event, None) \<Rightarrow> ret (Some event, True, None)
    | (None, Some message) \<Rightarrow> ret (None, False, Some message)
    | _ \<Rightarrow> raise BrokenPipeError)"

section \<open>The coroutines\<close>

text \<open>An event is waited for by its waiter; \<open>None\<close> has none.\<close>

definition wait_for :: "('m, 'w) chan_calls \<Rightarrow> nat option \<Rightarrow> (unit, 'w) io" where
  "wait_for c event = (case event of None \<Rightarrow> raise (AttributeError ''waiter'') | Some e \<Rightarrow> nc_wait c e)"

definition chan_send :: "('m, 'w) chan_calls \<Rightarrow> 'm \<Rightarrow> (unit, 'w) io" where
  "chan_send c message = bnd (native_send c message) (\<lambda>event. when_true (event \<noteq> None) (wait_for c event))"

definition chan_receive :: "('m, 'w) chan_calls \<Rightarrow> ('m option, 'w) io" where
  "chan_receive c = loop (\<lambda>_. bnd (native_receive c) (\<lambda>(event, blocking, message).
     if \<not> blocking then ret (Inr message) else bnd (wait_for c event) (\<lambda>_. ret (Inl ())))) ()"

definition uchan_receive :: "('m, 'w) chan_calls \<Rightarrow> ('m option, 'w) io" where
  "uchan_receive c = loop (\<lambda>_. bnd (native_receive c) (\<lambda>(event, blocking, message).
     if \<not> blocking then ret (Inr message) else bnd (wait_for c event) (\<lambda>_. ret (Inl ())))) ()"

text \<open>The constructors of the ends count them in the channel.\<close>

definition channel :: "('z \<Rightarrow> ('c, 'w) io) \<Rightarrow> ('c \<Rightarrow> ('s, 'w) io) \<Rightarrow> ('c \<Rightarrow> ('r, 'w) io) \<Rightarrow> 'z \<Rightarrow> ('s \<times> 'r, 'w) io" where
  "channel new sender receiver size' = bnd (new size') (\<lambda>inner. bnd (sender inner) (\<lambda>tx. bnd (receiver inner) (\<lambda>rx. ret (tx, rx))))"

definition unbounded_channel :: "('c, 'w) io \<Rightarrow> ('c \<Rightarrow> ('s, 'w) io) \<Rightarrow> ('c \<Rightarrow> ('r, 'w) io) \<Rightarrow> ('s \<times> 'r, 'w) io" where
  "unbounded_channel new sender receiver = bnd new (\<lambda>inner. bnd (sender inner) (\<lambda>tx. bnd (receiver inner) (\<lambda>rx. ret (tx, rx))))"

section \<open>The await flavour\<close>

definition aw_chan_send :: "('m, 'w) chan_calls \<Rightarrow> 'm \<Rightarrow> (unit, 'w) io" where
  "aw_chan_send c message = bnd (native_send c message) (\<lambda>event. when_true (event \<noteq> None) (wait_for c event))"

definition aw_chan_receive :: "('m, 'w) chan_calls \<Rightarrow> ('m option, 'w) io" where
  "aw_chan_receive c = loop (\<lambda>_. bnd (native_receive c) (\<lambda>(event, blocking, message).
     if \<not> blocking then ret (Inr message) else bnd (wait_for c event) (\<lambda>_. ret (Inl ())))) ()"

definition aw_uchan_receive :: "('m, 'w) chan_calls \<Rightarrow> ('m option, 'w) io" where
  "aw_uchan_receive c = loop (\<lambda>_. bnd (native_receive c) (\<lambda>(event, blocking, message).
     if \<not> blocking then ret (Inr message) else bnd (wait_for c event) (\<lambda>_. ret (Inl ())))) ()"

definition aw_channel :: "('z \<Rightarrow> ('c, 'w) io) \<Rightarrow> ('c \<Rightarrow> ('s, 'w) io) \<Rightarrow> ('c \<Rightarrow> ('r, 'w) io) \<Rightarrow> 'z \<Rightarrow> ('s \<times> 'r, 'w) io" where
  "aw_channel new sender receiver size' = bnd (new size') (\<lambda>inner. bnd (sender inner) (\<lambda>tx. bnd (receiver inner) (\<lambda>rx. ret (tx, rx))))"

definition aw_unbounded_channel :: "('c, 'w) io \<Rightarrow> ('c \<Rightarrow> ('s, 'w) io) \<Rightarrow> ('c \<Rightarrow> ('r, 'w) io) \<Rightarrow> ('s \<times> 'r, 'w) io" where
  "aw_unbounded_channel new sender receiver = bnd new (\<lambda>inner. bnd (sender inner) (\<lambda>tx. bnd (receiver inner) (\<lambda>rx. ret (tx, rx))))"

lemma aw_channel_ends_same:
  "aw_chan_send = chan_send" "aw_chan_receive = chan_receive" "aw_uchan_receive = uchan_receive" "aw_channel = channel" "aw_unbounded_channel = unbounded_channel"
  by (intro ext, simp add: aw_chan_send_def chan_send_def aw_chan_receive_def chan_receive_def aw_uchan_receive_def uchan_receive_def
    aw_channel_def channel_def aw_unbounded_channel_def unbounded_channel_def)+

section \<open>What the loop returns\<close>

text \<open>
  A receive returns a message some pull took out, or raises what a pull or a wait raises, never an error of its own; and it ends when every wait brings the message nearer. The bound and the outcome are the channel's.
\<close>

theorem chan_receive_result:
  fixes need :: "'w \<Rightarrow> nat"
  assumes pull: "\<And>w. wp (nc_pull c) (\<lambda>r v. case r of
        (None, Some m) \<Rightarrow> Q m v
      | (Some e, None) \<Rightarrow> wp (nc_wait c e) (\<lambda>_ u. need u < need w) E v
      | _ \<Rightarrow> E BrokenPipeError v) E w"
  shows "wp (chan_receive c) (\<lambda>m v. \<exists>x. m = Some x \<and> Q x v) E w"
    and "wp (uchan_receive c) (\<lambda>m v. \<exists>x. m = Some x \<and> Q x v) E w"
proof -
  show receive: "wp (chan_receive c) (\<lambda>m v. \<exists>x. m = Some x \<and> Q x v) E w"
    unfolding chan_receive_def
  proof (rule wp_loop[where I = "\<lambda>_ w n. need w = n" and n = "need w"])
    fix s :: unit and w :: 'w and n :: nat
    assume "need w = n"
    then show "wp (bnd (native_receive c) (\<lambda>(event, blocking, message).
        if \<not> blocking then ret (Inr message) else bnd (wait_for c event) (\<lambda>_. ret (Inl ()))))
      (turn (\<lambda>s w. \<exists>m<n. need w = m) (\<lambda>m v. \<exists>x. m = Some x \<and> Q x v)) E w"
      unfolding native_receive_def wp_bnd
      by (intro wp_mono[OF pull]) (auto simp: wp wait_for_def elim!: wp_mono split: prod.splits option.splits)
  qed simp
  then show "wp (uchan_receive c) (\<lambda>m v. \<exists>x. m = Some x \<and> Q x v) E w"
    by (simp add: uchan_receive_def chan_receive_def)
qed

end
