(* ===== verification/Tls_Tasks.thy ===== *)
theory Tls_Tasks
  imports Lock_Sem "HOL-Library.Multiset" "HOL-Library.Sublist"
begin

text \<open>
  A TLS stream that several tasks use at a time, say one that sends and one that receives: \<open>_ssl_dance\<close> and \<open>_send\<close> of \<open>src/tonio/_net/_tls.py\<close> over \<open>_SSLProxy._step\<close>, run by any number of tasks, with the send lock
  of the theory \<open>Lock_Sem\<close>. A call of the SSL object under the thread lock of the proxy may leave a flight of bytes with the task, which then enters the send lock, puts the flight after what was held back of the handshake and hands
  both to the transport. What the SSL object makes and what it reads are left open. The theorem says what reaches the wire; two runs show what can go wrong.
\<close>

section \<open>The tasks\<close>

text \<open>
  A task: between two steps; with a flight, on its way into the lock; in \<open>transport.send_all\<close> with the bytes still to write; past it, about to leave the lock.
\<close>

datatype 'b job = J_idle | J_flight "'b list" | J_sending "'b list" | J_sent

text \<open>
  \<open>flights\<close>, \<open>taken\<close> and \<open>dropped\<close> record the flights the SSL object made, those a task took into the lock, and those of tasks that were cancelled on their way; \<open>overlapped\<close> is set when the SSL object is
  called while another task has a flight that is not taken.
\<close>

record 'b tls_tasks =
  send_lock :: "lock psys"
  job :: "nat \<Rightarrow> 'b job"
  stack :: "'b list"
  wire :: "'b list"
  broken :: bool
  flights :: "'b list list"
  taken :: "'b list list"
  dropped :: "'b list list"
  overlapped :: bool

definition tasks_init :: "'b list \<Rightarrow> 'b tls_tasks \<Rightarrow> bool" where
  "tasks_init held s \<longleftrightarrow> permit_init lock_new (send_lock s) \<and> (\<forall>i. job s i = J_idle) \<and> stack s = held \<and> wire s = [] \<and> \<not> broken s \<and> flights s = [] \<and> taken s = [] \<and> dropped s = [] \<and> \<not> overlapped s"

text \<open>
  A task that waits for the lock can be cancelled there (\<open>cancelled\<close>): the exception leaves \<open>_send\<close> before its \<open>try\<close>. The transport writes in pieces and may fail at any time, which sets the stream broken.
\<close>

inductive tasks_step :: "nat \<Rightarrow> 'b tls_tasks \<Rightarrow> 'b tls_tasks \<Rightarrow> bool" for n where
  steps: "i < n \<Longrightarrow> job s i = J_idle \<Longrightarrow> b \<noteq> [] \<Longrightarrow>
     tasks_step n s (s\<lparr>flights := flights s @ [b], job := (job s)(i := J_flight b), overlapped := overlapped s \<or> (\<exists>j<n. \<exists>c. job s j = J_flight c)\<rparr>)"
| enters: "i < n \<Longrightarrow> job s i = J_flight b \<Longrightarrow> pcs (send_lock s) i \<noteq> Holding \<Longrightarrow> lock_step (send_lock s) l \<Longrightarrow> pcs l = (pcs (send_lock s))(i := p) \<Longrightarrow> p \<noteq> Idle \<Longrightarrow>
     tasks_step n s (s\<lparr>send_lock := l\<rparr>)"
| cancelled: "i < n \<Longrightarrow> job s i = J_flight b \<Longrightarrow> pcs (send_lock s) i \<noteq> Holding \<Longrightarrow> lock_step (send_lock s) l \<Longrightarrow> pcs l = (pcs (send_lock s))(i := Idle) \<Longrightarrow>
     tasks_step n s (s\<lparr>send_lock := l, job := (job s)(i := J_idle), dropped := dropped s @ [b]\<rparr>)"
| takes: "i < n \<Longrightarrow> job s i = J_flight b \<Longrightarrow> pcs (send_lock s) i = Holding \<Longrightarrow>
     tasks_step n s (s\<lparr>stack := [], taken := taken s @ [b], job := (job s)(i := J_sending (stack s @ b))\<rparr>)"
| writes: "i < n \<Longrightarrow> job s i = J_sending (c @ d) \<Longrightarrow> tasks_step n s (s\<lparr>wire := wire s @ c, job := (job s)(i := J_sending d)\<rparr>)"
| written: "i < n \<Longrightarrow> job s i = J_sending [] \<Longrightarrow> tasks_step n s (s\<lparr>job := (job s)(i := J_sent)\<rparr>)"
| fails: "i < n \<Longrightarrow> job s i = J_sending d \<Longrightarrow> tasks_step n s (s\<lparr>broken := True, job := (job s)(i := J_sent)\<rparr>)"
| leaves: "i < n \<Longrightarrow> job s i = J_sent \<Longrightarrow> pcs (send_lock s) i = Holding \<Longrightarrow> lock_step (send_lock s) l \<Longrightarrow> pcs l = (pcs (send_lock s))(i := Idle) \<Longrightarrow>
     tasks_step n s (s\<lparr>send_lock := l, job := (job s)(i := J_idle)\<rparr>)"

definition tasks_reach :: "nat \<Rightarrow> 'b list \<Rightarrow> 'b tls_tasks \<Rightarrow> bool" where
  "tasks_reach n held = reach (tasks_init held) (tasks_step n)"

section \<open>The invariant\<close>

definition inside_lock :: "'b job \<Rightarrow> bool" where
  "inside_lock k \<longleftrightarrow> k = J_sent \<or> (\<exists>d. k = J_sending d)"

definition carried :: "'b job \<Rightarrow> 'b list multiset" where
  "carried k = (case k of J_flight b \<Rightarrow> {#b#} | _ \<Rightarrow> {#})"

text \<open>Who is in \<open>_send\<close> holds the lock; what was taken is on the wire, with the task that sends, or, before the first send, the stack is what was held back.\<close>

definition lock_ok :: "'b tls_tasks \<Rightarrow> bool" where
  "lock_ok s \<longleftrightarrow> lock_reach (send_lock s) \<and> (\<forall>i. inside_lock (job s i) \<longrightarrow> pcs (send_lock s) i = Holding)"

definition wire_ok :: "'b list \<Rightarrow> 'b tls_tasks \<Rightarrow> bool" where
  "wire_ok held s \<longleftrightarrow> (\<not> broken s \<longrightarrow> (\<forall>i d. job s i = J_sending d \<longrightarrow> held @ concat (taken s) = wire s @ d @ stack s) \<and>
     ((\<nexists>i d. job s i = J_sending d) \<longrightarrow> held @ concat (taken s) = wire s @ stack s))"

definition flights_ok :: "nat \<Rightarrow> 'b tls_tasks \<Rightarrow> bool" where
  "flights_ok n s \<longleftrightarrow> mset (flights s) = mset (taken s) + mset (dropped s) + (\<Sum>i<n. carried (job s i))"

definition order_ok :: "nat \<Rightarrow> 'b tls_tasks \<Rightarrow> bool" where
  "order_ok n s \<longleftrightarrow> (\<not> overlapped s \<longrightarrow> (\<forall>i<n. \<forall>j<n. \<forall>b c. job s i = J_flight b \<longrightarrow> job s j = J_flight c \<longrightarrow> i = j) \<and>
     (dropped s = [] \<longrightarrow> (\<forall>i<n. \<forall>b. job s i = J_flight b \<longrightarrow> flights s = taken s @ [b]) \<and> ((\<forall>i<n. \<forall>b. job s i \<noteq> J_flight b) \<longrightarrow> flights s = taken s)))"

lemma lock_one_holder:
  assumes "lock_reach l" "pcs l i = Holding" "pcs l j = Holding"
  shows "i = j"
proof -
  have r: "lk.reachable l" using assms(1) by (simp add: lock_reach_lk)
  have "card {i, j} \<le> card {k. pcs l k = Holding}" using assms(2,3) by (intro card_mono lk.holders_bounded(1)[OF r]) auto
  then show ?thesis using lk.holders_bounded(2)[OF r] by (cases "i = j") auto
qed

lemma one_inside: "lock_ok s \<Longrightarrow> inside_lock (job s i) \<Longrightarrow> pcs (send_lock s) j = Holding \<Longrightarrow> i = j"
  unfolding lock_ok_def using lock_one_holder by metis

lemma lock_ok_step: "tasks_step n s t \<Longrightarrow> lock_ok s \<Longrightarrow> lock_ok t"
proof (induction rule: tasks_step.induct)
  case (enters i s b l p)
  then show ?case by (auto simp: lock_ok_def inside_lock_def intro: lock_reach_next)
qed (auto simp: lock_ok_def inside_lock_def intro: lock_reach_next)

lemma sum_carried:
  fixes i :: nat
  assumes "i < n"
  shows "(\<Sum>j<n. carried (if j = i then k else f j)) + carried (f i) = (\<Sum>j<n. carried (f j)) + carried k"
proof -
  have "(\<Sum>j<n. carried (g j)) = carried (g i) + (\<Sum>j\<in>{..<n} - {i}. carried (g j))" for g :: "nat \<Rightarrow> 'a job"
    using assms by (intro sum.remove) auto
  from this[of "\<lambda>j. if j = i then k else f j"] this[of f] show ?thesis by simp
qed

lemma flights_ok_step: "tasks_step n s t \<Longrightarrow> flights_ok n s \<Longrightarrow> flights_ok n t"
proof (induction rule: tasks_step.induct)
  case (steps i s b)
  then show ?case using sum_carried[of i n "J_flight b" "job s"] by (simp add: flights_ok_def carried_def fun_upd_def)
next
  case (cancelled i s b l)
  then show ?case using sum_carried[of i n J_idle "job s"] by (simp add: flights_ok_def carried_def fun_upd_def)
next
  case (takes i s b)
  then show ?case using sum_carried[of i n "J_sending (stack s @ b)" "job s"] by (simp add: flights_ok_def carried_def fun_upd_def)
next
  case (writes i s c d)
  then show ?case using sum_carried[of i n "J_sending d" "job s"] by (simp add: flights_ok_def carried_def fun_upd_def)
next
  case (written i s)
  then show ?case using sum_carried[of i n J_sent "job s"] by (simp add: flights_ok_def carried_def fun_upd_def)
next
  case (fails i s d)
  then show ?case using sum_carried[of i n J_sent "job s"] by (simp add: flights_ok_def carried_def fun_upd_def)
next
  case (leaves i s l)
  then show ?case using sum_carried[of i n J_idle "job s"] by (simp add: flights_ok_def carried_def fun_upd_def)
qed (simp add: flights_ok_def)

text \<open>A task that neither had a flight nor gets one, and one that neither sent nor sends.\<close>

lemma flight_upd: "\<forall>b. f i \<noteq> J_flight b \<Longrightarrow> \<forall>b. k \<noteq> J_flight b \<Longrightarrow> (f(i := k)) j = J_flight b \<longleftrightarrow> f j = J_flight b"
  by auto

lemma sending_upd: "\<forall>d. f i \<noteq> J_sending d \<Longrightarrow> \<forall>d. k \<noteq> J_sending d \<Longrightarrow> (f(i := k)) j = J_sending d \<longleftrightarrow> f j = J_sending d"
  by auto

lemma wire_ok_same:
  assumes "wire_ok held s" "job t = (job s)(i := k)" "\<forall>d. job s i \<noteq> J_sending d" "\<forall>d. k \<noteq> J_sending d" "broken t = broken s" "taken t = taken s" "wire t = wire s" "stack t = stack s"
  shows "wire_ok held t"
proof -
  have "job t j = J_sending d \<longleftrightarrow> job s j = J_sending d" for j d using sending_upd[of "job s" i k j d] assms(2-4) by simp
  then show ?thesis using assms(1,5-8) by (simp add: wire_ok_def)
qed

text \<open>A step of the only task that sends.\<close>

lemma wire_ok_sender:
  assumes "lock_ok s" "wire_ok held s" "job s i = J_sending (c @ d)" "job t = (job s)(i := k)" "k = J_sending d \<or> d = [] \<and> (\<forall>d. k \<noteq> J_sending d)"
    "broken t = broken s" "taken t = taken s" "wire t = wire s @ c" "stack t = stack s"
  shows "wire_ok held t"
proof -
  have h: "pcs (send_lock s) i = Holding" using assms(1,3) by (simp add: lock_ok_def inside_lock_def)
  have one: "job s j \<noteq> J_sending e" if "j \<noteq> i" for j e using one_inside[OF assms(1) _ h, of j] that by (auto simp: inside_lock_def)
  have w: "\<not> broken s \<Longrightarrow> held @ concat (taken s) = wire s @ (c @ d) @ stack s" using assms(2,3) unfolding wire_ok_def by blast
  show ?thesis unfolding wire_ok_def
  proof (intro impI conjI allI)
    fix j e
    assume b: "\<not> broken t" and j: "job t j = J_sending e"
    then have "j = i" using one assms(4) by (cases "j = i") auto
    then show "held @ concat (taken t) = wire t @ e @ stack t" using j w b assms(4-9) by auto
  next
    assume b: "\<not> broken t" and none: "\<nexists>j e. job t j = J_sending e"
    then have "d = []" using assms(4,5) by (metis fun_upd_same)
    then show "held @ concat (taken t) = wire t @ stack t" using w b assms(6-9) by simp
  qed
qed

lemma wire_ok_step: "tasks_step n s t \<Longrightarrow> lock_ok s \<Longrightarrow> wire_ok held s \<Longrightarrow> wire_ok held t"
proof (induction rule: tasks_step.induct)
  case (steps i s b)
  show ?case by (rule wire_ok_same[OF steps(5), of _ i "J_flight b"]) (simp_all add: steps(2))
next
  case (enters i s b l p)
  show ?case using enters(8) unfolding wire_ok_def by simp
next
  case (cancelled i s b l)
  show ?case by (rule wire_ok_same[OF cancelled(7), of _ i J_idle]) (simp_all add: cancelled(2))
next
  case (takes i s b)
  have "job s j \<noteq> J_sending d" for j d using one_inside[OF takes(4) _ takes(3), of j] takes(2) by (auto simp: inside_lock_def)
  then show ?case using takes(5) by (auto simp: wire_ok_def)
next
  case (writes i s c d)
  show ?case by (rule wire_ok_sender[OF writes(3,4,2), where k = "J_sending d"]) simp_all
next
  case (written i s)
  show ?case by (rule wire_ok_sender[OF written(3,4), of i "[]" "[]" _ J_sent]) (simp_all add: written(2))
next
  case (fails i s d)
  show ?case unfolding wire_ok_def by simp
next
  case (leaves i s l)
  show ?case by (rule wire_ok_same[OF leaves(7), of _ i J_idle]) (simp_all add: leaves(2))
qed

lemma order_ok_same:
  assumes "order_ok n s" "job t = (job s)(i := k)" "\<forall>b. job s i \<noteq> J_flight b" "\<forall>b. k \<noteq> J_flight b" "overlapped t = overlapped s" "dropped t = dropped s" "flights t = flights s" "taken t = taken s"
  shows "order_ok n t"
proof -
  have "job t j = J_flight b \<longleftrightarrow> job s j = J_flight b" for j b using flight_upd[of "job s" i k j b] assms(2-4) by simp
  then show ?thesis using assms(1,5-8) by (simp add: order_ok_def)
qed

lemma order_ok_none:
  assumes "\<not> overlapped t \<Longrightarrow> \<forall>j<n. \<forall>c. job t j \<noteq> J_flight c" "\<not> overlapped t \<Longrightarrow> dropped t = [] \<Longrightarrow> flights t = taken t"
  shows "order_ok n t"
  using assms unfolding order_ok_def by blast

lemma order_ok_one:
  assumes "\<not> overlapped t \<Longrightarrow> \<forall>j<n. \<forall>c. job t j = J_flight c \<longrightarrow> j = i \<and> c = b" "i < n" "job t i = J_flight b" "\<not> overlapped t \<Longrightarrow> dropped t = [] \<Longrightarrow> flights t = taken t @ [b]"
  shows "order_ok n t"
  using assms unfolding order_ok_def by metis

lemma order_ok_others: "order_ok n s \<Longrightarrow> \<not> overlapped s \<Longrightarrow> i < n \<Longrightarrow> job s i = J_flight b \<Longrightarrow> \<forall>j<n. \<forall>c. job s j = J_flight c \<longrightarrow> j = i"
  unfolding order_ok_def by blast

lemma order_ok_step: "tasks_step n s t \<Longrightarrow> order_ok n s \<Longrightarrow> order_ok n t"
proof (induction rule: tasks_step.induct)
  case (steps i s b)
  have "flights s = taken s" if "\<not> overlapped s" "\<forall>j<n. \<forall>c. job s j \<noteq> J_flight c" "dropped s = []" using steps(4) that unfolding order_ok_def by blast
  then show ?case by (intro order_ok_one[of _ n i b]) (auto simp: steps(1))
next
  case (enters i s b l p)
  show ?case using enters(7) unfolding order_ok_def by simp
next
  case (cancelled i s b l)
  show ?case by (rule order_ok_none) (use order_ok_others[OF cancelled(6) _ cancelled(1,2)] in auto)
next
  case (takes i s b)
  have "flights s = taken s @ [b]" if "\<not> overlapped s" "dropped s = []" using takes(1,2,4) that unfolding order_ok_def by blast
  then show ?case by (intro order_ok_none) (use order_ok_others[OF takes(4) _ takes(1,2)] in auto)
next
  case (writes i s c d)
  show ?case by (rule order_ok_same[OF writes(3), of _ i "J_sending d"]) (simp_all add: writes(2))
next
  case (written i s)
  show ?case by (rule order_ok_same[OF written(3), of _ i J_sent]) (simp_all add: written(2))
next
  case (fails i s d)
  show ?case by (rule order_ok_same[OF fails(3), of _ i J_sent]) (simp_all add: fails(2))
next
  case (leaves i s l)
  show ?case by (rule order_ok_same[OF leaves(6), of _ i J_idle]) (simp_all add: leaves(2))
qed

interpretation tls: step_system "tasks_init held" "tasks_step n" "\<lambda>s. lock_ok s \<and> wire_ok held s \<and> flights_ok n s \<and> order_ok n s" for held n
proof
  show "lock_ok s \<and> wire_ok held s \<and> flights_ok n s \<and> order_ok n s" if "tasks_init held s" for s :: "'a tls_tasks"
    using that by (auto simp: tasks_init_def lock_ok_def wire_ok_def flights_ok_def order_ok_def inside_lock_def carried_def lock_reach_def intro: reach.start)
qed (auto intro: lock_ok_step wire_ok_step flights_ok_step order_ok_step)

text \<open>
  C39. A TLS stream used by any number of tasks, with \<open>held\<close> held back of the handshake. In every interleaving, also when tasks are cancelled and the transport fails: at most one task is in \<open>transport.send_all\<close>. Every flight the SSL
  object made is with one task, was taken into the lock once, or was dropped by a cancellation. As long as no send has failed, the wire is what was held back and the flights in the order of the lock, whole and
  one after the other, up to what is still being written. They are the flights in the order in which they were made, if nothing was dropped and the SSL object was never called while another task had a flight that was
  not taken. The last two conditions are needed: \<open>tls_records_reordered\<close> and \<open>tls_record_dropped\<close>.
\<close>

theorem tls_flights_once:
  assumes "tasks_reach n held s"
  shows "(\<forall>i j d e. job s i = J_sending d \<and> job s j = J_sending e \<longrightarrow> i = j) \<and>
    mset (flights s) = mset (taken s) + mset (dropped s) + (\<Sum>i<n. carried (job s i)) \<and>
    (\<not> broken s \<longrightarrow> prefix (wire s) (held @ concat (taken s)) \<and> ((\<nexists>i d. job s i = J_sending d) \<longrightarrow> wire s @ stack s = held @ concat (taken s))) \<and>
    (\<not> overlapped s \<and> dropped s = [] \<longrightarrow> prefix (taken s) (flights s))"
proof -
  have inv: "lock_ok s" "wire_ok held s" "flights_ok n s" "order_ok n s" using tls.reach_inv[of held n s] assms by (simp_all add: tasks_reach_def)
  have one: "i = j" if "job s i = J_sending d" "job s j = J_sending e" for i j d e
    using one_inside[OF inv(1), of i j] inv(1) that by (auto simp: lock_ok_def inside_lock_def)
  have "prefix (wire s) (held @ concat (taken s))" if "\<not> broken s"
  proof (cases "\<exists>i d. job s i = J_sending d")
    case True
    then obtain i d where "job s i = J_sending d" by blast
    then have "held @ concat (taken s) = wire s @ d @ stack s" using inv(2) that unfolding wire_ok_def by blast
    then show ?thesis by simp
  next
    case False
    then have "held @ concat (taken s) = wire s @ stack s" using inv(2) that unfolding wire_ok_def by blast
    then show ?thesis by simp
  qed
  moreover have "wire s @ stack s = held @ concat (taken s)" if "\<not> broken s" "\<nexists>i d. job s i = J_sending d" using inv(2) that unfolding wire_ok_def by metis
  moreover have "prefix (taken s) (flights s)" if "\<not> overlapped s" "dropped s = []"
    using inv(4) that unfolding order_ok_def by (cases "\<exists>i<n. \<exists>b. job s i = J_flight b") (force, auto)
  moreover have "mset (flights s) = mset (taken s) + mset (dropped s) + (\<Sum>i<n. carried (job s i))" using inv(3) by (simp add: flights_ok_def)
  ultimately show ?thesis using one by blast
qed

text \<open>Runs of two tasks, step by step.\<close>

definition tls_at :: "lock psys \<Rightarrow> (nat \<Rightarrow> nat job) \<Rightarrow> nat list \<Rightarrow> nat list \<Rightarrow> nat list list \<Rightarrow> nat list list \<Rightarrow> nat list list \<Rightarrow> bool \<Rightarrow> nat tls_tasks" where
  "tls_at l j st w fl tk dr ov = \<lparr>send_lock = l, job = j, stack = st, wire = w, broken = False, flights = fl, taken = tk, dropped = dr, overlapped = ov\<rparr>"

definition free_lock :: "lock psys" where
  "free_lock = lock_sys lock_new (\<lambda>_. False) 0 (\<lambda>_. Idle)"

definition locked_by :: "nat \<Rightarrow> lock psys" where
  "locked_by i = lock_sys \<lparr>state = True, waiters = []\<rparr> (\<lambda>_. False) 0 ((\<lambda>_. Idle)(i := Holding))"

lemma tasks_next: "tasks_reach n held s \<Longrightarrow> tasks_step n s t \<Longrightarrow> tasks_reach n held t"
  unfolding tasks_reach_def by (rule reach.next_state)

lemma run_start: "tasks_reach n held (tls_at free_lock (\<lambda>_. J_idle) held [] [] [] [] False)"
  unfolding tasks_reach_def by (rule reach.start) (simp add: tasks_init_def tls_at_def free_lock_def permit_init_def lock_sys_def)

lemma run_steps:
  "tasks_reach n held (tls_at l j st w fl tk dr ov) \<Longrightarrow> i < n \<Longrightarrow> j i = J_idle \<Longrightarrow> b \<noteq> [] \<Longrightarrow> ov' \<longleftrightarrow> ov \<or> (\<exists>k<n. \<exists>c. j k = J_flight c) \<Longrightarrow>
     tasks_reach n held (tls_at l (j(i := J_flight b)) st w (fl @ [b]) tk dr ov')"
  by (erule tasks_next) (use tasks_step.steps[of i n "tls_at l j st w fl tk dr ov" b] in \<open>simp add: tls_at_def\<close>)

lemma run_enters:
  "tasks_reach n held (tls_at free_lock j st w fl tk dr ov) \<Longrightarrow> i < n \<Longrightarrow> j i = J_flight b \<Longrightarrow> tasks_reach n held (tls_at (locked_by i) j st w fl tk dr ov)"
  by (erule tasks_next) (use tasks_step.enters[of i n "tls_at free_lock j st w fl tk dr ov" b "locked_by i" Holding] permit_step.fast_ok[where s = free_lock and i = i]
      in \<open>simp add: tls_at_def free_lock_def locked_by_def lock_step_def lock_sys_def lock_new_def lock_acquire_fast_def cas_def\<close>)

lemma run_takes:
  "tasks_reach n held (tls_at l j st w fl tk dr ov) \<Longrightarrow> i < n \<Longrightarrow> j i = J_flight b \<Longrightarrow> pcs l i = Holding \<Longrightarrow>
     tasks_reach n held (tls_at l (j(i := J_sending (st @ b))) [] w fl (tk @ [b]) dr ov)"
  by (erule tasks_next) (use tasks_step.takes[of i n "tls_at l j st w fl tk dr ov" b] in \<open>simp add: tls_at_def\<close>)

lemma run_writes:
  "tasks_reach n held (tls_at l j st w fl tk dr ov) \<Longrightarrow> i < n \<Longrightarrow> j i = J_sending c \<Longrightarrow> tasks_reach n held (tls_at l (j(i := J_sending [])) st (w @ c) fl tk dr ov)"
  by (erule tasks_next) (use tasks_step.writes[of i n "tls_at l j st w fl tk dr ov" c "[]"] in \<open>simp add: tls_at_def\<close>)

lemma run_waits:
  assumes "tasks_reach n held (tls_at l j st w fl tk dr ov)" "i < n" "j i = J_flight b" "pcs l i \<noteq> Holding" "lock_step l m" "pcs m = (pcs l)(i := p)" "p \<noteq> Idle"
  shows "tasks_reach n held (tls_at m j st w fl tk dr ov)"
  using tasks_next[OF assms(1) tasks_step.enters[of i n _ b m p]] assms(2-7) by (simp add: tls_at_def)

lemma run_cancelled:
  assumes "tasks_reach n held (tls_at l j st w fl tk dr ov)" "i < n" "j i = J_flight b" "pcs l i \<noteq> Holding" "lock_step l m" "pcs m = (pcs l)(i := Idle)"
  shows "tasks_reach n held (tls_at m (j(i := J_idle)) st w fl tk (dr @ [b]) ov)"
  using tasks_next[OF assms(1) tasks_step.cancelled[of i n _ b m]] assms(2-6) by (simp add: tls_at_def)

theorem tls_flights_once_witness:
  "\<exists>s. tasks_reach 2 [9] s \<and> flights s = [[1], [2]] \<and> wire s = [9, 1 :: nat] \<and> prefix (wire s) ([9] @ concat (taken s)) \<and> prefix (taken s) (flights s) \<and> (\<Sum>i<2. carried (job s i)) = {#[2]#}"
proof -
  have "tasks_reach 2 [9] (tls_at free_lock ((\<lambda>_. J_idle)(0 := J_flight [1])) [9] [] [[1]] [] [] False)" using run_steps[OF run_start[of 2 "[9]"], of 0 "[1]" False] by simp
  from run_enters[OF this, of 0 "[1]"] have "tasks_reach 2 [9] (tls_at (locked_by 0) ((\<lambda>_. J_idle)(0 := J_flight [1])) [9] [] [[1]] [] [] False)" by simp
  from run_takes[OF this, of 0 "[1]"] have "tasks_reach 2 [9] (tls_at (locked_by 0) ((\<lambda>_. J_idle)(0 := J_sending [9, 1])) [] [] [[1]] [[1]] [] False)" by (simp add: locked_by_def lock_sys_def)
  from run_writes[OF this, of 0 "[9, 1]"] have "tasks_reach 2 [9] (tls_at (locked_by 0) ((\<lambda>_. J_idle)(0 := J_sending [])) [] [9, 1] [[1]] [[1]] [] False)" by simp
  from run_steps[OF this, of 1 "[2]" False] have "tasks_reach 2 [9] (tls_at (locked_by 0) ((\<lambda>_. J_idle)(0 := J_sending [], 1 := J_flight [2])) [] [9, 1] [[1], [2]] [[1]] [] False)" by (auto intro: exI[of _ 0])
  then obtain s where s: "tasks_reach 2 [9] s" "s = tls_at (locked_by 0) ((\<lambda>_. J_idle)(0 := J_sending [], 1 := J_flight [2])) [] [9, 1] [[1], [2]] [[1]] [] False" by blast
  then have v: "flights s = [[1], [2]]" "wire s = [9, 1]" "taken s = [[1]]" "dropped s = []" "\<not> broken s" "\<not> overlapped s" by (simp_all add: tls_at_def)
  have "prefix (wire s) ([9] @ concat (taken s))" "prefix (taken s) (flights s)" "(\<Sum>i<2. carried (job s i)) = {#[2]#}" using tls_flights_once[OF s(1)] v by simp_all
  with s(1) v(1,2) show ?thesis by blast
qed

text \<open>
  Two tasks, no failure and no cancellation: the flight that the SSL object made second is on the wire and the first is not. The flight is taken from the SSL object under the lock of the proxy, which is released before the
  send lock is entered.
\<close>

theorem tls_records_reordered: "\<exists>s. tasks_reach 2 [] s \<and> \<not> broken s \<and> dropped s = [] \<and> flights s = [[1], [2]] \<and> wire s = [2 :: nat]"
proof -
  have "tasks_reach 2 [] (tls_at free_lock ((\<lambda>_. J_idle)(0 := J_flight [1])) [] [] [[1]] [] [] False)" using run_steps[OF run_start[of 2 "[]"], of 0 "[1]" False] by simp
  from run_steps[OF this, of 1 "[2]" True] have "tasks_reach 2 [] (tls_at free_lock ((\<lambda>_. J_idle)(0 := J_flight [1], 1 := J_flight [2])) [] [] [[1], [2]] [] [] True)" by (auto intro: exI[of _ 0])
  from run_enters[OF this, of 1 "[2]"] have "tasks_reach 2 [] (tls_at (locked_by 1) ((\<lambda>_. J_idle)(0 := J_flight [1], 1 := J_flight [2])) [] [] [[1], [2]] [] [] True)" by simp
  from run_takes[OF this, of 1 "[2]"] have "tasks_reach 2 [] (tls_at (locked_by 1) ((\<lambda>_. J_idle)(0 := J_flight [1], 1 := J_sending [2])) [] [] [[1], [2]] [[2]] [] True)" by (simp add: locked_by_def lock_sys_def)
  from run_writes[OF this, of 1 "[2]"] show ?thesis by (intro exI conjI) (assumption | simp add: tls_at_def)+
qed

text \<open>
  A task that is cancelled while it waits for the send lock: its flight is lost, the stream is not set broken, and the next flight follows on the wire as if it had been sent.
\<close>

theorem tls_record_dropped: "\<exists>s. tasks_reach 2 [] s \<and> \<not> broken s \<and> \<not> overlapped s \<and> flights s = [[1], [2 :: nat]] \<and> taken s = [[1]] \<and> dropped s = [[2]] \<and> (\<forall>b. job s 1 \<noteq> J_flight b)"
proof -
  let ?j = "(\<lambda>_. J_idle)(0 := J_sending [1], 1 := J_flight [2]) :: nat \<Rightarrow> nat job"
  let ?l = "\<lambda>w k p. lock_sys \<lparr>state = True, waiters = w\<rparr> (\<lambda>_. False) k ((\<lambda>_. Idle)(0 := Holding, 1 := p))"
  have "tasks_reach 2 [] (tls_at free_lock ((\<lambda>_. J_idle)(0 := J_flight [1])) [] [] [[1]] [] [] False)" using run_steps[OF run_start[of 2 "[]"], of 0 "[1]" False] by simp
  from run_enters[OF this, of 0 "[1]"] have "tasks_reach 2 [] (tls_at (locked_by 0) ((\<lambda>_. J_idle)(0 := J_flight [1])) [] [] [[1]] [] [] False)" by simp
  from run_takes[OF this, of 0 "[1]"] have "tasks_reach 2 [] (tls_at (locked_by 0) ((\<lambda>_. J_idle)(0 := J_sending [1])) [] [] [[1]] [[1]] [] False)" by (simp add: locked_by_def lock_sys_def)
  from run_steps[OF this, of 1 "[2]" False] have a: "tasks_reach 2 [] (tls_at (locked_by 0) ?j [] [] [[1], [2]] [[1]] [] False)" by auto
  have al: "lock_step (locked_by 0) (?l [] 0 Slow)" using permit_step.fast_fail[where s = "locked_by 0" and i = 1] by (simp add: lock_step_def locked_by_def lock_sys_def lock_acquire_fast_def cas_def)
  have b: "tasks_reach 2 [] (tls_at (?l [] 0 Slow) ?j [] [] [[1], [2]] [[1]] [] False)" by (rule run_waits[OF a _ _ _ al, where i = 1 and b = "[2]" and p = Slow]) (simp_all add: locked_by_def lock_sys_def)
  have bl: "lock_step (?l [] 0 Slow) (?l [0] 1 (Waiting 0))" using permit_step.slow_wait[where s = "?l [] 0 Slow" and i = 1] by (simp add: lock_step_def lock_sys_def lock_acquire_slow_def cas_def fun_upd_idem)
  have c: "tasks_reach 2 [] (tls_at (?l [0] 1 (Waiting 0)) ?j [] [] [[1], [2]] [[1]] [] False)" by (rule run_waits[OF b _ _ _ bl, where i = 1 and b = "[2]" and p = "Waiting 0"]) (simp_all add: lock_sys_def)
  have cl: "lock_step (?l [0] 1 (Waiting 0)) (?l [0] 1 (Cancelling 0))" using permit_step.cancel[where s = "?l [0] 1 (Waiting 0)" and i = 1 and e = 0] by (simp add: lock_step_def lock_sys_def)
  have d: "tasks_reach 2 [] (tls_at (?l [0] 1 (Cancelling 0)) ?j [] [] [[1], [2]] [[1]] [] False)" by (rule run_waits[OF c _ _ _ cl, where i = 1 and b = "[2]" and p = "Cancelling 0"]) (simp_all add: lock_sys_def)
  let ?m = "lock_sys \<lparr>state = True, waiters = [0]\<rparr> ((\<lambda>_. False)(0 := True)) 1 ((\<lambda>_. Idle)(0 := Holding, 1 := Idle))"
  have "lock_step (?l [0] 1 (Cancelling 0)) ?m" using permit_step.withdraw[where s = "?l [0] 1 (Cancelling 0)" and i = 1 and e = 0 and f = "(\<lambda>_. False)(0 := True)"] by (simp add: lock_step_def lock_sys_def flag_set_def cas_def)
  then have "tasks_reach 2 [] (tls_at ?m (?j(1 := J_idle)) [] [] [[1], [2]] [[1]] [[2]] False)" using run_cancelled[OF d, of 1 "[2]" ?m] by (simp add: lock_sys_def)
  then show ?thesis by (intro exI conjI) (assumption | simp add: tls_at_def)+
qed

end
