(* ===== verification/Spec2Isabelle.thy ===== *)
theory Spec2Isabelle
  imports Lock_Sem Barrier Stream_Props Socket_Props Tls_Props Hilvl_Props Happy_Eyeballs Spawn Blocking Run_Process Net_Await Fs_Path_Await Race
    Run_Main Intervals Channel Hilvl_Await Eyeballs_Await Subprocess_Await Race_Await Sync_Await Completed Events Signals Channel_Ends Blocking_Pool Test_Plugin Work Handles Poll_Loop Io_Registry Native_Fd Ssl_Proxy
    Channel_Await Tls_Tasks
begin

text \<open>
  A verification development of \<open>tonio\<close>, a multi-threaded asynchronous runtime for Python.

  \<^bold>\<open>The program.\<close> A native core in Rust (\<open>src/src/\<close>) holds the event loop, the worker threads, the readiness cache of descriptors, events,
  locks, semaphores, barriers, channels, scopes and the pool of blocking threads. The Python package (\<open>src/tonio/\<close>) builds on it in two
  flavours with the same interface: coroutines that suspend with \<open>yield\<close>, and, in \<open>src/tonio/_colored/\<close>, coroutines
  that suspend with \<open>await\<close>. Coroutines run in parallel on several threads, so the synchronisation objects are concurrent data structures.

  \<^bold>\<open>Two ways of modelling.\<close> Code whose correctness is about interleaving is a step relation on a record of the shared state with one step for
  each access to a shared cell or section under a lock, for any number of tasks; any task may take the next step, which covers all
  schedules of the worker threads. Its invariants are interpretations of the locale \<open>step_system\<close> (theory \<open>Prelude\<close>). Sequential code is a function of
  the world in the monad of \<open>Py_IO\<close>, where \<^const>\<open>None\<close> is a call that does not return and the theorems are total correctness (\<open>wp\<close>). Python's
  exceptions are the datatype of \<open>Py_Errors\<close>. Standard library and kernel are records of functions the definitions take as an argument, with what the
  code relies on stated as hypotheses that a witness instantiates.

  \<^bold>\<open>The theories\<close>, with the sources they model and what they show:

  \<^item> \<open>Permit\<close>, \<open>Lock_Sem\<close>: \<open>Lock\<close> and \<open>Semaphore\<close> (\<open>src/src/sync.rs\<close>, \<open>_sync.py\<close>) as providers of permits: mutual exclusion, conservation of
    permits when waiters are cancelled, hand-over first come first served. \<open>Barrier\<close>: \<open>Barrier\<close>, opening together; the count is a \<open>usize\<close>, for
    parties a process can hold, below \<open>2 ^ 64\<close>.
  \<^item> \<open>Channel\<close>, \<open>Unbounded\<close>, \<open>Channel_Ends\<close>: \<open>Channel\<close> and \<open>UnboundedChannel\<close> with their ends: refinements of one abstract FIFO queue, the bound on messages of senders that do not
    wait, who is woken by whom, what was sent is what comes out, and an abandoned channel is closed (for fewer than \<open>2 ^ 64\<close> ends, the width of its counters).
  \<^item> \<open>Events\<close>: \<open>Event\<close>, \<open>Waiter\<close>, the suspensions and \<open>Sentinel\<close> (\<open>src/src/events.rs\<close>): a coroutine that waits for several events, with a timeout or under a checkpoint
    that is aborted, is scheduled once and no wake-up is lost, as long as nobody clears an event; what goes wrong when somebody does.
  \<^item> \<open>Sched_IO\<close>, \<open>Desc_IO\<close>, \<open>Retry\<close>: the readiness cache (\<open>src/src/io/schedule.rs\<close>) with its tick of eight bits, the interface of a registered
    descriptor, and the retry loop all socket methods share, run against a kernel and a poller. The theorems assume that fewer than
    128 things happen to the descriptor between two consecutive accesses of the coroutine: two such gaps then stay below the 256 values of the tick.
  \<^item> \<open>Socket\<close>, \<open>Streams\<close>, \<open>Tls\<close> with \<open>Socket_Props\<close>, \<open>Stream_Props\<close>, \<open>Tls_Props\<close>: \<open>_net/_socket.py\<close>, \<open>_net/_streams.py\<close>, \<open>_fd.py\<close>,
    \<open>_net/_tls.py\<close>: every byte arrives once and in order, nothing is lost when a call raises, addresses are resolved as documented, a TLS stream
    puts everything the SSL object makes on the wire, when one task uses it at a time. \<open>Tls_Tasks\<close>: what several tasks that use a TLS stream at a time put on the wire, over the send lock, with runs in which records
    are reordered or lost. \<open>Ssl_Proxy\<close>: \<open>_SSLProxy\<close> with its two buffers keeps the contract TLS streams ask for, over any SSL object that reports what it made, and a stream over it is
    correct end to end. \<open>Native_Fd\<close>: \<open>src/src/fd.rs\<close> and \<open>src/src/proc.rs\<close>: a constructor that fails leaves no descriptor open, closing closes once and after the event loop forgot the descriptor.
  \<^item> \<open>Hilvl\<close>, \<open>Hilvl_Props\<close>, \<open>Happy_Eyeballs\<close>: \<open>_net/_hilvl.py\<close>: listeners do not leak, how serving loops end, and the race of connection attempts in
    \<open>open_tcp_stream\<close>, also with attempts that end with other exceptions than \<open>OSError\<close>.
  \<^item> \<open>Net_Await\<close>, \<open>Hilvl_Await\<close>, \<open>Eyeballs_Await\<close>, \<open>Subprocess_Await\<close>, \<open>Sync_Await\<close>, \<open>Channel_Await\<close>, \<open>Race_Await\<close>: \<open>src/tonio/_colored/\<close>, transcribed from there and proved equal to the
    \<open>yield\<close> flavour where the code has the same steps (the lemmas \<open>..._same\<close> of these theories), so that the theorems above hold for both. In these models \<open>yield\<close> and \<open>await\<close> are one sequencing; how a coroutine of each flavour
    is resumed and aborted is in \<open>Events\<close> and \<open>Handles\<close>, with what an abort leaves undone in the one and not in the other. Scopes of the two flavours differ too: leaving the
    block joins in the one and \<open>yield scope()\<close> does in the other. So \<open>select\<close> has a theorem of its own and \<open>open_tcp_stream\<close> a simulation.
  \<^item> \<open>Spawn\<close>, \<open>Blocking\<close>, \<open>Scope\<close>, \<open>Race\<close>: \<open>_ctl.py\<close>, \<open>_scope.py\<close>, \<open>timeout\<close> of \<open>_time.py\<close> with \<open>src/src/scope.rs\<close> and \<open>src/src/blocking.rs\<close>: joining children,
    calls in the pool of threads and their cancellation (\<open>Blocking_Pool\<close>: the pool runs no task twice and comes to rest, when no task is left and a run in which one is), structured concurrency, \<open>select\<close>, \<open>timeout\<close> and \<open>block_on\<close>. \<open>Completed\<close>: \<open>as_completed\<close> gives every value once, in the order
    of completion.
  \<^item> \<open>Subprocess\<close>, \<open>Run_Process\<close>: \<open>_subprocess.py\<close>: which descriptors are open after every way \<open>open_process\<close> ends, \<open>run_process\<close> reports everything the child wrote.
  \<^item> \<open>Fs_File\<close>, \<open>Fs_Path\<close>, \<open>Fs_Path_Await\<close>: \<open>_fs/_file.py\<close>, \<open>_fs/_path.py\<close> and their \<open>await\<close> flavours: a file wrapper does what a file of the \<open>io\<close> module does with its blocking methods in the pool, paths stay paths of
    the library, the flavours agree, \<open>async for\<close> reads every line and ends.
  \<^item> \<open>Signals\<close>: \<open>SignalReceiver\<close> of both flavours with its way through \<open>src/src/runtime.rs\<close>: a signal that arrived is reported, at most twice.
  \<^item> \<open>Runtime\<close>, \<open>Run_Main\<close>, \<open>Intervals\<close>: \<open>_runtime.py\<close>, \<open>_signals.py\<close>, \<open>_deco.py\<close>, \<open>_time.py\<close>, \<open>_events.py\<close>: what a run on the main thread leaves of the process' signal
    state, what \<open>run_until_complete\<close> returns, also when \<open>run_forever\<close> raises, when the ticks of an interval are due.
  \<^item> \<open>Work\<close>: the worker threads (\<open>src/src/work.rs\<close>): counters and idle flags agree, and no handle is left behind by workers that park, as long as no worker raises its flag while another
    thread goes through the flags; a run in which one is left behind without that condition; and all workers wake to end when the runtime stops.
  \<^item> \<open>Handles\<close>: how coroutines run (\<open>src/src/handles.rs\<close>): yielding a coroutine is calling it, for any depth of calls and any generators, and each suspension is resumed once; where it differs from a call.
  \<^item> \<open>Poll_Loop\<close>, \<open>Io_Registry\<close>: the event loop (\<open>src/src/runtime.rs\<close>, \<open>src/src/time.rs\<close>): timers fire once, not early, and the poller does not sleep past them; no token of the kernel outlives the entry it points to.
  \<^item> \<open>Test_Plugin\<close>: \<open>_testutils/_pytest_plugin.py\<close>: fixtures and tests that are coroutines get the arguments they declare and run on one runner, and what a test raises is reported.

  \<^bold>\<open>How they interact.\<close> \<open>select\<close> runs on the scope of \<open>Scope\<close>; \<open>spawn\<close> on the barrier; TLS streams and the listeners on the streams, which run on the sockets, which run on the retry
  loop over the readiness cache; files and paths on the pool of blocking threads, whose outcome (done, aborted, interrupted) \<open>Py_IO\<close> abstracts from
  \<open>Blocking\<close>.

  \<^bold>\<open>Not modelled\<close>, and why: the internals of \<open>mio\<close>, \<open>crossbeam\<close> and the heap of the standard library; the teardown of the runtime; garbage collection; floating-point rounding of time (the
  products are arguments); \<open>__repr__\<close> of sockets, type declarations, re-exports, benchmarks and tests.

  \<^bold>\<open>Plan.\<close> The composition of the waiter of \<open>Events\<close> with the synchronisation objects, which take its contract for granted; the receive lock of a TLS stream in \<open>Tls_Tasks\<close>.
\<close>

end
